(* ===== verification/Prelude.thy ===== *)
theory Prelude
  imports Complex_Main "HOL-Library.AList" "HOL-Library.Word"
begin

text \<open>
  Shared vocabulary of the development: the Python exceptions the modelled code raises,
  Python dictionaries as insertion-ordered association lists, decimal rendering of
  integers (\<open>%d\<close>), and two interface locales that several components share: a machine
  whose every step keeps an invariant, and a machine with a level that no step lowers.
\<close>

section \<open>Types and errors\<close>

type_synonym byte = "8 word"

type_synonym time = rat

text \<open>A dictionary keeps its keys in insertion order; storing to a present key keeps its
  place, deleting a key and storing it again moves it to the end. \<open>AList.update\<close> and
  \<open>AList.delete\<close> do exactly that.\<close>

type_synonym ('k, 'v) pydict = "('k \<times> 'v) list"

abbreviation dict_get :: "('k, 'v) pydict \<Rightarrow> 'k \<Rightarrow> 'v option" where
  "dict_get d k \<equiv> map_of d k"

abbreviation dict_set :: "'k \<Rightarrow> 'v \<Rightarrow> ('k, 'v) pydict \<Rightarrow> ('k, 'v) pydict" where
  "dict_set k v d \<equiv> AList.update k v d"

abbreviation dict_pop :: "'k \<Rightarrow> ('k, 'v) pydict \<Rightarrow> ('k, 'v) pydict" where
  "dict_pop k d \<equiv> AList.delete k d"

abbreviation dict_keys :: "('k, 'v) pydict \<Rightarrow> 'k set" where
  "dict_keys d \<equiv> fst ` set d"

datatype py_error =
    ValueError string
  | RuntimeError string
  | IndexError
  | KeyError
  | TypeError
  | OverflowError
  | StructError
  | UnicodeError
  | BufferError string

type_synonym 'a result = "py_error + 'a"

definition bind_res :: "'a result \<Rightarrow> ('a \<Rightarrow> 'b result) \<Rightarrow> 'b result" where
  "bind_res r f = (case r of Inl e \<Rightarrow> Inl e | Inr x \<Rightarrow> f x)"

lemma bind_res_simps [simp]:
  "bind_res (Inl e) f = Inl e"
  "bind_res (Inr x) f = f x"
  by (simp_all add: bind_res_def)

lemma bind_res_Inr_iff: "bind_res r f = Inr y \<longleftrightarrow> (\<exists>x. r = Inr x \<and> f x = Inr y)"
  by (cases r) simp_all

definition get_default :: "'a option \<Rightarrow> 'a \<Rightarrow> 'a" where
  "get_default m d = (case m of None \<Rightarrow> d | Some x \<Rightarrow> x)"

lemma get_default_simps [simp]:
  "get_default None d = d"
  "get_default (Some x) d = x"
  by (simp_all add: get_default_def)

section \<open>Dictionaries\<close>

lemma dict_get_set: "dict_get (dict_set k v d) k' = (if k' = k then Some v else dict_get d k')"
  by (simp add: update_conv')

lemma dict_get_pop: "dict_get (dict_pop k d) k' = (if k' = k then None else dict_get d k')"
  by (simp add: delete_conv')

lemma dict_keys_set [simp]: "dict_keys (dict_set k v d) = insert k (dict_keys d)"
  by (simp add: dom_update)

lemma dict_keys_pop [simp]: "dict_keys (dict_pop k d) = dict_keys d - {k}"
  by (induction d) auto

lemma dict_get_None_iff: "dict_get d k = None \<longleftrightarrow> k \<notin> dict_keys d"
  by (rule map_of_eq_None_iff)

lemma distinct_set [simp]: "distinct (map fst d) \<Longrightarrow> distinct (map fst (dict_set k v d))"
  by (rule distinct_update)

lemma distinct_pop [simp]: "distinct (map fst d) \<Longrightarrow> distinct (map fst (dict_pop k d))"
  by (rule distinct_delete)

lemma set_dict_set: "set (dict_set k v d) \<subseteq> insert (k, v) (set d)"
  by (induction d) auto

lemma set_dict_pop: "set (dict_pop k d) \<subseteq> set d"
  by (induction d) auto

lemma length_filter_dict_pop: "length (filter P (dict_pop k d)) \<le> length (filter P d)"
  by (induction d) auto

lemma length_filter_dict_set:
  "\<not> P (k, v) \<Longrightarrow> length (filter P (dict_set k v d)) \<le> length (filter P d)"
  by (induction d) auto

lemma length_filter_dict_pop_less:
  "(k, v) \<in> set d \<Longrightarrow> P (k, v) \<Longrightarrow> length (filter P (dict_pop k d)) < length (filter P d)"
proof (induction d)
  case Nil
  then show ?case by simp
next
  case (Cons x xs)
  show ?case
  proof (cases "fst x = k \<and> P x")
    case True
    then show ?thesis
      by (cases x) (auto simp: length_filter_dict_pop less_Suc_eq_le)
  next
    case False
    then show ?thesis using Cons by (cases x) auto
  qed
qed

definition dict_incr :: "'k \<Rightarrow> ('k, nat) pydict \<Rightarrow> ('k, nat) pydict" where
  \<comment> \<open>\<open>d[k] = d.get(k, 0) + 1\<close>\<close>
  "dict_incr k d = dict_set k (get_default (dict_get d k) 0 + 1) d"

definition dict_count :: "('k, nat) pydict \<Rightarrow> 'k \<Rightarrow> nat" where
  "dict_count d k = get_default (dict_get d k) 0"

lemma dict_count_incr: "dict_count (dict_incr k d) k' = dict_count d k' + (if k' = k then 1 else 0)"
  by (simp add: dict_count_def dict_incr_def dict_get_set)

lemma dict_count_Nil [simp]: "dict_count [] k = 0"
  by (simp add: dict_count_def)

section \<open>Decimal rendering\<close>

fun nat_str :: "nat \<Rightarrow> string" where
  "nat_str n = (if n < 10 then [char_of (48 + n)] else nat_str (n div 10) @ [char_of (48 + n mod 10)])"

declare nat_str.simps [simp del]

definition int_str :: "int \<Rightarrow> string" where
  "int_str i = (if i < 0 then ''-'' @ nat_str (nat (- i)) else nat_str (nat i))"

lemma nat_str_not_Nil [simp]: "nat_str n \<noteq> []"
  by (subst nat_str.simps) simp

definition digits_val :: "string \<Rightarrow> nat" where
  "digits_val s = foldl (\<lambda>n c. 10 * n + (of_char c - 48)) 0 s"

lemma digits_val_nat_str [simp]: "digits_val (nat_str n) = n"
proof (induction n rule: nat_str.induct)
  case (1 n)
  show ?case
  proof (cases "n < 10")
    case True
    then show ?thesis
      by (subst nat_str.simps) (simp add: digits_val_def)
  next
    case False
    with "1" have "digits_val (nat_str (n div 10)) = n div 10" by simp
    moreover have "of_char (char_of (48 + n mod 10) :: char) = 48 + n mod 10"
      by (simp add: mod_less_divisor take_bit_eq_mod)
    ultimately show ?thesis using False
      by (subst nat_str.simps) (simp add: digits_val_def)
  qed
qed

lemma nat_str_inject [simp]: "nat_str m = nat_str n \<longleftrightarrow> m = n"
  by (metis digits_val_nat_str)

section \<open>Machines that keep an invariant\<close>

text \<open>
  The contract between a stateful component and the code that drives it by events: every
  event keeps the component's invariant, hence every run does.
\<close>

locale invariant_machine =
  fixes step :: "'s \<Rightarrow> 'e \<Rightarrow> 's"
    and inv :: "'s \<Rightarrow> bool"
  assumes step_inv: "inv s \<Longrightarrow> inv (step s e)"
begin

lemma run_inv: "inv s \<Longrightarrow> inv (foldl step s es)"
  by (induction es arbitrary: s) (simp_all add: step_inv)

lemma run_prefix_inv: "inv s \<Longrightarrow> inv (foldl step s (take n es))"
  by (rule run_inv)

end

text \<open>A machine with a field that no step lowers, such as a counter or a generation.\<close>

locale monotone_machine =
  fixes step :: "'s \<Rightarrow> 'e \<Rightarrow> 's"
    and level :: "'s \<Rightarrow> 'v::order"
  assumes step_mono: "level s \<le> level (step s e)"
begin

lemma run_mono: "level s \<le> level (foldl step s es)"
proof (induction es arbitrary: s)
  case Nil
  show ?case by simp
next
  case (Cons e es)
  have "level s \<le> level (step s e)" by (rule step_mono)
  also have "\<dots> \<le> level (foldl step (step s e) es)" by (rule Cons.IH)
  finally show ?case by simp
qed

end

end
