(* ===== verification/BgpErrors.thy ===== *)
theory BgpErrors
  imports Prelude
begin

text \<open>
  The RFC 7606 error tables of \<open>plugins/bgp/errors.py\<close>: NOTIFICATION codes and their
  names, the outcome of a malformed path attribute, the fold over the faults of one
  UPDATE, and the per-session error counters. The lemmas show that the worst outcome is a
  least upper bound independent of the order of the faults, the proportionality rules of
  the matrix, and that the counters agree with the faults recorded.
\<close>

section \<open>NOTIFICATION codes and names\<close>

abbreviation (input) "NOTIFY_HEADER \<equiv> 1 :: int"
abbreviation (input) "NOTIFY_OPEN \<equiv> 2 :: int"
abbreviation (input) "NOTIFY_UPDATE \<equiv> 3 :: int"
abbreviation (input) "NOTIFY_HOLD_TIMER \<equiv> 4 :: int"
abbreviation (input) "NOTIFY_FSM \<equiv> 5 :: int"
abbreviation (input) "NOTIFY_CEASE \<equiv> 6 :: int"
abbreviation (input) "NOTIFY_ROUTE_REFRESH \<equiv> 7 :: int"

abbreviation (input) "HDR_CONN_NOT_SYNC \<equiv> 1 :: int"
abbreviation (input) "CEASE_ADMIN_SHUTDOWN \<equiv> 2 :: int"
abbreviation (input) "CEASE_OTHER_CONFIG_CHANGE \<equiv> 6 :: int"
abbreviation (input) "CEASE_COLLISION_RESOLUTION \<equiv> 7 :: int"

definition CODE_NAMES :: "(int, string) pydict" where
  "CODE_NAMES =
    [(NOTIFY_HEADER, ''Message Header Error''),
     (NOTIFY_OPEN, ''OPEN Message Error''),
     (NOTIFY_UPDATE, ''UPDATE Message Error''),
     (NOTIFY_HOLD_TIMER, ''Hold Timer Expired''),
     (NOTIFY_FSM, ''Finite State Machine Error''),
     (NOTIFY_CEASE, ''Cease''),
     (NOTIFY_ROUTE_REFRESH, ''ROUTE-REFRESH Message Error'')]"

definition SUBCODE_NAMES :: "(int, (int, string) pydict) pydict" where
  "SUBCODE_NAMES =
    [(NOTIFY_HEADER,
       [(1, ''Connection Not Synchronized''), (2, ''Bad Message Length''),
        (3, ''Bad Message Type'')]),
     (NOTIFY_OPEN,
       [(1, ''Unsupported Version Number''), (2, ''Bad Peer AS''),
        (3, ''Bad BGP Identifier''), (4, ''Unsupported Optional Parameter''),
        (5, ''Authentication Failure''), (6, ''Unacceptable Hold Time''),
        (7, ''Unsupported Capability''), (11, ''Role Mismatch'')]),
     (NOTIFY_UPDATE,
       [(1, ''Malformed Attribute List''), (2, ''Unrecognized Well-known Attribute''),
        (3, ''Missing Well-known Attribute''), (4, ''Attribute Flags Error''),
        (5, ''Attribute Length Error''), (6, ''Invalid ORIGIN Attribute''),
        (8, ''Invalid NEXT_HOP Attribute''), (9, ''Optional Attribute Error''),
        (10, ''Invalid Network Field''), (11, ''Malformed AS_PATH'')]),
     (NOTIFY_CEASE,
       [(1, ''Maximum Number of Prefixes Reached''), (2, ''Administrative Shutdown''),
        (3, ''Peer De-configured''), (4, ''Administrative Reset''),
        (5, ''Connection Rejected''), (6, ''Other Configuration Change''),
        (7, ''Connection Collision Resolution''), (8, ''Out of Resources'')]),
     (NOTIFY_ROUTE_REFRESH, [(1, ''Invalid Message Length'')])]"

definition notify_name :: "int \<Rightarrow> int option \<Rightarrow> string" where
  "notify_name code subcode =
    (let name = (case dict_get CODE_NAMES code of
                   None \<Rightarrow> ''Error Code '' @ int_str code | Some n \<Rightarrow> n)
     in case subcode of
          None \<Rightarrow> name
        | Some sc \<Rightarrow>
            (case dict_get (get_default (dict_get SUBCODE_NAMES code) []) sc of
               None \<Rightarrow> if sc = 0 then name
                       else name @ ''/'' @ (''Subcode '' @ int_str sc)
             | Some sub \<Rightarrow> name @ ''/'' @ sub))"

section \<open>Outcomes and the matrix\<close>

datatype outcome = OUTCOME_OK | OUTCOME_DISCARD | OUTCOME_WITHDRAW | OUTCOME_RESET

primrec SEVERITY :: "outcome \<Rightarrow> nat" where
  "SEVERITY OUTCOME_OK = 0"
| "SEVERITY OUTCOME_DISCARD = 1"
| "SEVERITY OUTCOME_WITHDRAW = 2"
| "SEVERITY OUTCOME_RESET = 3"

definition OUTCOMES :: "outcome list" where
  "OUTCOMES = [OUTCOME_OK, OUTCOME_DISCARD, OUTCOME_WITHDRAW, OUTCOME_RESET]"

text \<open>Outcomes are ordered by their severity, so the library's order lemmas apply.\<close>

instantiation outcome :: linorder
begin

definition less_eq_outcome :: "outcome \<Rightarrow> outcome \<Rightarrow> bool" where
  "a \<le> b \<longleftrightarrow> SEVERITY a \<le> SEVERITY b"

definition less_outcome :: "outcome \<Rightarrow> outcome \<Rightarrow> bool" where
  "a < b \<longleftrightarrow> SEVERITY a < SEVERITY b"

instance
proof
  fix a b :: outcome
  show "a \<le> b \<Longrightarrow> b \<le> a \<Longrightarrow> a = b"
    by (cases a; cases b) (simp_all add: less_eq_outcome_def)
qed (auto simp: less_eq_outcome_def less_outcome_def)

end

datatype reason =
    REASON_FLAGS | REASON_LENGTH | REASON_VALUE | REASON_DUPLICATE | REASON_MISSING
  | REASON_UNPARSEABLE | REASON_UNNEGOTIATED

abbreviation (input) "ATTR_LIST \<equiv> (- 1) :: int"

definition NLRI_ATTRS :: "int list" where
  "NLRI_ATTRS = [14, 15]"

definition IBGP_ONLY_ATTRS :: "int list" where
  "IBGP_ONLY_ATTRS = [9, 10]"

definition MANDATORY_EBGP :: "int list" where
  "MANDATORY_EBGP = [1, 2, 3]"

definition ATTRIBUTE_MATRIX :: "(int, outcome) pydict" where
  "ATTRIBUTE_MATRIX =
    [(ATTR_LIST, OUTCOME_RESET),
     (1, OUTCOME_WITHDRAW), (2, OUTCOME_WITHDRAW), (3, OUTCOME_WITHDRAW),
     (4, OUTCOME_WITHDRAW), (5, OUTCOME_WITHDRAW), (8, OUTCOME_WITHDRAW),
     (9, OUTCOME_WITHDRAW), (10, OUTCOME_WITHDRAW), (16, OUTCOME_WITHDRAW),
     (32, OUTCOME_WITHDRAW),
     (6, OUTCOME_DISCARD), (7, OUTCOME_DISCARD), (17, OUTCOME_DISCARD),
     (18, OUTCOME_DISCARD),
     (14, OUTCOME_RESET), (15, OUTCOME_RESET)]"

definition attribute_outcome :: "int \<Rightarrow> reason \<Rightarrow> bool \<Rightarrow> bool \<Rightarrow> bool \<Rightarrow> outcome" where
  "attribute_outcome attr_type reason from_ebgp optional transitive =
    (if attr_type = ATTR_LIST then OUTCOME_RESET
     else if reason = REASON_UNNEGOTIATED then OUTCOME_DISCARD
     else if from_ebgp \<and> attr_type \<in> set IBGP_ONLY_ATTRS then OUTCOME_DISCARD
     else if reason = REASON_DUPLICATE then
       (if attr_type \<in> set NLRI_ATTRS then OUTCOME_RESET else OUTCOME_WITHDRAW)
     else if reason = REASON_MISSING then
       (if attr_type \<in> set MANDATORY_EBGP then OUTCOME_WITHDRAW else OUTCOME_OK)
     else case dict_get ATTRIBUTE_MATRIX attr_type of
            Some outcome \<Rightarrow> outcome
          | None \<Rightarrow> if optional then OUTCOME_DISCARD else OUTCOME_RESET)"

fun worst_outcome_from :: "outcome \<Rightarrow> nat \<Rightarrow> outcome list \<Rightarrow> outcome" where
  "worst_outcome_from worst rank [] = worst"
| "worst_outcome_from worst rank (oc # ocs) =
     (let this = SEVERITY oc
      in if this > rank then worst_outcome_from oc this ocs
         else worst_outcome_from worst rank ocs)"

definition worst_outcome :: "outcome list \<Rightarrow> outcome" where
  "worst_outcome ocs = worst_outcome_from OUTCOME_OK 0 ocs"

definition mandatory_attributes :: "bool \<Rightarrow> int list" where
  "mandatory_attributes is_ebgp = (if is_ebgp then MANDATORY_EBGP else MANDATORY_EBGP)"

section \<open>Faults and counters\<close>

record update_error =
  attr_type :: int
  ue_reason :: reason
  ue_outcome :: outcome
  detail :: "string option"

record peer_error_counters =
  outcomes :: "(outcome, nat) pydict"
  attributes :: "(int \<times> reason, nat) pydict"
  notify_sent :: "(int \<times> int, nat) pydict"
  notify_received :: "(int \<times> int, nat) pydict"

definition new_counters :: peer_error_counters where
  "new_counters = \<lparr>outcomes = map (\<lambda>oc. (oc, 0)) OUTCOMES, attributes = [],
     notify_sent = [], notify_received = []\<rparr>"

definition record_fault :: "update_error \<Rightarrow> peer_error_counters \<Rightarrow> outcome \<times> peer_error_counters" where
  "record_fault e c =
    (ue_outcome e,
     c\<lparr>outcomes := dict_incr (ue_outcome e) (outcomes c),
       attributes := dict_incr (attr_type e, ue_reason e) (attributes c)\<rparr>)"

definition record_notification_sent ::
  "int \<Rightarrow> int \<Rightarrow> peer_error_counters \<Rightarrow> nat \<times> peer_error_counters" where
  "record_notification_sent code subcode c =
    (let d = dict_incr (code, subcode) (notify_sent c)
     in (dict_count d (code, subcode), c\<lparr>notify_sent := d\<rparr>))"

definition record_notification_received ::
  "int \<Rightarrow> int \<Rightarrow> peer_error_counters \<Rightarrow> nat \<times> peer_error_counters" where
  "record_notification_received code subcode c =
    (let d = dict_incr (code, subcode) (notify_received c)
     in (dict_count d (code, subcode), c\<lparr>notify_received := d\<rparr>))"

definition counters_total :: "peer_error_counters \<Rightarrow> nat" where
  "counters_total c = sum_list (map snd (outcomes c))"

definition counters_reset :: "peer_error_counters \<Rightarrow> peer_error_counters" where
  "counters_reset c = c\<lparr>outcomes := map (\<lambda>oc. (oc, 0)) OUTCOMES, attributes := [],
     notify_sent := [], notify_received := []\<rparr>"

text \<open>A decode loop records each fault and folds the outcomes it gets back.\<close>

definition record_all :: "update_error list \<Rightarrow> peer_error_counters \<Rightarrow> peer_error_counters" where
  "record_all es c = foldl (\<lambda>c e. snd (record_fault e c)) c es"

section \<open>The worst outcome\<close>

lemma worst_outcome_from_eq:
  "worst_outcome_from w (SEVERITY w) ocs = foldl max w ocs"
proof (induction ocs arbitrary: w)
  case Nil
  then show ?case by simp
next
  case (Cons oc ocs)
  have "max w oc = (if SEVERITY oc > SEVERITY w then oc else w)"
    by (cases w; cases oc) (simp_all add: max_def less_eq_outcome_def)
  then show ?case by (simp add: Let_def Cons.IH)
qed

lemma foldl_max_outcome: "foldl max (w :: outcome) ocs = Max (insert w (set ocs))"
proof -
  have "foldl max w ocs = fold max ocs w"
    by (induction ocs arbitrary: w) (simp_all add: max.commute)
  then show ?thesis by (simp add: Max.set_eq_fold [symmetric])
qed

lemma outcome_bot: "OUTCOME_OK \<le> oc"
  by (simp add: less_eq_outcome_def)

lemma worst_outcome_Max: "worst_outcome ocs = Max (insert OUTCOME_OK (set ocs))"
  using worst_outcome_from_eq [of OUTCOME_OK ocs]
  by (simp add: worst_outcome_def foldl_max_outcome)

lemma worst_outcome_append: "worst_outcome (xs @ ys) = max (worst_outcome xs) (worst_outcome ys)"
proof -
  have "insert OUTCOME_OK (set (xs @ ys)) = insert OUTCOME_OK (set xs) \<union> insert OUTCOME_OK (set ys)"
    by auto
  then show ?thesis unfolding worst_outcome_Max by (simp only: Max_Un [symmetric] finite_insert List.finite_set insert_not_empty not_False_eq_True)
qed

section \<open>Counter lemmas\<close>

lemma sum_list_dict_incr:
  "distinct (map fst d) \<Longrightarrow> sum_list (map snd (dict_incr k d)) = Suc (sum_list (map snd d))"
proof (induction d)
  case Nil
  then show ?case by (simp add: dict_incr_def)
next
  case (Cons x d)
  then show ?case by (cases x) (auto simp: dict_incr_def)
qed

lemma distinct_dict_incr: "distinct (map fst d) \<Longrightarrow> distinct (map fst (dict_incr k d))"
  by (simp add: dict_incr_def)

definition counters_wf :: "peer_error_counters \<Rightarrow> bool" where
  "counters_wf c \<longleftrightarrow> distinct (map fst (outcomes c)) \<and> distinct (map fst (attributes c))
     \<and> sum_list (map snd (outcomes c)) = sum_list (map snd (attributes c))"

lemma counters_wf_new: "counters_wf new_counters"
  by (simp add: counters_wf_def new_counters_def OUTCOMES_def)

lemma counters_wf_record: "counters_wf c \<Longrightarrow> counters_wf (snd (record_fault e c))"
  by (simp add: counters_wf_def record_fault_def sum_list_dict_incr distinct_dict_incr)

interpretation counters: invariant_machine "\<lambda>c e. snd (record_fault e c)" counters_wf
  by unfold_locales (rule counters_wf_record)

lemma counters_wf_record_all: "counters_wf c \<Longrightarrow> counters_wf (record_all es c)"
  unfolding record_all_def by (rule counters.run_inv)

lemma record_all_outcome_count:
  "dict_count (outcomes (record_all es c)) oc
     = dict_count (outcomes c) oc + length (filter (\<lambda>e. ue_outcome e = oc) es)"
  by (induction es arbitrary: c)
     (auto simp: record_all_def record_fault_def dict_count_incr)

lemma record_all_attribute_count:
  "dict_count (attributes (record_all es c)) (a, r)
     = dict_count (attributes c) (a, r)
       + length (filter (\<lambda>e. attr_type e = a \<and> ue_reason e = r) es)"
  by (induction es arbitrary: c)
     (auto simp: record_all_def record_fault_def dict_count_incr)

lemma record_all_total:
  "counters_wf c \<Longrightarrow> counters_total (record_all es c) = counters_total c + length es"
proof (induction es arbitrary: c)
  case Nil
  then show ?case by (simp add: record_all_def)
next
  case (Cons e es)
  from counters_wf_record [OF Cons.prems, of e]
  have "counters_total (record_all es (snd (record_fault e c)))
          = counters_total (snd (record_fault e c)) + length es"
    by (rule Cons.IH)
  moreover have "counters_total (snd (record_fault e c)) = Suc (counters_total c)"
    using Cons.prems
    by (simp add: counters_total_def record_fault_def counters_wf_def sum_list_dict_incr)
  ultimately show ?case by (simp add: record_all_def)
qed

section \<open>Properties\<close>

lemma worst_outcome_in: "worst_outcome ocs \<in> insert OUTCOME_OK (set ocs)"
  by (simp only: worst_outcome_Max) (rule Max_in, simp_all)

lemma worst_outcome_ge: "oc \<in> set ocs \<Longrightarrow> SEVERITY oc \<le> SEVERITY (worst_outcome ocs)"
  unfolding less_eq_outcome_def [symmetric] worst_outcome_Max by (rule Max_ge) simp_all

text \<open>C16. The action taken for an UPDATE, fault by fault: the session is reset exactly when some
  fault calls for it, the routes are withdrawn when some fault calls for that and none for a
  reset, an attribute is discarded when that is the most that any fault calls for, and nothing
  is done when no fault calls for anything, wherever in the message the faults stand.\<close>

theorem worst_outcome_by_severity:
  "(worst_outcome ocs = OUTCOME_RESET \<longleftrightarrow> OUTCOME_RESET \<in> set ocs)
    \<and> (worst_outcome ocs = OUTCOME_WITHDRAW \<longleftrightarrow> OUTCOME_WITHDRAW \<in> set ocs \<and> OUTCOME_RESET \<notin> set ocs)
    \<and> (worst_outcome ocs = OUTCOME_DISCARD \<longleftrightarrow>
        OUTCOME_DISCARD \<in> set ocs \<and> OUTCOME_WITHDRAW \<notin> set ocs \<and> OUTCOME_RESET \<notin> set ocs)
    \<and> (worst_outcome ocs = OUTCOME_OK \<longleftrightarrow> set ocs \<subseteq> {OUTCOME_OK})"
proof -
  have "oc \<in> set ocs \<Longrightarrow> SEVERITY oc \<le> SEVERITY (worst_outcome ocs)" for oc by (rule worst_outcome_ge)
  note ge = this [of OUTCOME_RESET] this [of OUTCOME_WITHDRAW] this [of OUTCOME_DISCARD]
  have "set ocs \<subseteq> {OUTCOME_OK} \<longleftrightarrow>
      OUTCOME_DISCARD \<notin> set ocs \<and> OUTCOME_WITHDRAW \<notin> set ocs \<and> OUTCOME_RESET \<notin> set ocs"
    using outcome.exhaust by blast
  then show ?thesis
    using worst_outcome_in [of ocs] ge by (cases "worst_outcome ocs") auto
qed

text \<open>The response is proportional to the damage: a fault resets the session exactly when
  it is in the framing of the attribute list, in an attribute that carries the NLRI (malformed
  or duplicated, for a negotiated family), or in an attribute that claims to be well-known and
  is not in the table; in particular an unnegotiated family never does, and an iBGP-only
  attribute from an external peer never costs more than the attribute.\<close>

theorem reset_only_when_nlri_lost:
  "attribute_outcome a r ebgp opt transitive = OUTCOME_RESET \<longleftrightarrow>
     a = ATTR_LIST
     \<or> r \<notin> {REASON_UNNEGOTIATED, REASON_MISSING} \<and> a \<in> {14, 15}
     \<or> r \<notin> {REASON_UNNEGOTIATED, REASON_MISSING, REASON_DUPLICATE} \<and> \<not> opt
       \<and> a \<notin> dict_keys ATTRIBUTE_MATRIX"
  by (auto simp: attribute_outcome_def ATTRIBUTE_MATRIX_def NLRI_ATTRS_def IBGP_ONLY_ATTRS_def
      MANDATORY_EBGP_def split: if_splits)

text \<open>The counters agree with the faults recorded: after a decode loop over any list of
  faults each outcome has been counted once per fault that selected it, each (attribute, reason)
  pair once per fault that carries it, and the total grew by the number of faults.\<close>

theorem counters_count_faults:
  assumes "counters_wf c"
  shows "dict_count (outcomes (record_all es c)) oc =
      dict_count (outcomes c) oc + length (filter (\<lambda>e. ue_outcome e = oc) es)
    \<and> dict_count (attributes (record_all es c)) (a, r) =
      dict_count (attributes c) (a, r) + length (filter (\<lambda>e. attr_type e = a \<and> ue_reason e = r) es)
    \<and> counters_total (record_all es c) = counters_total c + length es
    \<and> counters_reset (record_all es c) = new_counters"
  using assms
  by (simp add: record_all_outcome_count record_all_attribute_count record_all_total
      counters_reset_def new_counters_def)

theorem counters_count_faults_witness:
  "counters_total (record_all [\<lparr>attr_type = 9, ue_reason = REASON_FLAGS,
     ue_outcome = OUTCOME_DISCARD, detail = None\<rparr>] new_counters) = 1"
  using counters_count_faults [OF counters_wf_new, THEN conjunct2, THEN conjunct2, THEN conjunct1]
  by (simp add: counters_total_def new_counters_def OUTCOMES_def)

end
