(* ===== verification/Fsm.thy ===== *)
theory Fsm
  imports BgpErrors
begin

text \<open>
  The BGP finite state machine of \<open>plugins/bgp/fsm.py\<close>: its configuration, its state
  (timers as absolute deadlines, queued actions, counters), one definition per method and
  per state handler, the timer loop \<open>tick\<close>, and connection collision resolution. Every
  entry point takes the instant \<open>now\<close> that the injected clock shows while it runs.
  Times are rationals: the rounding of floating point is not modelled.
\<close>

section \<open>States, events, actions, timers\<close>

datatype fsm_state = IDLE | CONNECT | ACTIVE | OPEN_SENT | OPEN_CONFIRM | ESTABLISHED

datatype event_code =
    EV_MANUAL_START | EV_MANUAL_STOP | EV_AUTOMATIC_START | EV_AUTOMATIC_STOP
  | EV_CONNECT_RETRY_EXPIRED | EV_HOLD_EXPIRED | EV_KEEPALIVE_EXPIRED
  | EV_DELAY_OPEN_EXPIRED | EV_IDLE_HOLD_EXPIRED
  | EV_TCP_CONNECTION_VALID | EV_TCP_CR_INVALID | EV_TCP_CR_ACKED | EV_TCP_CONFIRMED
  | EV_TCP_FAILS
  | EV_BGP_OPEN | EV_BGP_OPEN_DELAY_OPEN | EV_HEADER_ERR | EV_OPEN_MSG_ERR
  | EV_OPEN_COLLISION_DUMP | EV_NOTIFY_VERSION_ERR | EV_NOTIFY_MSG
  | EV_KEEPALIVE_MSG | EV_UPDATE_MSG | EV_UPDATE_MSG_ERR
  | EV_UNKNOWN int \<comment> \<open>any other number\<close>

fun EVENT_NAME :: "event_code \<Rightarrow> string" where
  "EVENT_NAME EV_MANUAL_START = ''ManualStart''"
| "EVENT_NAME EV_MANUAL_STOP = ''ManualStop''"
| "EVENT_NAME EV_AUTOMATIC_START = ''AutomaticStart''"
| "EVENT_NAME EV_AUTOMATIC_STOP = ''AutomaticStop''"
| "EVENT_NAME EV_CONNECT_RETRY_EXPIRED = ''ConnectRetryTimer_Expires''"
| "EVENT_NAME EV_HOLD_EXPIRED = ''HoldTimer_Expires''"
| "EVENT_NAME EV_KEEPALIVE_EXPIRED = ''KeepaliveTimer_Expires''"
| "EVENT_NAME EV_DELAY_OPEN_EXPIRED = ''DelayOpenTimer_Expires''"
| "EVENT_NAME EV_IDLE_HOLD_EXPIRED = ''IdleHoldTimer_Expires''"
| "EVENT_NAME EV_TCP_CONNECTION_VALID = ''TcpConnection_Valid''"
| "EVENT_NAME EV_TCP_CR_INVALID = ''Tcp_CR_Invalid''"
| "EVENT_NAME EV_TCP_CR_ACKED = ''Tcp_CR_Acked''"
| "EVENT_NAME EV_TCP_CONFIRMED = ''TcpConnectionConfirmed''"
| "EVENT_NAME EV_TCP_FAILS = ''TcpConnectionFails''"
| "EVENT_NAME EV_BGP_OPEN = ''BGPOpen''"
| "EVENT_NAME EV_BGP_OPEN_DELAY_OPEN = ''BGPOpen with DelayOpenTimer running''"
| "EVENT_NAME EV_HEADER_ERR = ''BGPHeaderErr''"
| "EVENT_NAME EV_OPEN_MSG_ERR = ''BGPOpenMsgErr''"
| "EVENT_NAME EV_OPEN_COLLISION_DUMP = ''OpenCollisionDump''"
| "EVENT_NAME EV_NOTIFY_VERSION_ERR = ''NotifMsgVerErr''"
| "EVENT_NAME EV_NOTIFY_MSG = ''NotifMsg''"
| "EVENT_NAME EV_KEEPALIVE_MSG = ''KeepaliveMsg''"
| "EVENT_NAME EV_UPDATE_MSG = ''UpdateMsg''"
| "EVENT_NAME EV_UPDATE_MSG_ERR = ''UpdateMsgErr''"
| "EVENT_NAME (EV_UNKNOWN n) = int_str n"

datatype fsm_action =
    ACT_CONNECT
  | ACT_DROP string
  | ACT_SEND_OPEN
  | ACT_SEND_KEEPALIVE
  | ACT_SEND_NOTIFY int int "byte list"
  | ACT_ESTABLISHED
  | ACT_RELEASE
  | ACT_LISTEN_ONLY
  | ACT_REFUSE string

datatype fsm_timer = T_CONNECT_RETRY | T_HOLD | T_KEEPALIVE | T_DELAY_OPEN | T_IDLE_HOLD

fun TIMER_EVENT :: "fsm_timer \<Rightarrow> event_code" where
  "TIMER_EVENT T_CONNECT_RETRY = EV_CONNECT_RETRY_EXPIRED"
| "TIMER_EVENT T_HOLD = EV_HOLD_EXPIRED"
| "TIMER_EVENT T_KEEPALIVE = EV_KEEPALIVE_EXPIRED"
| "TIMER_EVENT T_DELAY_OPEN = EV_DELAY_OPEN_EXPIRED"
| "TIMER_EVENT T_IDLE_HOLD = EV_IDLE_HOLD_EXPIRED"

abbreviation "MIN_HOLD_TIME \<equiv> 3 :: int"
abbreviation "IDLE_HOLD_RESET_AFTER \<equiv> 90 :: time"

section \<open>Configuration\<close>

record fsm_config =
  cfg_hold_time :: int
  cfg_keepalive :: int
  connect_retry :: time
  delay_open :: time
  cfg_passive :: bool
  idle_hold_start :: time
  idle_hold_max :: time
  allow_automatic_start :: bool

definition new_fsm_config ::
  "int \<Rightarrow> int option \<Rightarrow> time \<Rightarrow> time \<Rightarrow> bool \<Rightarrow> time \<Rightarrow> time \<Rightarrow> bool \<Rightarrow> fsm_config result" where
  "new_fsm_config hold_time keepalive retry dopen pas ih_start ih_max auto =
    (if hold_time \<noteq> 0 \<and> hold_time < MIN_HOLD_TIME
     then Inl (ValueError (''hold time '' @ int_str hold_time @ '' is not legal: RFC 4271 s4.2 allows 0 to disable the timers, or 3 seconds and above''))
     else
       let ka = (case keepalive of
                   None \<Rightarrow> (if hold_time \<noteq> 0 then hold_time div 3 else 0)
                 | Some k \<Rightarrow> k)
       in if hold_time \<noteq> 0 \<and> ka \<ge> hold_time
          then Inl (ValueError (''keepalive '' @ int_str ka @ '' must be less than the hold time '' @ int_str hold_time @ '', or the far end will time out before we send''))
          else Inr \<lparr>cfg_hold_time = hold_time, cfg_keepalive = ka, connect_retry = retry,
                 delay_open = dopen, cfg_passive = pas, idle_hold_start = ih_start,
                 idle_hold_max = ih_max, allow_automatic_start = auto\<rparr>)"

section \<open>The machine's state\<close>

record fsm =
  config :: fsm_config
  fstate :: fsm_state
  deadlines :: "(fsm_timer, time) pydict"
  actions :: "fsm_action list"
  hold_time :: int
  keepalive :: int
  idle_hold :: time
  established_at :: "time option"
  connect_retries :: nat
  transitions :: nat
  established_count :: nat
  last_error :: "string option"
  last_reason :: "string option"
  state_since :: time
  delay_open_armed :: bool
  event_counters :: "(string, nat) pydict"
  state_calls :: "(fsm_state \<times> fsm_state \<times> string option) list"
    \<comment> \<open>the calls made to the \<open>on_state\<close> observer\<close>

text \<open>Event-specific data, the keyword arguments of \<open>event\<close>.\<close>

record fsm_kw =
  kw_hold_time :: "int option"
  kw_code :: "int option"
  kw_subcode :: "int option"
  kw_data :: "byte list option"
  kw_reason :: "string option"

definition no_kw :: fsm_kw where
  "no_kw = \<lparr>kw_hold_time = None, kw_code = None, kw_subcode = None, kw_data = None,
     kw_reason = None\<rparr>"

definition new_fsm :: "fsm_config \<Rightarrow> time \<Rightarrow> fsm" where
  "new_fsm c now = \<lparr>config = c, fstate = IDLE, deadlines = [], actions = [],
     hold_time = cfg_hold_time c, keepalive = cfg_keepalive c, idle_hold = 0,
     established_at = None, connect_retries = 0, transitions = 0, established_count = 0,
     last_error = None, last_reason = None, state_since = now, delay_open_armed = False,
     event_counters = [], state_calls = []\<rparr>"

section \<open>Inspection\<close>

definition fsm_established :: "fsm \<Rightarrow> bool" where
  "fsm_established s \<longleftrightarrow> fstate s = ESTABLISHED"

definition fsm_uptime :: "time \<Rightarrow> fsm \<Rightarrow> time option" where
  "fsm_uptime now s = (case established_at s of None \<Rightarrow> None | Some t \<Rightarrow> Some (now - t))"

definition TIMERS :: "fsm_timer list" where
  "TIMERS = [T_CONNECT_RETRY, T_HOLD, T_KEEPALIVE, T_DELAY_OPEN, T_IDLE_HOLD]"

definition fsm_timers :: "time \<Rightarrow> fsm \<Rightarrow> (fsm_timer \<times> time) list" where
  \<comment> \<open>the remaining seconds, before the source rounds them to milliseconds for display\<close>
  "fsm_timers now s = List.map_filter
     (\<lambda>t. case dict_get (deadlines s) t of None \<Rightarrow> None | Some due \<Rightarrow> Some (t, max 0 (due - now)))
     TIMERS"

definition next_deadline :: "fsm \<Rightarrow> time option" where
  "next_deadline s =
    (case map snd (deadlines s) of [] \<Rightarrow> None | d # ds \<Rightarrow> Some (foldl min d ds))"

section \<open>Action queue and timers\<close>

definition take_actions :: "fsm \<Rightarrow> fsm_action list \<times> fsm" where
  "take_actions s = (actions s, s\<lparr>actions := []\<rparr>)"

definition fsm_act :: "fsm_action \<Rightarrow> fsm \<Rightarrow> fsm" where
  "fsm_act a s = s\<lparr>actions := actions s @ [a]\<rparr>"

definition fsm_arm :: "time \<Rightarrow> fsm_timer \<Rightarrow> time \<Rightarrow> fsm \<Rightarrow> fsm" where
  "fsm_arm now t seconds s =
    (if seconds > 0 then s\<lparr>deadlines := dict_set t (now + seconds) (deadlines s)\<rparr>
     else s\<lparr>deadlines := dict_pop t (deadlines s)\<rparr>)"

definition fsm_stop :: "fsm_timer list \<Rightarrow> fsm \<Rightarrow> fsm" where
  "fsm_stop ts s = s\<lparr>deadlines := foldl (\<lambda>d t. dict_pop t d) (deadlines s) ts\<rparr>"

definition fsm_stop_all :: "fsm \<Rightarrow> fsm" where
  "fsm_stop_all s = s\<lparr>deadlines := []\<rparr>"

section \<open>State changes\<close>

definition fsm_goto :: "time \<Rightarrow> fsm_state \<Rightarrow> string option \<Rightarrow> fsm \<Rightarrow> fsm" where
  "fsm_goto now st reason s =
    (if st = fstate s then s
     else
       let old = fstate s;
           s1 = s\<lparr>fstate := st, transitions := transitions s + 1, state_since := now,
                  last_reason := reason\<rparr>;
           s2 = (if st = ESTABLISHED
                 then s1\<lparr>established_at := Some now,
                         established_count := established_count s1 + 1\<rparr>
                 else if old = ESTABLISHED then s1\<lparr>established_at := None\<rparr>
                 else s1)
       in s2\<lparr>state_calls := state_calls s2 @ [(old, st, reason)]\<rparr>)"

definition bump_idle_hold :: "fsm \<Rightarrow> fsm" where
  "bump_idle_hold s =
    s\<lparr>idle_hold := (if idle_hold s \<le> 0 then idle_hold_start (config s)
                    else min (idle_hold s * 2) (idle_hold_max (config s)))\<rparr>"

definition maybe_forgive_idle_hold :: "time \<Rightarrow> fsm \<Rightarrow> fsm" where
  "maybe_forgive_idle_hold now s =
    (case established_at s of
       None \<Rightarrow> s
     | Some t \<Rightarrow> if now - t \<ge> IDLE_HOLD_RESET_AFTER then s\<lparr>idle_hold := 0\<rparr> else s)"

definition to_idle :: "time \<Rightarrow> string \<Rightarrow> bool \<Rightarrow> bool \<Rightarrow> fsm \<Rightarrow> fsm" where
  "to_idle now reason release grow_backoff s0 =
    (let s1 = fsm_stop_all (maybe_forgive_idle_hold now s0);
         s2 = s1\<lparr>delay_open_armed := False, hold_time := cfg_hold_time (config s1),
                 keepalive := cfg_keepalive (config s1)\<rparr>;
         s3 = fsm_act (ACT_DROP reason) s2;
         s4 = (if release then fsm_act ACT_RELEASE s3 else s3);
         s5 = (if grow_backoff then
                 let b = bump_idle_hold s4
                 in if allow_automatic_start (config b) \<and> idle_hold b > 0
                    then fsm_arm now T_IDLE_HOLD (idle_hold b) b else b
               else s4)
     in fsm_goto now IDLE (Some reason) s5)"

definition notify_and_idle ::
  "time \<Rightarrow> int \<Rightarrow> int \<Rightarrow> string \<Rightarrow> byte list \<Rightarrow> bool \<Rightarrow> fsm \<Rightarrow> fsm" where
  "notify_and_idle now code subcode reason bs grow_backoff s =
    to_idle now reason True grow_backoff
      (fsm_act (ACT_SEND_NOTIFY code subcode bs)
        (s\<lparr>last_error := Some (notify_name code (Some subcode))\<rparr>))"

section \<open>Steps shared by the handlers\<close>

definition start_connecting :: "time \<Rightarrow> fsm \<Rightarrow> fsm" where
  "start_connecting now s0 =
    (let s = fsm_arm now T_CONNECT_RETRY (connect_retry (config s0)) (fsm_stop [T_IDLE_HOLD] s0)
     in if cfg_passive (config s)
        then fsm_goto now ACTIVE (Some ''passive, waiting for the peer to connect'')
               (fsm_act ACT_LISTEN_ONLY s)
        else fsm_goto now CONNECT (Some ''connecting'') (fsm_act ACT_CONNECT s))"

definition send_open_and_wait :: "time \<Rightarrow> fsm \<Rightarrow> fsm" where
  "send_open_and_wait now s =
    fsm_goto now OPEN_SENT (Some ''OPEN sent'')
      (fsm_arm now T_HOLD 240
        (fsm_act ACT_SEND_OPEN
          (fsm_stop [T_DELAY_OPEN] (s\<lparr>delay_open_armed := False\<rparr>))))"

definition connection_up :: "time \<Rightarrow> fsm \<Rightarrow> fsm" where
  "connection_up now s0 =
    (let s = fsm_stop [T_CONNECT_RETRY] s0
     in if delay_open (config s) > 0
        then fsm_arm now T_DELAY_OPEN (delay_open (config s)) (s\<lparr>delay_open_armed := True\<rparr>)
        else send_open_and_wait now s)"

definition negotiate :: "time \<Rightarrow> fsm_kw \<Rightarrow> fsm \<Rightarrow> fsm" where
  "negotiate now kw s0 =
    (let c = config s0;
         peer_hold = get_default (kw_hold_time kw) (cfg_hold_time c);
         h = min (cfg_hold_time c) peer_hold;
         s1 = s0\<lparr>hold_time := h\<rparr>;
         s2 = (if h \<noteq> 0 then
                 let ka = (if cfg_hold_time c \<noteq> 0
                           then max 1 (h * cfg_keepalive c div cfg_hold_time c)
                           else max 1 (h div 3));
                     k = s1\<lparr>keepalive := ka\<rparr>
                 in fsm_arm now T_KEEPALIVE (of_int ka) (fsm_arm now T_HOLD (of_int h) k)
               else fsm_stop [T_HOLD, T_KEEPALIVE] (s1\<lparr>keepalive := 0\<rparr>))
     in fsm_goto now OPEN_CONFIRM (Some (''OPEN received, hold time '' @ int_str h))
          (fsm_act ACT_SEND_KEEPALIVE s2))"

definition open_during_delay :: "time \<Rightarrow> fsm_kw \<Rightarrow> fsm \<Rightarrow> fsm" where
  "open_during_delay now kw s =
    negotiate now kw
      (fsm_act ACT_SEND_OPEN ((fsm_stop [T_DELAY_OPEN] s)\<lparr>delay_open_armed := False\<rparr>))"

definition restart_hold :: "time \<Rightarrow> fsm \<Rightarrow> fsm" where
  "restart_hold now s =
    (if hold_time s \<noteq> 0 then fsm_arm now T_HOLD (of_int (hold_time s)) s else s)"

definition note_notification :: "fsm_kw \<Rightarrow> fsm \<Rightarrow> fsm" where
  "note_notification kw s =
    s\<lparr>last_error := Some (''received '' @
       notify_name (get_default (kw_code kw) 0) (Some (get_default (kw_subcode kw) 0)))\<rparr>"

definition unexpected :: "event_code \<Rightarrow> fsm \<Rightarrow> fsm" where
  \<comment> \<open>a debug log line only\<close>
  "unexpected ev s = s"

section \<open>The handlers, one per state\<close>

definition CONNECTION_EVENTS :: "event_code list" where
  "CONNECTION_EVENTS = [EV_TCP_CR_ACKED, EV_TCP_CONFIRMED, EV_TCP_CONNECTION_VALID]"

definition in_idle :: "time \<Rightarrow> event_code \<Rightarrow> fsm_kw \<Rightarrow> fsm \<Rightarrow> fsm" where
  "in_idle now ev kw s =
    (if ev \<in> {EV_MANUAL_START, EV_AUTOMATIC_START} then
       let s1 = (if ev = EV_MANUAL_START then fsm_stop [T_IDLE_HOLD] (s\<lparr>idle_hold := 0\<rparr>) else s)
       in start_connecting now (s1\<lparr>connect_retries := 0\<rparr>)
     else if ev = EV_IDLE_HOLD_EXPIRED then
       (if allow_automatic_start (config s) then start_connecting now s else s)
     else if ev \<in> set CONNECTION_EVENTS then
       fsm_act (ACT_DROP ''connection refused: session is Idle'') s
     else s)"

definition in_connect :: "time \<Rightarrow> event_code \<Rightarrow> fsm_kw \<Rightarrow> fsm \<Rightarrow> fsm" where
  "in_connect now ev kw s =
    (if ev = EV_CONNECT_RETRY_EXPIRED then
       fsm_act ACT_CONNECT
         (fsm_arm now T_CONNECT_RETRY (connect_retry (config s))
           (fsm_act (ACT_DROP ''connect retry timer expired'')
             (s\<lparr>connect_retries := connect_retries s + 1\<rparr>)))
     else if ev \<in> set CONNECTION_EVENTS then connection_up now s
     else if ev = EV_TCP_FAILS then
       fsm_goto now ACTIVE (Some ''connection failed'')
         (fsm_arm now T_CONNECT_RETRY (connect_retry (config s)) (fsm_stop [T_CONNECT_RETRY] s))
     else if ev = EV_DELAY_OPEN_EXPIRED then send_open_and_wait now s
     else if ev \<in> {EV_BGP_OPEN, EV_BGP_OPEN_DELAY_OPEN} then open_during_delay now kw s
     else if ev \<in> {EV_HEADER_ERR, EV_OPEN_MSG_ERR} then
       notify_and_idle now (get_default (kw_code kw) NOTIFY_OPEN)
         (get_default (kw_subcode kw) 0) ''error before OPEN was exchanged''
         (get_default (kw_data kw) []) True s
     else if ev = EV_NOTIFY_VERSION_ERR then
       to_idle now ''peer rejected our BGP version'' True True s
     else s)"

definition in_active :: "time \<Rightarrow> event_code \<Rightarrow> fsm_kw \<Rightarrow> fsm \<Rightarrow> fsm" where
  "in_active now ev kw s =
    (if ev = EV_CONNECT_RETRY_EXPIRED then
       let s1 = fsm_arm now T_CONNECT_RETRY (connect_retry (config s)) s
       in if \<not> cfg_passive (config s1)
          then fsm_goto now CONNECT (Some ''retrying the connection'')
                 (fsm_act ACT_CONNECT (s1\<lparr>connect_retries := connect_retries s1 + 1\<rparr>))
          else s1
     else if ev \<in> set CONNECTION_EVENTS then connection_up now s
     else if ev = EV_TCP_FAILS then fsm_arm now T_CONNECT_RETRY (connect_retry (config s)) s
     else if ev = EV_DELAY_OPEN_EXPIRED then send_open_and_wait now s
     else if ev \<in> {EV_BGP_OPEN, EV_BGP_OPEN_DELAY_OPEN} then open_during_delay now kw s
     else if ev \<in> {EV_HEADER_ERR, EV_OPEN_MSG_ERR} then
       notify_and_idle now (get_default (kw_code kw) NOTIFY_OPEN)
         (get_default (kw_subcode kw) 0) ''error before OPEN was exchanged''
         (get_default (kw_data kw) []) True s
     else if ev = EV_NOTIFY_VERSION_ERR then
       to_idle now ''peer rejected our BGP version'' True True s
     else s)"

definition in_open_sent :: "time \<Rightarrow> event_code \<Rightarrow> fsm_kw \<Rightarrow> fsm \<Rightarrow> fsm" where
  "in_open_sent now ev kw s =
    (if ev = EV_BGP_OPEN then negotiate now kw s
     else if ev = EV_HOLD_EXPIRED then
       notify_and_idle now NOTIFY_HOLD_TIMER 0 ''peer sent no OPEN'' [] True s
     else if ev = EV_TCP_FAILS then
       fsm_goto now ACTIVE (Some ''connection closed before OPEN'')
         (fsm_act (ACT_DROP ''connection closed before OPEN'')
           (fsm_arm now T_CONNECT_RETRY (connect_retry (config s)) (fsm_stop_all s)))
     else if ev = EV_HEADER_ERR then
       notify_and_idle now NOTIFY_HEADER (get_default (kw_subcode kw) HDR_CONN_NOT_SYNC)
         ''header error in OPEN'' (get_default (kw_data kw) []) True s
     else if ev = EV_OPEN_MSG_ERR then
       notify_and_idle now NOTIFY_OPEN (get_default (kw_subcode kw) 0)
         (get_default (kw_reason kw) ''bad OPEN'') (get_default (kw_data kw) []) True s
     else if ev = EV_OPEN_COLLISION_DUMP then
       notify_and_idle now NOTIFY_CEASE CEASE_COLLISION_RESOLUTION
         ''lost connection collision resolution'' [] True s
     else if ev = EV_NOTIFY_VERSION_ERR then
       to_idle now ''peer rejected our BGP version'' True True s
     else if ev = EV_NOTIFY_MSG then
       to_idle now ''peer sent NOTIFICATION'' True True (note_notification kw s)
     else unexpected ev s)"

definition in_open_confirm :: "time \<Rightarrow> event_code \<Rightarrow> fsm_kw \<Rightarrow> fsm \<Rightarrow> fsm" where
  "in_open_confirm now ev kw s =
    (if ev = EV_KEEPALIVE_MSG then
       fsm_goto now ESTABLISHED (Some ''session established'')
         (fsm_act ACT_ESTABLISHED (restart_hold now s))
     else if ev = EV_KEEPALIVE_EXPIRED then
       fsm_arm now T_KEEPALIVE (of_int (keepalive s)) (fsm_act ACT_SEND_KEEPALIVE s)
     else if ev = EV_HOLD_EXPIRED then
       notify_and_idle now NOTIFY_HOLD_TIMER 0 ''hold timer expired in OpenConfirm'' [] True s
     else if ev = EV_TCP_FAILS then
       to_idle now ''connection closed in OpenConfirm'' True True s
     else if ev = EV_NOTIFY_MSG then
       to_idle now ''peer sent NOTIFICATION'' True True (note_notification kw s)
     else if ev = EV_NOTIFY_VERSION_ERR then
       to_idle now ''peer rejected our BGP version'' True True s
     else if ev = EV_OPEN_COLLISION_DUMP then
       notify_and_idle now NOTIFY_CEASE CEASE_COLLISION_RESOLUTION
         ''lost connection collision resolution'' [] True s
     else if ev \<in> {EV_HEADER_ERR, EV_OPEN_MSG_ERR} then
       notify_and_idle now (get_default (kw_code kw) NOTIFY_OPEN)
         (get_default (kw_subcode kw) 0) ''error in OpenConfirm''
         (get_default (kw_data kw) []) True s
     else unexpected ev s)"

definition in_established :: "time \<Rightarrow> event_code \<Rightarrow> fsm_kw \<Rightarrow> fsm \<Rightarrow> fsm" where
  "in_established now ev kw s =
    (if ev \<in> {EV_KEEPALIVE_MSG, EV_UPDATE_MSG} then restart_hold now s
     else if ev = EV_KEEPALIVE_EXPIRED then
       fsm_arm now T_KEEPALIVE (of_int (keepalive s)) (fsm_act ACT_SEND_KEEPALIVE s)
     else if ev = EV_HOLD_EXPIRED then
       notify_and_idle now NOTIFY_HOLD_TIMER 0 ''hold timer expired'' [] True s
     else if ev = EV_TCP_FAILS then to_idle now ''connection closed'' True True s
     else if ev = EV_NOTIFY_MSG then
       to_idle now ''peer sent NOTIFICATION'' True True (note_notification kw s)
     else if ev = EV_UPDATE_MSG_ERR then
       notify_and_idle now NOTIFY_UPDATE (get_default (kw_subcode kw) 0)
         (get_default (kw_reason kw) ''malformed UPDATE'') (get_default (kw_data kw) []) True s
     else if ev = EV_HEADER_ERR then
       notify_and_idle now NOTIFY_HEADER (get_default (kw_subcode kw) HDR_CONN_NOT_SYNC)
         (get_default (kw_reason kw) ''message header error'') (get_default (kw_data kw) []) True s
     else if ev \<in> {EV_BGP_OPEN, EV_OPEN_MSG_ERR} then
       notify_and_idle now NOTIFY_FSM 0 ''OPEN received on an established session'' [] True s
     else if ev = EV_OPEN_COLLISION_DUMP then
       notify_and_idle now NOTIFY_CEASE CEASE_COLLISION_RESOLUTION
         ''lost connection collision resolution'' [] True s
     else if ev \<in> set CONNECTION_EVENTS then
       fsm_act (ACT_REFUSE ''second connection to an established peer'') s
     else unexpected ev s)"

fun fsm_handler :: "fsm_state \<Rightarrow> time \<Rightarrow> event_code \<Rightarrow> fsm_kw \<Rightarrow> fsm \<Rightarrow> fsm" where
  "fsm_handler IDLE = in_idle"
| "fsm_handler CONNECT = in_connect"
| "fsm_handler ACTIVE = in_active"
| "fsm_handler OPEN_SENT = in_open_sent"
| "fsm_handler OPEN_CONFIRM = in_open_confirm"
| "fsm_handler ESTABLISHED = in_established"

section \<open>The machine\<close>

definition count_event :: "event_code \<Rightarrow> fsm \<Rightarrow> fsm" where
  "count_event ev s = s\<lparr>event_counters := dict_incr (EVENT_NAME ev) (event_counters s)\<rparr>"

definition manual_stop :: "time \<Rightarrow> fsm_kw \<Rightarrow> fsm \<Rightarrow> fsm" where
  "manual_stop now kw s =
    (let s1 = (if fstate s \<noteq> IDLE
               then notify_and_idle now NOTIFY_CEASE
                      (get_default (kw_subcode kw) CEASE_ADMIN_SHUTDOWN)
                      (get_default (kw_reason kw) ''administratively shut down'') [] False s
               else s)
     in fsm_goto now IDLE (Some ''administratively shut down'')
          (fsm_act ACT_LISTEN_ONLY (fsm_stop_all (s1\<lparr>idle_hold := 0\<rparr>))))"

definition automatic_stop :: "time \<Rightarrow> fsm_kw \<Rightarrow> fsm \<Rightarrow> fsm" where
  "automatic_stop now kw s =
    (if fstate s \<noteq> IDLE
     then notify_and_idle now NOTIFY_CEASE CEASE_OTHER_CONFIG_CHANGE
            (get_default (kw_reason kw) ''automatic stop'') [] False s
     else s)"

definition fsm_event :: "time \<Rightarrow> event_code \<Rightarrow> fsm_kw \<Rightarrow> fsm \<Rightarrow> fsm" where
  "fsm_event now ev kw s0 =
    (let s = count_event ev s0
     in if ev = EV_MANUAL_STOP then manual_stop now kw s
        else if ev = EV_AUTOMATIC_STOP then automatic_stop now kw s
        else fsm_handler (fstate s) now ev kw s)"

definition abandon_connection :: "time \<Rightarrow> string \<Rightarrow> fsm \<Rightarrow> bool \<times> fsm" where
  "abandon_connection now reason s0 =
    (if fstate s0 \<in> {IDLE, ESTABLISHED} then (False, s0)
     else
       let s1 = (fsm_stop [T_HOLD, T_KEEPALIVE, T_DELAY_OPEN] s0)\<lparr>delay_open_armed := False\<rparr>;
           s2 = s1\<lparr>hold_time := cfg_hold_time (config s1), keepalive := cfg_keepalive (config s1)\<rparr>
       in (True, fsm_goto now ACTIVE (Some reason)
                   (fsm_arm now T_CONNECT_RETRY (connect_retry (config s2)) s2)))"

text \<open>
  \<open>tick\<close> fires the due timers, earliest deadline first; of several with the same deadline
  the first in the dictionary's order. \<open>clk\<close> is what the clock shows during the call,
  \<open>now\<close> the instant passed in, which is the same when the argument is omitted.
\<close>

fun pick_due :: "time \<Rightarrow> (fsm_timer, time) pydict \<Rightarrow> (fsm_timer \<times> time) option \<Rightarrow> (fsm_timer \<times> time) option" where
  "pick_due now [] acc = acc"
| "pick_due now ((t, d) # ds) acc =
     (if d \<le> now \<and> (case acc of None \<Rightarrow> True | Some (_, due_at) \<Rightarrow> d < due_at)
      then pick_due now ds (Some (t, d)) else pick_due now ds acc)"

definition fire_timer :: "time \<Rightarrow> fsm_timer \<Rightarrow> fsm \<Rightarrow> fsm" where
  "fire_timer clk t s =
    fsm_event clk (TIMER_EVENT t) no_kw (s\<lparr>deadlines := dict_pop t (deadlines s)\<rparr>)"

partial_function (option) tick_loop :: "time \<Rightarrow> time \<Rightarrow> nat \<Rightarrow> fsm \<Rightarrow> (nat \<times> fsm) option" where
  "tick_loop clk now fired s =
    (case pick_due now (deadlines s) None of
       None \<Rightarrow> Some (fired, s)
     | Some (t, _) \<Rightarrow> tick_loop clk now (fired + 1) (fire_timer clk t s))"

definition fsm_tick :: "time \<Rightarrow> time option \<Rightarrow> fsm \<Rightarrow> (nat \<times> fsm) option" where
  "fsm_tick clk now s = tick_loop clk (get_default now clk) 0 s"

section \<open>Connection collision\<close>

definition resolve_collision :: "int \<Rightarrow> int \<Rightarrow> int \<Rightarrow> int \<Rightarrow> bool \<Rightarrow> bool" where
  "resolve_collision local_router_id peer_router_id local_as peer_as we_initiated =
    (if local_router_id = peer_router_id then
       (if local_as = peer_as then False
        else (if local_as > peer_as then we_initiated else \<not> we_initiated))
     else (if local_router_id > peer_router_id then we_initiated else \<not> we_initiated))"

end
