(* ===== verification/FsmProps.thy ===== *)
theory FsmProps
  imports Fsm
begin

text \<open>
  Properties of the BGP state machine: the well-formedness invariant that every event,
  timer and collision step keeps, the transitions into and out of Established, the bounds
  of the negotiated timers and of the idle-hold backoff, termination of the timer loop and
  agreement of both ends of a connection collision.
\<close>

section \<open>Projections of the primitive operations\<close>

lemma act_sel [simp]:
  "config (fsm_act a s) = config s" "fstate (fsm_act a s) = fstate s"
  "deadlines (fsm_act a s) = deadlines s" "actions (fsm_act a s) = actions s @ [a]"
  "hold_time (fsm_act a s) = hold_time s" "keepalive (fsm_act a s) = keepalive s"
  "idle_hold (fsm_act a s) = idle_hold s" "established_at (fsm_act a s) = established_at s"
  "delay_open_armed (fsm_act a s) = delay_open_armed s"
  "last_error (fsm_act a s) = last_error s"
  "connect_retries (fsm_act a s) = connect_retries s"
  by (simp_all add: fsm_act_def)

lemma arm_sel [simp]:
  "config (fsm_arm now t d s) = config s" "fstate (fsm_arm now t d s) = fstate s"
  "actions (fsm_arm now t d s) = actions s"
  "hold_time (fsm_arm now t d s) = hold_time s" "keepalive (fsm_arm now t d s) = keepalive s"
  "idle_hold (fsm_arm now t d s) = idle_hold s"
  "established_at (fsm_arm now t d s) = established_at s"
  "delay_open_armed (fsm_arm now t d s) = delay_open_armed s"
  "last_error (fsm_arm now t d s) = last_error s"
  "connect_retries (fsm_arm now t d s) = connect_retries s"
  by (simp_all add: fsm_arm_def)

lemma deadlines_arm:
  "deadlines (fsm_arm now t d s) =
     (if d > 0 then dict_set t (now + d) (deadlines s) else dict_pop t (deadlines s))"
  by (simp add: fsm_arm_def)

lemma stop_sel [simp]:
  "config (fsm_stop ts s) = config s" "fstate (fsm_stop ts s) = fstate s"
  "actions (fsm_stop ts s) = actions s"
  "hold_time (fsm_stop ts s) = hold_time s" "keepalive (fsm_stop ts s) = keepalive s"
  "idle_hold (fsm_stop ts s) = idle_hold s"
  "established_at (fsm_stop ts s) = established_at s"
  "delay_open_armed (fsm_stop ts s) = delay_open_armed s"
  "last_error (fsm_stop ts s) = last_error s"
  "connect_retries (fsm_stop ts s) = connect_retries s"
  by (simp_all add: fsm_stop_def)

lemma keys_stop [simp]: "dict_keys (deadlines (fsm_stop ts s)) = dict_keys (deadlines s) - set ts"
proof -
  have "dict_keys (foldl (\<lambda>d t. dict_pop t d) d ts) = dict_keys d - set ts"
    for d :: "(fsm_timer, time) pydict"
    by (induction ts arbitrary: d) auto
  then show ?thesis by (simp add: fsm_stop_def)
qed

lemma distinct_stop [simp]:
  "distinct (map fst (deadlines s)) \<Longrightarrow> distinct (map fst (deadlines (fsm_stop ts s)))"
proof -
  have "distinct (map fst d) \<Longrightarrow> distinct (map fst (foldl (\<lambda>d t. dict_pop t d) d ts))"
    for d :: "(fsm_timer, time) pydict"
    by (induction ts arbitrary: d) auto
  then show "distinct (map fst (deadlines s)) \<Longrightarrow> ?thesis" by (simp add: fsm_stop_def)
qed

lemma keys_arm [simp]:
  "dict_keys (deadlines (fsm_arm now t d s)) =
     (if d > 0 then insert t (dict_keys (deadlines s)) else dict_keys (deadlines s) - {t})"
  by (simp add: fsm_arm_def)

lemma distinct_arm [simp]:
  "distinct (map fst (deadlines s)) \<Longrightarrow> distinct (map fst (deadlines (fsm_arm now t d s)))"
  by (simp add: fsm_arm_def)

lemma goto_sel [simp]:
  "config (fsm_goto now st r s) = config s" "fstate (fsm_goto now st r s) = st"
  "deadlines (fsm_goto now st r s) = deadlines s" "actions (fsm_goto now st r s) = actions s"
  "hold_time (fsm_goto now st r s) = hold_time s" "keepalive (fsm_goto now st r s) = keepalive s"
  "idle_hold (fsm_goto now st r s) = idle_hold s"
  "delay_open_armed (fsm_goto now st r s) = delay_open_armed s"
  "last_error (fsm_goto now st r s) = last_error s"
  "connect_retries (fsm_goto now st r s) = connect_retries s"
  by (simp_all add: fsm_goto_def Let_def)

lemma established_at_goto:
  "established_at (fsm_goto now st r s) =
     (if st = fstate s then established_at s
      else if st = ESTABLISHED then Some now
      else if fstate s = ESTABLISHED then None else established_at s)"
  by (simp add: fsm_goto_def Let_def)

lemma count_event_sel [simp]:
  "config (count_event ev s) = config s" "fstate (count_event ev s) = fstate s"
  "deadlines (count_event ev s) = deadlines s" "actions (count_event ev s) = actions s"
  "hold_time (count_event ev s) = hold_time s" "keepalive (count_event ev s) = keepalive s"
  "idle_hold (count_event ev s) = idle_hold s"
  "established_at (count_event ev s) = established_at s"
  "delay_open_armed (count_event ev s) = delay_open_armed s"
  "last_error (count_event ev s) = last_error s"
  by (simp_all add: count_event_def)

lemma note_sel [simp]:
  "config (note_notification kw s) = config s" "fstate (note_notification kw s) = fstate s"
  "deadlines (note_notification kw s) = deadlines s"
  "actions (note_notification kw s) = actions s"
  "idle_hold (note_notification kw s) = idle_hold s"
  "established_at (note_notification kw s) = established_at s"
  by (simp_all add: note_notification_def)

lemma stop_all_sel [simp]:
  "config (fsm_stop_all s) = config s" "fstate (fsm_stop_all s) = fstate s"
  "deadlines (fsm_stop_all s) = []" "actions (fsm_stop_all s) = actions s"
  "hold_time (fsm_stop_all s) = hold_time s" "keepalive (fsm_stop_all s) = keepalive s"
  "idle_hold (fsm_stop_all s) = idle_hold s"
  "established_at (fsm_stop_all s) = established_at s"
  "delay_open_armed (fsm_stop_all s) = delay_open_armed s"
  "last_error (fsm_stop_all s) = last_error s"
  by (simp_all add: fsm_stop_all_def)

section \<open>Going to Idle\<close>

lemma forgive_sel [simp]:
  "config (maybe_forgive_idle_hold now s) = config s"
  "fstate (maybe_forgive_idle_hold now s) = fstate s"
  "actions (maybe_forgive_idle_hold now s) = actions s"
  "established_at (maybe_forgive_idle_hold now s) = established_at s"
  by (simp_all add: maybe_forgive_idle_hold_def split: option.splits)

definition forgiven :: "time \<Rightarrow> fsm \<Rightarrow> bool" where
  "forgiven now s \<longleftrightarrow> (\<exists>t. established_at s = Some t \<and> now - t \<ge> IDLE_HOLD_RESET_AFTER)"

lemma idle_hold_forgive:
  "idle_hold (maybe_forgive_idle_hold now s) = (if forgiven now s then 0 else idle_hold s)"
  by (simp add: maybe_forgive_idle_hold_def forgiven_def split: option.splits)

definition bumped :: "fsm_config \<Rightarrow> time \<Rightarrow> time" where
  "bumped c h = (if h \<le> 0 then idle_hold_start c else min (h * 2) (idle_hold_max c))"

lemma bump_sel [simp]:
  "config (bump_idle_hold s) = config s" "fstate (bump_idle_hold s) = fstate s"
  "deadlines (bump_idle_hold s) = deadlines s" "actions (bump_idle_hold s) = actions s"
  "hold_time (bump_idle_hold s) = hold_time s" "keepalive (bump_idle_hold s) = keepalive s"
  "established_at (bump_idle_hold s) = established_at s"
  "delay_open_armed (bump_idle_hold s) = delay_open_armed s"
  "idle_hold (bump_idle_hold s) = bumped (config s) (idle_hold s)"
  by (simp_all add: bump_idle_hold_def bumped_def)

lemma to_idle_sel [simp]:
  "config (to_idle now r rel grow s) = config s"
  "fstate (to_idle now r rel grow s) = IDLE"
  "actions (to_idle now r rel grow s) = actions s @ [ACT_DROP r] @ (if rel then [ACT_RELEASE] else [])"
  "hold_time (to_idle now r rel grow s) = cfg_hold_time (config s)"
  "keepalive (to_idle now r rel grow s) = cfg_keepalive (config s)"
  "delay_open_armed (to_idle now r rel grow s) = False"
  by (simp_all add: to_idle_def Let_def)

lemma idle_hold_to_idle:
  "idle_hold (to_idle now r rel grow s) =
     (let h = if forgiven now s then 0 else idle_hold s in if grow then bumped (config s) h else h)"
  by (simp add: to_idle_def Let_def idle_hold_forgive)

lemma deadlines_to_idle:
  "deadlines (to_idle now r rel grow s) =
     (let h = idle_hold (to_idle now r rel grow s)
      in if grow \<and> allow_automatic_start (config s) \<and> h > 0 then [(T_IDLE_HOLD, now + h)] else [])"
  by (simp add: to_idle_def Let_def deadlines_arm)

lemma established_at_to_idle:
  "established_at (to_idle now r rel grow s) =
     (if fstate s = ESTABLISHED then None else established_at s)"
  by (simp add: to_idle_def Let_def established_at_goto)

lemma notify_and_idle_sel [simp]:
  "config (notify_and_idle now c sc r bs grow s) = config s"
  "fstate (notify_and_idle now c sc r bs grow s) = IDLE"
  "actions (notify_and_idle now c sc r bs grow s) =
     actions s @ [ACT_SEND_NOTIFY c sc bs, ACT_DROP r, ACT_RELEASE]"
  by (simp_all add: notify_and_idle_def)

section \<open>The invariant\<close>

definition cfg_wf :: "fsm_config \<Rightarrow> bool" where
  "cfg_wf c \<longleftrightarrow> (cfg_hold_time c = 0 \<or> MIN_HOLD_TIME \<le> cfg_hold_time c)
     \<and> (cfg_hold_time c \<noteq> 0 \<longrightarrow> cfg_keepalive c < cfg_hold_time c)
     \<and> 0 \<le> idle_hold_start c \<and> 0 \<le> idle_hold_max c"

definition running :: "fsm \<Rightarrow> fsm_timer set" where
  "running s = dict_keys (deadlines s)"

text \<open>What holds whatever the timers: configuration, backoff bounds, the Established stamp.\<close>

definition core_wf :: "fsm \<Rightarrow> bool" where
  "core_wf s \<longleftrightarrow> cfg_wf (config s) \<and> 0 \<le> idle_hold s
     \<and> idle_hold s \<le> max (idle_hold_start (config s)) (idle_hold_max (config s))
     \<and> hold_time s \<le> cfg_hold_time (config s)
     \<and> (established_at s \<noteq> None \<longleftrightarrow> fstate s = ESTABLISHED)"

text \<open>Which timers run in which state.\<close>

definition pre_open_timers :: "fsm \<Rightarrow> bool" where
  "pre_open_timers s \<longleftrightarrow> T_IDLE_HOLD \<notin> running s
     \<and> (connect_retry (config s) > 0 \<longrightarrow> T_CONNECT_RETRY \<in> running s \<or> T_DELAY_OPEN \<in> running s)"

definition session_timers :: "fsm \<Rightarrow> bool" where
  "session_timers s \<longleftrightarrow> T_IDLE_HOLD \<notin> running s \<and> T_DELAY_OPEN \<notin> running s
     \<and> (hold_time s > 0 \<longrightarrow> T_HOLD \<in> running s \<and> T_KEEPALIVE \<in> running s \<and> 1 \<le> keepalive s)
     \<and> (hold_time s = 0 \<longrightarrow> T_HOLD \<notin> running s \<and> T_KEEPALIVE \<notin> running s \<and> keepalive s = 0)"

definition timers_wf :: "fsm \<Rightarrow> bool" where
  "timers_wf s \<longleftrightarrow> distinct (map fst (deadlines s))
     \<and> (delay_open_armed s \<longleftrightarrow> T_DELAY_OPEN \<in> running s)
     \<and> (case fstate s of
          IDLE \<Rightarrow> running s \<subseteq> {T_IDLE_HOLD}
        | CONNECT \<Rightarrow> pre_open_timers s
        | ACTIVE \<Rightarrow> pre_open_timers s
        | OPEN_SENT \<Rightarrow> T_HOLD \<in> running s \<and> T_DELAY_OPEN \<notin> running s \<and> T_IDLE_HOLD \<notin> running s
        | OPEN_CONFIRM \<Rightarrow> session_timers s
        | ESTABLISHED \<Rightarrow> session_timers s)"

definition fsm_wf :: "fsm \<Rightarrow> bool" where
  "fsm_wf s \<longleftrightarrow> core_wf s \<and> timers_wf s"

lemma core_wf_act [simp]: "core_wf (fsm_act a s) = core_wf s"
  by (simp add: core_wf_def)

lemma core_wf_arm [simp]: "core_wf (fsm_arm now t d s) = core_wf s"
  by (simp add: core_wf_def)

lemma core_wf_stop [simp]: "core_wf (fsm_stop ts s) = core_wf s"
  by (simp add: core_wf_def)

lemma core_wf_stop_all [simp]: "core_wf (fsm_stop_all s) = core_wf s"
  by (simp add: core_wf_def)

lemma core_wf_note [simp]: "core_wf (note_notification kw s) = core_wf s"
  by (simp add: core_wf_def note_notification_def)

lemma core_wf_count [simp]: "core_wf (count_event ev s) = core_wf s"
  by (simp add: core_wf_def)

lemma core_wf_fields [simp]:
  "core_wf (s\<lparr>delay_open_armed := b\<rparr>) = core_wf s"
  "core_wf (s\<lparr>keepalive := k\<rparr>) = core_wf s"
  "core_wf (s\<lparr>connect_retries := n\<rparr>) = core_wf s"
  "core_wf (s\<lparr>last_error := e\<rparr>) = core_wf s"
  "core_wf (s\<lparr>deadlines := d\<rparr>) = core_wf s"
  by (simp_all add: core_wf_def)

lemma core_wf_goto: "core_wf s \<Longrightarrow> core_wf (fsm_goto now st r s)"
  by (auto simp: core_wf_def established_at_goto)

lemma core_wf_hold: "core_wf s \<Longrightarrow> h \<le> cfg_hold_time (config s) \<Longrightarrow> core_wf (s\<lparr>hold_time := h\<rparr>)"
  by (simp add: core_wf_def)

lemma core_wf_idle_hold_0: "core_wf s \<Longrightarrow> core_wf (s\<lparr>idle_hold := 0\<rparr>)"
  by (simp add: core_wf_def cfg_wf_def le_max_iff_disj)

lemma timers_wf_count [simp]: "timers_wf (count_event ev s) = timers_wf s"
  by (simp add: timers_wf_def running_def pre_open_timers_def session_timers_def
        cong: fsm_state.case_cong)

lemma fsm_wf_count [simp]: "fsm_wf (count_event ev s) = fsm_wf s"
  by (simp add: fsm_wf_def)

lemma fsm_wfI: "core_wf s \<Longrightarrow> timers_wf s \<Longrightarrow> fsm_wf s"
  by (simp add: fsm_wf_def)

lemma fsm_wf_core: "fsm_wf s \<Longrightarrow> core_wf s"
  by (simp add: fsm_wf_def)

lemma fsm_wf_timers: "fsm_wf s \<Longrightarrow> timers_wf s"
  by (simp add: fsm_wf_def)

lemmas timer_defs = timers_wf_def running_def pre_open_timers_def session_timers_def

lemma bumped_bounds:
  assumes "cfg_wf c"
  shows "0 \<le> bumped c h" and "bumped c h \<le> max (idle_hold_start c) (idle_hold_max c)"
  using assms by (auto simp: bumped_def cfg_wf_def)

lemma core_wf_to_idle: "core_wf s \<Longrightarrow> core_wf (to_idle now r rel grow s)"
  by (auto simp: core_wf_def established_at_to_idle idle_hold_to_idle Let_def bumped_bounds
        le_max_iff_disj [of 0] cfg_wf_def [of "config s"] simp del: max_less_iff_conj)

lemma to_idle_wf: "core_wf s \<Longrightarrow> fsm_wf (to_idle now r rel grow s)"
  by (rule fsm_wfI, erule core_wf_to_idle)
     (auto simp: timers_wf_def running_def deadlines_to_idle Let_def split: if_splits)

lemma notify_and_idle_wf: "core_wf s \<Longrightarrow> fsm_wf (notify_and_idle now c sc r bs grow s)"
  unfolding notify_and_idle_def by (rule to_idle_wf) simp

section \<open>The shared steps keep the invariant\<close>

lemma start_connecting_wf:
  assumes "core_wf s" and "distinct (map fst (deadlines s))" and "running s \<subseteq> {T_IDLE_HOLD}"
    and "\<not> delay_open_armed s"
  shows "fsm_wf (start_connecting now s)"
proof (rule fsm_wfI)
  show "core_wf (start_connecting now s)"
    using assms(1) by (simp add: start_connecting_def Let_def core_wf_goto)
  show "timers_wf (start_connecting now s)"
    using assms(2-4) by (auto simp: start_connecting_def Let_def timer_defs)
qed

lemma send_open_and_wait_wf:
  assumes "core_wf s" and "distinct (map fst (deadlines s))" and "T_IDLE_HOLD \<notin> running s"
  shows "fsm_wf (send_open_and_wait now s)"
proof (rule fsm_wfI)
  show "core_wf (send_open_and_wait now s)"
    using assms(1) by (simp add: send_open_and_wait_def core_wf_goto)
  show "timers_wf (send_open_and_wait now s)"
    using assms(2,3) by (simp add: send_open_and_wait_def timer_defs)
qed

lemma connection_up_wf:
  assumes "fsm_wf s" and "fstate s \<in> {CONNECT, ACTIVE}"
  shows "fsm_wf (connection_up now s)"
proof (cases "delay_open (config s) > 0")
  case True
  have "core_wf s" and t: "timers_wf s" using assms(1) by (simp_all add: fsm_wf_def)
  then show ?thesis using assms(2) True
    by (intro fsm_wfI) (auto simp: connection_up_def Let_def timer_defs)
next
  case False
  have "core_wf s" and t: "timers_wf s" using assms(1) by (simp_all add: fsm_wf_def)
  then have "fsm_wf (send_open_and_wait now (fsm_stop [T_CONNECT_RETRY] s))"
    using assms(2) by (intro send_open_and_wait_wf) (auto simp: timer_defs)
  with False show ?thesis by (simp add: connection_up_def Let_def)
qed

lemma negotiate_wf:
  assumes "core_wf s" and "distinct (map fst (deadlines s))" and "T_IDLE_HOLD \<notin> running s"
    and "T_DELAY_OPEN \<notin> running s" and "\<not> delay_open_armed s"
  shows "fsm_wf (negotiate now kw s)"
proof (rule fsm_wfI)
  show "core_wf (negotiate now kw s)"
    using assms(1) by (simp add: negotiate_def Let_def core_wf_goto core_wf_hold)
  show "timers_wf (negotiate now kw s)"
    using assms(2-5) by (simp add: negotiate_def Let_def timer_defs)
qed

lemma open_during_delay_wf:
  assumes "fsm_wf s" and "fstate s \<in> {CONNECT, ACTIVE}"
  shows "fsm_wf (open_during_delay now kw s)"
  unfolding open_during_delay_def
  using assms by (intro negotiate_wf) (auto simp: fsm_wf_def timer_defs)

section \<open>Every handler keeps the invariant\<close>

lemma in_idle_wf:
  assumes "fsm_wf s" and "fstate s = IDLE"
  shows "fsm_wf (in_idle now ev kw s)"
proof -
  have c: "core_wf s" and t: "distinct (map fst (deadlines s))" "running s \<subseteq> {T_IDLE_HOLD}"
      "\<not> delay_open_armed s"
    using assms by (auto simp: fsm_wf_def timers_wf_def)
  have start: "fsm_wf (start_connecting now s')"
    if "core_wf s'" "distinct (map fst (deadlines s'))" "running s' \<subseteq> running s"
       "delay_open_armed s' = delay_open_armed s" for s'
    using that t by (intro start_connecting_wf) auto
  have refused: "fsm_wf (fsm_act a s)" for a
    using assms by (simp add: fsm_wf_def timer_defs)
  show ?thesis
    using c t assms(1)
    by (auto simp: in_idle_def Let_def refused core_wf_idle_hold_0 running_def intro!: start)
qed

lemma in_connect_wf:
  assumes "fsm_wf s" and "fstate s = CONNECT"
  shows "fsm_wf (in_connect now ev kw s)"
proof -
  have c: "core_wf s" using assms(1) by (rule fsm_wf_core)
  have retry: "fsm_wf (fsm_act ACT_CONNECT (fsm_arm now T_CONNECT_RETRY (connect_retry (config s))
           (fsm_act a (s\<lparr>connect_retries := n\<rparr>))))" for a n
    using assms by (simp add: fsm_wf_def timer_defs)
  have fails: "fsm_wf (fsm_goto now ACTIVE r (fsm_arm now T_CONNECT_RETRY
           (connect_retry (config s)) (fsm_stop [T_CONNECT_RETRY] s)))" for r
    using assms by (simp add: fsm_wf_def core_wf_goto timer_defs)
  have send: "fsm_wf (send_open_and_wait now s)"
    using assms by (intro send_open_and_wait_wf) (auto simp: fsm_wf_def timer_defs)
  show ?thesis
    using assms c
    by (simp add: in_connect_def retry fails send connection_up_wf open_during_delay_wf
          notify_and_idle_wf to_idle_wf)
qed

lemma in_active_wf:
  assumes "fsm_wf s" and "fstate s = ACTIVE"
  shows "fsm_wf (in_active now ev kw s)"
proof -
  have c: "core_wf s" using assms(1) by (rule fsm_wf_core)
  have rearm: "fsm_wf (fsm_arm now T_CONNECT_RETRY (connect_retry (config s)) s)"
    using assms by (auto simp: fsm_wf_def timer_defs)
  have retry: "fsm_wf (fsm_goto now CONNECT r (fsm_act ACT_CONNECT
      ((fsm_arm now T_CONNECT_RETRY (connect_retry (config s)) s)\<lparr>connect_retries := n\<rparr>)))" for r n
    using assms by (auto simp: fsm_wf_def core_wf_goto timer_defs)
  have send: "fsm_wf (send_open_and_wait now s)"
    using assms by (intro send_open_and_wait_wf) (auto simp: fsm_wf_def timer_defs)
  show ?thesis
    using assms c
    by (simp add: in_active_def Let_def rearm retry send connection_up_wf open_during_delay_wf
          notify_and_idle_wf to_idle_wf)
qed

lemma in_open_sent_wf:
  assumes "fsm_wf s" and "fstate s = OPEN_SENT"
  shows "fsm_wf (in_open_sent now ev kw s)"
proof -
  have c: "core_wf s" using assms(1) by (rule fsm_wf_core)
  have neg: "fsm_wf (negotiate now kw s)"
    using assms by (intro negotiate_wf) (auto simp: fsm_wf_def timer_defs)
  have fails: "fsm_wf (fsm_goto now ACTIVE r (fsm_act a (fsm_arm now T_CONNECT_RETRY
      (connect_retry (config s)) (fsm_stop_all s))))" for r a
    using assms by (simp add: fsm_wf_def core_wf_goto timer_defs)
  show ?thesis
    using assms(1) c
    by (simp add: in_open_sent_def neg fails unexpected_def notify_and_idle_wf to_idle_wf)
qed

lemma session_rearm_wf:
  assumes "fsm_wf s" and "fstate s \<in> {OPEN_CONFIRM, ESTABLISHED}"
  shows "fsm_wf (fsm_arm now T_KEEPALIVE (of_int (keepalive s)) (fsm_act a s))"
    and "fsm_wf (restart_hold now s)"
    and "fsm_wf (fsm_goto now ESTABLISHED r (fsm_act a (restart_hold now s)))"
  using assms by (auto simp: fsm_wf_def core_wf_goto timer_defs restart_hold_def)

lemma in_open_confirm_wf:
  assumes "fsm_wf s" and "fstate s = OPEN_CONFIRM"
  shows "fsm_wf (in_open_confirm now ev kw s)"
proof -
  have c: "core_wf s" using assms(1) by (rule fsm_wf_core)
  show ?thesis
    using assms c
    by (simp add: in_open_confirm_def unexpected_def session_rearm_wf notify_and_idle_wf to_idle_wf)
qed

lemma in_established_wf:
  assumes "fsm_wf s" and "fstate s = ESTABLISHED"
  shows "fsm_wf (in_established now ev kw s)"
proof -
  have c: "core_wf s" using assms(1) by (rule fsm_wf_core)
  have refuse: "fsm_wf (fsm_act a s)" for a
    using assms by (simp add: fsm_wf_def timer_defs)
  show ?thesis
    using assms c refuse
    by (simp add: in_established_def unexpected_def session_rearm_wf notify_and_idle_wf to_idle_wf)
qed

lemma handler_wf: "fsm_wf s \<Longrightarrow> fsm_wf (fsm_handler (fstate s) now ev kw s)"
  by (cases "fstate s")
     (simp_all add: in_idle_wf in_connect_wf in_active_wf in_open_sent_wf in_open_confirm_wf
        in_established_wf)

lemma manual_stop_wf:
  assumes "fsm_wf s"
  shows "fsm_wf (manual_stop now kw s)"
proof -
  let ?n = "notify_and_idle now NOTIFY_CEASE (get_default (kw_subcode kw) CEASE_ADMIN_SHUTDOWN)
      (get_default (kw_reason kw) ''administratively shut down'') [] False s"
  have stop: "fsm_wf (fsm_goto now IDLE r (fsm_act a (fsm_stop_all (u\<lparr>idle_hold := 0\<rparr>))))"
    if "core_wf u" "\<not> delay_open_armed u" for u r a
    using that by (intro fsm_wfI) (simp_all add: core_wf_goto core_wf_idle_hold_0 timer_defs)
  have n: "core_wf ?n" "\<not> delay_open_armed ?n"
    using assms fsm_wf_core [OF notify_and_idle_wf] by (simp_all add: fsm_wf_core notify_and_idle_def)
  have i: "core_wf s \<and> \<not> delay_open_armed s" if "fstate s = IDLE"
    using assms that by (auto simp: fsm_wf_def timer_defs)
  show ?thesis
    using i stop [OF n] by (simp add: manual_stop_def Let_def stop)
qed

lemma automatic_stop_wf: "fsm_wf s \<Longrightarrow> fsm_wf (automatic_stop now kw s)"
  by (simp add: automatic_stop_def notify_and_idle_wf fsm_wf_core)

lemma event_wf: "fsm_wf s \<Longrightarrow> fsm_wf (fsm_event now ev kw s)"
  using handler_wf [of "count_event ev s" now ev kw]
  by (simp add: fsm_event_def Let_def manual_stop_wf automatic_stop_wf)

lemma abandon_wf:
  assumes "fsm_wf s"
  shows "fsm_wf (snd (abandon_connection now r s))"
proof (cases "fstate s")
  case IDLE
  with assms show ?thesis by (simp add: abandon_connection_def)
next
  case ESTABLISHED
  with assms show ?thesis by (simp add: abandon_connection_def)
qed (use assms in \<open>simp_all add: abandon_connection_def Let_def fsm_wf_def core_wf_goto core_wf_hold timer_defs\<close>)

section \<open>A timer firing keeps the invariant\<close>

text \<open>
  \<open>tick\<close> first removes the deadline and then feeds the event, so the state in between may
  lack a timer the state needs; the handler restores it.
\<close>

lemma fire_timer_cases:
  "fire_timer clk t s =
     fsm_handler (fstate s) clk (TIMER_EVENT t) no_kw
       (count_event (TIMER_EVENT t) (s\<lparr>deadlines := dict_pop t (deadlines s)\<rparr>))"
  by (cases t) (simp_all add: fire_timer_def fsm_event_def Let_def)

lemma pop_wf:
  assumes "fsm_wf s" and "t \<noteq> T_DELAY_OPEN"
    and "fstate s \<in> {CONNECT, ACTIVE} \<Longrightarrow> t \<noteq> T_CONNECT_RETRY"
    and "fstate s = OPEN_SENT \<Longrightarrow> t \<noteq> T_HOLD"
    and "fstate s \<in> {OPEN_CONFIRM, ESTABLISHED} \<Longrightarrow> t \<noteq> T_HOLD \<and> t \<noteq> T_KEEPALIVE"
  shows "fsm_wf (s\<lparr>deadlines := dict_pop t (deadlines s)\<rparr>)"
  using assms by (cases "fstate s") (auto simp: fsm_wf_def timer_defs)

lemma fire_hold_wf: "fsm_wf s \<Longrightarrow> fsm_wf (fire_timer clk T_HOLD s)"
  using pop_wf [of s T_HOLD]
  by (cases "fstate s")
     (simp_all add: fire_timer_cases in_idle_def in_connect_def in_active_def in_open_sent_def
        in_open_confirm_def in_established_def CONNECTION_EVENTS_def notify_and_idle_wf fsm_wf_core)

lemma fire_idle_hold_wf:
  assumes "fsm_wf s"
  shows "fsm_wf (fire_timer clk T_IDLE_HOLD s)"
proof (cases "fstate s")
  case IDLE
  let ?s = "s\<lparr>deadlines := dict_pop T_IDLE_HOLD (deadlines s)\<rparr>"
  have "fsm_wf ?s" using assms IDLE by (intro pop_wf) simp_all
  moreover have "fstate ?s = IDLE" using IDLE by simp
  ultimately show ?thesis
    using IDLE in_idle_wf [of "count_event EV_IDLE_HOLD_EXPIRED ?s"] by (simp add: fire_timer_cases)
qed (use assms pop_wf [of s T_IDLE_HOLD] in \<open>simp_all add: fire_timer_cases handler_wf
   in_connect_def in_active_def in_open_sent_def in_open_confirm_def in_established_def
   CONNECTION_EVENTS_def unexpected_def\<close>)

lemma fire_connect_retry_wf:
  assumes "fsm_wf s"
  shows "fsm_wf (fire_timer clk T_CONNECT_RETRY s)"
proof (cases "fstate s \<in> {CONNECT, ACTIVE}")
  case True
  then consider "fstate s = CONNECT" | "fstate s = ACTIVE" by blast
  then show ?thesis using assms
    by cases (simp_all add: fire_timer_cases in_connect_def in_active_def Let_def fsm_wf_def
        core_wf_goto timer_defs)
next
  case False
  then have "fsm_wf (s\<lparr>deadlines := dict_pop T_CONNECT_RETRY (deadlines s)\<rparr>)"
    using assms by (intro pop_wf) simp_all
  with False show ?thesis
    by (cases "fstate s") (simp_all add: fire_timer_cases in_idle_def in_open_sent_def
        in_open_confirm_def in_established_def CONNECTION_EVENTS_def unexpected_def)
qed

lemma fire_keepalive_wf:
  assumes "fsm_wf s"
  shows "fsm_wf (fire_timer clk T_KEEPALIVE s)"
proof (cases "fstate s \<in> {OPEN_CONFIRM, ESTABLISHED}")
  case True
  then consider "fstate s = OPEN_CONFIRM" | "fstate s = ESTABLISHED" by blast
  then show ?thesis using assms
    by cases (simp_all add: fire_timer_cases in_open_confirm_def in_established_def fsm_wf_def
        timer_defs, linarith+)
next
  case False
  then have "fsm_wf (s\<lparr>deadlines := dict_pop T_KEEPALIVE (deadlines s)\<rparr>)"
    using assms by (intro pop_wf) simp_all
  with False show ?thesis
    by (cases "fstate s") (simp_all add: fire_timer_cases in_idle_def in_open_sent_def
        in_connect_def in_active_def CONNECTION_EVENTS_def unexpected_def)
qed

lemma fire_delay_open_wf:
  assumes "fsm_wf s" and "T_DELAY_OPEN \<in> running s"
  shows "fsm_wf (fire_timer clk T_DELAY_OPEN s)"
proof -
  let ?s = "count_event EV_DELAY_OPEN_EXPIRED (s\<lparr>deadlines := dict_pop T_DELAY_OPEN (deadlines s)\<rparr>)"
  have st: "fstate s \<in> {CONNECT, ACTIVE}"
    using assms by (cases "fstate s") (auto simp: fsm_wf_def timer_defs)
  have "fsm_wf (send_open_and_wait clk ?s)"
    using assms st by (intro send_open_and_wait_wf) (auto simp: fsm_wf_def timer_defs)
  then show ?thesis
    using st by (auto simp: fire_timer_cases in_connect_def in_active_def CONNECTION_EVENTS_def)
qed

lemma fire_timer_wf: "fsm_wf s \<Longrightarrow> t \<in> running s \<Longrightarrow> fsm_wf (fire_timer clk t s)"
  by (cases t) (simp_all add: fire_hold_wf fire_keepalive_wf fire_connect_retry_wf
      fire_idle_hold_wf fire_delay_open_wf)

section \<open>The timer loop\<close>

lemma pick_due_result:
  assumes "pick_due now ds acc = Some (t, d)"
  shows "(t, d) \<in> set ds \<and> d \<le> now \<or> acc = Some (t, d)"
  using assms
proof (induction now ds acc rule: pick_due.induct)
  case (2 now t' d' ds acc)
  then show ?case by (auto split: if_splits)
qed auto

lemma pick_due_le:
  assumes "pick_due now ds acc = Some (t, d)"
  shows "(\<forall>(t', d') \<in> set ds. d' \<le> now \<longrightarrow> d \<le> d') \<and> (\<forall>t' d'. acc = Some (t', d') \<longrightarrow> d \<le> d')"
  using assms
proof (induction now ds acc rule: pick_due.induct)
  case (2 now t' d' ds acc)
  show ?case
  proof (cases "d' \<le> now \<and> (case acc of None \<Rightarrow> True | Some (_, due_at) \<Rightarrow> d' < due_at)")
    case True
    with 2 show ?thesis by (fastforce split: option.splits)
  next
    case False
    with 2 have "(\<forall>(t', d') \<in> set ds. d' \<le> now \<longrightarrow> d \<le> d')"
      and "\<forall>t' d'. acc = Some (t', d') \<longrightarrow> d \<le> d'"
      by auto
    with False show ?thesis by (fastforce split: option.splits)
  qed
qed auto

lemma pick_due_None: "pick_due now ds None = None \<longleftrightarrow> (\<forall>(t, d) \<in> set ds. now < d)"
proof -
  have some: "pick_due now es (Some x) \<noteq> None" for x es
    by (induction now es "Some x" arbitrary: x rule: pick_due.induct) auto
  show ?thesis
    by (induction ds) (auto simp: some not_le split: if_splits)
qed

definition due_timers :: "time \<Rightarrow> fsm \<Rightarrow> fsm_timer set" where
  "due_timers now s = fst ` {x \<in> set (deadlines s). snd x \<le> now}"

lemma finite_due_timers [simp]: "finite (due_timers now s)"
  by (simp add: due_timers_def)

text \<open>Whatever a step adds to the deadlines lies after \<open>now\<close>.\<close>

definition only_later :: "time \<Rightarrow> (fsm_timer \<times> time) set \<Rightarrow> fsm \<Rightarrow> bool" where
  "only_later now D s \<longleftrightarrow> (\<forall>x \<in> set (deadlines s). x \<in> D \<or> now < snd x)"

lemma only_later_arm [simp]:
  "only_later now D s \<Longrightarrow> now \<le> clk \<Longrightarrow> only_later now D (fsm_arm clk t d s)"
  using set_dict_set [of t "clk + d" "deadlines s"] set_dict_pop [of t "deadlines s"]
  by (auto simp: only_later_def fsm_arm_def)

lemma only_later_stop [simp]: "only_later now D s \<Longrightarrow> only_later now D (fsm_stop ts s)"
proof -
  have "set (foldl (\<lambda>d t. dict_pop t d) d ts) \<subseteq> set d" for d :: "(fsm_timer, time) pydict"
    using set_dict_pop by (induction ts arbitrary: d) (simp, fastforce)
  then show "only_later now D s \<Longrightarrow> ?thesis" by (auto simp: only_later_def fsm_stop_def)
qed

lemma only_later_frame [simp]:
  "only_later now D (fsm_act a s) = only_later now D s"
  "only_later now D (fsm_goto clk st r s) = only_later now D s"
  "only_later now D (note_notification kw s) = only_later now D s"
  "only_later now D (count_event ev s) = only_later now D s"
  "only_later now D (s\<lparr>delay_open_armed := b\<rparr>) = only_later now D s"
  "only_later now D (s\<lparr>hold_time := h\<rparr>) = only_later now D s"
  "only_later now D (s\<lparr>keepalive := h\<rparr>) = only_later now D s"
  "only_later now D (s\<lparr>connect_retries := n\<rparr>) = only_later now D s"
  "only_later now D (s\<lparr>last_error := e\<rparr>) = only_later now D s"
  "only_later now D (s\<lparr>idle_hold := i\<rparr>) = only_later now D s"
  "only_later now D (fsm_stop_all s)"
  by (simp_all add: only_later_def)

lemma only_later_to_idle [simp]: "now \<le> clk \<Longrightarrow> only_later now D (to_idle clk r rel grow s)"
  by (cases grow) (auto simp: only_later_def deadlines_to_idle Let_def)

lemma only_later_notify [simp]: "now \<le> clk \<Longrightarrow> only_later now D (notify_and_idle clk c sc r bs grow s)"
  by (simp add: notify_and_idle_def)

lemma only_later_steps [simp]:
  assumes "only_later now D s" and "now \<le> clk"
  shows "only_later now D (start_connecting clk s)" and "only_later now D (send_open_and_wait clk s)"
    and "only_later now D (connection_up clk s)" and "only_later now D (negotiate clk kw s)"
    and "only_later now D (open_during_delay clk kw s)" and "only_later now D (restart_hold clk s)"
  using assms by (simp_all add: start_connecting_def send_open_and_wait_def connection_up_def
      negotiate_def open_during_delay_def restart_hold_def Let_def)

lemma only_later_handler:
  "only_later now D s \<Longrightarrow> now \<le> clk \<Longrightarrow> only_later now D (fsm_handler st clk ev kw s)"
  by (cases st) (simp_all add: in_idle_def in_connect_def in_active_def in_open_sent_def
      in_open_confirm_def in_established_def unexpected_def Let_def)

lemma due_timers_fire:
  assumes "now \<le> clk" and "t \<in> due_timers now s"
  shows "due_timers now (fire_timer clk t s) \<subset> due_timers now s"
proof -
  let ?D = "set (dict_pop t (deadlines s))"
  have "only_later now ?D (fire_timer clk t s)"
    unfolding fire_timer_cases
    by (rule only_later_handler) (use assms(1) in \<open>simp_all add: only_later_def\<close>)
  then have sub: "due_timers now (fire_timer clk t s) \<subseteq> fst ` {x \<in> ?D. snd x \<le> now}"
    by (fastforce simp: due_timers_def only_later_def)
  have "t \<notin> dict_keys (dict_pop t (deadlines s))" by simp
  with sub have "t \<notin> due_timers now (fire_timer clk t s)" by blast
  moreover have "fst ` {x \<in> ?D. snd x \<le> now} \<subseteq> due_timers now s"
    using set_dict_pop [of t "deadlines s"] by (auto simp: due_timers_def)
  ultimately show ?thesis using sub assms(2) by blast
qed

text \<open>The loop stops after at most as many firings as there were due timers, keeps the
  invariant, and leaves no deadline in the past.\<close>

lemma tick_loop_total:
  assumes "now \<le> clk" and "fsm_wf s"
  shows "\<exists>n s'. tick_loop clk now k s = Some (n, s') \<and> n \<le> k + card (due_timers now s)
           \<and> fsm_wf s' \<and> (\<forall>(t, d) \<in> set (deadlines s'). now < d)"
  using assms(2)
proof (induction "card (due_timers now s)" arbitrary: s k rule: less_induct)
  case less
  show ?case
  proof (cases "pick_due now (deadlines s) None")
    case None
    then have "tick_loop clk now k s = Some (k, s)" by (simp add: tick_loop.simps)
    with None less.prems show ?thesis by (auto simp: pick_due_None)
  next
    case (Some x)
    then obtain t d where x: "pick_due now (deadlines s) None = Some (t, d)" by (cases x) auto
    then have m: "(t, d) \<in> set (deadlines s)" "d \<le> now" using pick_due_result by fastforce+
    then have t: "t \<in> due_timers now s" "t \<in> running s"
      by (force simp: due_timers_def running_def)+
    have sub: "due_timers now (fire_timer clk t s) \<subset> due_timers now s"
      using assms(1) t(1) by (rule due_timers_fire)
    then have c: "card (due_timers now (fire_timer clk t s)) < card (due_timers now s)"
      by (simp add: psubset_card_mono)
    from less.hyps [OF c fire_timer_wf [OF less.prems t(2)], of "k + 1"]
    obtain n s' where "tick_loop clk now (k + 1) (fire_timer clk t s) = Some (n, s')"
      and n: "n \<le> k + 1 + card (due_timers now (fire_timer clk t s))" and r: "fsm_wf s'"
      "\<forall>(t, d) \<in> set (deadlines s'). now < d"
      by blast
    then have "tick_loop clk now k s = Some (n, s')" using x by (simp add: tick_loop.simps [of clk now k s])
    with n r c show ?thesis by auto
  qed
qed

section \<open>Runs\<close>

text \<open>What the caller may do to a machine: feed an event, let the due timers fire, give a
  connection up, or drain the action queue.\<close>

datatype fsm_input =
    In_event time event_code fsm_kw
  | In_tick time
  | In_abandon time string
  | In_take

fun fsm_input_step :: "fsm \<Rightarrow> fsm_input \<Rightarrow> fsm" where
  "fsm_input_step s (In_event now ev kw) = fsm_event now ev kw s"
| "fsm_input_step s (In_tick now) =
     (case fsm_tick now None s of None \<Rightarrow> s | Some (n, s') \<Rightarrow> s')"
| "fsm_input_step s (In_abandon now r) = snd (abandon_connection now r s)"
| "fsm_input_step s In_take = snd (take_actions s)"

lemma take_actions_wf: "fsm_wf s \<Longrightarrow> fsm_wf (snd (take_actions s))"
  by (simp add: take_actions_def fsm_wf_def core_wf_def timers_wf_def running_def
      pre_open_timers_def session_timers_def cong: fsm_state.case_cong)

lemma tick_wf: "fsm_wf s \<Longrightarrow> fsm_tick now None s = Some (n, s') \<Longrightarrow> fsm_wf s'"
  using tick_loop_total [of now now s 0] by (auto simp: fsm_tick_def)

lemma fsm_input_step_wf: "fsm_wf s \<Longrightarrow> fsm_wf (fsm_input_step s i)"
  by (cases i) (auto simp: event_wf abandon_wf take_actions_wf tick_wf split: option.splits)

interpretation fsm_machine: invariant_machine fsm_input_step fsm_wf
  by unfold_locales (rule fsm_input_step_wf)

lemma new_fsm_config_wf:
  "new_fsm_config h ka retry dop pas st mx auto = Inr c \<Longrightarrow> 0 \<le> st \<Longrightarrow> 0 \<le> mx \<Longrightarrow> cfg_wf c"
  by (auto simp: new_fsm_config_def cfg_wf_def Let_def split: if_splits option.splits)

lemma new_fsm_wf: "cfg_wf c \<Longrightarrow> fsm_wf (new_fsm c now)"
  by (auto simp: new_fsm_def fsm_wf_def core_wf_def timers_wf_def running_def cfg_wf_def)


section \<open>Sample machines for the witnesses\<close>

definition sample_config :: fsm_config where
  "sample_config = \<lparr>cfg_hold_time = 90, cfg_keepalive = 30, connect_retry = 120, delay_open = 5,
     cfg_passive = False, idle_hold_start = 1, idle_hold_max = 3600, allow_automatic_start = True\<rparr>"

definition sample_up :: fsm where
  "sample_up = (new_fsm sample_config 0)\<lparr>fstate := ESTABLISHED, established_at := Some 0,
     deadlines := [(T_HOLD, 90), (T_KEEPALIVE, 30)]\<rparr>"

lemma sample_config_wf: "cfg_wf sample_config"
  by (simp add: sample_config_def cfg_wf_def)

lemma sample_up_wf: "fsm_wf sample_up"
  by (simp add: sample_up_def new_fsm_def sample_config_def fsm_wf_def core_wf_def timers_wf_def
      running_def session_timers_def cfg_wf_def)

section \<open>Properties\<close>

text \<open>C1. Whatever sequence of events, timer passes, abandoned connections and queue drains a
  machine built from an accepted configuration goes through, its state stays well formed: the
  running timers fit the state (only the backoff timer in Idle, a hold timer in OpenSent, hold
  and keepalive timers in OpenConfirm and Established exactly when the negotiated hold time is
  positive, a retry or delay-open timer in Connect and Active), the Established stamp is set
  exactly in Established and the backoff stays within its bounds.\<close>

theorem fsm_run_well_formed:
  assumes "new_fsm_config h ka retry dop pas st mx auto = Inr c" and "0 \<le> st" and "0 \<le> mx"
  shows "fsm_wf (foldl fsm_input_step (new_fsm c t0) ins)"
  using assms by (intro fsm_machine.run_inv new_fsm_wf new_fsm_config_wf)

theorem fsm_run_well_formed_witness:
  "fsm_wf (foldl fsm_input_step (new_fsm sample_config 0)
     [In_event 0 EV_MANUAL_START no_kw, In_event 1 EV_TCP_CONFIRMED no_kw, In_tick 6, In_take])"
  by (rule fsm_run_well_formed [of 90 None 120 5 False 1 3600 True])
     (simp_all add: new_fsm_config_def sample_config_def)

text \<open>C12. The timer loop stops: from a well-formed state one pass fires at most as many timers
  as are running and leaves no deadline at or before the clock's reading.\<close>

theorem fsm_tick_terminates:
  assumes "fsm_wf s"
  shows "\<exists>n s'. fsm_tick clk None s = Some (n, s') \<and> n \<le> length (deadlines s)
           \<and> (\<forall>(t, d) \<in> set (deadlines s'). clk < d)"
proof -
  have "card (due_timers clk s) \<le> card (set (deadlines s))"
    unfolding due_timers_def
    by (rule order_trans [OF card_image_le card_mono]) auto
  also have "\<dots> \<le> length (deadlines s)" by (rule card_length)
  finally show ?thesis
    using tick_loop_total [OF order_refl assms, of clk 0] by (fastforce simp: fsm_tick_def)
qed

theorem fsm_tick_terminates_witness:
  "\<exists>n s'. fsm_tick 1000 None sample_up = Some (n, s') \<and> n \<le> length (deadlines sample_up)
     \<and> (\<forall>(t, d) \<in> set (deadlines s'). 1000 < d)"
  by (rule fsm_tick_terminates [OF sample_up_wf])



text \<open>Established is entered in one way only: a KEEPALIVE message in OpenConfirm.\<close>

theorem fsm_established_entry:
  assumes "fstate s \<noteq> ESTABLISHED"
  shows "fstate (fsm_event now ev kw s) = ESTABLISHED \<longleftrightarrow>
           fstate s = OPEN_CONFIRM \<and> ev = EV_KEEPALIVE_MSG"
  using assms
  by (cases "fstate s")
     (simp_all add: fsm_event_def manual_stop_def automatic_stop_def Let_def in_idle_def in_connect_def
       in_active_def in_open_sent_def in_open_confirm_def unexpected_def CONNECTION_EVENTS_def
       start_connecting_def connection_up_def send_open_and_wait_def open_during_delay_def
       negotiate_def)

theorem fsm_established_entry_witness:
  "fstate (new_fsm sample_config 0) \<noteq> ESTABLISHED \<and>
   fstate (fsm_event 0 EV_KEEPALIVE_MSG no_kw (new_fsm sample_config 0)) \<noteq> ESTABLISHED"
proof -
  have h: "fstate (new_fsm sample_config 0) \<noteq> ESTABLISHED" by (simp add: new_fsm_def)
  show ?thesis using h fsm_established_entry [OF h, of 0 EV_KEEPALIVE_MSG no_kw]
    by (simp add: new_fsm_def)
qed

text \<open>How a session is torn down: at most one NOTIFICATION, then the drop, then the release of
  the peer's routes, then possibly the listen-only request of a manual stop.\<close>

definition is_notify :: "fsm_action \<Rightarrow> bool" where
  "is_notify a = (case a of ACT_SEND_NOTIFY c sc bs \<Rightarrow> True | _ \<Rightarrow> False)"

definition is_drop :: "fsm_action \<Rightarrow> bool" where
  "is_drop a = (case a of ACT_DROP r \<Rightarrow> True | _ \<Rightarrow> False)"

definition teardown :: "fsm_action list \<Rightarrow> bool" where
  "teardown as \<longleftrightarrow>
     (let bs = dropWhile is_notify as
      in length as \<le> length bs + 1 \<and>
         (case bs of d # r # rest \<Rightarrow> is_drop d \<and> r = ACT_RELEASE \<and> (rest = [] \<or> rest = [ACT_LISTEN_ONLY])
          | _ \<Rightarrow> False))"

lemma teardown_simps:
  "teardown [ACT_SEND_NOTIFY c sc bs, ACT_DROP r, ACT_RELEASE]"
  "teardown [ACT_DROP r, ACT_RELEASE]"
  "teardown [ACT_SEND_NOTIFY c sc bs, ACT_DROP r, ACT_RELEASE, ACT_LISTEN_ONLY]"
  by (simp_all add: teardown_def is_notify_def is_drop_def)

lemma fstate_restart_hold [simp]: "fstate (restart_hold now s) = fstate s"
  by (simp add: restart_hold_def)

lemma in_established_exit:
  assumes "fstate s = ESTABLISHED" and "fstate (in_established now ev kw s) \<noteq> ESTABLISHED"
  shows "fstate (in_established now ev kw s) = IDLE
      \<and> take (length (actions s)) (actions (in_established now ev kw s)) = actions s
      \<and> teardown (drop (length (actions s)) (actions (in_established now ev kw s)))"
  using assms unfolding in_established_def unexpected_def
  by (simp add: teardown_simps split: if_split_asm)

text \<open>C11. An Established session ends only in Idle, and the actions it queues then are, in this
  order, at most one NOTIFICATION, the drop of the connection and the release of the peer's
  routes (and nothing after them but the listen-only request of a manual stop). A second TCP
  connection never ends it: it is refused and nothing else changes.\<close>

theorem fsm_established_exit:
  assumes "fstate s = ESTABLISHED"
  shows "(fstate (fsm_event now ev kw s) \<noteq> ESTABLISHED \<longrightarrow>
      fstate (fsm_event now ev kw s) = IDLE
      \<and> take (length (actions s)) (actions (fsm_event now ev kw s)) = actions s
      \<and> teardown (drop (length (actions s)) (actions (fsm_event now ev kw s))))
    \<and> (ev \<in> set CONNECTION_EVENTS \<longrightarrow>
      fsm_event now ev kw s =
        fsm_act (ACT_REFUSE ''second connection to an established peer'') (count_event ev s))"
proof (rule conjI; rule impI)
  assume "fstate (fsm_event now ev kw s) \<noteq> ESTABLISHED"
  then show "fstate (fsm_event now ev kw s) = IDLE
      \<and> take (length (actions s)) (actions (fsm_event now ev kw s)) = actions s
      \<and> teardown (drop (length (actions s)) (actions (fsm_event now ev kw s)))"
    using assms in_established_exit [of "count_event ev s" now ev kw]
    by (simp add: fsm_event_def manual_stop_def automatic_stop_def Let_def teardown_simps split: if_split_asm)
next
  assume "ev \<in> set CONNECTION_EVENTS"
  with assms show "fsm_event now ev kw s =
        fsm_act (ACT_REFUSE ''second connection to an established peer'') (count_event ev s)"
    by (auto simp: fsm_event_def in_established_def CONNECTION_EVENTS_def)
qed

theorem fsm_established_exit_witness:
  "fstate (fsm_event 90 EV_HOLD_EXPIRED no_kw sample_up) = IDLE \<and>
   fsm_event 9 EV_TCP_CONFIRMED no_kw sample_up =
     fsm_act (ACT_REFUSE ''second connection to an established peer'')
       (count_event EV_TCP_CONFIRMED sample_up)"
proof -
  have e: "fstate sample_up = ESTABLISHED" by (simp add: sample_up_def new_fsm_def)
  then have h: "fstate (fsm_event 90 EV_HOLD_EXPIRED no_kw sample_up) \<noteq> ESTABLISHED"
    by (simp add: fsm_event_def Let_def in_established_def)
  show ?thesis
    using fsm_established_exit [OF e, THEN conjunct1, THEN mp, OF h]
      fsm_established_exit [OF e, of 9 EV_TCP_CONFIRMED no_kw]
    by (simp add: CONNECTION_EVENTS_def)
qed

text \<open>The inputs that may take a stopped machine out of Idle: the two starts, and an idle-hold
  expiry that is raised from outside, the timer that raises it not running.\<close>

definition starting :: "fsm_input \<Rightarrow> bool" where
  "starting i = (case i of
      In_event now ev kw \<Rightarrow> ev \<in> {EV_MANUAL_START, EV_AUTOMATIC_START, EV_IDLE_HOLD_EXPIRED}
    | _ \<Rightarrow> False)"

definition at_rest :: "fsm \<Rightarrow> bool" where
  "at_rest s \<longleftrightarrow> fstate s = IDLE \<and> deadlines s = [] \<and> idle_hold s = 0"

lemma at_rest_step: "at_rest s \<Longrightarrow> \<not> starting i \<Longrightarrow> at_rest (fsm_input_step s i)"
  by (cases i)
     (auto simp: at_rest_def starting_def fsm_event_def manual_stop_def automatic_stop_def Let_def in_idle_def
       abandon_connection_def take_actions_def fsm_tick_def tick_loop.simps)

lemma at_rest_run: "at_rest s \<Longrightarrow> list_all (\<lambda>i. \<not> starting i) ins \<Longrightarrow> at_rest (foldl fsm_input_step s ins)"
  by (induction ins arbitrary: s) (simp_all add: at_rest_step)

text \<open>C14. A manual stop wins in every state: the machine is Idle with no timer running and no
  backoff, a session that was up is told why (Cease) before its connection is dropped, and no run
  of timer passes, abandoned connections, queue drains and events leaves Idle afterwards, unless
  one of the events is a start or an idle-hold expiry raised from outside the machine.\<close>

theorem fsm_manual_stop_is_final:
  assumes "list_all (\<lambda>i. \<not> starting i) ins"
  shows "fstate (foldl fsm_input_step (fsm_event now EV_MANUAL_STOP kw s) ins) = IDLE
    \<and> deadlines (foldl fsm_input_step (fsm_event now EV_MANUAL_STOP kw s) ins) = []
    \<and> idle_hold (foldl fsm_input_step (fsm_event now EV_MANUAL_STOP kw s) ins) = 0
    \<and> (fstate s \<noteq> IDLE \<longrightarrow> actions (fsm_event now EV_MANUAL_STOP kw s) = actions s @
      [ACT_SEND_NOTIFY NOTIFY_CEASE (get_default (kw_subcode kw) CEASE_ADMIN_SHUTDOWN) [],
       ACT_DROP (get_default (kw_reason kw) ''administratively shut down''), ACT_RELEASE,
       ACT_LISTEN_ONLY])"
proof -
  have "at_rest (fsm_event now EV_MANUAL_STOP kw s)"
    by (simp add: at_rest_def fsm_event_def manual_stop_def Let_def)
  from at_rest_run [OF this assms] show ?thesis
    by (simp add: at_rest_def) (simp add: fsm_event_def manual_stop_def Let_def)
qed

theorem fsm_manual_stop_is_final_witness:
  "fstate (foldl fsm_input_step (fsm_event 5 EV_MANUAL_STOP no_kw sample_up)
      [In_tick 1000, In_event 1001 EV_TCP_CONFIRMED no_kw, In_take]) = IDLE
   \<and> length (actions (fsm_event 5 EV_MANUAL_STOP no_kw sample_up)) = 4"
proof -
  have n: "fstate sample_up \<noteq> IDLE" and a: "actions sample_up = []"
    by (simp_all add: sample_up_def new_fsm_def)
  have "list_all (\<lambda>i. \<not> starting i) [In_tick 1000, In_event 1001 EV_TCP_CONFIRMED no_kw, In_take]"
    by (simp add: starting_def)
  from fsm_manual_stop_is_final [OF this, of 5 no_kw sample_up] a n show ?thesis by simp
qed

lemma hold_negotiate: "hold_time (negotiate now kw s) =
    min (cfg_hold_time (config s)) (get_default (kw_hold_time kw) (cfg_hold_time (config s)))"
  by (simp add: negotiate_def Let_def)

definition scaled_keepalive :: "fsm_config \<Rightarrow> int \<Rightarrow> int" where
  "scaled_keepalive c h =
    (if cfg_hold_time c \<noteq> 0 then max 1 (h * cfg_keepalive c div cfg_hold_time c)
     else max 1 (h div 3))"

lemma negotiate_alt: "negotiate now kw s =
    (let h = min (cfg_hold_time (config s)) (get_default (kw_hold_time kw) (cfg_hold_time (config s)));
         ka = scaled_keepalive (config s) h;
         s2 = (if h \<noteq> 0 then fsm_arm now T_KEEPALIVE (of_int ka) (fsm_arm now T_HOLD (of_int h)
                 (s\<lparr>hold_time := h, keepalive := ka\<rparr>))
               else fsm_stop [T_HOLD, T_KEEPALIVE] (s\<lparr>hold_time := h, keepalive := 0\<rparr>))
     in fsm_goto now OPEN_CONFIRM (Some (''OPEN received, hold time '' @ int_str h))
          (fsm_act ACT_SEND_KEEPALIVE s2))"
  unfolding negotiate_def Let_def scaled_keepalive_def by (rule refl)

lemma keepalive_negotiate: "keepalive (negotiate now kw s) =
    (if hold_time (negotiate now kw s) = 0 then 0
     else scaled_keepalive (config s) (hold_time (negotiate now kw s)))"
  by (simp add: negotiate_alt Let_def)

lemma scaled_keepalive_less:
  fixes h k c :: int
  assumes "0 < h" and "0 < c" and "k < c"
  shows "h * k div c < h"
proof -
  have "h * k div c * c = h * k - h * k mod c" by (rule minus_mod_eq_div_mult [symmetric])
  moreover have "0 \<le> h * k mod c" using assms(2) by (rule pos_mod_sign)
  moreover have "h * k < h * c" using assms(1,3) by (rule mult_strict_left_mono [rotated])
  ultimately have "h * k div c * c < h * c" by linarith
  then show ?thesis using assms(2) by (rule mult_right_less_imp_less [OF _ less_imp_le])
qed

lemma negotiate_running_none:
  assumes "hold_time (negotiate now kw s) = 0"
  shows "T_HOLD \<notin> running (negotiate now kw s)" and "T_KEEPALIVE \<notin> running (negotiate now kw s)"
  using assms [unfolded hold_negotiate] by (simp_all add: negotiate_def Let_def running_def)

text \<open>Both ends of a session compute the same hold time, the smaller of the two proposals (0
  switches the timers off), and with positive proposals the keepalive interval stays at least a
  second and below the hold time; a peer that proposes the configured hold time leaves the
  configured keepalive interval unchanged.\<close>

theorem fsm_negotiation:
  assumes "cfg_wf (config a)" and "cfg_wf (config b)"
    and "kw_hold_time kwa = Some (cfg_hold_time (config b))"
    and "kw_hold_time kwb = Some (cfg_hold_time (config a))"
  shows "hold_time (negotiate now kwa a) = min (cfg_hold_time (config a)) (cfg_hold_time (config b))
    \<and> hold_time (negotiate now kwa a) = hold_time (negotiate now' kwb b)
    \<and> (hold_time (negotiate now kwa a) \<noteq> 0 \<longrightarrow>
      1 \<le> keepalive (negotiate now kwa a) \<and>
      keepalive (negotiate now kwa a) < hold_time (negotiate now kwa a))
    \<and> (hold_time (negotiate now kwa a) = 0 \<longrightarrow>
      T_HOLD \<notin> running (negotiate now kwa a) \<and> T_KEEPALIVE \<notin> running (negotiate now kwa a))
    \<and> (cfg_hold_time (config b) = cfg_hold_time (config a) \<and> 1 \<le> cfg_keepalive (config a)
      \<and> cfg_hold_time (config a) \<noteq> 0 \<longrightarrow> keepalive (negotiate now kwa a) = cfg_keepalive (config a))"
proof (intro conjI impI; (elim conjE)?)
  let ?h = "hold_time (negotiate now kwa a)"
  show h: "?h = min (cfg_hold_time (config a)) (cfg_hold_time (config b))"
    using assms(3) by (simp add: hold_negotiate)
  then show "?h = hold_time (negotiate now' kwb b)"
    using assms(4) by (simp add: hold_negotiate min.commute)
  show "1 \<le> keepalive (negotiate now kwa a)" "keepalive (negotiate now kwa a) < ?h" if "?h \<noteq> 0"
  proof -
    have c: "3 \<le> cfg_hold_time (config a)" "3 \<le> ?h" "cfg_keepalive (config a) < cfg_hold_time (config a)"
      using h that assms(1,2) by (auto simp: cfg_wf_def)
    then have "?h * cfg_keepalive (config a) div cfg_hold_time (config a) < ?h"
      by (intro scaled_keepalive_less) simp_all
    with c show "1 \<le> keepalive (negotiate now kwa a)" "keepalive (negotiate now kwa a) < ?h"
      by (simp_all add: keepalive_negotiate scaled_keepalive_def)
  qed
  show "T_HOLD \<notin> running (negotiate now kwa a)" "T_KEEPALIVE \<notin> running (negotiate now kwa a)"
    if "?h = 0"
    using that by (simp_all add: negotiate_running_none)
  show "keepalive (negotiate now kwa a) = cfg_keepalive (config a)"
    if "cfg_hold_time (config b) = cfg_hold_time (config a)" "1 \<le> cfg_keepalive (config a)"
      "cfg_hold_time (config a) \<noteq> 0"
    using that h by (simp add: keepalive_negotiate scaled_keepalive_def)
qed

theorem fsm_negotiation_witness:
  "hold_time (negotiate 0 (no_kw\<lparr>kw_hold_time := Some 90\<rparr>) (new_fsm sample_config 0)) = 90
   \<and> keepalive (negotiate 0 (no_kw\<lparr>kw_hold_time := Some 90\<rparr>) (new_fsm sample_config 0)) = 30"
proof -
  have c: "config (new_fsm cf t) = cf" for cf t by (simp add: new_fsm_def)
  have w: "cfg_wf (config (new_fsm sample_config 0))" using sample_config_wf c by simp
  have k: "kw_hold_time (no_kw\<lparr>kw_hold_time := Some 90\<rparr>) =
      Some (cfg_hold_time (config (new_fsm sample_config 0)))"
    by (simp add: c sample_config_def)
  show ?thesis
    using fsm_negotiation [OF w w k k, of 0] by (simp add: c sample_config_def)
qed

lemma idle_hold_failure:
  assumes "established_at s = None \<or> (\<exists>t. established_at s = Some t \<and> now - t < IDLE_HOLD_RESET_AFTER)"
  shows "idle_hold (to_idle now r rel True s) = bumped (config s) (idle_hold s)"
  using assms by (auto simp: idle_hold_to_idle forgiven_def Let_def)

lemma bumped_power:
  assumes "0 < idle_hold_start c" and "idle_hold_start c \<le> idle_hold_max c"
  shows "(bumped c ^^ Suc n) 0 = min (idle_hold_start c * 2 ^ n) (idle_hold_max c)"
proof (induction n)
  case 0
  then show ?case using assms by (simp add: bumped_def)
next
  case (Suc n)
  have "\<not> min (idle_hold_start c * 2 ^ n) (idle_hold_max c) \<le> 0"
    using assms by (simp add: min_le_iff_disj mult_le_0_iff not_le)
  then have "bumped c (min (idle_hold_start c * 2 ^ n) (idle_hold_max c)) =
      min (min (idle_hold_start c * 2 ^ n) (idle_hold_max c) * 2) (idle_hold_max c)"
    by (simp add: bumped_def)
  moreover have "(bumped c ^^ Suc (Suc n)) 0 = bumped c ((bumped c ^^ Suc n) 0)" by simp
  ultimately have "(bumped c ^^ Suc (Suc n)) 0 =
      min (min (idle_hold_start c * 2 ^ n) (idle_hold_max c) * 2) (idle_hold_max c)"
    by (simp only: Suc)
  also have "\<dots> = min (idle_hold_start c * 2 ^ Suc n) (idle_hold_max c)"
    using assms by (simp add: min_def)
  finally show ?case .
qed

text \<open>A session that fails again and again: each failure is a \<open>to_idle\<close> that charges the backoff.\<close>

fun fail_times :: "(time \<times> string) list \<Rightarrow> fsm \<Rightarrow> fsm" where
  "fail_times [] s = s"
| "fail_times ((now, r) # fs) s = fail_times fs (to_idle now r True True s)"

lemma fail_times_bumped:
  "established_at s = None \<Longrightarrow> fstate s \<noteq> ESTABLISHED \<Longrightarrow>
   idle_hold (fail_times fs s) = (bumped (config s) ^^ length fs) (idle_hold s)
   \<and> config (fail_times fs s) = config s"
proof (induction fs arbitrary: s)
  case Nil
  then show ?case by simp
next
  case (Cons f fs)
  obtain now r where f: "f = (now, r)" by (cases f)
  show ?case
    using Cons.IH [of "to_idle now r True True s"] Cons.prems
    by (simp add: f established_at_to_idle idle_hold_failure funpow_swap1)
qed

text \<open>The idle-hold backoff of a session that keeps failing starts at the configured delay,
  doubles on every failure and stops at the ceiling; the restart is armed after exactly that
  delay. A session that stayed up for the forgiveness period starts over at the first delay.\<close>

theorem fsm_backoff_doubles:
  assumes "0 < idle_hold_start (config s)" and "idle_hold_start (config s) \<le> idle_hold_max (config s)"
    and "allow_automatic_start (config s)"
  shows "(established_at s = None \<and> fstate s \<noteq> ESTABLISHED \<and> idle_hold s = 0 \<longrightarrow>
      idle_hold (fail_times (fs @ [f]) s) =
        min (idle_hold_start (config s) * 2 ^ length fs) (idle_hold_max (config s)))
    \<and> (idle_hold (to_idle now r rel True s) > 0 \<longrightarrow>
      deadlines (to_idle now r rel True s) = [(T_IDLE_HOLD, now + idle_hold (to_idle now r rel True s))])
    \<and> (established_at s = Some t \<and> IDLE_HOLD_RESET_AFTER \<le> now - t \<longrightarrow>
      idle_hold (to_idle now r rel True s) = idle_hold_start (config s))"
proof (intro conjI impI; (elim conjE)?)
  show "idle_hold (fail_times (fs @ [f]) s) =
        min (idle_hold_start (config s) * 2 ^ length fs) (idle_hold_max (config s))"
    if "established_at s = None" "fstate s \<noteq> ESTABLISHED" "idle_hold s = 0"
    using fail_times_bumped [of s "fs @ [f]"] bumped_power [OF assms(1,2), of "length fs"] that
    by simp
  show "idle_hold (to_idle now r rel True s) > 0 \<Longrightarrow>
      deadlines (to_idle now r rel True s) = [(T_IDLE_HOLD, now + idle_hold (to_idle now r rel True s))]"
    using assms(3) by (simp add: deadlines_to_idle Let_def)
  show "established_at s = Some t \<Longrightarrow> IDLE_HOLD_RESET_AFTER \<le> now - t \<Longrightarrow>
      idle_hold (to_idle now r rel True s) = idle_hold_start (config s)"
    by (simp add: idle_hold_to_idle forgiven_def bumped_def Let_def)
qed

theorem fsm_backoff_doubles_witness:
  "idle_hold (fail_times ([(1, ''a''), (2, ''b'')] @ [(3, ''c'')]) (new_fsm sample_config 0)) = 4"
proof -
  have c: "config (new_fsm cf t) = cf" "established_at (new_fsm cf t) = None"
    "fstate (new_fsm cf t) = IDLE" "idle_hold (new_fsm cf t) = 0" for cf t
    by (simp_all add: new_fsm_def)
  show ?thesis
    using fsm_backoff_doubles [of "new_fsm sample_config 0" "[(1, ''a''), (2, ''b'')]" "(3, ''c'')"]
    by (simp add: c sample_config_def del: fail_times.simps)
qed

text \<open>Connection collisions resolve the same way at both ends: the two routers agree about
  each of the two connections, exactly one of the two survives when identifiers or AS numbers
  differ, and it is the one opened by the router with the higher identifier (the higher AS
  where the identifiers are equal); with both equal, neither survives.\<close>

theorem collision_agreement:
  "resolve_collision a b as_a as_b we = resolve_collision b a as_b as_a (\<not> we)
    \<and> (resolve_collision a b as_a as_b True \<noteq> resolve_collision a b as_a as_b False
        \<longleftrightarrow> (a, as_a) \<noteq> (b, as_b))
    \<and> (resolve_collision a b as_a as_b True \<longleftrightarrow> b < a \<or> a = b \<and> as_b < as_a)
    \<and> \<not> resolve_collision a a as_a as_a we"
  by (auto simp: resolve_collision_def)

theorem collision_agreement_witness:
  "resolve_collision 167772161 167772162 65000 65001 True
     \<noteq> resolve_collision 167772161 167772162 65000 65001 False"
  by (rule collision_agreement [THEN conjunct2, THEN conjunct1, THEN iffD2]) simp

text \<open>C15. A connection that fails while the delay-open timer runs leaves that timer running:
  the machine goes to Active with the old delay-open deadline, and when it expires the machine
  asks for an OPEN to be sent and reports OpenSent although no connection exists.\<close>

theorem delay_open_survives_connection_failure:
  assumes "fstate s = CONNECT" and "dict_get (deadlines s) T_DELAY_OPEN = Some d"
  shows "fstate (fsm_event now EV_TCP_FAILS kw s) = ACTIVE
    \<and> dict_get (deadlines (fsm_event now EV_TCP_FAILS kw s)) T_DELAY_OPEN = Some d
    \<and> fstate (fire_timer clk T_DELAY_OPEN (fsm_event now EV_TCP_FAILS kw s)) = OPEN_SENT
    \<and> actions (fire_timer clk T_DELAY_OPEN (fsm_event now EV_TCP_FAILS kw s))
           = actions s @ [ACT_SEND_OPEN]"
  using assms
  by (simp add: fsm_event_def fire_timer_cases in_connect_def in_active_def CONNECTION_EVENTS_def
      deadlines_arm dict_get_set dict_get_pop fsm_stop_def send_open_and_wait_def)

theorem delay_open_survives_connection_failure_witness:
  "fstate (fire_timer 6 T_DELAY_OPEN (fsm_event 2 EV_TCP_FAILS no_kw
     (fsm_event 1 EV_TCP_CONFIRMED no_kw (fsm_event 0 EV_MANUAL_START no_kw (new_fsm sample_config 0)))))
   = OPEN_SENT"
proof -
  let ?s = "fsm_event 1 EV_TCP_CONFIRMED no_kw (fsm_event 0 EV_MANUAL_START no_kw (new_fsm sample_config 0))"
  have "fstate ?s = CONNECT \<and> dict_get (deadlines ?s) T_DELAY_OPEN = Some 6"
    by (simp add: fsm_event_def Let_def in_idle_def in_connect_def start_connecting_def
        connection_up_def CONNECTION_EVENTS_def new_fsm_def sample_config_def deadlines_arm
        dict_get_set)
  then show ?thesis using delay_open_survives_connection_failure [of ?s 6 2 no_kw 6] by simp
qed

end
