(* ===== verification/PrefixTrie.thy ===== *)
theory PrefixTrie
  imports Prelude "HOL-Library.Sublist" "HOL-Library.List_Lexorder"
begin

text \<open>
  Routing keys and the path-compressed radix trie of \<open>rib/prefix.pyx\<close> and
  \<open>rib/trie.pyx\<close>. An address is its sequence of bits, most significant first; a prefix is
  a family and the bits that its length covers, which is what masking the host bits and
  storing the length amounts to. The trie is a tree of nodes that carry their whole prefix,
  with glue nodes that hold no value. The locale \<open>prefix_map\<close> states what the route table,
  the resolver and the prefix lists rely on, and is interpreted on the trie.
\<close>

section \<open>Prefixes\<close>

abbreviation (input) "AFI_IP \<equiv> 1 :: nat"
abbreviation (input) "AFI_IP6 \<equiv> 2 :: nat"
abbreviation (input) "SAFI_UNICAST \<equiv> 1 :: nat"

definition addr_len :: "nat \<Rightarrow> nat" where
  "addr_len afi = (if afi = AFI_IP then 4 else if afi = AFI_IP6 then 16 else 0)"

definition addr_bits :: "nat \<Rightarrow> nat" where
  "addr_bits afi = (if afi = AFI_IP then 32 else if afi = AFI_IP6 then 128 else 0)"

definition byte_bits :: "byte \<Rightarrow> bool list" where
  "byte_bits b = map (bit b) [7, 6, 5, 4, 3, 2, 1, 0]"

definition bytes_bits :: "byte list \<Rightarrow> bool list" where
  "bytes_bits bs = concat (map byte_bits bs)"

type_synonym key = "bool list"

record prefix =
  pafi :: nat
  pbits :: key

definition plen :: "prefix \<Rightarrow> nat" where
  "plen p = length (pbits p)"

definition new_prefix :: "nat \<Rightarrow> nat \<Rightarrow> byte list \<Rightarrow> prefix result" where
  "new_prefix afi len addr =
    (if addr_len afi = 0 then Inl (ValueError ''unsupported address family number'')
     else if len > addr_bits afi then Inl (ValueError ''prefix length out of range'')
     else if length addr \<noteq> addr_len afi then Inl (ValueError ''wrong address size'')
     else Inr \<lparr>pafi = afi, pbits = take len (bytes_bits addr)\<rparr>)"

definition packed_bits :: "prefix \<Rightarrow> bool list" where
  \<comment> \<open>the full-width address with the host bits zeroed\<close>
  "packed_bits p = pbits p @ replicate (addr_bits (pafi p) - plen p) False"

definition pfx_match :: "key \<Rightarrow> bool list \<Rightarrow> bool" where
  "pfx_match net addr \<longleftrightarrow> take (length net) addr = net"

definition contains :: "prefix \<Rightarrow> prefix \<Rightarrow> bool" where
  "contains p other \<longleftrightarrow>
    (if pafi other \<noteq> pafi p then False
     else if plen other < plen p then False
     else pfx_match (pbits p) (pbits other))"

definition pfx_cmp :: "prefix \<Rightarrow> prefix \<Rightarrow> int" where
  "pfx_cmp a b =
    (if pafi a \<noteq> pafi b then (if pafi a < pafi b then -1 else 1)
     else if packed_bits a \<noteq> packed_bits b then (if packed_bits a < packed_bits b then -1 else 1)
     else if plen a \<noteq> plen b then (if plen a < plen b then -1 else 1)
     else 0)"

section \<open>The trie\<close>

datatype 'v trie = Leaf | Node key "'v option" "'v trie" "'v trie"

fun node_exact :: "'v trie \<Rightarrow> key \<Rightarrow> 'v option" where
  "node_exact Leaf k = None"
| "node_exact (Node p v l r) k =
     (if length p \<le> length k \<and> pfx_match p k then
        (if length p = length k then v
         else if k ! length p then node_exact r k else node_exact l k)
      else None)"

fun node_lpm :: "'v trie \<Rightarrow> key \<Rightarrow> (key \<times> 'v) option \<Rightarrow> (key \<times> 'v) option" where
  "node_lpm Leaf k best = best"
| "node_lpm (Node p v l r) k best =
     (if length p \<le> length k \<and> pfx_match p k then
        (let best' = (case v of None \<Rightarrow> best | Some x \<Rightarrow> Some (p, x))
         in if length p = length k then best'
            else if k ! length p then node_lpm r k best' else node_lpm l k best')
      else best)"

definition common_bits :: "key \<Rightarrow> key \<Rightarrow> nat" where
  "common_bits a b = length (longest_common_prefix a b)"

fun node_intern :: "key \<Rightarrow> 'v trie \<Rightarrow> 'v trie" where
  "node_intern k Leaf = Node k None Leaf Leaf"
| "node_intern k (Node p v l r) =
     (if length p \<le> length k \<and> pfx_match p k then
        (if length p = length k then Node p v l r
         else if k ! length p then Node p v l (node_intern k r)
         else Node p v (node_intern k l) r)
      else
        (let common = min (min (common_bits p k) (length p)) (length k)
         in if common = length k then
              (if p ! common then Node k None Leaf (Node p v l r)
               else Node k None (Node p v l r) Leaf)
            else
              (if k ! common
               then Node (take common k) None (Node p v l r) (Node k None Leaf Leaf)
               else Node (take common k) None (Node k None Leaf Leaf) (Node p v l r))))"

fun set_value :: "key \<Rightarrow> 'v \<Rightarrow> 'v trie \<Rightarrow> 'v trie" where
  "set_value k x Leaf = Leaf"
| "set_value k x (Node p v l r) =
     (if length p \<le> length k \<and> pfx_match p k then
        (if length p = length k then Node p (Some x) l r
         else if k ! length p then Node p v l (set_value k x r)
         else Node p v (set_value k x l) r)
      else Node p v l r)"

definition trie_insert :: "key \<Rightarrow> 'v \<Rightarrow> 'v trie \<Rightarrow> 'v trie" where
  "trie_insert k x t = set_value k x (node_intern k t)"

text \<open>Pruning walks up from a cleared node: the flag says whether the walk goes on to the parent.\<close>

definition prune :: "key \<Rightarrow> 'v option \<Rightarrow> 'v trie \<Rightarrow> 'v trie \<Rightarrow> 'v trie \<times> bool" where
  "prune p v l r =
    (if v \<noteq> None then (Node p v l r, False)
     else case (l, r) of
            (Leaf, Leaf) \<Rightarrow> (Leaf, True)
          | (Leaf, Node q w a b) \<Rightarrow> (Node q w a b, False)
          | (Node q w a b, Leaf) \<Rightarrow> (Node q w a b, False)
          | (Node q w a b, Node q' w' a' b') \<Rightarrow> (Node p v l r, False))"

fun remove_walk :: "key \<Rightarrow> 'v trie \<Rightarrow> 'v trie \<times> bool" where
  "remove_walk k Leaf = (Leaf, False)"
| "remove_walk k (Node p v l r) =
     (if length p \<le> length k \<and> pfx_match p k then
        (if length p = length k then
           (if v = None then (Node p v l r, False) else prune p None l r)
         else if k ! length p then
           (case remove_walk k r of (r', up) \<Rightarrow>
              if up then prune p v l r' else (Node p v l r', False))
         else
           (case remove_walk k l of (l', up) \<Rightarrow>
              if up then prune p v l' r else (Node p v l' r, False)))
      else (Node p v l r, False))"

definition trie_remove :: "key \<Rightarrow> 'v trie \<Rightarrow> 'v trie" where
  "trie_remove k t = fst (remove_walk k t)"

fun trie_items :: "'v trie \<Rightarrow> (key \<times> 'v) list" where
  "trie_items Leaf = []"
| "trie_items (Node p v l r) =
     (case v of None \<Rightarrow> [] | Some x \<Rightarrow> [(p, x)]) @ trie_items l @ trie_items r"

fun trie_nodes :: "'v trie \<Rightarrow> nat" where
  "trie_nodes Leaf = 0"
| "trie_nodes (Node p v l r) = Suc (trie_nodes l + trie_nodes r)"

definition trie_size :: "'v trie \<Rightarrow> nat" where
  "trie_size t = length (trie_items t)"

definition trie_lpm :: "'v trie \<Rightarrow> key \<Rightarrow> (key \<times> 'v) option" where
  "trie_lpm t k = node_lpm t k None"

section \<open>Well-formed tries\<close>

fun node_keys :: "'v trie \<Rightarrow> key set" where
  "node_keys Leaf = {}"
| "node_keys (Node p v l r) = insert p (node_keys l \<union> node_keys r)"

fun trie_wf :: "'v trie \<Rightarrow> bool" where
  "trie_wf Leaf = True"
| "trie_wf (Node p v l r) =
     (trie_wf l \<and> trie_wf r \<and> (v = None \<longrightarrow> l \<noteq> Leaf \<and> r \<noteq> Leaf)
      \<and> (\<forall>k \<in> node_keys l. Sublist.prefix (p @ [False]) k)
      \<and> (\<forall>k \<in> node_keys r. Sublist.prefix (p @ [True]) k))"

lemma pfx_match_prefix: "length p \<le> length k \<Longrightarrow> pfx_match p k = Sublist.prefix p k"
  by (auto simp: pfx_match_def prefix_def) (metis append_take_drop_id)

lemma walk_guard: "length p \<le> length k \<and> pfx_match p k \<longleftrightarrow> Sublist.prefix p k"
  using pfx_match_prefix prefix_length_le by blast

lemma prefix_same_length: "Sublist.prefix p k \<Longrightarrow> length p = length k \<longleftrightarrow> p = k"
  by (auto simp: prefix_def)

lemma prefix_next_bit:
  "Sublist.prefix p k \<Longrightarrow> p \<noteq> k \<Longrightarrow> Sublist.prefix (p @ [b]) k \<longleftrightarrow> k ! length p = b"
  by (auto simp: prefix_def nth_append) (metis append_Nil2 neq_Nil_conv nth_Cons_0)+

lemma set_items: "fst ` set (trie_items t) \<subseteq> node_keys t"
  by (induction t) (auto split: option.splits)

lemma items_keys: "(k, x) \<in> set (trie_items t) \<Longrightarrow> k \<in> node_keys t"
  using set_items by fastforce


lemma pfx_match_refl [simp]: "pfx_match k k"
  by (simp add: pfx_match_def)

lemma prefix_take: "Sublist.prefix g k \<Longrightarrow> take (length g) k = g"
  by (auto simp: prefix_def)

lemma wf_sub:
  assumes "trie_wf (Node p v l r)"
  shows "trie_wf l" "trie_wf r" "k \<in> node_keys l \<Longrightarrow> Sublist.prefix (p @ [False]) k"
    "k \<in> node_keys r \<Longrightarrow> Sublist.prefix (p @ [True]) k"
    "v = None \<Longrightarrow> l \<noteq> Leaf" "v = None \<Longrightarrow> r \<noteq> Leaf"
  using assms by auto

lemma snoc_prefixD: "Sublist.prefix (p @ [b]) k \<Longrightarrow> Sublist.prefix p k \<and> p \<noteq> k \<and> k ! length p = b"
  by (auto simp: prefix_def nth_append)

text \<open>Where a key below a node can be: at the node, or on the side its next bit names.\<close>

lemma items_Node_below:
  assumes "trie_wf (Node p v l r)" and "(k, x) \<in> set (trie_items (Node p v l r))"
  shows "Sublist.prefix p k \<and>
    (k = p \<and> v = Some x \<or> k \<noteq> p \<and> (k, x) \<in> set (trie_items (if k ! length p then r else l)))"
proof -
  consider "k = p" "v = Some x" | "(k, x) \<in> set (trie_items l)" | "(k, x) \<in> set (trie_items r)"
    using assms(2) by (auto split: option.splits)
  then show ?thesis
  proof cases
    case 2
    then show ?thesis using wf_sub(3) [OF assms(1)] items_keys snoc_prefixD by fastforce
  next
    case 3
    then show ?thesis using wf_sub(4) [OF assms(1)] items_keys snoc_prefixD by fastforce
  qed simp
qed

lemma node_exact_items:
  "trie_wf t \<Longrightarrow> node_exact t k = Some x \<longleftrightarrow> (k, x) \<in> set (trie_items t)"
proof (induction t)
  case Leaf
  then show ?case by simp
next
  case (Node p v l r)
  note below = items_Node_below [OF Node.prems]
  have IH: "node_exact l k = Some x \<longleftrightarrow> (k, x) \<in> set (trie_items l)"
    "node_exact r k = Some x \<longleftrightarrow> (k, x) \<in> set (trie_items r)"
    using Node wf_sub [OF Node.prems] by auto
  show ?case
  proof (cases "Sublist.prefix p k")
    case False
    then show ?thesis using below by (fastforce simp: walk_guard simp del: trie_items.simps)
  next
    case True
    show ?thesis
    proof (cases "p = k")
      case True
      then show ?thesis using below [of k x] walk_guard [of k k]
        by (auto split: option.splits)
    next
      case False
      then show ?thesis using True below [of k x] IH prefix_same_length [OF True]
        by (auto simp: walk_guard split: option.splits if_splits)
    qed
  qed
qed

definition longest_cover :: "(key \<times> 'v) set \<Rightarrow> key \<Rightarrow> key \<times> 'v \<Rightarrow> bool" where
  "longest_cover A k px \<longleftrightarrow> px \<in> A \<and> Sublist.prefix (fst px) k
     \<and> (\<forall>qy \<in> A. Sublist.prefix (fst qy) k \<longrightarrow> length (fst qy) \<le> length (fst px))"

lemma node_lpm_spec:
  "trie_wf t \<Longrightarrow>
    (if \<exists>qy \<in> set (trie_items t). Sublist.prefix (fst qy) k
     then \<exists>px. node_lpm t k best = Some px \<and> longest_cover (set (trie_items t)) k px
     else node_lpm t k best = best)"
proof (induction t arbitrary: best)
  case Leaf
  then show ?case by simp
next
  case (Node p v l r)
  note below = items_Node_below [OF Node.prems]
  let ?I = "set (trie_items (Node p v l r))"
  show ?case
  proof (cases "Sublist.prefix p k \<and> p \<noteq> k")
    case False
    then consider "\<not> Sublist.prefix p k" | "p = k" by blast
    then show ?thesis
    proof cases
      case 1
      then have "\<not> Sublist.prefix (fst qy) k" if "qy \<in> ?I" for qy
        using below [of "fst qy" "snd qy"] that prefix_order.trans by (cases qy) auto
      with 1 show ?thesis by (auto simp: walk_guard simp del: trie_items.simps)
    next
      case 2
      have c: "Sublist.prefix (fst qy) k \<longleftrightarrow> qy = (p, the v) \<and> v \<noteq> None" if "qy \<in> ?I" for qy
        using below [of "fst qy" "snd qy"] that 2 by (cases qy) (auto dest: prefix_order.antisym)
      have m: "v = Some x \<Longrightarrow> (p, x) \<in> ?I" for x by simp
      show ?thesis
        using 2 c m by (auto simp: walk_guard [of k k] longest_cover_def split: option.splits
            simp del: trie_items.simps)
    qed
  next
    case True
    let ?s = "if k ! length p then r else l"
    let ?b = "case v of None \<Rightarrow> best | Some x \<Rightarrow> Some (p, x)"
    have step: "node_lpm (Node p v l r) k best = node_lpm ?s k ?b"
      using True walk_guard [of p k] prefix_same_length [of p k] by (simp add: Let_def)
    have IH: "if \<exists>qy \<in> set (trie_items ?s). Sublist.prefix (fst qy) k
       then \<exists>px. node_lpm ?s k ?b = Some px \<and> longest_cover (set (trie_items ?s)) k px
       else node_lpm ?s k ?b = ?b"
    proof (cases "k ! length p")
      case True
      then show ?thesis
        using Node.IH(2) [OF wf_sub(2) [OF Node.prems], of ?b] by (simp only: True if_True)
    next
      case False
      then show ?thesis
        using Node.IH(1) [OF wf_sub(1) [OF Node.prems], of ?b] by (simp only: False if_False)
    qed
    have I: "qy \<in> ?I \<and> Sublist.prefix (fst qy) k \<longleftrightarrow>
        (qy \<in> set (trie_items ?s) \<and> Sublist.prefix (fst qy) k) \<or> (\<exists>x. v = Some x \<and> qy = (p, x))" for qy
    proof
      assume a: "qy \<in> ?I \<and> Sublist.prefix (fst qy) k"
      obtain q y where qy: "qy = (q, y)" by (cases qy)
      have "q \<noteq> p \<Longrightarrow> q ! length p = k ! length p"
        using below [of q y] a qy by (auto simp: prefix_def nth_append)
      then show "(qy \<in> set (trie_items ?s) \<and> Sublist.prefix (fst qy) k) \<or> (\<exists>x. v = Some x \<and> qy = (p, x))"
        using below [of q y] a qy by auto
    next
      assume "(qy \<in> set (trie_items ?s) \<and> Sublist.prefix (fst qy) k) \<or> (\<exists>x. v = Some x \<and> qy = (p, x))"
      then show "qy \<in> ?I \<and> Sublist.prefix (fst qy) k" using True by (auto split: if_splits)
    qed
    show ?thesis
    proof (cases "\<exists>qy \<in> set (trie_items ?s). Sublist.prefix (fst qy) k")
      case ex: True
      then obtain px where px: "node_lpm ?s k ?b = Some px" "longest_cover (set (trie_items ?s)) k px"
        using IH by auto
      then have in_s: "px \<in> set (trie_items ?s)" "Sublist.prefix (fst px) k" by (auto simp: longest_cover_def)
      then have "px \<in> ?I" using I by blast
      then have "length p \<le> length (fst px)"
        using below [of "fst px" "snd px"] prefix_length_le by auto
      have "longest_cover ?I k px"
        unfolding longest_cover_def
      proof (intro conjI ballI impI)
        fix qy assume "qy \<in> ?I" "Sublist.prefix (fst qy) k"
        then have "(qy \<in> set (trie_items ?s) \<and> Sublist.prefix (fst qy) k) \<or> (\<exists>x. v = Some x \<and> qy = (p, x))"
          by (intro iffD1 [OF I] conjI)
        then have "qy \<in> set (trie_items ?s) \<and> Sublist.prefix (fst qy) k \<or> fst qy = p" by force
        then show "length (fst qy) \<le> length (fst px)"
          using px(2) \<open>length p \<le> length (fst px)\<close> unfolding longest_cover_def by blast
      qed (fact \<open>px \<in> ?I\<close>, fact in_s(2))
      then show ?thesis using step px(1) in_s(2) \<open>px \<in> ?I\<close>
        by (auto simp del: trie_items.simps node_lpm.simps)
    next
      case none: False
      then have b: "node_lpm (Node p v l r) k best = ?b" using IH step by simp
      have J: "qy \<in> ?I \<and> Sublist.prefix (fst qy) k \<longleftrightarrow> (\<exists>x. v = Some x \<and> qy = (p, x))" for qy
        using I [of qy] none by blast
      show ?thesis
      proof (cases v)
        case None
        then show ?thesis using J b by (auto simp del: trie_items.simps node_lpm.simps)
      next
        case (Some x)
        then have "longest_cover ?I k (p, x)"
          unfolding longest_cover_def using J by (fastforce simp del: trie_items.simps)
        then show ?thesis using Some b
          by (auto simp: longest_cover_def simp del: trie_items.simps node_lpm.simps)
      qed
    qed
  qed
qed

section \<open>Insertion\<close>

lemma common_prefix_bits:
  assumes "\<not> Sublist.prefix p k"
  defines "c \<equiv> min (min (common_bits p k) (length p)) (length k)"
  shows "c = common_bits p k" and "Sublist.prefix (take c k) p" and "Sublist.prefix (take c k) k"
    and "c \<noteq> length k \<Longrightarrow> c < length p \<and> c < length k \<and> p ! c \<noteq> k ! c"
    and "c = length k \<Longrightarrow> Sublist.prefix k p \<and> k \<noteq> p"
proof -
  let ?g = "longest_common_prefix p k"
  have g: "Sublist.prefix ?g p" "Sublist.prefix ?g k"
    by (rule longest_common_prefix_prefix1, rule longest_common_prefix_prefix2)
  then have len: "length ?g \<le> length p" "length ?g \<le> length k" by (auto dest: prefix_length_le)
  then show c: "c = common_bits p k" by (simp add: c_def common_bits_def)
  have t: "take c k = ?g" using prefix_take [OF g(2)] by (simp add: c common_bits_def)
  show "Sublist.prefix (take c k) p" "Sublist.prefix (take c k) k" using g t by simp_all
  show "c = length k \<Longrightarrow> Sublist.prefix k p \<and> k \<noteq> p" using g t assms(1) by auto
  show "c < length p \<and> c < length k \<and> p ! c \<noteq> k ! c" if "c \<noteq> length k"
  proof -
    have ck: "c < length k" using that len(2) by (simp add: c common_bits_def)
    have cp: "c < length p"
    proof (rule ccontr)
      assume "\<not> c < length p"
      then have "?g = p" using g(1) len(1) c prefix_same_length [OF g(1)]
        by (simp add: common_bits_def)
      then show False using g(2) assms(1) by simp
    qed
    have "p ! c \<noteq> k ! c"
    proof
      assume e: "p ! c = k ! c"
      have tp: "take c p = ?g" using prefix_take [OF g(1)] by (simp add: c common_bits_def)
      have "Sublist.prefix (?g @ [k ! c]) p" 
        using take_is_prefix [of "Suc c" p] take_Suc_conv_app_nth [OF cp] tp e by simp
      moreover have "Sublist.prefix (?g @ [k ! c]) k" 
        using take_is_prefix [of "Suc c" k] take_Suc_conv_app_nth [OF ck] t by simp
      ultimately have "Sublist.prefix (?g @ [k ! c]) ?g" by (rule longest_common_prefix_max_prefix)
      then show False by (simp add: prefix_def)
    qed
    with ck cp show ?thesis by simp
  qed
qed

lemma trie_insert_Leaf: "trie_insert k x Leaf = Node k (Some x) Leaf Leaf"
  by (simp add: trie_insert_def)

lemma trie_insert_Node:
  "trie_insert k x (Node p v l r) =
     (if Sublist.prefix p k then
        (if p = k then Node p (Some x) l r
         else if k ! length p then Node p v l (trie_insert k x r)
         else Node p v (trie_insert k x l) r)
      else
        (let c = common_bits p k
         in if c = length k then
              (if p ! c then Node k (Some x) Leaf (Node p v l r)
               else Node k (Some x) (Node p v l r) Leaf)
            else
              (if k ! c
               then Node (take c k) None (Node p v l r) (Node k (Some x) Leaf Leaf)
               else Node (take c k) None (Node k (Some x) Leaf Leaf) (Node p v l r))))"
proof (cases "Sublist.prefix p k")
  case True
  then show ?thesis
    using walk_guard [of p k] prefix_same_length [of p k] by (simp add: trie_insert_def)
next
  case False
  let ?c = "common_bits p k"
  note cp = common_prefix_bits [OF False]
  have g: "length p \<le> length k \<and> pfx_match p k \<longleftrightarrow> False" using False walk_guard by blast
  show ?thesis
  proof (cases "?c = length k")
    case True
    then have "min (min ?c (length p)) (length k) = length k" using cp(1) by simp
    then show ?thesis
      unfolding trie_insert_def node_intern.simps Let_def
      using False True by (simp only: g if_False) simp
  next
    case c: False
    have tk: "Sublist.prefix (take ?c k) k" "length (take ?c k) = ?c" "?c < length k"
      using cp(1,3,4) c by auto
    have gk: "length (take ?c k) \<le> length k \<and> pfx_match (take ?c k) k"
      using walk_guard tk(1) by blast
    show ?thesis
      unfolding trie_insert_def node_intern.simps Let_def
      using False c cp(1) [symmetric] gk tk by (simp only: g if_False) simp
  qed
qed

lemma keys_insert: "node_keys (trie_insert k x t) \<subseteq> insert k (node_keys t) \<union> {take (common_bits p k) k |p. p \<in> node_keys t}"
  by (induction t) (auto simp: trie_insert_Leaf trie_insert_Node Let_def)


lemma take_common: "take (common_bits p k) k = longest_common_prefix p k"
  using prefix_take [OF longest_common_prefix_prefix2] by (simp add: common_bits_def)

lemma insert_keys_below:
  assumes "\<forall>k' \<in> node_keys t. Sublist.prefix q k'" and "Sublist.prefix q k"
  shows "\<forall>k' \<in> node_keys (trie_insert k x t). Sublist.prefix q k'"
  using keys_insert [of k x t] assms
  by (auto simp: take_common dest!: subsetD intro: longest_common_prefix_max_prefix)

lemma insert_not_Leaf [simp]: "trie_insert k x t \<noteq> Leaf"
  by (cases t) (auto simp: trie_insert_Leaf trie_insert_Node Let_def)

lemma node_keys_single: "node_keys (Node k v Leaf Leaf) = {k}"
  by simp

lemma node_keys_below: "trie_wf (Node p v l r) \<Longrightarrow> k' \<in> node_keys (Node p v l r) \<Longrightarrow> Sublist.prefix p k'"
  by (auto dest: append_prefixD)

lemma prefix_snocI: "Sublist.prefix p k \<Longrightarrow> p \<noteq> k \<Longrightarrow> k ! length p = b \<Longrightarrow> Sublist.prefix (p @ [b]) k"
  by (simp add: prefix_next_bit)

lemma below_all:
  assumes "trie_wf (Node p v l r)" and "Sublist.prefix q p"
  shows "\<forall>k' \<in> node_keys (Node p v l r). Sublist.prefix q k'"
  using node_keys_below [OF assms(1)] assms(2) prefix_order.trans by blast

lemma trie_insert_wf: "trie_wf t \<Longrightarrow> trie_wf (trie_insert k x t)"
proof (induction t)
  case Leaf
  then show ?case by (simp add: trie_insert_Leaf)
next
  case (Node p v l r)
  note sub = wf_sub [OF Node.prems]
  show ?case
  proof (cases "Sublist.prefix p k")
    case True
    then show ?thesis
    proof (cases "p = k")
      case pk: False
      have "trie_wf (trie_insert k x l)" "trie_wf (trie_insert k x r)" using Node.IH sub by auto
      moreover have "k ! length p = b \<Longrightarrow> Sublist.prefix (p @ [b]) k" for b
        using True pk by (rule prefix_snocI)
      ultimately show ?thesis
        using sub True pk insert_keys_below [of l "p @ [False]" k x] insert_keys_below [of r "p @ [True]" k x]
        by (auto simp: trie_insert_Node)
    qed (use Node.prems in \<open>simp add: trie_insert_Node\<close>)
  next
    case False
    let ?c = "common_bits p k"
    note cp = common_prefix_bits(2-5) [OF False, unfolded common_prefix_bits(1) [OF False]]
    show ?thesis
    proof (cases "?c = length k")
      case True
      then have kp: "Sublist.prefix k p" "k \<noteq> p" using cp(4) by auto
      have "p ! length k = b \<Longrightarrow> \<forall>k' \<in> node_keys (Node p v l r). Sublist.prefix (k @ [b]) k'" for b
        using below_all [OF Node.prems prefix_snocI [OF kp]] .
      then show ?thesis using False True Node.prems
        by (auto simp: trie_insert_Node Let_def simp del: node_keys.simps(2))
    next
      case c: False
      let ?g = "take ?c k"
      have d: "?c < length p" "?c < length k" "p ! ?c \<noteq> k ! ?c" "length ?g = ?c"
        using cp(3) c by auto
      have "Sublist.prefix ?g p" "Sublist.prefix ?g k" using cp(1,2) by auto
      then have "p ! ?c = b \<Longrightarrow> Sublist.prefix (?g @ [b]) p" "k ! ?c = b \<Longrightarrow> Sublist.prefix (?g @ [b]) k" for b
        using d prefix_snocI [of ?g p b] prefix_snocI [of ?g k b] less_irrefl by metis+
      then have "p ! ?c = b \<Longrightarrow> \<forall>k' \<in> node_keys (Node p v l r). Sublist.prefix (?g @ [b]) k'"
          "k ! ?c = b \<Longrightarrow> Sublist.prefix (?g @ [b]) k" for b
        using below_all [OF Node.prems] by auto
      then show ?thesis using False c Node.prems d(3)
        by (auto simp: trie_insert_Node Let_def node_keys_single simp del: node_keys.simps(2))
    qed
  qed
qed

lemma items_key_in: "trie_wf t \<Longrightarrow> (k, x) \<in> set (trie_items t) \<Longrightarrow> (k, y) \<in> set (trie_items t) \<Longrightarrow> x = y"
  using node_exact_items by (metis option.inject)

lemma trie_insert_items:
  "trie_wf t \<Longrightarrow> set (trie_items (trie_insert k x t)) = insert (k, x) {e \<in> set (trie_items t). fst e \<noteq> k}"
proof (induction t)
  case Leaf
  then show ?case by (simp add: trie_insert_Leaf)
next
  case (Node p v l r)
  note sub = wf_sub [OF Node.prems]
  have out: "e \<in> set (trie_items l) \<Longrightarrow> Sublist.prefix (p @ [False]) (fst e)"
    "e \<in> set (trie_items r) \<Longrightarrow> Sublist.prefix (p @ [True]) (fst e)" for e
    using sub(3,4) [of "fst e"] items_keys [of "fst e" "snd e"] by simp_all
  show ?case
  proof (cases "Sublist.prefix p k")
    case True
    have "k ! length p \<or> p = k \<Longrightarrow> e \<in> set (trie_items l) \<Longrightarrow> fst e \<noteq> k"
      "\<not> k ! length p \<or> p = k \<Longrightarrow> e \<in> set (trie_items r) \<Longrightarrow> fst e \<noteq> k" for e
      using out [of e] snoc_prefixD [of p False k] snoc_prefixD [of p True k] by auto
    then have same: "k ! length p \<or> p = k \<Longrightarrow> {e \<in> set (trie_items l). fst e \<noteq> k} = set (trie_items l)"
      "\<not> k ! length p \<or> p = k \<Longrightarrow> {e \<in> set (trie_items r). fst e \<noteq> k} = set (trie_items r)"
      by blast+
    show ?thesis
    proof (cases "p = k")
      case pk: True
      then show ?thesis using same True by (auto simp: trie_insert_Node split: option.splits)
    next
      case pk: False
      show ?thesis
      proof (cases "k ! length p")
        case b: True
        have "set (trie_items (trie_insert k x r)) = insert (k, x) {e \<in> set (trie_items r). fst e \<noteq> k}"
          using Node.IH(2) sub by blast
        then show ?thesis using True pk b same by (auto simp: trie_insert_Node split: option.splits)
      next
        case b: False
        have "set (trie_items (trie_insert k x l)) = insert (k, x) {e \<in> set (trie_items l). fst e \<noteq> k}"
          using Node.IH(1) sub by blast
        then show ?thesis using True pk b same by (auto simp: trie_insert_Node split: option.splits)
      qed
    qed
  next
    case False
    have "fst e \<noteq> k" if "e \<in> set (trie_items (Node p v l r))" for e
      using node_keys_below [OF Node.prems] items_keys [of "fst e" "snd e"] that False by fastforce
    then show ?thesis using False
      by (auto simp: trie_insert_Node Let_def simp del: trie_items.simps)
        (auto split: option.splits)
  qed
qed


section \<open>Removal\<close>

lemma prune_spec:
  assumes "prune p v l r = (t', up)" and "trie_wf l" "trie_wf r"
    "\<forall>k \<in> node_keys l. Sublist.prefix (p @ [False]) k"
    "\<forall>k \<in> node_keys r. Sublist.prefix (p @ [True]) k"
  shows "trie_wf t'" "trie_items t' = trie_items (Node p v l r)"
    "node_keys t' \<subseteq> node_keys (Node p v l r)" "up \<longleftrightarrow> t' = Leaf"
  using assms by (auto simp: prune_def split: trie.splits if_splits)

lemma remove_walk_spec:
  "trie_wf t \<Longrightarrow> remove_walk k t = (t', up) \<Longrightarrow>
    trie_wf t' \<and> trie_items t' = filter (\<lambda>e. fst e \<noteq> k) (trie_items t)
    \<and> node_keys t' \<subseteq> node_keys t \<and> (t \<noteq> Leaf \<longrightarrow> (up \<longleftrightarrow> t' = Leaf))"
proof (induction t arbitrary: t' up)
  case Leaf
  then show ?case by simp
next
  case (Node p v l r)
  note sub = wf_sub [OF Node.prems(1)]
  let ?f = "\<lambda>t. filter (\<lambda>e. fst e \<noteq> k) (trie_items t)"
  have out: "e \<in> set (trie_items l) \<Longrightarrow> Sublist.prefix (p @ [False]) (fst e)"
    "e \<in> set (trie_items r) \<Longrightarrow> Sublist.prefix (p @ [True]) (fst e)" for e
    using sub(3,4) [of "fst e"] items_keys [of "fst e" "snd e"] by simp_all
  show ?case
  proof (cases "Sublist.prefix p k")
    case False
    have "fst e \<noteq> k" if "e \<in> set (trie_items (Node p v l r))" for e
      using node_keys_below [OF Node.prems(1)] items_keys [of "fst e" "snd e"] that False by fastforce
    then have "?f (Node p v l r) = trie_items (Node p v l r)" by (intro filter_True ballI)
    then show ?thesis using False Node.prems
      by (auto simp: walk_guard simp del: trie_items.simps)
  next
    case pk: True
    have "k ! length p \<or> p = k \<Longrightarrow> e \<in> set (trie_items l) \<Longrightarrow> fst e \<noteq> k"
      "\<not> k ! length p \<or> p = k \<Longrightarrow> e \<in> set (trie_items r) \<Longrightarrow> fst e \<noteq> k" for e
      using out [of e] snoc_prefixD [of p False k] snoc_prefixD [of p True k] by auto
    then have same: "k ! length p \<or> p = k \<Longrightarrow> ?f l = trie_items l"
      "\<not> k ! length p \<or> p = k \<Longrightarrow> ?f r = trie_items r"
      by (intro filter_True ballI, blast)+
    show ?thesis
    proof (cases "p = k")
      case True
      show ?thesis
      proof (cases v)
        case None
        then show ?thesis using Node.prems True same by (auto simp: walk_guard [of k k])
      next
        case (Some x)
        then have w: "prune p None l r = (t', up)"
          using Node.prems(2) True by (simp add: walk_guard [of k k])
        show ?thesis using prune_spec [OF w sub(1,2)] sub(3,4) True same Some by auto
      qed
    next
      case False
      then have len: "length p \<noteq> length k" using prefix_same_length [OF pk] by simp
      show ?thesis
      proof (cases "k ! length p")
        case True
        obtain r' u where w: "remove_walk k r = (r', u)" by (cases "remove_walk k r")
        have IH: "trie_wf r'" "trie_items r' = ?f r" "node_keys r' \<subseteq> node_keys r"
          "r \<noteq> Leaf \<Longrightarrow> u \<longleftrightarrow> r' = Leaf"
          using Node.IH(2) [OF sub(2) w] by auto
        have res: "(t', up) = (if u then prune p v l r' else (Node p v l r', False))"
          using Node.prems(2) pk len True w by (simp add: walk_guard)
        show ?thesis
        proof (cases u)
          case True
          have below: "\<forall>q \<in> node_keys l. Sublist.prefix (p @ [False]) q" "\<forall>q \<in> node_keys r'. Sublist.prefix (p @ [True]) q"
            using IH(3) sub(3,4) by blast+
          show ?thesis
            using prune_spec [OF _ sub(1) IH(1) below, of v t' up] res True IH(2,3) same(1) \<open>k ! length p\<close> False
            by (auto split: option.splits)
        next
          case u: False
          then have "v = None \<Longrightarrow> r' \<noteq> Leaf" using IH(4) sub(6) by blast
          then show ?thesis
            using u res IH sub same(1) True False by (auto split: option.splits)
        qed
      next
        case False': False
        obtain l' u where w: "remove_walk k l = (l', u)" by (cases "remove_walk k l")
        have IH: "trie_wf l'" "trie_items l' = ?f l" "node_keys l' \<subseteq> node_keys l"
          "l \<noteq> Leaf \<Longrightarrow> u \<longleftrightarrow> l' = Leaf"
          using Node.IH(1) [OF sub(1) w] by auto
        have res: "(t', up) = (if u then prune p v l' r else (Node p v l' r, False))"
          using Node.prems(2) pk len False' w by (simp add: walk_guard)
        show ?thesis
        proof (cases u)
          case True
          have below: "\<forall>q \<in> node_keys l'. Sublist.prefix (p @ [False]) q" "\<forall>q \<in> node_keys r. Sublist.prefix (p @ [True]) q"
            using IH(3) sub(3,4) by blast+
          show ?thesis
            using prune_spec [OF _ IH(1) sub(2) below, of v t' up] res True IH(2,3) same(2) False False'
            by (auto split: option.splits)
        next
          case u: False
          then have "v = None \<Longrightarrow> l' \<noteq> Leaf" using IH(4) sub(5) by blast
          then show ?thesis
            using u res IH sub same(2) False False' by (auto split: option.splits)
        qed
      qed
    qed
  qed
qed

lemma trie_remove_wf: "trie_wf t \<Longrightarrow> trie_wf (trie_remove k t)"
  using remove_walk_spec [of t k] by (cases "remove_walk k t") (simp add: trie_remove_def)

lemma trie_remove_items: "trie_wf t \<Longrightarrow> trie_items (trie_remove k t) = filter (\<lambda>e. fst e \<noteq> k) (trie_items t)"
  using remove_walk_spec [of t k] by (cases "remove_walk k t") (simp add: trie_remove_def)


section \<open>Order of the walk\<close>

lemma append_less: "zs \<noteq> [] \<Longrightarrow> p < p @ (zs :: key)"
  by (induction p) (auto simp: neq_Nil_conv)

lemma prefix_less: "Sublist.prefix p (k :: key) \<Longrightarrow> p \<noteq> k \<Longrightarrow> p < k"
  using append_less by (auto simp: prefix_def)

lemma branch_less:
  "Sublist.prefix (p @ [False]) a \<Longrightarrow> Sublist.prefix (p @ [True]) b \<Longrightarrow> a < (b :: key)"
  by (auto simp: prefix_def list_less_def lexord_append_left_rightI)

lemma items_sorted: "trie_wf t \<Longrightarrow> sorted_wrt (<) (map fst (trie_items t))"
proof (induction t)
  case Leaf
  then show ?case by simp
next
  case (Node p v l r)
  note sub = wf_sub [OF Node.prems]
  have p: "k \<in> node_keys l \<union> node_keys r \<Longrightarrow> p < k" for k
    using sub(3,4) snoc_prefixD prefix_less by (metis Un_iff)
  have lr: "a \<in> node_keys l \<Longrightarrow> b \<in> node_keys r \<Longrightarrow> a < b" for a b
    using sub(3,4) branch_less by blast
  show ?case
    using Node.IH sub(1,2) p lr
    by (cases v) (auto simp: sorted_wrt_append dest!: items_keys)
qed

lemma items_distinct: "trie_wf t \<Longrightarrow> distinct (map fst (trie_items t))"
  using items_sorted by (fastforce simp: sorted_wrt_iff_nth_less distinct_conv_nth linorder_neq_iff)

text \<open>Padding a key with zero bits to the address width and breaking ties by length orders
  keys exactly as the walk does.\<close>

abbreviation pad :: "nat \<Rightarrow> key \<Rightarrow> key" where
  "pad n k \<equiv> k @ replicate (n - length k) False"

lemma zeros_least: "n \<le> length xs \<Longrightarrow> replicate n False \<le> (xs :: key)"
proof (induction n arbitrary: xs)
  case (Suc n)
  then show ?case by (cases xs) (auto simp: le_bool_def)
qed simp

lemma pad_order:
  "(pad n a < pad n b \<or> pad n a = pad n b \<and> length a < length b) \<longleftrightarrow> a < (b :: key)"
proof (induction a b arbitrary: n rule: list_induct2')
  case 1
  then show ?case by simp
next
  case (2 x xs)
  have "replicate n False \<le> pad n (x # xs)" by (intro zeros_least) simp
  then show ?case by auto
next
  case (3 y ys)
  have "replicate n False \<le> pad n (y # ys)" by (intro zeros_least) simp
  then show ?case by (auto simp: le_less)
next
  case (4 x xs y ys)
  show ?case
  proof (cases n)
    case 0
    then show ?thesis by auto
  next
    case (Suc m)
    then show ?thesis using "4.IH" [of m] by auto
  qed
qed

text \<open>The walk order is the order that comparing prefixes gives.\<close>

lemma pfx_cmp_order:
  assumes "pafi a = pafi b"
  shows "pfx_cmp a b = (if pbits a < pbits b then -1 else if pbits a = pbits b then 0 else 1)"
proof -
  have less: "pbits a < pbits b \<longleftrightarrow>
      (packed_bits a < packed_bits b \<or> packed_bits a = packed_bits b \<and> plen a < plen b)"
    using pad_order [where n = "addr_bits (pafi a)" and a = "pbits a" and b = "pbits b"] assms by (simp add: packed_bits_def plen_def)
  have eq: "pbits a = pbits b" if "packed_bits a = packed_bits b" "plen a = plen b"
    using that assms by (simp add: packed_bits_def plen_def)
  show ?thesis
  proof (cases "packed_bits a = packed_bits b")
    case True
    then show ?thesis using less eq assms by (auto simp: pfx_cmp_def plen_def)
  next
    case False
    then have "pbits a \<noteq> pbits b" using assms by (auto simp: packed_bits_def plen_def)
    then show ?thesis using False less assms by (simp add: pfx_cmp_def)
  qed
qed

lemma trie_size_nodes: "trie_wf t \<Longrightarrow> t \<noteq> Leaf \<Longrightarrow> trie_nodes t + 1 \<le> 2 * trie_size t"
proof (induction t)
  case Leaf
  then show ?case by simp
next
  case (Node p v l r)
  then show ?case
    by (cases l; cases r; cases v) (auto simp: trie_size_def)
qed

section \<open>The interface of a prefix map\<close>

text \<open>
  What the route table, the resolver and the prefix lists rely on: a map from keys with
  insertion, removal and longest-prefix match. \<open>cover_walk\<close> is the search those
  components share: from the longest cover of an address to the shortest, passing over
  what is not acceptable; \<open>prefix_map.cover_walk_spec\<close> shows the bound on its steps is
  never reached and the answer is the longest acceptable cover.
\<close>

fun cover_walk :: "nat \<Rightarrow> (key \<Rightarrow> (key \<times> 'v) option) \<Rightarrow> (key \<times> 'v \<Rightarrow> bool) \<Rightarrow> key \<Rightarrow>
    (key \<times> 'v) option \<Rightarrow> (key \<times> 'v) option" where
  "cover_walk 0 lpm ok addr dest = None"
| "cover_walk (Suc n) lpm ok addr None = None"
| "cover_walk (Suc n) lpm ok addr (Some d) =
     (if ok d then Some d
      else if length (fst d) = 0 then None
      else cover_walk n lpm ok addr (lpm (take (length (fst d) - 1) addr)))"

lemma prefix_take_iff: "Sublist.prefix q (take j k) \<longleftrightarrow> Sublist.prefix q k \<and> length q \<le> j"
proof
  assume *: "Sublist.prefix q (take j k)"
  show "Sublist.prefix q k \<and> length q \<le> j"
    using prefix_order.trans [OF * take_is_prefix] prefix_length_le [OF *] by simp
next
  assume *: "Sublist.prefix q k \<and> length q \<le> j"
  then have "q = take (length q) (take j k)" by (simp add: min_def prefix_take)
  then show "Sublist.prefix q (take j k)" using take_is_prefix by metis
qed

locale prefix_map =
  fixes get :: "'m \<Rightarrow> key \<Rightarrow> 'v option"
    and put :: "key \<Rightarrow> 'v \<Rightarrow> 'm \<Rightarrow> 'm"
    and del :: "key \<Rightarrow> 'm \<Rightarrow> 'm"
    and lpm :: "'m \<Rightarrow> key \<Rightarrow> (key \<times> 'v) option"
    and inv :: "'m \<Rightarrow> bool"
  assumes inv_put: "inv m \<Longrightarrow> inv (put k v m)"
    and inv_del: "inv m \<Longrightarrow> inv (del k m)"
    and get_put: "inv m \<Longrightarrow> get (put k v m) k' = (if k' = k then Some v else get m k')"
    and get_del: "inv m \<Longrightarrow> get (del k m) k' = (if k' = k then None else get m k')"
    and lpm_Some: "inv m \<Longrightarrow> lpm m k = Some (q, v) \<Longrightarrow> get m q = Some v \<and> Sublist.prefix q k
      \<and> (\<forall>q'. get m q' \<noteq> None \<longrightarrow> Sublist.prefix q' k \<longrightarrow> length q' \<le> length q)"
    and lpm_None: "inv m \<Longrightarrow> lpm m k = None \<Longrightarrow> Sublist.prefix q k \<Longrightarrow> get m q = None"
begin

lemma cover_walk_bounded:
  assumes "inv m" and "j < n"
  shows "case cover_walk n (lpm m) ok k (lpm m (take j k)) of
      Some (q, v) \<Rightarrow> get m q = Some v \<and> Sublist.prefix q k \<and> ok (q, v) \<and> length q \<le> j
        \<and> (\<forall>q' v'. get m q' = Some v' \<longrightarrow> Sublist.prefix q' k \<longrightarrow> length q' \<le> j \<longrightarrow> ok (q', v') \<longrightarrow> length q' \<le> length q)
    | None \<Rightarrow> (\<forall>q' v'. get m q' = Some v' \<longrightarrow> Sublist.prefix q' k \<longrightarrow> length q' \<le> j \<longrightarrow> \<not> ok (q', v'))"
  using assms(2)
proof (induction n arbitrary: j)
  case 0
  then show ?case by simp
next
  case (Suc n)
  show ?case
  proof (cases "lpm m (take j k)")
    case None
    then show ?thesis using lpm_None [OF assms(1) None] by (auto simp: prefix_take_iff)
  next
    case (Some d)
    obtain q v where d: "d = (q, v)" by (cases d)
    have L: "get m q = Some v" "Sublist.prefix q k" "length q \<le> j"
      "\<And>q'. get m q' \<noteq> None \<Longrightarrow> Sublist.prefix q' k \<Longrightarrow> length q' \<le> j \<Longrightarrow> length q' \<le> length q"
      using lpm_Some [OF assms(1), of "take j k" q v] Some d by (auto simp: prefix_take_iff)
    have same: "q' = q" if "Sublist.prefix q' k" "length q' = length q" for q'
      using that L(2) prefix_take by metis
    show ?thesis
    proof (cases "ok (q, v)")
      case True
      then show ?thesis using L Some d by auto
    next
      case False
      show ?thesis
      proof (cases "q = []")
        case True
        have "q' = q" if "get m q' = Some v'" "Sublist.prefix q' k" "length q' \<le> j" for q' v'
          using L(4) [of q'] same [of q'] that True by simp
        then have "\<not> ok (q', v')" if "get m q' = Some v'" "Sublist.prefix q' k" "length q' \<le> j" for q' v'
          using that L(1) False by force
        then show ?thesis using Some d False True by auto
      next
        case q: False
        let ?r = "cover_walk n (lpm m) ok k (lpm m (take (length q - 1) k))"
        have shorter: "length q' \<le> length q - 1"
          if "get m q' = Some v'" "Sublist.prefix q' k" "length q' \<le> j" "ok (q', v')" for q' v'
        proof -
          have "q' \<noteq> q" using that(1,4) L(1) False by auto
          then have "length q' \<noteq> length q" using same that(2) by blast
          moreover have "length q' \<le> length q" using L(4) that by auto
          ultimately show ?thesis by simp
        qed
        have "length q - 1 < n" using L(3) Suc.prems q by (cases q) auto
        note IH = Suc.IH [OF this]
        show ?thesis
        proof (cases ?r)
          case None
          then show ?thesis using IH shorter Some d False q by fastforce
        next
          case (Some e)
          then show ?thesis using IH shorter L(3) \<open>lpm m (take j k) = Some d\<close> d False q
            by (cases e) fastforce
        qed
      qed
    qed
  qed
qed

lemma cover_walk_Some:
  assumes "inv m" and "cover_walk (Suc (length k)) (lpm m) ok k (lpm m k) = Some (q, v)"
  shows "get m q = Some v" "Sublist.prefix q k" "ok (q, v)"
    "get m q' = Some v' \<Longrightarrow> Sublist.prefix q' k \<Longrightarrow> ok (q', v') \<Longrightarrow> length q' \<le> length q"
  using cover_walk_bounded [where j = "length k" and n = "Suc (length k)" and k = k and ok = ok, OF assms(1)] assms(2)
  by (auto dest: prefix_length_le)

lemma cover_walk_None:
  assumes "inv m" and "cover_walk (Suc (length k)) (lpm m) ok k (lpm m k) = None"
    and "get m q = Some v" and "Sublist.prefix q k"
  shows "\<not> ok (q, v)"
  using cover_walk_bounded [where j = "length k" and n = "Suc (length k)" and k = k and ok = ok, OF assms(1)] assms(2-)
  by (auto dest: prefix_length_le)

end

lemma trie_lpm_cover:
  assumes "trie_wf t"
  shows "case trie_lpm t k of Some px \<Rightarrow> longest_cover (set (trie_items t)) k px
    | None \<Rightarrow> \<not> (\<exists>qy \<in> set (trie_items t). Sublist.prefix (fst qy) k)"
  using node_lpm_spec [OF assms, of k None] by (auto simp: trie_lpm_def split: if_splits)

interpretation trie: prefix_map node_exact trie_insert trie_remove trie_lpm trie_wf
proof unfold_locales
  fix m :: "'a trie" and k k' q v
  assume wf: "trie_wf m"
  show "trie_wf (trie_insert k v m)" by (rule trie_insert_wf [OF wf])
  show "trie_wf (trie_remove k m)" by (rule trie_remove_wf [OF wf])
  have opt: "a = b" if "\<And>x. a = Some x \<longleftrightarrow> b = Some x" for a b :: "'a option"
    using that by (metis option.exhaust)
  show "node_exact (trie_insert k v m) k' = (if k' = k then Some v else node_exact m k')"
    using node_exact_items [OF trie_insert_wf [OF wf, of k v], of k'] node_exact_items [OF wf, of k']
    by (intro opt) (auto simp: trie_insert_items [OF wf])
  show "node_exact (trie_remove k m) k' = (if k' = k then None else node_exact m k')"
    using node_exact_items [OF trie_remove_wf [OF wf, of k], of k'] node_exact_items [OF wf, of k']
    by (intro opt) (auto simp: trie_remove_items [OF wf])
  show "node_exact m q = Some v \<and> Sublist.prefix q k
      \<and> (\<forall>q'. node_exact m q' \<noteq> None \<longrightarrow> Sublist.prefix q' k \<longrightarrow> length q' \<le> length q)"
    if "trie_lpm m k = Some (q, v)"
    using trie_lpm_cover [OF wf, of k] that node_exact_items [OF wf]
    by (fastforce simp: longest_cover_def)
  show "node_exact m q = None" if "trie_lpm m k = None" "Sublist.prefix q k"
    using trie_lpm_cover [OF wf, of k] that node_exact_items [OF wf, of q]
    by (cases "node_exact m q") fastforce+
qed

section \<open>Runs of insertions and removals\<close>

datatype 'v trie_op = Put key 'v | Del key

fun trie_step :: "'v trie \<Rightarrow> 'v trie_op \<Rightarrow> 'v trie" where
  "trie_step t (Put k v) = trie_insert k v t"
| "trie_step t (Del k) = trie_remove k t"

fun map_step :: "(key \<rightharpoonup> 'v) \<Rightarrow> 'v trie_op \<Rightarrow> (key \<rightharpoonup> 'v)" where
  "map_step m (Put k v) = m(k \<mapsto> v)"
| "map_step m (Del k) = m(k := None)"

interpretation trie_machine: invariant_machine trie_step trie_wf
proof
  fix t :: "'a trie" and e
  show "trie_wf t \<Longrightarrow> trie_wf (trie_step t e)"
    by (cases e) (simp_all add: trie.inv_put trie.inv_del)
qed

lemma trie_step_refines: "trie_wf t \<Longrightarrow> node_exact (trie_step t e) = map_step (node_exact t) e"
  by (cases e) (auto simp: trie.get_put trie.get_del fun_eq_iff)

lemma trie_run_refines:
  "trie_wf t \<Longrightarrow> node_exact (foldl trie_step t es) = foldl map_step (node_exact t) es"
  by (induction es arbitrary: t) (simp_all add: trie_step_refines trie_machine.step_inv)

lemma trie_run_wf: "trie_wf (foldl trie_step Leaf es)"
  by (rule trie_machine.run_inv) simp

lemma trie_run_get: "node_exact (foldl trie_step Leaf es) = foldl map_step Map.empty es"
proof -
  have "node_exact (Leaf :: 'a trie) = Map.empty" by (rule ext) simp
  then show ?thesis using trie_run_refines [of Leaf es] by simp
qed

text \<open>C17. After any run of insertions and removals the trie stores exactly the entries of the
  finite map that the same run builds, each key once and in ascending prefix order.\<close>

theorem trie_refines_map:
  "map_of (trie_items (foldl trie_step Leaf es)) = foldl map_step Map.empty es
   \<and> sorted_wrt (<) (map fst (trie_items (foldl trie_step Leaf es)))"
proof -
  let ?t = "foldl trie_step Leaf es"
  have "map_of (trie_items ?t) k = Some x \<longleftrightarrow> node_exact ?t k = Some x" for k x
    by (simp add: items_distinct [OF trie_run_wf] node_exact_items [OF trie_run_wf])
  then have "map_of (trie_items ?t) = node_exact ?t" by (metis ext option.exhaust)
  then show ?thesis by (simp add: trie_run_get items_sorted [OF trie_run_wf])
qed

text \<open>C18. After any run, longest-prefix match of an address answers with a stored entry that
  covers the address and that no stored cover is longer than; it answers nothing exactly when
  no stored entry covers the address.\<close>

theorem trie_lpm_longest:
  fixes es :: "'v trie_op list"
  defines "m \<equiv> foldl map_step Map.empty es"
  shows "(trie_lpm (foldl trie_step Leaf es) a = Some (q, x) \<longleftrightarrow>
    m q = Some x \<and> Sublist.prefix q a \<and> (\<forall>q' \<in> dom m. Sublist.prefix q' a \<longrightarrow> length q' \<le> length q))
    \<and> (trie_lpm (foldl trie_step Leaf es) a = None \<longleftrightarrow> (\<forall>q' \<in> dom m. \<not> Sublist.prefix q' a))"
proof (rule conjI)
  let ?t = "foldl trie_step Leaf es :: 'v trie"
  have m: "node_exact ?t = m" by (simp add: m_def trie_run_get)
  have stored: "m q = Some x \<and> Sublist.prefix q a \<and> (\<forall>q' \<in> dom m. Sublist.prefix q' a \<longrightarrow> length q' \<le> length q)"
    if "trie_lpm ?t a = Some (q, x)" for q x
    using trie.lpm_Some [OF trie_run_wf that] by (auto simp: m)
  show none: "trie_lpm ?t a = None \<longleftrightarrow> (\<forall>q' \<in> dom m. \<not> Sublist.prefix q' a)"
    using trie.lpm_None [OF trie_run_wf, of es a] stored by (cases "trie_lpm ?t a") (auto simp: m dom_def)
  have "trie_lpm ?t a = Some (q, x)"
    if r: "m q = Some x \<and> Sublist.prefix q a \<and> (\<forall>q' \<in> dom m. Sublist.prefix q' a \<longrightarrow> length q' \<le> length q)"
  proof -
    obtain q' x' where l: "trie_lpm ?t a = Some (q', x')"
      using none r by (cases "trie_lpm ?t a") auto
    note c = stored [OF l]
    have "length q' = length q" using c r by (auto simp: dom_def intro!: le_antisym)
    moreover have "Sublist.prefix q' a" "Sublist.prefix q a" using c r by auto
    ultimately have "q' = q" using prefix_take by metis
    then show ?thesis using l c r by simp
  qed
  with stored show "trie_lpm ?t a = Some (q, x) \<longleftrightarrow>
    m q = Some x \<and> Sublist.prefix q a \<and> (\<forall>q' \<in> dom m. Sublist.prefix q' a \<longrightarrow> length q' \<le> length q)"
    by blast
qed

theorem trie_lpm_longest_witness:
  "trie_lpm (foldl trie_step Leaf [Put [True] ''a'', Put [True, False] ''b'', Put [False] ''c'', Del [False]])
     [True, False, True] = Some ([True, False], ''b'')"
  unfolding trie_lpm_longest [THEN conjunct1] by (auto split: if_splits)

end
