(* ===== verification/RouteTable.thy ===== *)
theory RouteTable
  imports PrefixTrie
begin

text \<open>
  \<open>rib/table.pyx\<close>: the candidates that protocols offer for a destination, the comparison
  that picks one, and the change queue that makes selection a bounded amount of work. A
  \<open>Dest\<close> object lives in the trie under its prefix, and the queue names it by that prefix.
  Object identity (\<open>is\<close>) of routes is equality of the records, which carry the identity of
  the object in \<open>roid\<close>; the source token, opaque and compared by identity, is a number.
\<close>

section \<open>Routes and destinations\<close>

record route =
  rprefix :: prefix
  rprotocol :: nat
  radmin :: nat
  rmetric :: nat
  rnexthop :: "byte list"
  rsource :: nat
  rtime :: time
  roid :: nat

abbreviation (input) "PROTO_UNSPEC \<equiv> 0 :: nat"
abbreviation (input) "PROTO_CONNECTED \<equiv> 1 :: nat"
abbreviation (input) "PROTO_STATIC \<equiv> 2 :: nat"
abbreviation (input) "PROTO_BGP \<equiv> 3 :: nat"

text \<open>The constructor's arguments are C integers: \<open>unsigned char\<close> for the distance and a 32-bit
  word for the metric, so an integer outside their range raises before the body runs.\<close>

definition new_route :: "prefix \<Rightarrow> nat \<Rightarrow> int \<Rightarrow> int \<Rightarrow> byte list \<Rightarrow> nat \<Rightarrow> time \<Rightarrow> nat \<Rightarrow> route result" where
  "new_route p proto admin metric nexthop source now oid =
    (if admin < 0 \<or> admin > 255 \<or> metric < 0 \<or> metric \<ge> 2 ^ 32 then Inl OverflowError
     else if length nexthop \<noteq> 0 \<and> length nexthop \<noteq> 4 \<and> length nexthop \<noteq> 16
     then Inl (ValueError ''next-hop must be 4 or 16 bytes, or empty for a connected route'')
     else Inr \<lparr>rprefix = p, rprotocol = proto, radmin = nat admin, rmetric = nat metric, rnexthop = nexthop,
       rsource = source, rtime = now, roid = oid\<rparr>)"

definition same_origin :: "route \<Rightarrow> route \<Rightarrow> bool" where
  "same_origin a b \<longleftrightarrow> rprotocol a = rprotocol b \<and> rsource a = rsource b"

definition same_content :: "route \<Rightarrow> route \<Rightarrow> bool" where
  "same_content a b \<longleftrightarrow> radmin a = radmin b \<and> rmetric a = rmetric b \<and> rnexthop a = rnexthop b"

definition route_cmp :: "route \<Rightarrow> route \<Rightarrow> int" where
  "route_cmp a b =
    (if radmin a \<noteq> radmin b then (if radmin a < radmin b then -1 else 1)
     else if rmetric a \<noteq> rmetric b then (if rmetric a < rmetric b then -1 else 1)
     else if rprotocol a \<noteq> rprotocol b then (if rprotocol a < rprotocol b then -1 else 1)
     else if rtime a \<noteq> rtime b then (if rtime a < rtime b then -1 else 1)
     else 0)"

record dest =
  droutes :: "route list"
  dbest :: "route option"
  dversion :: nat
  dqueued :: bool

definition new_dest :: dest where
  "new_dest = \<lparr>droutes = [], dbest = None, dversion = 0, dqueued = False\<rparr>"

fun select_from :: "route option \<Rightarrow> route list \<Rightarrow> route option" where
  "select_from best [] = best"
| "select_from None (r # rs) = select_from (Some r) rs"
| "select_from (Some b) (r # rs) = select_from (Some (if route_cmp r b < 0 then r else b)) rs"

definition dest_select :: "route list \<Rightarrow> route option" where
  "dest_select rs = select_from None rs"

section \<open>The table\<close>

record rtable =
  tafi :: nat
  tsafi :: nat
  ttrie :: "dest trie"
  tcount :: nat
  tversion :: nat
  tqueue :: "key list"
  tqhead :: nat
  trversion :: "(nat, nat) pydict"  \<comment> \<open>\<open>Route.version\<close> by object, 0 when absent\<close>

definition new_table :: "nat \<Rightarrow> nat \<Rightarrow> rtable result" where
  "new_table afi safi =
    (if addr_len afi = 0 then Inl (ValueError ''unsupported address family number'')
     else Inr \<lparr>tafi = afi, tsafi = safi, ttrie = Leaf, tcount = 0, tversion = 0, tqueue = [],
       tqhead = 0, trversion = []\<rparr>)"

definition tbl_get :: "rtable \<Rightarrow> prefix \<Rightarrow> dest option" where
  "tbl_get t p = (if pafi p \<noteq> tafi t then None else node_exact (ttrie t) (pbits p))"

definition tbl_lpm :: "rtable \<Rightarrow> prefix \<Rightarrow> (key \<times> dest) option" where
  "tbl_lpm t p = (if pafi p \<noteq> tafi t then None else trie_lpm (ttrie t) (pbits p))"

definition tbl_lpm_addr :: "rtable \<Rightarrow> byte list \<Rightarrow> (key \<times> dest) option result" where
  "tbl_lpm_addr t addr =
    (if length addr \<noteq> addr_len (tafi t) then Inl (ValueError ''wrong address width'')
     else Inr (trie_lpm (ttrie t) (bytes_bits addr)))"

definition put_dest :: "key \<Rightarrow> dest \<Rightarrow> rtable \<Rightarrow> rtable" where
  \<comment> \<open>the object stored at \<open>k\<close> now reads \<open>d\<close>\<close>
  "put_dest k d t = t\<lparr>ttrie := trie_insert k d (ttrie t)\<rparr>"

definition enqueue :: "key \<Rightarrow> dest \<Rightarrow> rtable \<Rightarrow> rtable" where
  "enqueue k d t =
    (if dqueued d then put_dest k d t
     else (put_dest k (d\<lparr>dqueued := True\<rparr>) t)\<lparr>tqueue := tqueue t @ [k]\<rparr>)"

definition tbl_dest :: "prefix \<Rightarrow> rtable \<Rightarrow> (rtable \<times> dest) result" where
  "tbl_dest p t =
    (if pafi p \<noteq> tafi t then Inl (ValueError ''prefix does not belong in this table'')
     else (case node_exact (ttrie t) (pbits p) of
             Some d \<Rightarrow> Inr (t, d)
           | None \<Rightarrow> Inr (enqueue (pbits p) new_dest t, new_dest\<lparr>dqueued := True\<rparr>)))"

fun origin_index :: "nat \<Rightarrow> nat \<Rightarrow> route list \<Rightarrow> nat option" where
  "origin_index proto source [] = None"
| "origin_index proto source (r # rs) =
     (if rprotocol r = proto \<and> rsource r = source then Some 0
      else map_option Suc (origin_index proto source rs))"

definition tbl_offer :: "route \<Rightarrow> rtable \<Rightarrow> (rtable \<times> nat) result" where
  "tbl_offer r t = bind_res (tbl_dest (rprefix r) t) (\<lambda>(t1, d).
     let k = pbits (rprefix r) in
     case origin_index (rprotocol r) (rsource r) (droutes d) of
       Some i \<Rightarrow>
         if same_content (droutes d ! i) r then Inr (t1, 1)
         else Inr (enqueue k (d\<lparr>droutes := (droutes d)[i := r]\<rparr>) t1, 1)
     | None \<Rightarrow>
         Inr ((enqueue k (d\<lparr>droutes := droutes d @ [r]\<rparr>) t1)\<lparr>tcount := tcount t1 + 1\<rparr>, 0))"

definition del_nth :: "nat \<Rightarrow> 'a list \<Rightarrow> 'a list" where
  "del_nth i xs = take i xs @ drop (Suc i) xs"

definition tbl_retract :: "prefix \<Rightarrow> nat \<Rightarrow> nat \<Rightarrow> rtable \<Rightarrow> rtable \<times> nat" where
  "tbl_retract p proto source t =
    (case tbl_get t p of
       None \<Rightarrow> (t, 0)
     | Some d \<Rightarrow>
         (case origin_index proto source (droutes d) of
            None \<Rightarrow> (t, 0)
          | Some i \<Rightarrow>
              ((enqueue (pbits p) (d\<lparr>droutes := del_nth i (droutes d)\<rparr>) t)\<lparr>tcount := tcount t - 1\<rparr>, 1)))"

definition tbl_pending :: "rtable \<Rightarrow> nat" where
  "tbl_pending t = length (tqueue t) - tqhead t"

text \<open>One turn of the selection loop: the destination at the head of the queue. Every queued
  destination is in the trie (\<open>table_inv\<close> below), so the branch without one is never taken.\<close>

definition select_one :: "rtable \<Rightarrow> rtable \<times> (key \<times> dest) list" where
  "select_one t =
    (let k = tqueue t ! tqhead t; t1 = t\<lparr>tqhead := tqhead t + 1\<rparr> in
     case node_exact (ttrie t) k of
       None \<Rightarrow> (t1, [])
     | Some d0 \<Rightarrow>
         (let d = d0\<lparr>dqueued := False\<rparr>;
              winner = dest_select (droutes d);
              changed = (winner \<noteq> dbest d);
              v = (if changed then tversion t + 1 else tversion t);
              d' = (if changed then d\<lparr>dbest := winner, dversion := v\<rparr> else d);
              t2 = (put_dest k d' t1)\<lparr>tversion := v,
                     trversion := (case winner of
                        Some w \<Rightarrow> if changed then dict_set (roid w) v (trversion t) else trversion t
                      | None \<Rightarrow> trversion t)\<rparr>;
              t3 = (if winner = None \<and> droutes d' = []
                    then t2\<lparr>ttrie := trie_remove k (ttrie t2)\<rparr> else t2)
          in (t3, if changed then [(k, d')] else [])))"

lemma tqhead_put [simp]: "tqhead (put_dest k d t) = tqhead t"
  by (simp add: put_dest_def)

lemma select_one_qhead [simp]: "tqhead (fst (select_one t)) = tqhead t + 1"
  by (simp add: select_one_def Let_def split: option.splits)

function reselect_loop :: "int \<Rightarrow> nat \<Rightarrow> int \<Rightarrow> rtable \<Rightarrow> (key \<times> dest) list \<Rightarrow> rtable \<times> (key \<times> dest) list" where
  "reselect_loop limit n k t changed =
    (if tqhead t < n \<and> (limit \<le> 0 \<or> k < limit)
     then reselect_loop limit n (k + 1) (fst (select_one t)) (changed @ snd (select_one t))
     else (t, changed))"
  by pat_completeness auto
termination by (relation "measure (\<lambda>(limit, n, k, t, changed). n - tqhead t)") auto

declare reselect_loop.simps [simp del]

definition compact :: "rtable \<Rightarrow> rtable" where
  "compact t =
    (if tqhead t \<ge> length (tqueue t) then t\<lparr>tqueue := [], tqhead := 0\<rparr>
     else if tqhead t > 1024 then t\<lparr>tqueue := drop (tqhead t) (tqueue t), tqhead := 0\<rparr>
     else t)"

definition reselect :: "int \<Rightarrow> rtable \<Rightarrow> rtable \<times> (key \<times> dest) list" where
  "reselect limit t =
    (case reselect_loop limit (length (tqueue t)) 0 t [] of (t', changed) \<Rightarrow> (compact t', changed))"

definition tbl_prefixes :: "rtable \<Rightarrow> prefix list" where
  "tbl_prefixes t = map (\<lambda>(k, d). \<lparr>pafi = tafi t, pbits = k\<rparr>) (trie_items (ttrie t))"

end
