(* ===== verification/RouteTableProps.thy ===== *)
theory RouteTableProps
  imports RouteTable "HOL-Library.Product_Lexorder"
begin

text \<open>
  What the route table promises: its invariant (the queue holds exactly the destinations
  marked as queued, every destination at rest holds the winner of its candidates), the
  refinement to a map from prefixes to candidate lists, and what a selection pass reports.
\<close>

section \<open>The order on routes\<close>

definition route_key :: "route \<Rightarrow> nat \<times> nat \<times> nat \<times> time" where
  "route_key r = (radmin r, rmetric r, rprotocol r, rtime r)"

lemma route_cmp_key: "route_cmp a b < 0 \<longleftrightarrow> route_key a < route_key b"
  by (auto simp: route_cmp_def route_key_def)

lemma select_from_Some:
  "\<exists>b'. select_from (Some b) rs = Some b' \<and> b' \<in> set (b # rs)
    \<and> (\<forall>r \<in> set (b # rs). route_key b' \<le> route_key r)"
proof (induction rs arbitrary: b)
  case Nil
  then show ?case by simp
next
  case (Cons r rs)
  let ?c = "if route_cmp r b < 0 then r else b"
  obtain b' where "select_from (Some ?c) rs = Some b'" "b' \<in> set (?c # rs)"
    "\<forall>x \<in> set (?c # rs). route_key b' \<le> route_key x" using Cons.IH by blast
  then show ?case by (auto simp: route_cmp_key split: if_splits)
qed

lemma dest_select_None [simp]: "dest_select rs = None \<longleftrightarrow> rs = []"
proof (cases rs)
  case (Cons r rs')
  then show ?thesis using select_from_Some [of r rs'] by (auto simp: dest_select_def)
qed (simp add: dest_select_def)

lemma dest_select_Nil [simp]: "dest_select [] = None"
  by simp

lemma dest_select_best:
  assumes "dest_select rs = Some b"
  shows "b \<in> set rs" and "r \<in> set rs \<Longrightarrow> route_key b \<le> route_key r"
proof -
  obtain r0 rs' where rs: "rs = r0 # rs'" using assms by (cases rs) (auto simp: dest_select_def)
  then show "b \<in> set rs" "r \<in> set rs \<Longrightarrow> route_key b \<le> route_key r"
    using select_from_Some [of r0 rs'] assms by (auto simp: dest_select_def)
qed

section \<open>The invariant\<close>

abbreviation find :: "rtable \<Rightarrow> key \<rightharpoonup> dest" where
  "find t \<equiv> node_exact (ttrie t)"

abbreviation waiting :: "rtable \<Rightarrow> key list" where
  "waiting t \<equiv> drop (tqhead t) (tqueue t)"

definition routes_of :: "rtable \<Rightarrow> key \<Rightarrow> route list" where
  "routes_of t k = (case find t k of None \<Rightarrow> [] | Some d \<Rightarrow> droutes d)"

definition best_of :: "rtable \<Rightarrow> key \<Rightarrow> route option" where
  "best_of t k = (case find t k of None \<Rightarrow> None | Some d \<Rightarrow> dbest d)"

abbreviation origin :: "route \<Rightarrow> nat \<times> nat" where
  "origin r \<equiv> (rprotocol r, rsource r)"

definition routes_ok :: "nat \<Rightarrow> key \<Rightarrow> route list \<Rightarrow> bool" where
  "routes_ok afi k rs \<longleftrightarrow> distinct (map origin rs) \<and> (\<forall>r \<in> set rs. rprefix r = \<lparr>pafi = afi, pbits = k\<rparr>)"

definition at_rest :: "dest \<Rightarrow> bool" where
  "at_rest d \<longleftrightarrow> droutes d \<noteq> [] \<and> dbest d = dest_select (droutes d)"

definition route_total :: "rtable \<Rightarrow> nat" where
  "route_total t = (\<Sum>k \<in> dom (find t). length (routes_of t k))"

definition table_inv :: "rtable \<Rightarrow> bool" where
  "table_inv t \<longleftrightarrow> trie_wf (ttrie t) \<and> tqhead t \<le> length (tqueue t) \<and> distinct (waiting t)
     \<and> (\<forall>k. k \<in> set (waiting t) \<longleftrightarrow> (\<exists>d. find t k = Some d \<and> dqueued d))
     \<and> (\<forall>k d. find t k = Some d \<longrightarrow> routes_ok (tafi t) k (droutes d) \<and> (dqueued d \<or> at_rest d))
     \<and> tcount t = route_total t"

lemma table_invD:
  assumes "table_inv t"
  shows "trie_wf (ttrie t)" "tqhead t \<le> length (tqueue t)" "distinct (waiting t)"
    "k \<in> set (waiting t) \<longleftrightarrow> (\<exists>d. find t k = Some d \<and> dqueued d)"
    "find t k = Some d \<Longrightarrow> routes_ok (tafi t) k (droutes d)"
    "find t k = Some d \<Longrightarrow> \<not> dqueued d \<Longrightarrow> at_rest d"
    "tcount t = route_total t"
  using assms unfolding table_inv_def by blast+

lemma find_put: "trie_wf (ttrie t) \<Longrightarrow> find (put_dest k d t) = (find t)(k \<mapsto> d)"
  by (rule ext) (simp add: put_dest_def trie.get_put)

lemma put_sel [simp]:
  "tafi (put_dest k d t) = tafi t" "tqueue (put_dest k d t) = tqueue t"
  "tcount (put_dest k d t) = tcount t" "tversion (put_dest k d t) = tversion t"
  by (simp_all add: put_dest_def)

lemma put_wf: "trie_wf (ttrie t) \<Longrightarrow> trie_wf (ttrie (put_dest k d t))"
  by (simp add: put_dest_def trie.inv_put)

lemma finite_find: "trie_wf (ttrie t) \<Longrightarrow> finite (dom (find t))"
proof -
  assume wf: "trie_wf (ttrie t)"
  have "dom (find t) \<subseteq> fst ` set (trie_items (ttrie t))"
    using node_exact_items [OF wf] by (force simp: image_iff)
  then show ?thesis by (rule finite_subset) simp
qed

lemma sum_update:
  fixes f :: "'d \<Rightarrow> nat"
  assumes "finite (dom m)"
  shows "(\<Sum>k' \<in> dom (m(k \<mapsto> d)). f (the ((m(k \<mapsto> d)) k'))) + (case m k of None \<Rightarrow> 0 | Some d0 \<Rightarrow> f d0)
    = (\<Sum>k' \<in> dom m. f (the (m k'))) + f d"
proof -
  have "(\<Sum>k' \<in> dom m - {k}. f (the ((m(k \<mapsto> d)) k'))) = (\<Sum>k' \<in> dom m - {k}. f (the (m k')))"
    by (rule sum.cong) auto
  then have l: "(\<Sum>k' \<in> dom (m(k \<mapsto> d)). f (the ((m(k \<mapsto> d)) k'))) = f d + (\<Sum>k' \<in> dom m - {k}. f (the (m k')))"
    using assms sum.insert_remove [OF assms, of "\<lambda>k'. f (the ((m(k \<mapsto> d)) k'))" k] by simp
  show ?thesis
  proof (cases "m k")
    case None
    then have "dom m - {k} = dom m" by (auto simp: dom_def)
    then show ?thesis using l None by simp
  next
    case (Some d0)
    then have "(\<Sum>k' \<in> dom m. f (the (m k'))) = f d0 + (\<Sum>k' \<in> dom m - {k}. f (the (m k')))"
      using sum.remove [OF assms, of k "\<lambda>k'. f (the (m k'))"] by (auto simp: dom_def)
    then show ?thesis using l Some by simp
  qed
qed

lemma route_total_alt: "route_total t = (\<Sum>k \<in> dom (find t). length (droutes (the (find t k))))"
  unfolding route_total_def by (rule sum.cong) (auto simp: routes_of_def)


section \<open>Queueing a change\<close>

lemma enqueue_sel [simp]:
  "tafi (enqueue k d t) = tafi t" "tqhead (enqueue k d t) = tqhead t"
  "tqueue (enqueue k d t) = tqueue t @ (if dqueued d then [] else [k])"
  "tcount (enqueue k d t) = tcount t" "tversion (enqueue k d t) = tversion t"
  by (simp_all add: enqueue_def)

lemma enqueue_tcount [simp]: "(enqueue k d t)\<lparr>tcount := tcount t\<rparr> = enqueue k d t"
  by (cases t) (simp add: enqueue_def put_dest_def)

lemma find_enqueue:
  "trie_wf (ttrie t) \<Longrightarrow> find (enqueue k d t) = (find t)(k \<mapsto> d\<lparr>dqueued := True\<rparr>)"
  by (cases "dqueued d"; cases d) (simp_all add: enqueue_def find_put)

text \<open>A destination whose candidates were edited and that was put in the queue, unless it was
  waiting there: the invariant survives when the route count is adjusted by the difference.\<close>

lemma enqueue_inv:
  assumes inv: "table_inv t"
    and old: "case find t k of None \<Rightarrow> \<not> dqueued d | Some d0 \<Rightarrow> dqueued d = dqueued d0"
    and ok: "routes_ok (tafi t) k (droutes d)"
    and count: "c + length (routes_of t k) = tcount t + length (droutes d)"
  shows "table_inv ((enqueue k d t)\<lparr>tcount := c\<rparr>)"
proof -
  note I = table_invD [OF inv]
  let ?t = "(enqueue k d t)\<lparr>tcount := c\<rparr>"
  have f: "find ?t = (find t)(k \<mapsto> d\<lparr>dqueued := True\<rparr>)" using find_enqueue [OF I(1)] by simp
  have wf: "trie_wf (ttrie ?t)" using I(1) by (simp add: enqueue_def put_wf)
  have inq: "k \<in> set (waiting t) \<longleftrightarrow> dqueued d"
    using old I(4) [of k] by (auto split: option.splits)
  have w: "waiting ?t = waiting t @ (if dqueued d then [] else [k])" using I(2) by simp
  have "distinct (waiting ?t)" using I(3) inq w by auto
  moreover have "k' \<in> set (waiting ?t) \<longleftrightarrow> (\<exists>d'. find ?t k' = Some d' \<and> dqueued d')" for k'
    using I(4) [of k'] inq by (simp only: w f) auto
  moreover have "routes_ok (tafi ?t) k' (droutes d') \<and> (dqueued d' \<or> at_rest d')"
    if "find ?t k' = Some d'" for k' d'
    using that I(5,6) [of k' d'] ok by (auto simp only: f map_upd_Some_unfold) auto
  moreover have "tcount ?t = route_total ?t"
    using sum_update [OF finite_find [OF I(1)], of "\<lambda>d. length (droutes d)" k "d\<lparr>dqueued := True\<rparr>"]
      count I(7) by (simp only: route_total_alt f) (simp add: routes_of_def route_total_alt split: option.splits)
  ultimately show ?thesis
    using wf I(2) unfolding table_inv_def by (simp add: Ball_def)
qed

lemma routes_of_enqueue:
  "trie_wf (ttrie t) \<Longrightarrow> routes_of ((enqueue k d t)\<lparr>tcount := c\<rparr>) k' = (if k' = k then droutes d else routes_of t k')"
  using find_enqueue [of t k d] by (simp add: routes_of_def)

lemma best_of_enqueue:
  "trie_wf (ttrie t) \<Longrightarrow> dbest d = best_of t k \<Longrightarrow>
    best_of ((enqueue k d t)\<lparr>tcount := c\<rparr>) k' = best_of t k'"
  using find_enqueue [of t k d] by (simp add: best_of_def)

section \<open>Offers and withdrawals\<close>

text \<open>What an offer and a withdrawal do to the candidates of a prefix.\<close>

definition offer_routes :: "route \<Rightarrow> route list \<Rightarrow> route list" where
  "offer_routes r rs =
    (case origin_index (rprotocol r) (rsource r) rs of
       None \<Rightarrow> rs @ [r]
     | Some i \<Rightarrow> if same_content (rs ! i) r then rs else rs[i := r])"

definition retract_routes :: "nat \<Rightarrow> nat \<Rightarrow> route list \<Rightarrow> route list" where
  "retract_routes proto source rs =
    (case origin_index proto source rs of None \<Rightarrow> rs | Some i \<Rightarrow> del_nth i rs)"

lemma origin_index_Some:
  "origin_index proto source rs = Some i \<Longrightarrow> i < length rs \<and> origin (rs ! i) = (proto, source)"
  by (induction rs arbitrary: i) (auto split: if_splits)

lemma origin_index_None:
  "origin_index proto source rs = None \<longleftrightarrow> (proto, source) \<notin> origin ` set rs"
  by (induction rs) auto

lemma offer_routes_ok:
  assumes "routes_ok afi k rs" and "rprefix r = \<lparr>pafi = afi, pbits = k\<rparr>"
  shows "routes_ok afi k (offer_routes r rs)"
proof (cases "origin_index (rprotocol r) (rsource r) rs")
  case None
  then show ?thesis using assms iffD1 [OF origin_index_None None]
    by (auto simp: offer_routes_def routes_ok_def)
next
  case (Some i)
  then have i: "i < length rs" "origin (rs ! i) = origin r" using origin_index_Some by auto
  then have "map origin (rs[i := r]) = map origin rs" by (simp add: map_update list_update_same_conv)
  then show ?thesis using assms Some i set_update_subset_insert [of rs i r]
    by (auto simp: offer_routes_def routes_ok_def)
qed

lemma del_nth_subset: "set (del_nth i rs) \<subseteq> set rs"
  by (auto simp: del_nth_def dest: in_set_takeD in_set_dropD)

lemma map_del_nth: "map f (del_nth i rs) = del_nth i (map f rs)"
  by (simp add: del_nth_def take_map drop_map)

lemma distinct_del_nth: "distinct rs \<Longrightarrow> distinct (del_nth i rs)"
  using distinct_append [of "take i rs" "drop i rs"] set_take_disj_set_drop_if_distinct [of rs i "Suc i"]
  by (auto simp: del_nth_def)

lemma length_del_nth: "i < length rs \<Longrightarrow> length (del_nth i rs) + 1 = length rs"
  by (simp add: del_nth_def)

lemma retract_routes_ok: "routes_ok afi k rs \<Longrightarrow> routes_ok afi k (retract_routes proto source rs)"
  using del_nth_subset by (fastforce simp: retract_routes_def routes_ok_def map_del_nth distinct_del_nth
      split: option.splits)

lemma tbl_dest_spec:
  assumes inv: "table_inv t" and fam: "pafi p = tafi t"
  obtains t1 d where "tbl_dest p t = Inr (t1, d)" "table_inv t1" "find t1 (pbits p) = Some d"
    "droutes d = routes_of t (pbits p)" "dbest d = best_of t (pbits p)" "tafi t1 = tafi t"
    "routes_of t1 = routes_of t" "best_of t1 = best_of t" "tcount t1 = tcount t"
proof (cases "find t (pbits p)")
  case (Some d)
  then show ?thesis using that [of t d] assms by (simp add: tbl_dest_def routes_of_def best_of_def)
next
  case None
  note wf = table_invD(1) [OF inv]
  let ?t1 = "enqueue (pbits p) new_dest t"
  have "routes_ok (tafi t) (pbits p) (droutes new_dest)" by (simp add: routes_ok_def new_dest_def)
  then have "table_inv (?t1\<lparr>tcount := tcount t\<rparr>)"
    using None by (intro enqueue_inv [OF inv]) (simp_all add: new_dest_def routes_of_def)
  moreover have "routes_of ?t1 = routes_of t" "best_of ?t1 = best_of t"
    using None find_enqueue [OF wf] by (auto simp: fun_eq_iff routes_of_def best_of_def new_dest_def)
  ultimately show ?thesis
    using that [of ?t1 "new_dest\<lparr>dqueued := True\<rparr>"] None fam find_enqueue [OF wf, of "pbits p" new_dest]
    by (simp add: tbl_dest_def routes_of_def best_of_def new_dest_def)
qed

lemma offer_spec:
  assumes inv: "table_inv t" and fam: "pafi (rprefix r) = tafi t"
  defines "k \<equiv> pbits (rprefix r)"
  obtains t' n where "tbl_offer r t = Inr (t', n)" "table_inv t'" "tafi t' = tafi t"
    "routes_of t' = (routes_of t)(k := offer_routes r (routes_of t k))" "best_of t' = best_of t"
proof -
  obtain t1 d where D: "tbl_dest (rprefix r) t = Inr (t1, d)" "table_inv t1" "find t1 k = Some d"
    "droutes d = routes_of t k" "dbest d = best_of t k" "tafi t1 = tafi t"
    "routes_of t1 = routes_of t" "best_of t1 = best_of t" "tcount t1 = tcount t"
    using tbl_dest_spec [OF inv fam] unfolding k_def by metis
  note wf = table_invD(1) [OF D(2)]
  have pfx: "rprefix r = \<lparr>pafi = tafi t1, pbits = k\<rparr>" using fam D(6) by (simp add: k_def)
  have ok: "routes_ok (tafi t1) k (offer_routes r (droutes d))"
    using offer_routes_ok [OF _ pfx] table_invD(5) [OF D(2,3)] by blast
  let ?rs = "offer_routes r (droutes d)"
  let ?e = "\<lambda>c. (enqueue k (d\<lparr>droutes := ?rs\<rparr>) t1)\<lparr>tcount := c\<rparr>"
  have E: "table_inv (?e c)" if "c + length (droutes d) = tcount t1 + length ?rs" for c
    using that ok D by (intro enqueue_inv [OF D(2)]) simp_all
  have R: "routes_of (?e c) = (routes_of t)(k := ?rs)" "best_of (?e c) = best_of t" for c
    using routes_of_enqueue [OF wf] best_of_enqueue [OF wf] D by (auto simp: fun_eq_iff)
  show ?thesis
  proof (cases "origin_index (rprotocol r) (rsource r) (droutes d)")
    case None
    then have "tbl_offer r t = Inr (?e (tcount t1 + 1), 0)" "length ?rs = length (droutes d) + 1"
      using D(1) by (simp_all add: tbl_offer_def k_def offer_routes_def)
    then show ?thesis using that [of "?e (tcount t1 + 1)" 0] E R D by simp
  next
    case (Some i)
    show ?thesis
    proof (cases "same_content (droutes d ! i) r")
      case True
      then show ?thesis using that [of t1 1] Some D by (simp add: tbl_offer_def offer_routes_def)
    next
      case False
      then have "tbl_offer r t = Inr (enqueue k (d\<lparr>droutes := ?rs\<rparr>) t1, 1)" "length ?rs = length (droutes d)"
        using Some False D(1) by (simp_all add: tbl_offer_def k_def offer_routes_def)
      then show ?thesis using that [of "?e (tcount t1)" 1] E R D by simp
    qed
  qed
qed

lemma retract_spec:
  assumes inv: "table_inv t" and res: "tbl_retract p proto source t = (t', n)"
  shows "table_inv t'" "tafi t' = tafi t" "best_of t' = best_of t"
    "routes_of t' = (if pafi p = tafi t
       then (routes_of t)(pbits p := retract_routes proto source (routes_of t (pbits p))) else routes_of t)"
    "n = 0 \<longleftrightarrow> (pafi p = tafi t \<longrightarrow> (proto, source) \<notin> origin ` set (routes_of t (pbits p)))" "n \<le> 1"
proof -
  note wf = table_invD(1) [OF inv]
  let ?k = "pbits p"
  have "table_inv t' \<and> tafi t' = tafi t \<and> best_of t' = best_of t \<and>
    routes_of t' = (if pafi p = tafi t
       then (routes_of t)(?k := retract_routes proto source (routes_of t ?k)) else routes_of t) \<and>
    (n = 0 \<longleftrightarrow> (pafi p = tafi t \<longrightarrow> (proto, source) \<notin> origin ` set (routes_of t ?k))) \<and> n \<le> 1"
  proof (cases "tbl_get t p")
    case None
    then have "pafi p = tafi t \<Longrightarrow> routes_of t ?k = []" by (auto simp: tbl_get_def routes_of_def)
    then show ?thesis using None res inv
      by (auto simp: tbl_retract_def retract_routes_def fun_eq_iff)
  next
    case (Some d)
    then have f: "pafi p = tafi t" "find t ?k = Some d" by (auto simp: tbl_get_def split: if_splits)
    have rs: "routes_of t ?k = droutes d" "best_of t ?k = dbest d" using f by (simp_all add: routes_of_def best_of_def)
    show ?thesis
    proof (cases "origin_index proto source (droutes d)")
      case None
      then show ?thesis using Some res inv rs iffD1 [OF origin_index_None None]
        by (auto simp: tbl_retract_def retract_routes_def fun_eq_iff)
    next
      case (Some i)
      let ?rs = "retract_routes proto source (droutes d)"
      have i: "i < length (droutes d)" "(proto, source) \<in> origin ` set (droutes d)"
        using origin_index_Some [OF Some] by (auto simp: image_iff)
      have rs': "?rs = del_nth i (droutes d)" "length ?rs + 1 = length (droutes d)"
        using Some length_del_nth [OF i(1)] by (simp_all add: retract_routes_def)
      have t': "t' = (enqueue ?k (d\<lparr>droutes := ?rs\<rparr>) t)\<lparr>tcount := tcount t - 1\<rparr>" "n = 1"
        using res Some \<open>tbl_get t p = Some d\<close> rs'(1) by (auto simp: tbl_retract_def)
      have "length (droutes d) \<le> route_total t"
        unfolding route_total_def
        using member_le_sum [of ?k "dom (find t)" "\<lambda>k. length (routes_of t k)"] finite_find [OF wf] f rs by auto
      then have pos: "tcount t \<ge> 1" using table_invD(7) [OF inv] i by simp
      have "table_inv t'"
        unfolding t' using f rs rs' pos
          retract_routes_ok [OF table_invD(5) [OF inv f(2)], of proto source]
        by (intro enqueue_inv [OF inv]) simp_all
      then show ?thesis
        using f rs i t' routes_of_enqueue [OF wf] best_of_enqueue [OF wf, of "d\<lparr>droutes := ?rs\<rparr>" ?k]
        by (auto simp: fun_eq_iff)
    qed
  qed
  then show "table_inv t'" "tafi t' = tafi t" "best_of t' = best_of t"
    "routes_of t' = (if pafi p = tafi t
       then (routes_of t)(?k := retract_routes proto source (routes_of t ?k)) else routes_of t)"
    "n = 0 \<longleftrightarrow> (pafi p = tafi t \<longrightarrow> (proto, source) \<notin> origin ` set (routes_of t ?k))" "n \<le> 1"
    by blast+
qed


section \<open>Selection\<close>

lemma select_one_sel [simp]: "tafi (fst (select_one t)) = tafi t" "tqueue (fst (select_one t)) = tqueue t"
  "tcount (fst (select_one t)) = tcount t"
  by (simp_all add: select_one_def Let_def split: option.splits)

text \<open>One turn, with the destination it takes: the winner of its candidates becomes its best
  route, it leaves the trie when it has no candidate, and it is reported when the best changed.\<close>

lemma select_one_spec:
  assumes inv: "table_inv t" and more: "tqhead t < length (tqueue t)"
  defines "k \<equiv> tqueue t ! tqhead t" and "t' \<equiv> fst (select_one t)"
  shows "waiting t = k # waiting t'"
    and "table_inv t'"
    and "routes_of t' = routes_of t"
    and "best_of t' = (best_of t)(k := dest_select (routes_of t k))"
    and "map (\<lambda>(k, d). (k, dbest d)) (snd (select_one t)) =
      (if dest_select (routes_of t k) = best_of t k then [] else [(k, dest_select (routes_of t k))])"
proof -
  note I = table_invD [OF inv]
  show w: "waiting t = k # waiting t'"
    using more by (simp add: k_def t'_def Cons_nth_drop_Suc)
  then have "k \<in> set (waiting t)" by simp
  then obtain d0 where d0: "find t k = Some d0" "dqueued d0" using I(4) by blast
  let ?d = "d0\<lparr>dqueued := False\<rparr>"
  let ?win = "dest_select (droutes d0)"
  have rs: "routes_of t k = droutes d0" "best_of t k = dbest d0"
    using d0 by (simp_all add: routes_of_def best_of_def)
  define d' where "d' = (if ?win \<noteq> dbest d0 then ?d\<lparr>dbest := ?win, dversion := tversion t + 1\<rparr> else ?d)"
  have d': "droutes d' = droutes d0" "dbest d' = ?win" "\<not> dqueued d'" by (simp_all add: d'_def)
  have trie': "ttrie t' = (if ?win = None \<and> droutes d0 = [] then trie_remove k (trie_insert k d' (ttrie t))
      else trie_insert k d' (ttrie t))"
    using d0 by (auto simp: t'_def select_one_def Let_def k_def [symmetric] d'_def put_dest_def)
  have f: "find t' = (find t)(k := if droutes d0 = [] then None else Some d')"
    using I(1) by (auto simp: fun_eq_iff trie' trie.get_put trie.get_del trie.inv_put)
  have wf: "trie_wf (ttrie t')" using I(1) by (simp add: trie' trie.inv_put trie.inv_del)
  have sel: "tafi t' = tafi t" "tqueue t' = tqueue t" "tqhead t' = Suc (tqhead t)" "tcount t' = tcount t"
    by (simp_all add: t'_def)
  show ro: "routes_of t' = routes_of t"
    by (auto simp: fun_eq_iff routes_of_def f d' d0)
  show "best_of t' = (best_of t)(k := dest_select (routes_of t k))"
    by (auto simp: fun_eq_iff best_of_def f d' rs)
  show "map (\<lambda>(k, d). (k, dbest d)) (snd (select_one t)) =
      (if dest_select (routes_of t k) = best_of t k then [] else [(k, dest_select (routes_of t k))])"
    using d0 by (simp add: rs select_one_def Let_def k_def [symmetric])
  have total: "route_total t' = route_total t"
  proof (cases "droutes d0 = []")
    case True
    then have "dom (find t) = insert k (dom (find t'))" using f d0 by auto
    moreover have "k \<notin> dom (find t')" using True f by simp
    ultimately show ?thesis using True rs(1) finite_find [OF wf]
      by (simp only: route_total_def ro) simp
  next
    case False
    then have "dom (find t') = dom (find t)" using f d0 by auto
    then show ?thesis by (simp add: route_total_def ro)
  qed
  have notin: "k \<notin> set (waiting t')" using I(3) w by simp
  have q: "k' \<in> set (waiting t') \<longleftrightarrow> (\<exists>d. find t' k' = Some d \<and> dqueued d)" for k'
    using I(4) [of k'] notin w d'(3) by (cases "k' = k") (auto simp: f)
  have r: "routes_ok (tafi t') k' (droutes d) \<and> (dqueued d \<or> at_rest d)" if "find t' k' = Some d" for k' d
    using that I(5) [OF d0(1)] I(5,6) [of k' d] d'
    by (cases "k' = k") (auto simp: f sel at_rest_def split: if_splits)
  show "table_inv t'"
    using wf more sel I(3,7) w q r total unfolding table_inv_def by (simp add: Ball_def)
qed

definition turns :: "int \<Rightarrow> nat \<Rightarrow> int \<Rightarrow> rtable \<Rightarrow> nat" where
  "turns limit n k t = (if limit \<le> 0 then n - tqhead t else min (n - tqhead t) (nat (limit - k)))"

text \<open>The destinations a pass over \<open>ks\<close> reports: those whose best route is not the winner.\<close>

definition stale :: "rtable \<Rightarrow> key list \<Rightarrow> (key \<times> route option) list" where
  "stale t ks = map (\<lambda>k. (k, dest_select (routes_of t k)))
     (filter (\<lambda>k. dest_select (routes_of t k) \<noteq> best_of t k) ks)"

lemma stale_cong:
  "(\<And>k. k \<in> set ks \<Longrightarrow> routes_of t k = routes_of t' k \<and> best_of t k = best_of t' k) \<Longrightarrow> stale t ks = stale t' ks"
  by (induction ks) (auto simp: stale_def)

lemma reselect_loop_spec:
  assumes "table_inv t" and "n = length (tqueue t)" and "reselect_loop limit n k t ch = (t', ch')"
  defines "m \<equiv> turns limit n k t"
  shows "table_inv t' \<and> waiting t' = drop m (waiting t) \<and> routes_of t' = routes_of t \<and> tafi t' = tafi t
    \<and> best_of t' = (\<lambda>k. if k \<in> set (take m (waiting t)) then dest_select (routes_of t k) else best_of t k)
    \<and> map (\<lambda>(k, d). (k, dbest d)) ch' = map (\<lambda>(k, d). (k, dbest d)) ch @ stale t (take m (waiting t))"
  using assms(1-3) unfolding m_def
proof (induction limit n k t ch rule: reselect_loop.induct)
  case (1 limit n k t ch)
  show ?case
  proof (cases "tqhead t < n \<and> (limit \<le> 0 \<or> k < limit)")
    case False
    then have "turns limit n k t = 0" by (auto simp: turns_def)
    moreover have "t' = t" "ch' = ch" 
      using False "1.prems"(3) unfolding reselect_loop.simps [of limit n k t ch] by (auto split: if_splits)
    ultimately show ?thesis using "1.prems"(1) by (simp add: stale_def fun_eq_iff)
  next
    case True
    let ?k = "tqueue t ! tqhead t" and ?t = "fst (select_one t)"
    have more: "tqhead t < length (tqueue t)" using True "1.prems"(2) by simp
    note S = select_one_spec [OF "1.prems"(1) more]
    have "turns limit n k t = Suc (turns limit n (k + 1) ?t)"
      using True by (auto simp: turns_def Suc_diff_le Suc_nat_eq_nat_zadd1 min_def)
    moreover have "reselect_loop limit n (k + 1) ?t (ch @ snd (select_one t)) = (t', ch')"
      using True "1.prems"(3) by (subst (asm) reselect_loop.simps) simp
    note IH = "1.IH" [OF True S(2) _ this]
    moreover have "?k \<notin> set (waiting ?t)" using table_invD(3) [OF "1.prems"(1)] S(1) by simp
    then have "stale ?t (take j (waiting ?t)) = stale t (take j (waiting ?t))" for j
      using in_set_takeD [of _ j "waiting ?t"] by (intro stale_cong) (auto simp: S(3,4))
    ultimately show ?thesis
      using "1.prems"(2) S by (auto simp: fun_eq_iff stale_def)
  qed
qed

lemma compact_spec:
  "tqhead t \<le> length (tqueue t) \<Longrightarrow> waiting (compact t) = waiting t"
  "routes_of (compact t) = routes_of t" "best_of (compact t) = best_of t" "tafi (compact t) = tafi t"
  by (auto simp: compact_def fun_eq_iff routes_of_def best_of_def)

lemma compact_inv: "table_inv t \<Longrightarrow> table_inv (compact t)"
  using compact_spec(1) [of t]
  unfolding table_inv_def by (auto simp: compact_def route_total_def routes_of_def)

lemma reselect_spec:
  assumes inv: "table_inv t" and "reselect limit t = (t', ch)"
  defines "m \<equiv> (if limit \<le> 0 then tbl_pending t else min (tbl_pending t) (nat limit))"
  shows "table_inv t'" "waiting t' = drop m (waiting t)" "routes_of t' = routes_of t" "tafi t' = tafi t"
    "best_of t' k = (if k \<in> set (take m (waiting t)) then dest_select (routes_of t k) else best_of t k)"
    "map (\<lambda>(k, d). (k, dbest d)) ch = stale t (take m (waiting t))"
proof -
  obtain t1 where L: "reselect_loop limit (length (tqueue t)) 0 t [] = (t1, ch)" "t' = compact t1"
    using assms(2) by (auto simp: reselect_def split: prod.splits)
  have m: "turns limit (length (tqueue t)) 0 t = m" by (simp add: turns_def m_def tbl_pending_def)
  note S = reselect_loop_spec [OF inv refl L(1), unfolded m]
  have "tqhead t1 \<le> length (tqueue t1)" using S table_invD(2) by blast
  then show "table_inv t'" "waiting t' = drop m (waiting t)" "routes_of t' = routes_of t" "tafi t' = tafi t"
    "best_of t' k = (if k \<in> set (take m (waiting t)) then dest_select (routes_of t k) else best_of t k)"
    "map (\<lambda>(k, d). (k, dbest d)) ch = stale t (take m (waiting t))"
    using S L(2) compact_inv compact_spec by auto
qed


section \<open>Runs\<close>

datatype table_op = Offer route | Retract prefix nat nat | Intern prefix | Reselect int

fun table_step :: "rtable \<Rightarrow> table_op \<Rightarrow> rtable" where
  "table_step t (Offer r) = (case tbl_offer r t of Inl e \<Rightarrow> t | Inr (t', n) \<Rightarrow> t')"
| "table_step t (Retract p proto source) = fst (tbl_retract p proto source t)"
| "table_step t (Intern p) = (case tbl_dest p t of Inl e \<Rightarrow> t | Inr (t', d) \<Rightarrow> t')"
| "table_step t (Reselect limit) = fst (reselect limit t)"

text \<open>The candidates of every prefix, with no queue and no selection.\<close>

fun offers_step :: "nat \<Rightarrow> (key \<Rightarrow> route list) \<Rightarrow> table_op \<Rightarrow> (key \<Rightarrow> route list)" where
  "offers_step afi m (Offer r) =
     (if pafi (rprefix r) = afi
      then m(pbits (rprefix r) := offer_routes r (m (pbits (rprefix r)))) else m)"
| "offers_step afi m (Retract p proto source) =
     (if pafi p = afi then m(pbits p := retract_routes proto source (m (pbits p))) else m)"
| "offers_step afi m (Intern p) = m"
| "offers_step afi m (Reselect limit) = m"

lemma table_step_spec:
  assumes inv: "table_inv t"
  shows "table_inv (table_step t e)" "tafi (table_step t e) = tafi t"
    "routes_of (table_step t e) = offers_step (tafi t) (routes_of t) e"
proof -
  have "table_inv (table_step t e) \<and> tafi (table_step t e) = tafi t
    \<and> routes_of (table_step t e) = offers_step (tafi t) (routes_of t) e"
  proof (cases e)
    case (Offer r)
    show ?thesis
    proof (cases "pafi (rprefix r) = tafi t")
      case True
      then show ?thesis using Offer offer_spec [OF inv True] by (metis (no_types, lifting) offers_step.simps(1)
          old.prod.case sum.simps(6) table_step.simps(1))
    next
      case False
      then show ?thesis using Offer inv by (simp add: tbl_offer_def tbl_dest_def)
    qed
  next
    case (Retract p proto source)
    then show ?thesis using retract_spec [OF inv, of p proto source] by (metis (no_types, lifting) offers_step.simps(2)
          prod.collapse table_step.simps(2))
  next
    case (Intern p)
    show ?thesis
    proof (cases "pafi p = tafi t")
      case True
      then show ?thesis using Intern tbl_dest_spec [OF inv True] by (metis (no_types, lifting) offers_step.simps(3)
          old.prod.case sum.simps(6) table_step.simps(3))
    next
      case False
      then show ?thesis using Intern inv by (simp add: tbl_dest_def)
    qed
  next
    case (Reselect limit)
    then show ?thesis using reselect_spec [OF inv, of limit] by (metis (no_types, lifting) offers_step.simps(4)
          prod.collapse table_step.simps(4))
  qed
  then show "table_inv (table_step t e)" "tafi (table_step t e) = tafi t"
    "routes_of (table_step t e) = offers_step (tafi t) (routes_of t) e" by blast+
qed

interpretation table_machine: invariant_machine table_step table_inv
  by unfold_locales (rule table_step_spec)

lemma table_run_refines:
  "table_inv t \<Longrightarrow> routes_of (foldl table_step t es) = foldl (offers_step (tafi t)) (routes_of t) es
     \<and> tafi (foldl table_step t es) = tafi t"
  by (induction es arbitrary: t) (simp_all add: table_step_spec)

lemma new_table_spec:
  assumes "new_table afi safi = Inr t"
  shows "table_inv t" "routes_of t = (\<lambda>k. [])" "best_of t = (\<lambda>k. None)" "tafi t = afi"
  using assms by (auto simp: new_table_def table_inv_def route_total_def routes_of_def best_of_def split: if_splits)

lemma turns_all: "table_inv t \<Longrightarrow> take (tbl_pending t) (waiting t) = waiting t"
  by (simp add: tbl_pending_def)

lemma at_rest_best:
  assumes "table_inv t" and "k \<notin> set (waiting t)"
  shows "best_of t k = dest_select (routes_of t k)"
proof (cases "find t k")
  case None
  then show ?thesis by (simp add: best_of_def routes_of_def)
next
  case (Some d)
  then show ?thesis using table_invD(4,6) [OF assms(1)] assms(2)
    by (auto simp: best_of_def routes_of_def at_rest_def)
qed

lemma drain_best:
  assumes inv: "table_inv t"
  shows "best_of (fst (reselect 0 t)) k = dest_select (routes_of t k)"
    and "waiting (fst (reselect 0 t)) = []"
proof -
  obtain t' ch where r: "reselect 0 t = (t', ch)" by (cases "reselect 0 t")
  note S = reselect_spec [OF inv r]
  show "best_of (fst (reselect 0 t)) k = dest_select (routes_of t k)"
    using S(5) [of k] at_rest_best [OF inv, of k] turns_all [OF inv] r by (simp split: if_splits)
  show "waiting (fst (reselect 0 t)) = []" using S(2) r by (simp add: tbl_pending_def)
qed

text \<open>C19. Whatever was offered and withdrawn, in whatever order and with selection passes of
  any size in between, a pass that drains the queue leaves every prefix with the winner among
  exactly the candidates offered for it: the first of those whose administrative distance,
  metric, protocol and age no other candidate undercuts.\<close>

theorem selection_reflects_offers:
  fixes es :: "table_op list"
  assumes "new_table afi safi = Inr t0"
  defines "offered \<equiv> foldl (offers_step afi) (\<lambda>k. []) es"
  shows "best_of (fst (reselect 0 (foldl table_step t0 es))) k = dest_select (offered k)
    \<and> (\<forall>b \<in> set_option (dest_select (offered k)). b \<in> set (offered k)
         \<and> (\<forall>r \<in> set (offered k). route_key b \<le> route_key r))"
proof -
  note N = new_table_spec [OF assms(1)]
  have "routes_of (foldl table_step t0 es) = offered"
    using table_run_refines [OF N(1), of es] N by (simp add: offered_def)
  then show ?thesis
    using drain_best [OF table_machine.run_inv [OF N(1)]] dest_select_best by (auto simp: Ball_def)
qed

definition sample_prefix :: prefix where
  "sample_prefix = \<lparr>pafi = 1, pbits = [False, True]\<rparr>"

definition sample_route :: "nat \<Rightarrow> nat \<Rightarrow> nat \<Rightarrow> route" where
  "sample_route proto distance oid = \<lparr>rprefix = sample_prefix, rprotocol = proto, radmin = distance,
     rmetric = 0, rnexthop = [], rsource = 0, rtime = 0, roid = oid\<rparr>"

definition sample_table :: rtable where
  "sample_table = \<lparr>tafi = 1, tsafi = 1, ttrie = Leaf, tcount = 0, tversion = 0, tqueue = [], tqhead = 0, trversion = []\<rparr>"

lemma sample_new_table: "new_table 1 1 = Inr sample_table"
  by (simp add: new_table_def addr_len_def sample_table_def)

theorem selection_reflects_offers_witness:
  "best_of (fst (reselect 0 (foldl table_step sample_table
     [Offer (sample_route 3 20 1), Reselect 1, Offer (sample_route 2 1 2)]))) [False, True]
   = Some (sample_route 2 1 2)"
proof -
  have "dest_select (foldl (offers_step 1) (\<lambda>k. [])
     [Offer (sample_route 3 20 1), Reselect 1, Offer (sample_route 2 1 2)] [False, True]) = Some (sample_route 2 1 2)"
    by (simp add: offer_routes_def sample_route_def sample_prefix_def dest_select_def route_cmp_def)
  then show ?thesis
    by (simp only: selection_reflects_offers [OF sample_new_table, THEN conjunct1])
qed

lemma reselect_reported:
  assumes inv: "table_inv t" and r: "reselect limit t = (t', ch)"
  shows "distinct (map fst ch)"
    and "k \<in> fst ` set ch \<longleftrightarrow> best_of t' k \<noteq> best_of t k"
    and "(k, d) \<in> set ch \<Longrightarrow> dbest d = best_of t' k \<and> best_of t' k = dest_select (routes_of t k)"
proof -
  define m where "m = (if limit \<le> 0 then tbl_pending t else min (tbl_pending t) (nat limit))"
  note S = reselect_spec [OF inv r, folded m_def]
  let ?g = "\<lambda>(k, d). (k, dbest d)" and ?ks = "take m (waiting t)"
  have fst_map: "map fst ch = map fst (map ?g ch)" by (simp add: case_prod_beta')
  have keys: "map fst ch = filter (\<lambda>k. dest_select (routes_of t k) \<noteq> best_of t k) ?ks"
    unfolding fst_map S(6) by (simp add: stale_def comp_def)
  have "fst ` set ch = set (map fst ch)" by simp
  then show "k \<in> fst ` set ch \<longleftrightarrow> best_of t' k \<noteq> best_of t k"
    unfolding keys using S(5) [of k] by auto
  show "distinct (map fst ch)"
    unfolding keys using table_invD(3) [OF inv] by simp
  assume d: "(k, d) \<in> set ch"
  have "?g (k, d) \<in> set (map ?g ch)" unfolding set_map using d by (rule imageI)
  then have "(k, dbest d) \<in> set (stale t ?ks)" by (simp only: S(6)) simp
  then show "dbest d = best_of t' k \<and> best_of t' k = dest_select (routes_of t k)"
    using S(5) [of k] by (auto simp: stale_def)
qed

text \<open>What a pass reports is what it changed: a prefix is in the list exactly when its best
  route is another one afterwards, it is there once, and the entry carries the new best route,
  none when the last candidate went away.\<close>

theorem reselect_reports_changes:
  fixes es :: "table_op list"
  assumes "new_table afi safi = Inr t0"
  defines "t \<equiv> foldl table_step t0 es"
  shows "(k \<in> fst ` set (snd (reselect limit t)) \<longleftrightarrow> best_of (fst (reselect limit t)) k \<noteq> best_of t k)
    \<and> distinct (map fst (snd (reselect limit t)))
    \<and> (\<forall>(k', d) \<in> set (snd (reselect limit t)). dbest d = best_of (fst (reselect limit t)) k')"
  using reselect_reported [OF table_machine.run_inv [OF new_table_spec(1) [OF assms(1)], of es, folded t_def],
      of limit "fst (reselect limit t)" "snd (reselect limit t)"] by auto

theorem reselect_reports_changes_witness:
  "[False, True] \<in> fst ` set (snd (reselect 1 (foldl table_step sample_table [Offer (sample_route 3 20 1)])))
   \<longleftrightarrow> best_of (fst (reselect 1 (foldl table_step sample_table [Offer (sample_route 3 20 1)]))) [False, True]
     \<noteq> best_of (foldl table_step sample_table [Offer (sample_route 3 20 1)]) [False, True]"
  using reselect_reports_changes [OF sample_new_table] by blast

lemma select_one_version: "tversion t \<le> tversion (fst (select_one t))"
  by (simp add: select_one_def Let_def split: option.splits)

lemma reselect_loop_version: "tversion t \<le> tversion (fst (reselect_loop limit n k t ch))"
proof (induction limit n k t ch rule: reselect_loop.induct)
  case (1 limit n k t ch)
  then show ?case
    using order_trans [OF select_one_version [of t]] by (simp add: reselect_loop.simps [of limit n k t ch])
qed

interpretation table_version: monotone_machine table_step tversion
proof
  fix t e
  have [simp]: "tversion (compact t) = tversion t" for t by (simp add: compact_def)
  show "tversion t \<le> tversion (table_step t e)"
  proof (cases e)
    case (Offer r)
    then show ?thesis
      by (auto simp: tbl_offer_def tbl_dest_def Let_def bind_res_def split: sum.splits option.splits)
  next
    case (Retract p proto source)
    then show ?thesis by (simp add: tbl_retract_def split: option.splits)
  next
    case (Intern p)
    then show ?thesis by (simp add: tbl_dest_def split: option.splits)
  next
    case (Reselect limit)
    then show ?thesis using reselect_loop_version [of t limit "length (tqueue t)" 0 "[]"]
      by (simp add: reselect_def case_prod_beta)
  qed
qed

end
