(* ===== verification/GlobalRib.thy ===== *)
theory GlobalRib
  imports RouteTableProps
begin

text \<open>
  \<open>rib/globalrib.py\<close> and \<open>fib/sink.py\<close>: the tables of every family, selection across them
  in bounded chunks, and publication of each changed best route to the forwarding sink and
  the event bus. A sink is a pair of functions on its state, the \<open>install\<close> and \<open>withdraw\<close>
  that the code calls on it; \<open>NullSink\<close> is the one the engine runs with by default. The
  events are the sequence of \<open>publish\<close> calls on the bus.
\<close>

section \<open>Sinks\<close>

record 's sink_ops =
  op_install :: "route \<Rightarrow> 's \<Rightarrow> 's"
  op_withdraw :: "route \<Rightarrow> 's \<Rightarrow> 's"

datatype fib_state = FIB_NONE | FIB_PENDING | FIB_INSTALLED | FIB_ERROR | FIB_ORPHANED | FIB_NOT_INSTALLED

primrec FIB_STATE_NAMES :: "fib_state \<Rightarrow> string" where
  "FIB_STATE_NAMES FIB_NONE = ''none''"
| "FIB_STATE_NAMES FIB_PENDING = ''pending''"
| "FIB_STATE_NAMES FIB_INSTALLED = ''installed''"
| "FIB_STATE_NAMES FIB_ERROR = ''fib-error''"
| "FIB_STATE_NAMES FIB_ORPHANED = ''orphaned''"
| "FIB_STATE_NAMES FIB_NOT_INSTALLED = ''not-installed''"

text \<open>The code keys the recorded routes by the prefix's text; the model keys them by the prefix
  that the text renders. The state fields that a sink writes into the route objects
  (\<open>fib_state\<close>, \<open>fib_errno\<close>) are kept by object.\<close>

record null_sink =
  ns_installed :: nat
  ns_withdrawn :: nat
  ns_flushes :: nat
  ns_routes :: "(prefix, route) pydict"
  ns_fib :: "(nat, fib_state \<times> nat) pydict"

definition new_null_sink :: null_sink where
  "new_null_sink = \<lparr>ns_installed = 0, ns_withdrawn = 0, ns_flushes = 0, ns_routes = [], ns_fib = []\<rparr>"

definition null_install :: "route \<Rightarrow> null_sink \<Rightarrow> null_sink" where
  "null_install r s = s\<lparr>ns_installed := ns_installed s + 1,
     ns_routes := dict_set (rprefix r) r (ns_routes s),
     ns_fib := dict_set (roid r) (FIB_NOT_INSTALLED, 0) (ns_fib s)\<rparr>"

definition null_withdraw :: "route \<Rightarrow> null_sink \<Rightarrow> null_sink" where
  "null_withdraw r s = s\<lparr>ns_withdrawn := ns_withdrawn s + 1,
     ns_routes := dict_pop (rprefix r) (ns_routes s),
     ns_fib := dict_set (roid r) (FIB_NONE, 0) (ns_fib s)\<rparr>"

definition null_flush :: "null_sink \<Rightarrow> nat \<times> null_sink" where
  "null_flush s = (0, s\<lparr>ns_flushes := ns_flushes s + 1\<rparr>)"

definition null_reconcile :: "route list \<Rightarrow> null_sink \<Rightarrow> (nat \<times> nat) \<times> null_sink" where
  "null_reconcile current s = ((0, 0), s)"

definition set_fib_none :: "route \<Rightarrow> (nat, fib_state \<times> nat) pydict \<Rightarrow> (nat, fib_state \<times> nat) pydict" where
  \<comment> \<open>\<open>shutdown\<close> resets the state and leaves the errno as it is\<close>
  "set_fib_none r d = dict_set (roid r) (FIB_NONE, snd (get_default (dict_get d (roid r)) (FIB_NONE, 0))) d"

definition null_shutdown :: "bool \<Rightarrow> null_sink \<Rightarrow> nat \<times> null_sink" where
  "null_shutdown retain s =
    (length (ns_routes s),
     if retain then s
     else s\<lparr>ns_fib := fold set_fib_none (map snd (ns_routes s)) (ns_fib s), ns_routes := []\<rparr>)"

definition fib_state_of :: "null_sink \<Rightarrow> route \<Rightarrow> fib_state" where
  "fib_state_of s r = fst (get_default (dict_get (ns_fib s) (roid r)) (FIB_NONE, 0))"

definition state_of :: "prefix \<Rightarrow> null_sink \<Rightarrow> string" where
  "state_of p s =
    (case dict_get (ns_routes s) p of
       None \<Rightarrow> FIB_STATE_NAMES FIB_NONE
     | Some r \<Rightarrow> FIB_STATE_NAMES (fib_state_of s r))"

definition null_sink_ops :: "null_sink sink_ops" where
  "null_sink_ops = \<lparr>op_install = null_install, op_withdraw = null_withdraw\<rparr>"

section \<open>The global RIB\<close>

type_synonym family = "nat \<times> nat"

datatype rib_event =
    ROUTE_BEST family prefix route "route option" nat
  | ROUTE_WITHDRAW family prefix

record 's global_rib =
  gsink :: "'s option"
  gbus :: "rib_event list option"  \<comment> \<open>what was published, when there is a bus\<close>
  gtables :: "(family, rtable) pydict"
  gpublished :: "(family \<times> prefix, route) pydict"
  gselected :: nat
  ginstalled :: nat
  gwithdrawn :: nat

definition ensure_table :: "family \<Rightarrow> 's global_rib \<Rightarrow> ('s global_rib \<times> rtable) result" where
  "ensure_table f g =
    (if addr_len (fst f) = 0 then Inl (ValueError ''unsupported address family number'')
     else (case dict_get (gtables g) f of
             Some t \<Rightarrow> Inr (g, t)
           | None \<Rightarrow> bind_res (new_table (fst f) (snd f))
               (\<lambda>t. Inr (g\<lparr>gtables := dict_set f t (gtables g)\<rparr>, t))))"

fun ensure_tables :: "family list \<Rightarrow> 's global_rib \<Rightarrow> 's global_rib result" where
  "ensure_tables [] g = Inr g"
| "ensure_tables (f # fs) g = bind_res (ensure_table f g) (\<lambda>(g', t). ensure_tables fs g')"

definition DEFAULT_AFI_SAFI :: "family list" where
  "DEFAULT_AFI_SAFI = [(AFI_IP, SAFI_UNICAST), (AFI_IP6, SAFI_UNICAST)]"

definition new_global_rib :: "'s option \<Rightarrow> bool \<Rightarrow> family list \<Rightarrow> 's global_rib result" where
  "new_global_rib sink bus afi_safi =
    ensure_tables afi_safi
      \<lparr>gsink = sink, gbus = (if bus then Some [] else None), gtables = [], gpublished = [],
       gselected = 0, ginstalled = 0, gwithdrawn = 0\<rparr>"

definition grib_offer :: "route \<Rightarrow> nat \<Rightarrow> 's global_rib \<Rightarrow> ('s global_rib \<times> nat) result" where
  "grib_offer r safi g =
    bind_res (ensure_table (pafi (rprefix r), safi) g) (\<lambda>(g1, t).
      bind_res (tbl_offer r t) (\<lambda>(t', n).
        Inr (g1\<lparr>gtables := dict_set (pafi (rprefix r), safi) t' (gtables g1)\<rparr>, n)))"

definition grib_retract :: "prefix \<Rightarrow> nat \<Rightarrow> nat \<Rightarrow> nat \<Rightarrow> 's global_rib \<Rightarrow> 's global_rib \<times> nat" where
  "grib_retract p proto source safi g =
    (case dict_get (gtables g) (pafi p, safi) of
       None \<Rightarrow> (g, 0)
     | Some t \<Rightarrow>
         (case tbl_retract p proto source t of
            (t', n) \<Rightarrow> (g\<lparr>gtables := dict_set (pafi p, safi) t' (gtables g)\<rparr>, n)))"

fun retract_prefixes :: "nat \<Rightarrow> nat \<Rightarrow> prefix list \<Rightarrow> rtable \<Rightarrow> rtable \<times> nat" where
  "retract_prefixes proto source [] t = (t, 0)"
| "retract_prefixes proto source (p # ps) t =
     (case tbl_retract p proto source t of
        (t1, n) \<Rightarrow> (case retract_prefixes proto source ps t1 of (t2, m) \<Rightarrow> (t2, n + m)))"

fun retract_tables :: "nat \<Rightarrow> nat \<Rightarrow> (family, rtable) pydict \<Rightarrow> (family, rtable) pydict \<times> nat" where
  "retract_tables proto source [] = ([], 0)"
| "retract_tables proto source ((f, t) # ts) =
     (case retract_prefixes proto source (tbl_prefixes t) t of
        (t', n) \<Rightarrow> (case retract_tables proto source ts of (ts', m) \<Rightarrow> ((f, t') # ts', n + m)))"

definition retract_all :: "nat \<Rightarrow> nat \<Rightarrow> 's global_rib \<Rightarrow> 's global_rib \<times> nat" where
  "retract_all proto source g =
    (case retract_tables proto source (gtables g) of (ts, n) \<Rightarrow> (g\<lparr>gtables := ts\<rparr>, n))"

text \<open>\<open>lpm\<close>: the walk from the longest covering destination to the shortest, with the bound on
  its turns that \<open>prefix_map.cover_walk_spec\<close> shows is never reached.\<close>

definition grib_lpm :: "nat \<Rightarrow> byte list \<Rightarrow> nat \<Rightarrow> (route \<Rightarrow> bool) option \<Rightarrow> 's global_rib \<Rightarrow> route option result" where
  "grib_lpm afi addr safi accept g =
    (case dict_get (gtables g) (afi, safi) of
       None \<Rightarrow> Inr None
     | Some t \<Rightarrow> bind_res (tbl_lpm_addr t addr) (\<lambda>dest.
         case accept of
           None \<Rightarrow> Inr (case dest of None \<Rightarrow> None | Some (k, d) \<Rightarrow> dbest d)
         | Some ok \<Rightarrow>
             Inr (case cover_walk (Suc (length (bytes_bits addr))) (trie_lpm (ttrie t))
                     (\<lambda>(k, d). case dbest d of None \<Rightarrow> False | Some r \<Rightarrow> ok r) (bytes_bits addr) dest of
                    None \<Rightarrow> None
                  | Some (k, d) \<Rightarrow> dbest d)))"

definition grib_pending :: "'s global_rib \<Rightarrow> nat" where
  "grib_pending g = sum_list (map (\<lambda>(f, t). tbl_pending t) (gtables g))"

definition emit :: "rib_event \<Rightarrow> 's global_rib \<Rightarrow> 's global_rib" where
  "emit e g = g\<lparr>gbus := map_option (\<lambda>es. es @ [e]) (gbus g)\<rparr>"

text \<open>One iteration of \<open>_publish\<close>.\<close>

definition publish_one :: "'s sink_ops \<Rightarrow> family \<Rightarrow> key \<times> dest \<Rightarrow> 's global_rib \<Rightarrow> 's global_rib" where
  "publish_one ops f kd g0 =
    (let p = \<lparr>pafi = fst f, pbits = fst kd\<rparr>;
         g = g0\<lparr>gselected := gselected g0 + 1\<rparr>;
         previous = dict_get (gpublished g) (f, p)
     in case dbest (snd kd) of
          None \<Rightarrow>
            emit (ROUTE_WITHDRAW f p)
              (case previous of
                 None \<Rightarrow> g
               | Some old \<Rightarrow> g\<lparr>gpublished := dict_pop (f, p) (gpublished g),
                   gsink := map_option (op_withdraw ops old) (gsink g),
                   gwithdrawn := gwithdrawn g + 1\<rparr>)
        | Some best \<Rightarrow>
            emit (ROUTE_BEST f p best previous (dversion (snd kd)))
              (g\<lparr>gpublished := dict_set (f, p) best (gpublished g),
                 gsink := map_option (op_install ops best) (gsink g),
                 ginstalled := ginstalled g + 1\<rparr>))"

definition publish :: "'s sink_ops \<Rightarrow> family \<Rightarrow> (key \<times> dest) list \<Rightarrow> 's global_rib \<Rightarrow> 's global_rib" where
  "publish ops f changed g = fold (publish_one ops f) changed g"

fun select_tables :: "'s sink_ops \<Rightarrow> int \<Rightarrow> family list \<Rightarrow> 's global_rib \<Rightarrow> 's global_rib \<times> nat" where
  "select_tables ops chunk [] g = (g, 0)"
| "select_tables ops chunk (f # fs) g =
     (case dict_get (gtables g) f of
        None \<Rightarrow> select_tables ops chunk fs g  \<comment> \<open>the keys are the dictionary's own\<close>
      | Some t \<Rightarrow>
          (if tbl_pending t = 0 then select_tables ops chunk fs g
           else
             (case reselect chunk t of (t', changed) \<Rightarrow>
                let g1 = g\<lparr>gtables := dict_set f t' (gtables g)\<rparr>;
                    g2 = (if changed \<noteq> [] then publish ops f changed g1 else g1)
                in (case select_tables ops chunk fs g2 of
                      (g3, n) \<Rightarrow> (g3, (tbl_pending t - tbl_pending t') + n)))))"

definition select_step :: "'s sink_ops \<Rightarrow> int \<Rightarrow> 's global_rib \<Rightarrow> 's global_rib \<times> nat" where
  "select_step ops chunk g = select_tables ops chunk (map fst (gtables g)) g"

partial_function (option) select_loop :: "'s sink_ops \<Rightarrow> int \<Rightarrow> nat \<Rightarrow> 's global_rib \<Rightarrow> ('s global_rib \<times> nat) option" where
  "select_loop ops chunk acc g =
    (case select_step ops chunk g of
       (g', examined) \<Rightarrow> if examined = 0 then Some (g', acc)
                        else select_loop ops chunk (acc + examined) g')"

definition select :: "'s sink_ops \<Rightarrow> int \<Rightarrow> 's global_rib \<Rightarrow> ('s global_rib \<times> nat) option" where
  "select ops limit g = select_loop ops (if limit > 0 then limit else 2 ^ 30) 0 g"

definition grib_routes :: "nat \<Rightarrow> nat \<Rightarrow> 's global_rib \<Rightarrow> route list" where
  "grib_routes afi safi g =
    (case dict_get (gtables g) (afi, safi) of
       None \<Rightarrow> []
     | Some t \<Rightarrow> List.map_filter (\<lambda>(k, d). dbest d) (trie_items (ttrie t)))"

text \<open>\<open>as_dict\<close>: one page of the table, resumed from the last prefix of the page before.\<close>

fun page_loop :: "nat \<Rightarrow> nat \<Rightarrow> prefix option \<Rightarrow> (key \<times> dest) list \<Rightarrow> (prefix \<times> dest) list \<Rightarrow> prefix option \<Rightarrow>
    (prefix \<times> dest) list \<times> prefix option" where
  "page_loop afi limit after [] items prev = (items, None)"
| "page_loop afi limit after ((k, d) # kds) items prev =
     (let p = \<lparr>pafi = afi, pbits = k\<rparr> in
      if (case after of None \<Rightarrow> False | Some a \<Rightarrow> \<not> pfx_cmp p a > 0) then page_loop afi limit after kds items prev
      else if dbest d = None then page_loop afi limit after kds items prev
      else if limit \<noteq> 0 \<and> length items \<ge> limit then (items, prev)
      else page_loop afi limit after kds (items @ [(p, d)]) (Some p))"

definition as_dict :: "nat \<Rightarrow> nat \<Rightarrow> nat \<Rightarrow> prefix option \<Rightarrow> 's global_rib \<Rightarrow> (prefix \<times> dest) list \<times> prefix option" where
  "as_dict afi safi limit after g =
    (case dict_get (gtables g) (afi, safi) of
       None \<Rightarrow> ([], None)
     | Some t \<Rightarrow> page_loop afi limit after (trie_items (ttrie t)) [] None)"

end
