(* ===== verification/GlobalRibProps.thy ===== *)
theory GlobalRibProps
  imports GlobalRib
begin

text \<open>
  What the global RIB promises: the record of published routes mirrors the best route of
  every table, selection terminates and examines every waiting destination once, a sink that
  obeys its contract holds exactly the winners, withdrawing a source misses nothing, and the
  pages of a listing join to the whole table. The contract of a forwarding sink is the locale
  \<open>fib_sink\<close>, interpreted on \<open>NullSink\<close>.
\<close>

section \<open>Tables and publication\<close>

definition tables_ok :: "(family, rtable) pydict \<Rightarrow> bool" where
  "tables_ok ts \<longleftrightarrow> distinct (map fst ts) \<and> (\<forall>(f, t) \<in> set ts. table_inv t \<and> tafi t = fst f)"

definition winner_in :: "(family, rtable) pydict \<Rightarrow> family \<Rightarrow> prefix \<Rightarrow> route option" where
  "winner_in ts f p =
    (case dict_get ts f of None \<Rightarrow> None | Some t \<Rightarrow> if pafi p = fst f then best_of t (pbits p) else None)"

definition candidates :: "(family, rtable) pydict \<Rightarrow> family \<Rightarrow> key \<Rightarrow> route list" where
  "candidates ts f = (case dict_get ts f of None \<Rightarrow> (\<lambda>k. []) | Some t \<Rightarrow> routes_of t)"

definition rib_inv :: "'s global_rib \<Rightarrow> bool" where
  "rib_inv g \<longleftrightarrow> tables_ok (gtables g)
     \<and> (\<forall>f p. dict_get (gpublished g) (f, p) = winner_in (gtables g) f p)
     \<and> (\<forall>f p r. dict_get (gpublished g) (f, p) = Some r \<longrightarrow> rprefix r = p)"

lemma rib_invD:
  assumes "rib_inv g"
  shows "tables_ok (gtables g)" "dict_get (gpublished g) (f, p) = winner_in (gtables g) f p"
    "dict_get (gpublished g) (f, p) = Some r \<Longrightarrow> rprefix r = p"
  using assms unfolding rib_inv_def by blast+

lemma tables_okD:
  assumes "tables_ok ts" and "dict_get ts f = Some t"
  shows "table_inv t" "tafi t = fst f"
  using assms map_of_SomeD [OF assms(2)] unfolding tables_ok_def by auto

lemma tables_ok_set:
  assumes "tables_ok ts" and "table_inv t" and "tafi t = fst f"
  shows "tables_ok (dict_set f t ts)"
  using assms set_dict_set [of f t ts] unfolding tables_ok_def by (auto simp: distinct_set dest!: subsetD)

lemma winner_in_set:
  "winner_in (dict_set f t ts) f' p =
    (if f' = f then (if pafi p = fst f then best_of t (pbits p) else None) else winner_in ts f' p)"
  by (simp add: winner_in_def dict_get_set)

lemma candidates_set:
  "candidates (dict_set f t ts) = (candidates ts)(f := routes_of t)"
  by (auto simp: candidates_def dict_get_set fun_eq_iff)

text \<open>An operation that edits the tables and leaves every best route alone.\<close>

lemma rib_inv_tables:
  assumes "rib_inv g" and "tables_ok ts" and "\<And>f p. winner_in ts f p = winner_in (gtables g) f p"
  shows "rib_inv (g\<lparr>gtables := ts\<rparr>)"
  using assms unfolding rib_inv_def by simp

lemma winner_in_same:
  "dict_get ts f = Some t \<Longrightarrow> best_of t' = best_of t \<Longrightarrow> winner_in (dict_set f t' ts) f' p = winner_in ts f' p"
  by (simp add: winner_in_set) (simp add: winner_in_def)

lemma ensure_table_spec:
  assumes inv: "rib_inv g" and ok: "addr_len (fst f) \<noteq> 0"
  obtains g' t where "ensure_table f g = Inr (g', t)" "rib_inv g'" "dict_get (gtables g') f = Some t"
    "candidates (gtables g') = candidates (gtables g)" "gsink g' = gsink g" "gpublished g' = gpublished g"
proof (cases "dict_get (gtables g) f")
  case (Some t)
  then show ?thesis using that [of g t] assms by (simp add: ensure_table_def)
next
  case None
  obtain t where t: "new_table (fst f) (snd f) = Inr t" using ok by (simp add: new_table_def)
  note N = new_table_spec [OF t]
  let ?ts = "dict_set f t (gtables g)"
  have "winner_in ?ts f' p = winner_in (gtables g) f' p" for f' p
    using N None by (simp add: winner_in_def dict_get_set)
  then have "rib_inv (g\<lparr>gtables := ?ts\<rparr>)"
    using N by (intro rib_inv_tables [OF inv] tables_ok_set [OF rib_invD(1) [OF inv]]) auto
  moreover have "candidates ?ts = candidates (gtables g)"
    using N None by (auto simp: candidates_set candidates_def fun_eq_iff)
  ultimately show ?thesis
    using that [of "g\<lparr>gtables := ?ts\<rparr>" t] None t ok by (simp add: ensure_table_def dict_get_set)
qed

lemma grib_offer_spec:
  fixes safi :: nat
  assumes inv: "rib_inv g" and ok: "addr_len (pafi (rprefix r)) \<noteq> 0"
  defines "f \<equiv> (pafi (rprefix r), safi)" and "k \<equiv> pbits (rprefix r)"
  obtains g' n where "grib_offer r safi g = Inr (g', n)" "rib_inv g'"
    "candidates (gtables g') = (candidates (gtables g))(f := (candidates (gtables g) f)(k := offer_routes r (candidates (gtables g) f k)))"
    "gsink g' = gsink g" "gpublished g' = gpublished g"
proof -
  obtain g1 t where E: "ensure_table f g = Inr (g1, t)" "rib_inv g1" "dict_get (gtables g1) f = Some t"
    "candidates (gtables g1) = candidates (gtables g)" "gsink g1 = gsink g" "gpublished g1 = gpublished g"
    using ensure_table_spec [OF inv, of f] ok unfolding f_def by auto
  note T = tables_okD [OF rib_invD(1) [OF E(2)] E(3)]
  obtain t' n where O: "tbl_offer r t = Inr (t', n)" "table_inv t'" "tafi t' = tafi t"
    "routes_of t' = (routes_of t)(k := offer_routes r (routes_of t k))" "best_of t' = best_of t"
    using offer_spec [OF T(1), of r] T(2) unfolding f_def k_def by auto
  let ?ts = "dict_set f t' (gtables g1)"
  have c: "candidates (gtables g) f = routes_of t" using E(3,4) by (metis candidates_def option.simps(5))
  have "rib_inv (g1\<lparr>gtables := ?ts\<rparr>)"
    using rib_inv_tables [OF E(2) tables_ok_set [OF rib_invD(1) [OF E(2)] O(2)], of f]
      winner_in_same [OF E(3) O(5)] T(2) O(3) by simp
  then show ?thesis
    using that [of "g1\<lparr>gtables := ?ts\<rparr>" n] E O c by (simp add: grib_offer_def f_def [symmetric] candidates_set)
qed

lemma grib_retract_spec:
  assumes inv: "rib_inv g" and res: "grib_retract p proto source safi g = (g', n)"
  defines "f \<equiv> (pafi p, safi)" and "k \<equiv> pbits p"
  shows "rib_inv g'" "gsink g' = gsink g" "gpublished g' = gpublished g"
    "candidates (gtables g') = (candidates (gtables g))(f := (candidates (gtables g) f)(k := retract_routes proto source (candidates (gtables g) f k)))"
proof -
  have "rib_inv g' \<and> gsink g' = gsink g \<and> gpublished g' = gpublished g \<and>
    candidates (gtables g') = (candidates (gtables g))(f := (candidates (gtables g) f)(k := retract_routes proto source (candidates (gtables g) f k)))"
  proof (cases "dict_get (gtables g) f")
    case None
    then show ?thesis using res inv
      by (auto simp: grib_retract_def f_def candidates_def retract_routes_def fun_eq_iff)
  next
    case (Some t)
    note T = tables_okD [OF rib_invD(1) [OF inv] Some]
    obtain t' m where r: "tbl_retract p proto source t = (t', m)" by (cases "tbl_retract p proto source t")
    note R = retract_spec [OF T(1) r]
    let ?ts = "dict_set f t' (gtables g)"
    have g': "g' = g\<lparr>gtables := ?ts\<rparr>" using res Some r by (simp add: grib_retract_def f_def)
    have "rib_inv g'"
      using rib_inv_tables [OF inv tables_ok_set [OF rib_invD(1) [OF inv] R(1)], of f]
        winner_in_same [OF Some R(3)] T(2) R(2) by (simp add: g')
    moreover have "candidates (gtables g) f = routes_of t" using Some by (simp add: candidates_def)
    ultimately show ?thesis using R(4) T(2) by (simp add: g' candidates_set f_def k_def)
  qed
  then show "rib_inv g'" "gsink g' = gsink g" "gpublished g' = gpublished g"
    "candidates (gtables g') = (candidates (gtables g))(f := (candidates (gtables g) f)(k := retract_routes proto source (candidates (gtables g) f k)))"
    by blast+
qed


section \<open>Publication\<close>

lemma prefix_eq_iff: "(p :: prefix) = \<lparr>pafi = a, pbits = k\<rparr> \<longleftrightarrow> pafi p = a \<and> pbits p = k"
  by (cases p) auto

lemma publish_one_sel [simp]: "gtables (publish_one ops f kd g) = gtables g"
  by (auto simp: publish_one_def Let_def emit_def split: option.splits)

lemma publish_one_published:
  "dict_get (gpublished (publish_one ops f kd g)) (f', p) =
    (if f' = f \<and> p = \<lparr>pafi = fst f, pbits = fst kd\<rparr> then dbest (snd kd) else dict_get (gpublished g) (f', p))"
  by (auto simp: publish_one_def Let_def emit_def dict_get_set dict_get_pop split: option.splits)

lemma publish_sel [simp]: "gtables (publish ops f ch g) = gtables g"
  by (induction ch arbitrary: g) (simp_all add: publish_def)

lemma publish_Cons: "publish ops f (kd # ch) g = publish ops f ch (publish_one ops f kd g)"
  by (simp add: publish_def)

lemma publish_Nil [simp]: "publish ops f [] g = g"
  by (simp add: publish_def)

lemma publish_published:
  "distinct (map fst ch) \<Longrightarrow> dict_get (gpublished (publish ops f ch g)) (f', p) =
    (if f' = f \<and> pafi p = fst f
     then (case dict_get ch (pbits p) of None \<Rightarrow> dict_get (gpublished g) (f', p) | Some d \<Rightarrow> dbest d)
     else dict_get (gpublished g) (f', p))"
proof (induction ch arbitrary: g)
  case Nil
  then show ?case by (simp split: option.splits)
next
  case (Cons kd ch)
  have "dict_get ch (fst kd) = None" using Cons.prems by (simp add: dict_get_None_iff)
  then show ?case using Cons
    by (cases kd) (auto simp: publish_Cons publish_one_published prefix_eq_iff split: option.splits)
qed

text \<open>One table of a selection step: reselect, store, publish.\<close>

definition pass_table :: "'s sink_ops \<Rightarrow> int \<Rightarrow> family \<Rightarrow> rtable \<Rightarrow> 's global_rib \<Rightarrow> 's global_rib" where
  "pass_table ops chunk f t g =
    publish ops f (snd (reselect chunk t)) (g\<lparr>gtables := dict_set f (fst (reselect chunk t)) (gtables g)\<rparr>)"

lemma select_tables_Cons:
  "select_tables ops chunk (f # fs) g =
    (case dict_get (gtables g) f of
       None \<Rightarrow> select_tables ops chunk fs g
     | Some t \<Rightarrow>
         if tbl_pending t = 0 then select_tables ops chunk fs g
         else (fst (select_tables ops chunk fs (pass_table ops chunk f t g)),
               (tbl_pending t - tbl_pending (fst (reselect chunk t)))
                 + snd (select_tables ops chunk fs (pass_table ops chunk f t g))))"
proof -
  have "(if ch \<noteq> [] then publish ops f ch g1 else g1) = publish ops f ch g1" for ch and g1 :: "'a global_rib"
    by simp
  then show ?thesis
    by (auto simp: pass_table_def Let_def case_prod_beta split: option.splits)
qed

lemma pass_table_spec:
  fixes chunk :: int
  assumes inv: "rib_inv g" and t: "dict_get (gtables g) f = Some t"
  defines "t' \<equiv> fst (reselect chunk t)"
  shows "rib_inv (pass_table ops chunk f t g)"
    and "candidates (gtables (pass_table ops chunk f t g)) = candidates (gtables g)"
    and "gtables (pass_table ops chunk f t g) = dict_set f t' (gtables g)"
    and "table_inv t'"
proof -
  obtain ch where r: "reselect chunk t = (t', ch)" by (simp add: t'_def prod_eq_iff)
  note T = tables_okD [OF rib_invD(1) [OF inv] t]
  note S = reselect_spec [OF T(1) r]
  note R = reselect_reported [OF T(1) r]
  let ?g = "g\<lparr>gtables := dict_set f t' (gtables g)\<rparr>"
  have p: "pass_table ops chunk f t g = publish ops f ch ?g" by (simp add: pass_table_def r)
  then show tables: "gtables (pass_table ops chunk f t g) = dict_set f t' (gtables g)" by simp
  show "table_inv t'" by (rule S(1))
  show "candidates (gtables (pass_table ops chunk f t g)) = candidates (gtables g)"
    using t S(3) by (simp add: tables candidates_set fun_upd_idem_iff candidates_def)
  have ok: "tables_ok (dict_set f t' (gtables g))"
    using tables_ok_set [OF rib_invD(1) [OF inv] S(1)] T(2) S(4) by simp
  have pub: "dict_get (gpublished (publish ops f ch ?g)) (f', p) = winner_in (dict_set f t' (gtables g)) f' p"
    for f' p
  proof (cases "f' = f \<and> pafi p = fst f")
    case True
    then have old: "dict_get (gpublished g) (f', p) = best_of t (pbits p)"
      using rib_invD(2) [OF inv, of f p] t by (simp add: winner_in_def)
    have "dict_get (gpublished (publish ops f ch ?g)) (f', p) = best_of t' (pbits p)"
    proof (cases "dict_get ch (pbits p)")
      case None
      then have "best_of t' (pbits p) = best_of t (pbits p)" using R(2) [of "pbits p"] dict_get_None_iff by metis
      then show ?thesis using None True old by (simp add: publish_published [OF R(1)])
    next
      case (Some d)
      then show ?thesis using R(3) [OF map_of_SomeD [OF Some]] True by (simp add: publish_published [OF R(1)])
    qed
    then show ?thesis using True by (simp add: winner_in_set)
  next
    case False
    then show ?thesis
      using rib_invD(2) [OF inv, of f' p] t
      by (auto simp: publish_published [OF R(1)] dict_get_set winner_in_def)
  qed
  have own: "rprefix r = p"
    if a: "dict_get (gpublished (publish ops f ch ?g)) (f', p) = Some r" for f' p r
  proof (cases "dict_get (gpublished g) (f', p) = Some r")
    case True
    then show ?thesis using rib_invD(3) [OF inv] by blast
  next
    case False
    then obtain d where d: "f' = f" "pafi p = fst f" "dict_get ch (pbits p) = Some d" "dbest d = Some r"
      using a by (auto simp: publish_published [OF R(1)] split: if_splits option.splits)
    then have "dest_select (routes_of t (pbits p)) = Some r" using R(3) [OF map_of_SomeD [OF d(3)]] by simp
    then have "r \<in> set (routes_of t (pbits p))" by (rule dest_select_best)
    then have "rprefix r = \<lparr>pafi = tafi t, pbits = pbits p\<rparr>"
      using table_invD(5) [OF T(1), of "pbits p"]
      by (cases "find t (pbits p)") (simp_all add: routes_of_def routes_ok_def)
    then show ?thesis using d(2) T(2) prefix_eq_iff by metis
  qed
  show "rib_inv (pass_table ops chunk f t g)"
    unfolding rib_inv_def using ok pub own by (simp add: p)
qed

lemma select_tables_inv:
  "rib_inv g \<Longrightarrow> rib_inv (fst (select_tables ops chunk fs g))
     \<and> candidates (gtables (fst (select_tables ops chunk fs g))) = candidates (gtables g)"
proof (induction fs arbitrary: g)
  case Nil
  then show ?case by simp
next
  case (Cons f fs)
  show ?case
  proof (cases "dict_get (gtables g) f")
    case None
    then show ?thesis using Cons by (simp only: select_tables_Cons) simp
  next
    case (Some t)
    note P = pass_table_spec [OF Cons.prems Some]
    show ?thesis using Some Cons.IH [OF Cons.prems] Cons.IH [OF P(1)] P(2)
      by (simp only: select_tables_Cons) simp
  qed
qed

lemma select_step_inv:
  "rib_inv g \<Longrightarrow> rib_inv (fst (select_step ops chunk g))"
  "rib_inv g \<Longrightarrow> candidates (gtables (fst (select_step ops chunk g))) = candidates (gtables g)"
  using select_tables_inv unfolding select_step_def by blast+


section \<open>Termination\<close>

lemma pending_waiting: "tbl_pending t = length (waiting t)"
  by (simp add: tbl_pending_def)

lemma pending_reselect:
  assumes "table_inv t" and "chunk > 0"
  shows "tbl_pending (fst (reselect chunk t)) = tbl_pending t - nat chunk"
  using reselect_spec(2) [OF assms(1), of chunk "fst (reselect chunk t)" "snd (reselect chunk t)"] assms(2)
  by (simp add: pending_waiting)

lemma pending_reselect_le: "table_inv t \<Longrightarrow> tbl_pending (fst (reselect chunk t)) \<le> tbl_pending t"
  using reselect_spec(2) [of t chunk "fst (reselect chunk t)" "snd (reselect chunk t)"]
  by (simp add: pending_waiting)

abbreviation total_pending :: "(family, rtable) pydict \<Rightarrow> nat" where
  "total_pending ts \<equiv> sum_list (map (\<lambda>(f, t). tbl_pending t) ts)"

lemma total_pending_set:
  "dict_get ts f = Some t \<Longrightarrow> total_pending (dict_set f t' ts) + tbl_pending t = total_pending ts + tbl_pending t'"
proof (induction ts)
  case (Cons x ts)
  then show ?case by (cases x) auto
qed simp

lemma select_tables_pending:
  "rib_inv g \<Longrightarrow> snd (select_tables ops chunk fs g) + grib_pending (fst (select_tables ops chunk fs g)) = grib_pending g"
proof (induction fs arbitrary: g)
  case Nil
  then show ?case by simp
next
  case (Cons f fs)
  show ?case
  proof (cases "dict_get (gtables g) f")
    case None
    then show ?thesis using Cons by (simp only: select_tables_Cons) simp
  next
    case (Some t)
    note P = pass_table_spec [OF Cons.prems Some]
    note T = tables_okD [OF rib_invD(1) [OF Cons.prems] Some]
    have "grib_pending (pass_table ops chunk f t g) + tbl_pending t
        = grib_pending g + tbl_pending (fst (reselect chunk t))"
      using total_pending_set [OF Some] P(3) by (simp add: grib_pending_def)
    then show ?thesis
      using Some Cons.IH [OF Cons.prems] Cons.IH [OF P(1) [where ops = ops and chunk = chunk]]
        pending_reselect_le [OF T(1), of chunk]
      by (simp only: select_tables_Cons, simp, arith)
  qed
qed

lemma select_tables_idle:
  "rib_inv g \<Longrightarrow> chunk > 0 \<Longrightarrow> snd (select_tables ops chunk fs g) = 0 \<Longrightarrow>
    (\<forall>f \<in> set fs. \<forall>t. dict_get (gtables g) f = Some t \<longrightarrow> tbl_pending t = 0)
    \<and> fst (select_tables ops chunk fs g) = g"
proof (induction fs)
  case Nil
  then show ?case by simp
next
  case (Cons f fs)
  show ?case
  proof (cases "dict_get (gtables g) f")
    case None
    then have "select_tables ops chunk (f # fs) g = select_tables ops chunk fs g"
      by (simp only: select_tables_Cons) simp
    then show ?thesis using Cons None by simp
  next
    case (Some t)
    note T = tables_okD [OF rib_invD(1) [OF Cons.prems(1)] Some]
    have "tbl_pending t = 0"
      using Cons.prems(2,3) Some pending_reselect [OF T(1) Cons.prems(2)]
      by (simp only: select_tables_Cons) (auto split: if_splits)
    then have "select_tables ops chunk (f # fs) g = select_tables ops chunk fs g"
      using Some by (simp only: select_tables_Cons) simp
    then show ?thesis using Cons Some \<open>tbl_pending t = 0\<close> by simp
  qed
qed

lemma select_step_idle:
  assumes "rib_inv g" and "chunk > 0" and "snd (select_step ops chunk g) = 0"
  shows "grib_pending g = 0" and "fst (select_step ops chunk g) = g"
proof -
  note I = select_tables_idle [OF assms(1,2) assms(3) [unfolded select_step_def]]
  show "fst (select_step ops chunk g) = g" using I by (simp add: select_step_def)
  have "tbl_pending t = 0" if "(f, t) \<in> set (gtables g)" for f t
    using I that rib_invD(1) [OF assms(1)] by (auto simp: tables_ok_def)
  then show "grib_pending g = 0" by (auto simp: grib_pending_def)
qed

lemma select_loop_terminates:
  "rib_inv g \<Longrightarrow> chunk > 0 \<Longrightarrow> \<exists>g'. select_loop ops chunk acc g = Some (g', acc + grib_pending g)
     \<and> rib_inv g' \<and> grib_pending g' = 0 \<and> candidates (gtables g') = candidates (gtables g)"
proof (induction "grib_pending g" arbitrary: g acc rule: less_induct)
  case less
  obtain g1 n where s: "select_step ops chunk g = (g1, n)" by (cases "select_step ops chunk g")
  have I: "rib_inv g1" "candidates (gtables g1) = candidates (gtables g)"
    using select_step_inv [OF less.prems(1), of ops chunk] s by auto
  have n: "n + grib_pending g1 = grib_pending g"
    using select_tables_pending [OF less.prems(1), of ops chunk "map fst (gtables g)"] s by (simp add: select_step_def)
  show ?case
  proof (cases "n = 0")
    case True
    then show ?thesis using select_step_idle [OF less.prems, of ops] s less.prems
      by (subst select_loop.simps) auto
  next
    case False
    then obtain g' where "select_loop ops chunk (acc + n) g1 = Some (g', acc + n + grib_pending g1)"
      "rib_inv g'" "grib_pending g' = 0" "candidates (gtables g') = candidates (gtables g1)"
      using less.hyps [of g1 "acc + n"] I less.prems n by auto
    then show ?thesis using s n False I by (subst select_loop.simps) (auto simp flip: n)
  qed
qed

section \<open>Withdrawing a source\<close>

lemma retract_prefixes_spec:
  "table_inv t \<Longrightarrow> (\<forall>p \<in> set ps. pafi p = tafi t) \<Longrightarrow> distinct ps \<Longrightarrow>
    (case retract_prefixes proto source ps t of (t', n) \<Rightarrow>
       table_inv t' \<and> tafi t' = tafi t \<and> best_of t' = best_of t
       \<and> routes_of t' = (\<lambda>k. if k \<in> pbits ` set ps then retract_routes proto source (routes_of t k) else routes_of t k)
       \<and> n = length (filter (\<lambda>p. (proto, source) \<in> origin ` set (routes_of t (pbits p))) ps))"
proof (induction ps arbitrary: t)
  case Nil
  then show ?case by simp
next
  case (Cons p ps)
  obtain t1 n where r: "tbl_retract p proto source t = (t1, n)" by (cases "tbl_retract p proto source t")
  note R = retract_spec [OF Cons.prems(1) r]
  have fam: "pafi p = tafi t" using Cons.prems(2) by simp
  have n: "n = (if (proto, source) \<in> origin ` set (routes_of t (pbits p)) then 1 else 0)"
    using R(5,6) fam by auto
  obtain t2 m where r2: "retract_prefixes proto source ps t1 = (t2, m)" by (cases "retract_prefixes proto source ps t1")
  have notin: "pbits p \<notin> pbits ` set ps"
    using Cons.prems(2,3) fam by (auto simp: image_iff) (metis prefix.surjective old.unit.exhaust prefix_eq_iff)
  have IH: "table_inv t2" "tafi t2 = tafi t" "best_of t2 = best_of t"
    "routes_of t2 = (\<lambda>k. if k \<in> pbits ` set ps then retract_routes proto source (routes_of t1 k) else routes_of t1 k)"
    "m = length (filter (\<lambda>p. (proto, source) \<in> origin ` set (routes_of t1 (pbits p))) ps)"
    using Cons.IH [OF R(1)] Cons.prems R(2,3) r2 by auto
  have same: "routes_of t1 (pbits q) = routes_of t (pbits q)" if "q \<in> set ps" for q
  proof -
    have "pbits q \<noteq> pbits p" using notin that by (auto simp: image_iff)
    then show ?thesis using R(4) fam by simp
  qed
  have "m = length (filter (\<lambda>p. (proto, source) \<in> origin ` set (routes_of t (pbits p))) ps)"
    unfolding IH(5) using same by (intro arg_cong [where f = length] filter_cong) auto
  then show ?case using r r2 IH(1-4) R(4) fam n notin by (auto simp: fun_eq_iff)
qed

lemma tbl_prefixes_spec:
  assumes "table_inv t"
  shows "distinct (tbl_prefixes t)" "p \<in> set (tbl_prefixes t) \<Longrightarrow> pafi p = tafi t"
    "k \<notin> pbits ` set (tbl_prefixes t) \<Longrightarrow> routes_of t k = []"
proof -
  note wf = table_invD(1) [OF assms]
  have "map pbits (tbl_prefixes t) = map fst (trie_items (ttrie t))"
    by (simp add: tbl_prefixes_def case_prod_beta comp_def)
  then have "distinct (map pbits (tbl_prefixes t))" using items_distinct [OF wf] by simp
  then show "distinct (tbl_prefixes t)" by (rule distinct_map [THEN iffD1, THEN conjunct1])
  show "p \<in> set (tbl_prefixes t) \<Longrightarrow> pafi p = tafi t" by (auto simp: tbl_prefixes_def)
  have "k \<in> pbits ` set (tbl_prefixes t)" if "find t k = Some d" for d
    using that node_exact_items [OF wf] by (force simp: tbl_prefixes_def)
  then show "k \<notin> pbits ` set (tbl_prefixes t) \<Longrightarrow> routes_of t k = []"
    by (auto simp: routes_of_def split: option.splits)
qed

lemma retract_table_spec:
  fixes proto source :: nat
  assumes inv: "table_inv t"
  defines "r \<equiv> retract_prefixes proto source (tbl_prefixes t) t"
  shows "table_inv (fst r)" "tafi (fst r) = tafi t" "best_of (fst r) = best_of t"
    "routes_of (fst r) k = retract_routes proto source (routes_of t k)"
proof -
  note S = retract_prefixes_spec [OF inv _ tbl_prefixes_spec(1) [OF inv], of proto source]
  have N: "retract_routes proto source [] = []" by (simp add: retract_routes_def)
  show "table_inv (fst r)" "tafi (fst r) = tafi t" "best_of (fst r) = best_of t"
    "routes_of (fst r) k = retract_routes proto source (routes_of t k)"
    using S tbl_prefixes_spec(2,3) [OF inv] N unfolding r_def by (auto split: prod.splits)
qed


lemma retract_tables_map:
  "fst (retract_tables proto source ts) = map (\<lambda>(f, t). (f, fst (retract_prefixes proto source (tbl_prefixes t) t))) ts"
  by (induction ts) (auto simp: case_prod_beta split: prod.splits)

lemma retract_all_spec:
  assumes inv: "rib_inv g"
  shows "rib_inv (fst (retract_all proto source g))"
    "candidates (gtables (fst (retract_all proto source g))) = (\<lambda>f k. retract_routes proto source (candidates (gtables g) f k))"
    "gsink (fst (retract_all proto source g)) = gsink g"
    "gpublished (fst (retract_all proto source g)) = gpublished g"
    "map fst (gtables (fst (retract_all proto source g))) = map fst (gtables g)"
proof -
  let ?r = "\<lambda>t. fst (retract_prefixes proto source (tbl_prefixes t) t)"
  let ?ts = "fst (retract_tables proto source (gtables g))"
  have g': "fst (retract_all proto source g) = g\<lparr>gtables := ?ts\<rparr>" by (simp add: retract_all_def case_prod_beta)
  have get: "dict_get ?ts f = map_option ?r (dict_get (gtables g) f)" for f
    by (simp add: retract_tables_map map_of_map)
  have keys: "map fst ?ts = map fst (gtables g)" by (simp add: retract_tables_map case_prod_beta comp_def)
  have T: "table_inv t" "tafi t = fst f" if "(f, t) \<in> set (gtables g)" for f t
    using rib_invD(1) [OF inv] that by (auto simp: tables_ok_def)
  have "distinct (map fst ?ts)" using rib_invD(1) [OF inv] keys by (simp add: tables_ok_def)
  moreover have "table_inv t' \<and> tafi t' = fst f" if "(f, t') \<in> set ?ts" for f t'
    using that T retract_table_spec(1,2) by (auto simp: retract_tables_map)
  ultimately have "tables_ok ?ts" by (auto simp: tables_ok_def)
  moreover have "winner_in ?ts f p = winner_in (gtables g) f p" for f p
    using T(1) [OF map_of_SomeD] retract_table_spec(3) by (auto simp: winner_in_def get split: option.splits)
  ultimately show "rib_inv (fst (retract_all proto source g))"
    unfolding g' by (rule rib_inv_tables [OF inv])
  show "candidates (gtables (fst (retract_all proto source g))) = (\<lambda>f k. retract_routes proto source (candidates (gtables g) f k))"
    using T(1) [OF map_of_SomeD] retract_table_spec(4)
    by (auto simp: g' candidates_def get fun_eq_iff retract_routes_def [of _ _ "[]"] split: option.splits)
  show "gsink (fst (retract_all proto source g)) = gsink g"
    "gpublished (fst (retract_all proto source g)) = gpublished g"
    "map fst (gtables (fst (retract_all proto source g))) = map fst (gtables g)"
    using keys by (simp_all add: g')
qed

section \<open>Runs\<close>

datatype rib_op =
    RibOffer route nat
  | RibRetract prefix nat nat nat
  | RibRetractAll nat nat
  | RibEnsure family
  | RibSelect int

fun rib_step :: "'s sink_ops \<Rightarrow> 's global_rib \<Rightarrow> rib_op \<Rightarrow> 's global_rib" where
  "rib_step ops g (RibOffer r safi) = (case grib_offer r safi g of Inl e \<Rightarrow> g | Inr (g', n) \<Rightarrow> g')"
| "rib_step ops g (RibRetract p proto source safi) = fst (grib_retract p proto source safi g)"
| "rib_step ops g (RibRetractAll proto source) = fst (retract_all proto source g)"
| "rib_step ops g (RibEnsure f) = (case ensure_table f g of Inl e \<Rightarrow> g | Inr (g', t) \<Rightarrow> g')"
| "rib_step ops g (RibSelect chunk) = fst (select_step ops chunk g)"

text \<open>What is on offer, for every family and prefix, with no tables, queues or selection.\<close>

fun offered_step :: "(family \<Rightarrow> key \<Rightarrow> route list) \<Rightarrow> rib_op \<Rightarrow> (family \<Rightarrow> key \<Rightarrow> route list)" where
  "offered_step c (RibOffer r safi) =
     (if addr_len (pafi (rprefix r)) = 0 then c
      else (let f = (pafi (rprefix r), safi); k = pbits (rprefix r)
            in c(f := (c f)(k := offer_routes r (c f k)))))"
| "offered_step c (RibRetract p proto source safi) =
     (let f = (pafi p, safi); k = pbits p in c(f := (c f)(k := retract_routes proto source (c f k))))"
| "offered_step c (RibRetractAll proto source) = (\<lambda>f k. retract_routes proto source (c f k))"
| "offered_step c (RibEnsure f) = c"
| "offered_step c (RibSelect chunk) = c"

lemma rib_step_spec:
  assumes inv: "rib_inv g"
  shows "rib_inv (rib_step ops g e)"
    and "candidates (gtables (rib_step ops g e)) = offered_step (candidates (gtables g)) e"
proof -
  have "rib_inv (rib_step ops g e) \<and>
    candidates (gtables (rib_step ops g e)) = offered_step (candidates (gtables g)) e"
  proof (cases e)
    case (RibOffer r safi)
    show ?thesis
    proof (cases "addr_len (pafi (rprefix r)) = 0")
      case True
      then show ?thesis using RibOffer inv by (simp add: grib_offer_def ensure_table_def)
    next
      case False
      show ?thesis
        by (rule grib_offer_spec [OF inv False, of safi]) (use False RibOffer in \<open>auto simp: Let_def\<close>)
    qed
  next
    case (RibRetract p proto source safi)
    then show ?thesis using grib_retract_spec(1,4) [OF inv, of p proto source safi]
      by (cases "grib_retract p proto source safi g") (simp add: Let_def)
  next
    case (RibRetractAll proto source)
    then show ?thesis using retract_all_spec(1,2) [OF inv] by simp
  next
    case (RibEnsure f)
    show ?thesis
    proof (cases "addr_len (fst f) = 0")
      case True
      then show ?thesis using RibEnsure inv by (simp add: ensure_table_def)
    next
      case False
      then show ?thesis using ensure_table_spec [OF inv False] RibEnsure
        by (metis (no_types, lifting) offered_step.simps(4) old.prod.case rib_step.simps(4) sum.simps(6))
    qed
  next
    case (RibSelect chunk)
    then show ?thesis using select_step_inv [OF inv] by simp
  qed
  then show "rib_inv (rib_step ops g e)"
    "candidates (gtables (rib_step ops g e)) = offered_step (candidates (gtables g)) e" by blast+
qed

interpretation rib_machine: invariant_machine "rib_step ops" rib_inv for ops :: "'s sink_ops"
  by unfold_locales (rule rib_step_spec)

lemma rib_run_offered:
  "rib_inv g \<Longrightarrow> candidates (gtables (foldl (rib_step ops) g es)) = foldl offered_step (candidates (gtables g)) es"
  by (induction es arbitrary: g) (simp_all add: rib_step_spec)

lemma ensure_tables_spec:
  "rib_inv g \<Longrightarrow> ensure_tables fs g = Inr g' \<Longrightarrow>
    rib_inv g' \<and> candidates (gtables g') = candidates (gtables g) \<and> gsink g' = gsink g
    \<and> gpublished g' = gpublished g \<and> set (map fst (gtables g')) \<subseteq> set (map fst (gtables g)) \<union> set fs"
proof (induction fs arbitrary: g)
  case Nil
  then show ?case by simp
next
  case (Cons f fs)
  have ok: "addr_len (fst f) \<noteq> 0" 
    using Cons.prems(2) by (cases "addr_len (fst f) = 0") (simp_all add: ensure_table_def)
  obtain g1 t where E: "ensure_table f g = Inr (g1, t)" "rib_inv g1"
    "candidates (gtables g1) = candidates (gtables g)" "gsink g1 = gsink g" "gpublished g1 = gpublished g"
    using ensure_table_spec [OF Cons.prems(1) ok] by metis
  have "dict_keys (gtables g1) \<subseteq> insert f (dict_keys (gtables g))"
  proof (cases "dict_get (gtables g) f")
    case None
    then obtain t where "g1 = g\<lparr>gtables := dict_set f t (gtables g)\<rparr>"
      using E(1) ok by (auto simp: ensure_table_def new_table_def)
    then show ?thesis by simp
  qed (use E(1) ok in \<open>simp add: ensure_table_def subset_insertI\<close>)
  moreover have "ensure_tables fs g1 = Inr g'" using Cons.prems(2) E(1) by simp
  note Cons.IH [OF E(2) this]
  ultimately show ?case using E(3-5) by (simp, blast)
qed

lemma new_global_rib_spec:
  assumes "new_global_rib sink bus fs = Inr g"
  shows "rib_inv g" "candidates (gtables g) = (\<lambda>f k. [])" "gsink g = sink" "gpublished g = []"
    "set (map fst (gtables g)) \<subseteq> set fs"
proof -
  let ?g = "\<lparr>gsink = sink, gbus = (if bus then Some [] else None), gtables = [], gpublished = [],
       gselected = 0, ginstalled = 0, gwithdrawn = 0\<rparr>"
  have "rib_inv ?g" by (simp add: rib_inv_def tables_ok_def winner_in_def)
  note S = ensure_tables_spec [OF this assms [unfolded new_global_rib_def]]
  then show "rib_inv g" "candidates (gtables g) = (\<lambda>f k. [])" "gsink g = sink" "gpublished g = []"
    "set (map fst (gtables g)) \<subseteq> set fs"
    by (auto simp: candidates_def fun_eq_iff)
qed

text \<open>C2. Whatever protocols offer and withdraw, however selection is sliced, the record of
  published routes is exactly the best route of every table: a prefix is in it with the route
  that its table holds as best, under its own prefix, and a prefix without one is not.\<close>

theorem published_mirrors_best:
  fixes es :: "rib_op list" and ops :: "'s sink_ops"
  assumes "new_global_rib sink bus fs = Inr g0"
  defines "g \<equiv> foldl (rib_step ops) g0 es"
  shows "dict_get (gpublished g) (f, p) = winner_in (gtables g) f p
    \<and> (\<forall>r \<in> set_option (dict_get (gpublished g) (f, p)). rprefix r = p)"
proof -
  have "rib_inv g" unfolding g_def by (rule rib_machine.run_inv [OF new_global_rib_spec(1) [OF assms(1)]])
  then show ?thesis using rib_invD(2,3) [of g f p] by auto
qed

text \<open>C3. Selection to completion returns, has examined each waiting destination once (the count
  it returns), leaves nothing waiting, and every prefix then has the winner among exactly the
  routes that are on offer for it.\<close>

theorem select_completes:
  fixes es :: "rib_op list" and ops :: "'s sink_ops"
  assumes "new_global_rib sink bus fs = Inr g0"
  defines "g \<equiv> foldl (rib_step ops) g0 es"
  shows "\<exists>g'. select ops limit g = Some (g', grib_pending g) \<and> grib_pending g' = 0
    \<and> (\<forall>f k. winner_in (gtables g') f \<lparr>pafi = fst f, pbits = k\<rparr> = dest_select (foldl offered_step (\<lambda>f k. []) es f k))"
proof -
  note N = new_global_rib_spec [OF assms(1)]
  have inv: "rib_inv g" unfolding g_def by (rule rib_machine.run_inv [OF N(1)])
  have c: "candidates (gtables g) = foldl offered_step (\<lambda>f k. []) es"
    using rib_run_offered [OF N(1), of ops es] N(2) by (simp add: g_def)
  define c where "c = (if limit > 0 then limit else 2 ^ 30)"
  have "c > 0" by (simp add: c_def)
  then obtain g' where g': "select ops limit g = Some (g', grib_pending g)" "rib_inv g'" "grib_pending g' = 0"
    "candidates (gtables g') = candidates (gtables g)"
    using select_loop_terminates [OF inv, of c ops 0] by (auto simp: select_def c_def)
  have "winner_in (gtables g') f \<lparr>pafi = fst f, pbits = k\<rparr> = dest_select (candidates (gtables g') f k)" for f k
  proof (cases "dict_get (gtables g') f")
    case None
    then show ?thesis by (simp add: winner_in_def candidates_def)
  next
    case (Some t)
    have "tbl_pending t = 0"
      using g'(3) map_of_SomeD [OF Some] by (auto simp: grib_pending_def)
    then have "waiting t = []" by (simp add: pending_waiting)
    then show ?thesis
      using Some at_rest_best [OF tables_okD(1) [OF rib_invD(1) [OF g'(2)] Some], of k]
      by (simp add: winner_in_def candidates_def)
  qed
  then show ?thesis using g' c by auto
qed


definition sample_rib :: "null_sink global_rib" where
  "sample_rib = \<lparr>gsink = Some new_null_sink, gbus = Some [], gtables = [((1, 1), sample_table)],
     gpublished = [], gselected = 0, ginstalled = 0, gwithdrawn = 0\<rparr>"

lemma sample_new_rib: "new_global_rib (Some new_null_sink) True [(1, 1)] = Inr sample_rib"
  using sample_new_table by (simp add: new_global_rib_def ensure_table_def sample_rib_def addr_len_def)

theorem published_mirrors_best_witness:
  "let g = foldl (rib_step null_sink_ops) sample_rib [RibOffer (sample_route 3 20 1) 1, RibSelect 1]
   in dict_get (gpublished g) ((1, 1), sample_prefix) = winner_in (gtables g) (1, 1) sample_prefix"
  using published_mirrors_best [OF sample_new_rib] by (simp only: Let_def)

theorem select_completes_witness:
  "\<exists>g'. select null_sink_ops 0 (foldl (rib_step null_sink_ops) sample_rib [RibOffer (sample_route 3 20 1) 1])
     = Some (g', grib_pending (foldl (rib_step null_sink_ops) sample_rib [RibOffer (sample_route 3 20 1) 1]))
   \<and> winner_in (gtables g') (1, 1) sample_prefix = Some (sample_route 3 20 1)"
proof -
  have "dest_select (foldl offered_step (\<lambda>f k. []) [RibOffer (sample_route 3 20 1) 1] (1, 1) [False, True])
      = Some (sample_route 3 20 1)"
    by (simp add: offer_routes_def sample_route_def sample_prefix_def dest_select_def addr_len_def Let_def)
  moreover have "\<lparr>pafi = fst (1, 1 :: nat), pbits = [False, True]\<rparr> = sample_prefix" by (simp add: sample_prefix_def)
  ultimately show ?thesis using select_completes [OF sample_new_rib,
        where es = "[RibOffer (sample_route 3 20 1) 1]" and ops = null_sink_ops and limit = 0] by metis
qed

section \<open>Events\<close>

fun about :: "family \<Rightarrow> prefix \<Rightarrow> rib_event \<Rightarrow> bool" where
  "about f p (ROUTE_BEST f' p' r old v) \<longleftrightarrow> f' = f \<and> p' = p"
| "about f p (ROUTE_WITHDRAW f' p') \<longleftrightarrow> f' = f \<and> p' = p"

definition event_for :: "family \<Rightarrow> prefix \<Rightarrow> route option \<Rightarrow> route option \<Rightarrow> nat \<Rightarrow> rib_event" where
  "event_for f p old new v =
    (case new of None \<Rightarrow> ROUTE_WITHDRAW f p | Some r \<Rightarrow> ROUTE_BEST f p r old v)"

lemma publish_one_bus:
  "gbus (publish_one ops f kd g) = map_option (\<lambda>es. es @ [event_for f \<lparr>pafi = fst f, pbits = fst kd\<rparr>
     (dict_get (gpublished g) (f, \<lparr>pafi = fst f, pbits = fst kd\<rparr>)) (dbest (snd kd)) (dversion (snd kd))]) (gbus g)"
  by (auto simp: publish_one_def Let_def emit_def event_for_def split: option.splits)

lemma about_event_for [simp]: "about f p (event_for f' p' old new v) \<longleftrightarrow> f' = f \<and> p' = p"
  by (simp add: event_for_def split: option.splits)

lemma publish_bus:
  "distinct (map fst ch) \<Longrightarrow> gbus g = Some es \<Longrightarrow>
    \<exists>evs. gbus (publish ops f ch g) = Some (es @ evs) \<and>
      (\<forall>f' p. filter (about f' p) evs =
         (if f' = f \<and> pafi p = fst f
          then (case dict_get ch (pbits p) of None \<Rightarrow> []
                | Some d \<Rightarrow> [event_for f p (dict_get (gpublished g) (f, p)) (dbest d) (dversion d)])
          else []))"
proof (induction ch arbitrary: g es)
  case Nil
  then show ?case by auto
next
  case (Cons kd ch)
  let ?p = "\<lparr>pafi = fst f, pbits = fst kd\<rparr>"
  let ?e = "event_for f ?p (dict_get (gpublished g) (f, ?p)) (dbest (snd kd)) (dversion (snd kd))"
  let ?g = "publish_one ops f kd g"
  have b: "gbus ?g = Some (es @ [?e])" using Cons.prems(2) by (simp add: publish_one_bus)
  obtain evs where evs: "gbus (publish ops f ch ?g) = Some ((es @ [?e]) @ evs)"
    "\<forall>f' p. filter (about f' p) evs =
         (if f' = f \<and> pafi p = fst f
          then (case dict_get ch (pbits p) of None \<Rightarrow> []
                | Some d \<Rightarrow> [event_for f p (dict_get (gpublished ?g) (f, p)) (dbest d) (dversion d)])
          else [])"
    using Cons.IH [OF _ b] Cons.prems(1) by auto
  have "dict_get ch (fst kd) = None" using Cons.prems(1) by (simp add: dict_get_None_iff)
  note notin = this
  have "filter (about f' p) (?e # evs) =
      (if f' = f \<and> pafi p = fst f
       then (case dict_get (kd # ch) (pbits p) of None \<Rightarrow> []
             | Some d \<Rightarrow> [event_for f p (dict_get (gpublished g) (f, p)) (dbest d) (dversion d)])
       else [])" for f' p
  proof (cases "f' = f \<and> p = ?p")
    case True
    then have "filter (about f' p) evs = []" using evs(2) [rule_format, of f' p] notin by simp
    then show ?thesis using True by (cases kd) simp
  next
    case False
    then have e: "\<not> about f' p ?e" by auto
    show ?thesis
    proof (cases "f' = f \<and> pafi p = fst f")
      case True
      then have ne: "pbits p \<noteq> fst kd" using False by (simp add: prefix_eq_iff)
      have old: "dict_get (gpublished ?g) (f, p) = dict_get (gpublished g) (f, p)"
        using True False by (simp add: publish_one_published)
      show ?thesis using True ne e evs(2) [rule_format, of f' p] unfolding old by (cases kd) simp
    next
      case f: False
      then have "filter (about f' p) evs = []" using evs(2) [rule_format, of f' p] by (simp only: if_False)
      then show ?thesis using e f by (simp only: filter.simps if_False)
    qed
  qed
  then show ?case using evs(1) by (intro exI [of _ "?e # evs"]) (simp add: publish_Cons)
qed

text \<open>The events a stretch of selection appends about one prefix: one when its winner changed,
  with the old and the new one, and none otherwise.\<close>

definition announces :: "rib_event list \<Rightarrow> 's global_rib \<Rightarrow> 's global_rib \<Rightarrow> bool" where
  "announces evs g g' \<longleftrightarrow> (\<forall>f p. let old = winner_in (gtables g) f p; new = winner_in (gtables g') f p in
     \<exists>v. filter (about f p) evs = (if new = old then [] else [event_for f p old new v]))"

lemma pass_table_bus:
  assumes inv: "rib_inv g" and t: "dict_get (gtables g) f = Some t" and b: "gbus g = Some es"
  obtains evs where "gbus (pass_table ops chunk f t g) = Some (es @ evs)"
    "announces evs g (pass_table ops chunk f t g)" "\<And>f' p. f' \<noteq> f \<Longrightarrow> filter (about f' p) evs = []"
proof -
  obtain t' ch where r: "reselect chunk t = (t', ch)" by (cases "reselect chunk t")
  note T = tables_okD [OF rib_invD(1) [OF inv] t]
  note R = reselect_reported [OF T(1) r]
  let ?g = "g\<lparr>gtables := dict_set f t' (gtables g)\<rparr>"
  obtain evs where evs: "gbus (publish ops f ch ?g) = Some (es @ evs)"
    "\<And>f' p. filter (about f' p) evs =
         (if f' = f \<and> pafi p = fst f
          then (case dict_get ch (pbits p) of None \<Rightarrow> []
                | Some d \<Rightarrow> [event_for f p (dict_get (gpublished ?g) (f, p)) (dbest d) (dversion d)])
          else [])"
    using publish_bus [OF R(1), of ?g es ops f] b by auto
  have p: "pass_table ops chunk f t g = publish ops f ch ?g" by (simp add: pass_table_def r)
  have tables: "gtables (pass_table ops chunk f t g) = dict_set f t' (gtables g)" by (simp add: p)
  have "announces evs g (pass_table ops chunk f t g)"
    unfolding announces_def Let_def tables
  proof (intro allI)
    fix f' p
    let ?old = "winner_in (gtables g) f' p" and ?new = "winner_in (dict_set f t' (gtables g)) f' p"
    show "\<exists>v. filter (about f' p) evs = (if ?new = ?old then [] else [event_for f' p ?old ?new v])"
    proof (cases "f' = f \<and> pafi p = fst f")
      case True
      then have w: "?old = best_of t (pbits p)" "?new = best_of t' (pbits p)"
        "dict_get (gpublished g) (f, p) = best_of t (pbits p)"
        using t rib_invD(2) [OF inv, of f p] by (simp_all add: winner_in_def dict_get_set)
      show ?thesis
      proof (cases "dict_get ch (pbits p)")
        case None
        then have "best_of t' (pbits p) = best_of t (pbits p)" using R(2) [of "pbits p"] dict_get_None_iff by metis
        then show ?thesis using None True w by (simp add: evs(2))
      next
        case (Some d)
        note m = map_of_SomeD [OF Some]
        have "best_of t' (pbits p) \<noteq> best_of t (pbits p)" using R(2) [of "pbits p"] m by force
        then show ?thesis using Some True w R(3) [OF m] by (auto simp: evs(2))
      qed
    next
      case False
      then have "?new = ?old" using t by (auto simp: winner_in_def dict_get_set)
      then show ?thesis using False by (auto simp: evs(2))
    qed
  qed
  then show ?thesis using that [of evs] evs p by simp
qed

lemma select_tables_bus:
  "rib_inv g \<Longrightarrow> gbus g = Some es \<Longrightarrow> distinct fs \<Longrightarrow>
    \<exists>evs. gbus (fst (select_tables ops chunk fs g)) = Some (es @ evs)
      \<and> announces evs g (fst (select_tables ops chunk fs g))
      \<and> (\<forall>f p. f \<notin> set fs \<longrightarrow> filter (about f p) evs = [])"
proof (induction fs arbitrary: g es)
  case Nil
  then show ?case by (simp add: announces_def)
next
  case (Cons f fs)
  show ?case
  proof (cases "\<exists>t. dict_get (gtables g) f = Some t \<and> tbl_pending t \<noteq> 0")
    case False
    then have "select_tables ops chunk (f # fs) g = select_tables ops chunk fs g"
      by (simp only: select_tables_Cons) (auto split: option.splits)
    then show ?thesis using Cons.IH [OF Cons.prems(1,2)] Cons.prems(3) by auto
  next
    case True
    then obtain t where t: "dict_get (gtables g) f = Some t" "tbl_pending t \<noteq> 0" by blast
    let ?g = "pass_table ops chunk f t g"
    let ?h = "fst (select_tables ops chunk fs ?g)"
    obtain ev1 where e1: "gbus ?g = Some (es @ ev1)" "announces ev1 g ?g"
      "\<And>f' p. f' \<noteq> f \<Longrightarrow> filter (about f' p) ev1 = []"
      using pass_table_bus [OF Cons.prems(1) t(1) Cons.prems(2), of ops chunk] by metis
    note P = pass_table_spec(1) [OF Cons.prems(1) t(1)]
    obtain ev2 where e2: "gbus ?h = Some ((es @ ev1) @ ev2)" "announces ev2 ?g ?h"
      "\<And>f' p. f' \<notin> set fs \<Longrightarrow> filter (about f' p) ev2 = []"
      using Cons.IH [OF P e1(1)] Cons.prems(3) by auto
    have "announces (ev1 @ ev2) g ?h"
      unfolding announces_def Let_def
    proof (intro allI)
      fix f' p
      let ?w = "\<lambda>g. winner_in (gtables g) f' p"
      obtain v1 v2 where v: "filter (about f' p) ev1 = (if ?w ?g = ?w g then [] else [event_for f' p (?w g) (?w ?g) v1])"
        "filter (about f' p) ev2 = (if ?w ?h = ?w ?g then [] else [event_for f' p (?w ?g) (?w ?h) v2])"
        using e1(2) e2(2) unfolding announces_def Let_def by blast
      have "?w ?g = ?w g \<or> ?w ?h = ?w ?g"
        using v e1(3) [of f' p] e2(3) [of f' p] Cons.prems(3) by (cases "f' = f") (auto split: if_splits)
      then show "\<exists>v. filter (about f' p) (ev1 @ ev2) = (if ?w ?h = ?w g then [] else [event_for f' p (?w g) (?w ?h) v])"
        using v by (cases "?w ?g = ?w g") auto
    qed
    moreover have "select_tables ops chunk (f # fs) g = (?h, snd (select_tables ops chunk (f # fs) g))"
      using t by (simp only: select_tables_Cons) simp
    then have h: "fst (select_tables ops chunk (f # fs) g) = ?h" by (metis fst_conv)
    ultimately show ?thesis
      using e2(1,3) e1(3) by (intro exI [of _ "ev1 @ ev2"]) (auto simp: h)
  qed
qed

text \<open>One selection step publishes each change once: about a prefix whose winner it changed
  the bus gets exactly one event, which names the new best route and the one it replaces or the
  withdrawal, and about any other prefix it gets none, however often routes were offered.\<close>

theorem step_publishes_once:
  fixes es :: "rib_op list" and ops :: "'s sink_ops"
  assumes "new_global_rib sink True fs = Inr g0"
  defines "g \<equiv> foldl (rib_step ops) g0 es"
  assumes "gbus g = Some sent"
  shows "\<exists>evs. gbus (fst (select_step ops chunk g)) = Some (sent @ evs)
    \<and> (\<forall>f p. let old = winner_in (gtables g) f p; new = winner_in (gtables (fst (select_step ops chunk g))) f p in
         \<exists>v. filter (about f p) evs = (if new = old then [] else [event_for f p old new v]))"
proof -
  have inv: "rib_inv g" unfolding g_def by (rule rib_machine.run_inv [OF new_global_rib_spec(1) [OF assms(1)]])
  have "distinct (map fst (gtables g))" using rib_invD(1) [OF inv] by (simp add: tables_ok_def)
  from select_tables_bus [OF inv assms(3) this, of ops chunk] show ?thesis
    unfolding select_step_def announces_def by blast
qed

theorem step_publishes_once_witness:
  "\<exists>evs. gbus (fst (select_step null_sink_ops 1 (foldl (rib_step null_sink_ops) sample_rib []))) = Some ([] @ evs)"
  using step_publishes_once [OF sample_new_rib, where es = "[]" and sent = "[]" and chunk = 1 and ops = null_sink_ops]
  by (force simp: sample_rib_def)


section \<open>The contract of a forwarding sink\<close>

definition own_prefix :: "'s global_rib \<Rightarrow> bool" where
  "own_prefix g \<longleftrightarrow> (\<forall>f p r. dict_get (gpublished g) (f, p) = Some r \<longrightarrow> rprefix r = p)"

definition unicast_tables :: "'s global_rib \<Rightarrow> bool" where
  "unicast_tables g \<longleftrightarrow> (\<forall>f \<in> dict_keys (gtables g). snd f = SAFI_UNICAST)"

fun unicast_op :: "rib_op \<Rightarrow> bool" where
  "unicast_op (RibOffer r safi) = (safi = SAFI_UNICAST)"
| "unicast_op (RibRetract p proto source safi) = (safi = SAFI_UNICAST)"
| "unicast_op (RibEnsure f) = (snd f = SAFI_UNICAST)"
| "unicast_op e = True"

locale fib_sink =
  fixes ops :: "'s sink_ops"
    and holds :: "'s \<Rightarrow> prefix \<Rightarrow> route option"
  assumes holds_install: "holds (op_install ops r s) p = (if p = rprefix r then Some r else holds s p)"
    and holds_withdraw: "holds (op_withdraw ops r s) p = (if p = rprefix r then None else holds s p)"
begin

definition sink_ok :: "'s global_rib \<Rightarrow> bool" where
  "sink_ok g \<longleftrightarrow> (\<forall>s p. gsink g = Some s \<longrightarrow> holds s p = dict_get (gpublished g) ((pafi p, SAFI_UNICAST), p))"

lemma publish_one_sink:
  assumes ok: "sink_ok g" and own: "own_prefix g" and f: "snd f = SAFI_UNICAST"
    and best: "\<And>r. dbest (snd kd) = Some r \<Longrightarrow> rprefix r = \<lparr>pafi = fst f, pbits = fst kd\<rparr>"
  shows "sink_ok (publish_one ops f kd g) \<and> own_prefix (publish_one ops f kd g)"
proof
  let ?p = "\<lparr>pafi = fst f, pbits = fst kd\<rparr>"
  have f': "f = (fst f, SAFI_UNICAST)" using f by (cases f) simp
  have old: "dict_get (gpublished g) (f, ?p) = Some r \<Longrightarrow> rprefix r = ?p" for r
    using own unfolding own_prefix_def by blast
  have none: "dict_get (gpublished g) (f, ?p) = None \<Longrightarrow> gsink g = Some s \<Longrightarrow> holds s ?p = None" for s
    using ok f by (cases f) (simp add: sink_ok_def)
  show "own_prefix (publish_one ops f kd g)"
    using own best by (auto simp: own_prefix_def publish_one_published)
  show "sink_ok (publish_one ops f kd g)"
    unfolding sink_ok_def
  proof (intro allI impI)
    fix s' p assume s': "gsink (publish_one ops f kd g) = Some s'"
    then obtain s where s: "gsink g = Some s"
      by (auto simp: publish_one_def Let_def emit_def split: option.splits)
    have h: "holds s p = dict_get (gpublished g) ((pafi p, SAFI_UNICAST), p)"
      using ok s by (simp add: sink_ok_def)
    have "holds s' p = (if p = ?p then dbest (snd kd) else holds s p)"
      using s s' best old none
      by (auto simp: publish_one_def Let_def emit_def holds_install holds_withdraw split: option.splits)
    moreover have "(pafi p, SAFI_UNICAST) = f \<and> p = ?p \<longleftrightarrow> p = ?p" using f' by auto
    ultimately show "holds s' p = dict_get (gpublished (publish_one ops f kd g)) ((pafi p, SAFI_UNICAST), p)"
      using h by (auto simp: publish_one_published)
  qed
qed

lemma publish_sink:
  "sink_ok g \<Longrightarrow> own_prefix g \<Longrightarrow> snd f = SAFI_UNICAST \<Longrightarrow>
    (\<And>k d r. (k, d) \<in> set ch \<Longrightarrow> dbest d = Some r \<Longrightarrow> rprefix r = \<lparr>pafi = fst f, pbits = k\<rparr>) \<Longrightarrow>
    sink_ok (publish ops f ch g) \<and> own_prefix (publish ops f ch g)"
proof (induction ch arbitrary: g)
  case Nil
  then show ?case by simp
next
  case (Cons kd ch)
  have "rprefix r = \<lparr>pafi = fst f, pbits = fst kd\<rparr>" if "dbest (snd kd) = Some r" for r
    using Cons.prems(4) [of "fst kd" "snd kd" r] that by simp
  then have "sink_ok (publish_one ops f kd g) \<and> own_prefix (publish_one ops f kd g)"
    by (rule publish_one_sink [OF Cons.prems(1-3)])
  then show ?case unfolding publish_Cons by (intro Cons.IH Cons.prems) (auto intro: Cons.prems(4))
qed

lemma pass_table_sink:
  assumes inv: "rib_inv g" and ok: "sink_ok g" and u: "unicast_tables g" and t: "dict_get (gtables g) f = Some t"
  shows "sink_ok (pass_table ops chunk f t g)" and "unicast_tables (pass_table ops chunk f t g)"
proof -
  obtain t' ch where r: "reselect chunk t = (t', ch)" by (cases "reselect chunk t")
  note T = tables_okD [OF rib_invD(1) [OF inv] t]
  have best: "rprefix b = \<lparr>pafi = fst f, pbits = k\<rparr>" if "(k, d) \<in> set ch" "dbest d = Some b" for k d b
  proof -
    have "dest_select (routes_of t k) = Some b" using reselect_reported(3) [OF T(1) r that(1)] that(2) by simp
    then have "b \<in> set (routes_of t k)" by (rule dest_select_best)
    then show ?thesis using table_invD(5) [OF T(1), of k] T(2)
      by (cases "find t k") (simp_all add: routes_of_def routes_ok_def)
  qed
  have f: "snd f = SAFI_UNICAST" "f \<in> dict_keys (gtables g)"
    using u map_of_SomeD [OF t] by (force simp: unicast_tables_def)+
  have "own_prefix g" using inv by (simp add: rib_inv_def own_prefix_def)
  then have "sink_ok (g\<lparr>gtables := dict_set f t' (gtables g)\<rparr>)" "own_prefix (g\<lparr>gtables := dict_set f t' (gtables g)\<rparr>)"
    using ok by (simp_all add: sink_ok_def own_prefix_def)
  from publish_sink [OF this f(1) best] show "sink_ok (pass_table ops chunk f t g)"
    by (simp add: pass_table_def r)
  show "unicast_tables (pass_table ops chunk f t g)"
    using u f by (simp add: unicast_tables_def pass_table_def)
qed

lemma select_tables_sink:
  "rib_inv g \<Longrightarrow> sink_ok g \<Longrightarrow> unicast_tables g \<Longrightarrow>
    sink_ok (fst (select_tables ops chunk fs g)) \<and> unicast_tables (fst (select_tables ops chunk fs g))"
proof (induction fs arbitrary: g)
  case Nil
  then show ?case by simp
next
  case (Cons f fs)
  show ?case
  proof (cases "\<exists>t. dict_get (gtables g) f = Some t \<and> tbl_pending t \<noteq> 0")
    case False
    then have "select_tables ops chunk (f # fs) g = select_tables ops chunk fs g"
      by (simp only: select_tables_Cons) (auto split: option.splits)
    then show ?thesis using Cons by simp
  next
    case True
    then obtain t where t: "dict_get (gtables g) f = Some t" "tbl_pending t \<noteq> 0" by blast
    have "fst (select_tables ops chunk (f # fs) g) = fst (select_tables ops chunk fs (pass_table ops chunk f t g))"
      using t by (simp only: select_tables_Cons) simp
    then show ?thesis
      using Cons.IH [OF pass_table_spec(1) [OF Cons.prems(1) t(1)] pass_table_sink [OF Cons.prems t(1)]] by simp
  qed
qed

lemma rib_step_sink:
  assumes inv: "rib_inv g" and ok: "sink_ok g" and u: "unicast_tables g" and e: "unicast_op e"
  shows "sink_ok (rib_step ops g e) \<and> unicast_tables (rib_step ops g e)"
proof (cases e)
  case (RibOffer r safi)
  then show ?thesis using ok u e
    by (auto simp: grib_offer_def ensure_table_def bind_res_def new_table_def sink_ok_def unicast_tables_def
        dest!: set_dict_set [THEN subsetD] split: sum.splits option.splits if_splits)
next
  case (RibRetract p proto source safi)
  then show ?thesis using ok u e
    by (auto simp: grib_retract_def sink_ok_def unicast_tables_def
        dest!: set_dict_set [THEN subsetD] split: option.splits prod.splits)
next
  case (RibRetractAll proto source)
  have "dict_keys (gtables (fst (retract_all proto source g))) = dict_keys (gtables g)"
    using retract_all_spec(5) [OF inv, of proto source] by (metis set_map)
  then show ?thesis using RibRetractAll ok u retract_all_spec(3,4) [OF inv, of proto source]
    by (simp add: sink_ok_def unicast_tables_def)
next
  case (RibEnsure f)
  then show ?thesis using ok u e
    by (auto simp: ensure_table_def bind_res_def new_table_def sink_ok_def unicast_tables_def
        dest!: set_dict_set [THEN subsetD] split: option.splits)
next
  case (RibSelect chunk)
  then show ?thesis using select_tables_sink [OF inv ok u] by (simp add: select_step_def)
qed

lemma rib_run_sink:
  "rib_inv g \<Longrightarrow> sink_ok g \<Longrightarrow> unicast_tables g \<Longrightarrow> list_all unicast_op es \<Longrightarrow>
    sink_ok (foldl (rib_step ops) g es)"
  by (induction es arbitrary: g) (simp_all add: rib_step_sink rib_step_spec)

end

interpretation null: fib_sink null_sink_ops "\<lambda>s. dict_get (ns_routes s)"
  by unfold_locales (simp_all add: null_sink_ops_def null_install_def null_withdraw_def dict_get_set dict_get_pop)

text \<open>The default sink is told the truth: after any run over the unicast tables it holds,
  for every prefix, exactly the route that is the best of the prefix's table.\<close>

theorem null_sink_mirrors_best:
  assumes "new_global_rib (Some new_null_sink) bus DEFAULT_AFI_SAFI = Inr g0"
    and "list_all unicast_op es"
  defines "g \<equiv> foldl (rib_step null_sink_ops) g0 es"
  assumes "gsink g = Some s"
  shows "dict_get (ns_routes s) p = winner_in (gtables g) (pafi p, SAFI_UNICAST) p"
proof -
  note N = new_global_rib_spec [OF assms(1)]
  have "null.sink_ok g0" using N(3,4) by (simp add: null.sink_ok_def new_null_sink_def)
  moreover have "unicast_tables g0" using N(5) by (auto simp: unicast_tables_def DEFAULT_AFI_SAFI_def)
  ultimately have "null.sink_ok g" unfolding g_def by (intro null.rib_run_sink N(1) assms(2))
  moreover have "rib_inv g" unfolding g_def by (rule rib_machine.run_inv [OF N(1)])
  ultimately show ?thesis using assms(4) rib_invD(2) by (simp add: null.sink_ok_def)
qed


definition sample_default_rib :: "null_sink global_rib" where
  "sample_default_rib = \<lparr>gsink = Some new_null_sink, gbus = None,
     gtables = [((1, 1), sample_table), ((2, 1), sample_table\<lparr>tafi := 2\<rparr>)],
     gpublished = [], gselected = 0, ginstalled = 0, gwithdrawn = 0\<rparr>"

lemma sample_default: "new_global_rib (Some new_null_sink) False DEFAULT_AFI_SAFI = Inr sample_default_rib"
  by (simp add: new_global_rib_def ensure_table_def DEFAULT_AFI_SAFI_def sample_default_rib_def addr_len_def
      new_table_def sample_table_def)

lemma sample_default_run:
  "gsink (foldl (rib_step null_sink_ops) sample_default_rib [RibOffer (sample_route 3 20 1) 1, RibSelect 1])
   = Some \<lparr>ns_installed = 1, ns_withdrawn = 0, ns_flushes = 0, ns_routes = [(sample_prefix, sample_route 3 20 1)],
       ns_fib = [(1, FIB_NOT_INSTALLED, 0)]\<rparr>"
  by code_simp

theorem null_sink_mirrors_best_witness:
  "winner_in (gtables (foldl (rib_step null_sink_ops) sample_default_rib
     [RibOffer (sample_route 3 20 1) 1, RibSelect 1])) (1, 1) sample_prefix = Some (sample_route 3 20 1)"
proof -
  have u: "list_all unicast_op [RibOffer (sample_route 3 20 1) 1, RibSelect 1]" by simp
  show ?thesis
    using null_sink_mirrors_best [OF sample_default u sample_default_run, of sample_prefix]
    by (simp add: sample_prefix_def)
qed

section \<open>Resolving an address\<close>

definition covers :: "nat \<Rightarrow> byte list \<Rightarrow> prefix \<Rightarrow> bool" where
  "covers afi addr p \<longleftrightarrow> pafi p = afi \<and> Sublist.prefix (pbits p) (bytes_bits addr)"

text \<open>An address resolves, with a filter, to the winner of the longest prefix that covers it
  and whose winner the filter accepts, and to nothing exactly when no such prefix is left; the
  walk over shorter and shorter covers always ends.\<close>

theorem lpm_longest_accepted:
  fixes es :: "rib_op list" and ops :: "'s sink_ops"
  assumes "new_global_rib sink bus fs = Inr g0"
  defines "g \<equiv> foldl (rib_step ops) g0 es"
  assumes "grib_lpm afi addr safi (Some ok) g = Inr res"
  shows "case res of
      Some r \<Rightarrow> \<exists>p. covers afi addr p \<and> winner_in (gtables g) (afi, safi) p = Some r \<and> ok r
        \<and> (\<forall>p' r'. covers afi addr p' \<longrightarrow> winner_in (gtables g) (afi, safi) p' = Some r' \<longrightarrow> ok r' \<longrightarrow> plen p' \<le> plen p)
    | None \<Rightarrow> (\<forall>p r. covers afi addr p \<longrightarrow> winner_in (gtables g) (afi, safi) p = Some r \<longrightarrow> \<not> ok r)"
proof (cases "dict_get (gtables g) (afi, safi)")
  case None
  then have "res = None" using assms(3) by (simp add: grib_lpm_def)
  then show ?thesis using None by (simp add: winner_in_def)
next
  case (Some t)
  have inv: "rib_inv g" unfolding g_def by (rule rib_machine.run_inv [OF new_global_rib_spec(1) [OF assms(1)]])
  note T = tables_okD [OF rib_invD(1) [OF inv] Some]
  note wf = table_invD(1) [OF T(1)]
  let ?k = "bytes_bits addr"
  let ?ok = "\<lambda>(k, d). case dbest d of None \<Rightarrow> False | Some r \<Rightarrow> ok r"
  let ?w = "cover_walk (Suc (length ?k)) (trie_lpm (ttrie t)) ?ok ?k (trie_lpm (ttrie t) ?k)"
  have res: "res = (case ?w of None \<Rightarrow> None | Some (k, d) \<Rightarrow> dbest d)"
    using assms(3) Some by (auto simp: grib_lpm_def tbl_lpm_addr_def split: if_splits)
  have W: "winner_in (gtables g) (afi, safi) p = Some r \<longleftrightarrow>
      pafi p = afi \<and> (\<exists>d. find t (pbits p) = Some d \<and> dbest d = Some r)" for p r
    using Some by (auto simp: winner_in_def best_of_def split: option.splits)
  show ?thesis
  proof (cases ?w)
    case None
    have "\<not> ok r" if c: "covers afi addr p" and v: "winner_in (gtables g) (afi, safi) p = Some r" for p r
    proof -
      obtain d where d: "find t (pbits p) = Some d" "dbest d = Some r" using v W by blast
      have "Sublist.prefix (pbits p) ?k" using c by (simp add: covers_def)
      from trie.cover_walk_None [OF wf None d(1) this] show ?thesis using d(2) by simp
    qed
    then show ?thesis using None res by auto
  next
    case (Some kd)
    then obtain q d where w: "?w = Some (q, d)" by (cases kd) auto
    note C = trie.cover_walk_Some [OF wf w]
    obtain r where r: "dbest d = Some r" "ok r" using C(3) by (auto split: option.splits)
    let ?p = "\<lparr>pafi = afi, pbits = q\<rparr>"
    have "covers afi addr ?p" "winner_in (gtables g) (afi, safi) ?p = Some r"
      using C(1,2) r(1) W [of ?p r] by (auto simp: covers_def)
    moreover have "plen p' \<le> plen ?p"
      if c: "covers afi addr p'" and v: "winner_in (gtables g) (afi, safi) p' = Some r'" and o: "ok r'" for p' r'
    proof -
      obtain d' where d': "find t (pbits p') = Some d'" "dbest d' = Some r'" using v W by blast
      have "Sublist.prefix (pbits p') ?k" using c by (simp add: covers_def)
      from C(4) [OF d'(1) this] show ?thesis using d'(2) o by (simp add: plen_def)
    qed
    moreover have "res = Some r" using res w r(1) by simp
    ultimately show ?thesis using r(2) by auto
  qed
qed

theorem lpm_longest_accepted_witness:
  "\<exists>p. covers 1 [64, 0, 0, 1] p
     \<and> winner_in (gtables (foldl (rib_step null_sink_ops) sample_rib [RibOffer (sample_route 3 20 1) 1, RibSelect 1])) (1, 1) p
       = Some (sample_route 3 20 1)"
proof -
  have "grib_lpm 1 [64, 0, 0, 1] 1 (Some (\<lambda>r. rprotocol r = 3))
      (foldl (rib_step null_sink_ops) sample_rib [RibOffer (sample_route 3 20 1) 1, RibSelect 1])
    = Inr (Some (sample_route 3 20 1))"
    by code_simp
  from lpm_longest_accepted [OF sample_new_rib this] show ?thesis by auto
qed

section \<open>Withdrawing everything a source offered\<close>

lemma retract_routes_filter:
  "distinct (map origin rs) \<Longrightarrow> retract_routes proto source rs = filter (\<lambda>r. origin r \<noteq> (proto, source)) rs"
proof (induction rs)
  case (Cons r rs)
  show ?case
  proof (cases "origin r = (proto, source)")
    case True
    then have "filter (\<lambda>r. origin r \<noteq> (proto, source)) rs = rs"
      using Cons.prems by (intro filter_True) (auto simp: image_iff)
    then show ?thesis using True by (auto simp: retract_routes_def del_nth_def)
  next
    case False
    have "retract_routes proto source (r # rs) = r # retract_routes proto source rs"
      using False by (auto simp: retract_routes_def del_nth_def split: option.splits)
    then show ?thesis using Cons False by auto
  qed
qed (simp add: retract_routes_def)

lemma candidates_distinct:
  assumes "rib_inv g" shows "distinct (map origin (candidates (gtables g) f k))"
proof (cases "dict_get (gtables g) f")
  case (Some t)
  note T = tables_okD(1) [OF rib_invD(1) [OF assms] Some]
  show ?thesis using Some table_invD(5) [OF T, of k]
    by (auto simp: candidates_def routes_of_def routes_ok_def split: option.splits)
qed (simp add: candidates_def)

text \<open>Withdrawing a source misses nothing and touches nothing else: in every table and for
  every prefix the candidates afterwards are those before, in order, less the ones with that
  protocol and source; nothing is published by it.\<close>

theorem retract_all_complete:
  fixes es :: "rib_op list" and ops :: "'s sink_ops"
  assumes "new_global_rib sink bus fs = Inr g0"
  defines "g \<equiv> foldl (rib_step ops) g0 es"
  shows "candidates (gtables (fst (retract_all proto source g))) f k =
      filter (\<lambda>r. origin r \<noteq> (proto, source)) (candidates (gtables g) f k)
    \<and> gpublished (fst (retract_all proto source g)) = gpublished g"
proof (rule conjI)
  have inv: "rib_inv g" unfolding g_def by (rule rib_machine.run_inv [OF new_global_rib_spec(1) [OF assms(1)]])
  show "candidates (gtables (fst (retract_all proto source g))) f k =
      filter (\<lambda>r. origin r \<noteq> (proto, source)) (candidates (gtables g) f k)"
    by (simp add: retract_all_spec(2) [OF inv] retract_routes_filter [OF candidates_distinct [OF inv]])
  show "gpublished (fst (retract_all proto source g)) = gpublished g" by (rule retract_all_spec(4) [OF inv])
qed

theorem retract_all_complete_witness:
  "candidates (gtables (fst (retract_all 3 0 (foldl (rib_step null_sink_ops) sample_rib
     [RibOffer (sample_route 3 20 1) 1, RibOffer (sample_route 2 1 2) 1])))) (1, 1) [False, True]
   = [sample_route 2 1 2]"
proof -
  have "candidates (gtables (foldl (rib_step null_sink_ops) sample_rib
     [RibOffer (sample_route 3 20 1) 1, RibOffer (sample_route 2 1 2) 1])) (1, 1) [False, True]
   = [sample_route 3 20 1, sample_route 2 1 2]"
    by code_simp
  then show ?thesis
    unfolding retract_all_complete [OF sample_new_rib, THEN conjunct1] by (simp add: sample_route_def)
qed


section \<open>Pages of a listing\<close>

definition named :: "nat \<Rightarrow> (key \<times> dest) list \<Rightarrow> (prefix \<times> dest) list" where
  "named afi kds = map (\<lambda>(k, d). (\<lparr>pafi = afi, pbits = k\<rparr>, d)) kds"

definition winners :: "nat \<Rightarrow> nat \<Rightarrow> 's global_rib \<Rightarrow> (prefix \<times> dest) list" where
  "winners afi safi g =
    (case dict_get (gtables g) (afi, safi) of
       None \<Rightarrow> []
     | Some t \<Rightarrow> filter (\<lambda>(p, d). dbest d \<noteq> None) (named afi (trie_items (ttrie t))))"

definition follows :: "prefix option \<Rightarrow> prefix \<Rightarrow> bool" where
  "follows after p \<longleftrightarrow> (case after of None \<Rightarrow> True | Some a \<Rightarrow> pfx_cmp p a > 0)"

definition shown :: "nat \<Rightarrow> prefix option \<Rightarrow> (key \<times> dest) list \<Rightarrow> (prefix \<times> dest) list" where
  "shown afi after kds = filter (\<lambda>(p, d). dbest d \<noteq> None \<and> follows after p) (named afi kds)"

lemma shown_Nil: "shown afi after [] = []"
  by (simp add: shown_def named_def)

lemma shown_Cons: "shown afi after ((k, d) # kds) =
    (if dbest d \<noteq> None \<and> follows after \<lparr>pafi = afi, pbits = k\<rparr>
     then (\<lparr>pafi = afi, pbits = k\<rparr>, d) # shown afi after kds else shown afi after kds)"
  by (simp add: shown_def named_def)

lemma page_loop_Cons: "page_loop afi limit after ((k, d) # kds) items prev =
    (if \<not> (dbest d \<noteq> None \<and> follows after \<lparr>pafi = afi, pbits = k\<rparr>) then page_loop afi limit after kds items prev
     else if limit \<noteq> 0 \<and> length items \<ge> limit then (items, prev)
     else page_loop afi limit after kds (items @ [(\<lparr>pafi = afi, pbits = k\<rparr>, d)]) (Some \<lparr>pafi = afi, pbits = k\<rparr>))"
  by (auto simp: follows_def Let_def split: option.splits)

lemma page_loop_spec:
  "(limit \<noteq> 0 \<Longrightarrow> length items \<le> limit) \<Longrightarrow> (items \<noteq> [] \<Longrightarrow> prev = Some (fst (last items))) \<Longrightarrow>
    page_loop afi limit after kds items prev =
    (let all = items @ shown afi after kds
     in if limit \<noteq> 0 \<and> length all > limit then (take limit all, Some (fst (last (take limit all)))) else (all, None))"
proof (induction kds arbitrary: items prev)
  case Nil
  then show ?case by (auto simp: shown_Nil)
next
  case (Cons kd kds)
  obtain k d where kd: "kd = (k, d)" by (cases kd)
  let ?p = "\<lparr>pafi = afi, pbits = k\<rparr>"
  show ?case
  proof (cases "dbest d \<noteq> None \<and> follows after ?p")
    case False
    then show ?thesis unfolding kd page_loop_Cons shown_Cons
      using Cons.IH [OF Cons.prems] by (simp only: if_False if_True not_False_eq_True)
  next
    case take: True
    show ?thesis
    proof (cases "limit \<noteq> 0 \<and> length items \<ge> limit")
      case True
      then have "length items = limit" "items \<noteq> []" using Cons.prems(1) by auto
      then show ?thesis unfolding kd page_loop_Cons shown_Cons
        using take True Cons.prems(2) by (simp add: Let_def)
    next
      case False
      have "page_loop afi limit after kds (items @ [(?p, d)]) (Some ?p) =
        (let all = (items @ [(?p, d)]) @ shown afi after kds
         in if limit \<noteq> 0 \<and> length all > limit then (take limit all, Some (fst (last (take limit all)))) else (all, None))"
        by (rule Cons.IH) (use False in auto)
      then show ?thesis unfolding kd page_loop_Cons shown_Cons
        using take False by (simp only: append_assoc append_Cons append_Nil if_True if_False not_True_eq_False) simp
    qed
  qed
qed

lemma as_dict_page:
  "as_dict afi safi limit after g =
    (let ws = filter (\<lambda>(p, d). follows after p) (winners afi safi g)
     in if limit \<noteq> 0 \<and> length ws > limit then (take limit ws, Some (fst (last (take limit ws)))) else (ws, None))"
proof (cases "dict_get (gtables g) (afi, safi)")
  case None
  then show ?thesis by (simp add: as_dict_def winners_def)
next
  case (Some t)
  have "filter (\<lambda>(p, d). follows after p) (winners afi safi g) = shown afi after (trie_items (ttrie t))"
    using Some by (auto simp: winners_def shown_def intro!: filter_cong)
  then show ?thesis using Some page_loop_spec [of limit "[]" None afi after "trie_items (ttrie t)"]
    by (simp add: as_dict_def)
qed

definition cmp_less :: "prefix \<times> dest \<Rightarrow> prefix \<times> dest \<Rightarrow> bool" where
  "cmp_less a b \<longleftrightarrow> pafi (fst a) = pafi (fst b) \<and> pfx_cmp (fst b) (fst a) > 0"

lemma cmp_less_key: "cmp_less a b \<longleftrightarrow> pafi (fst a) = pafi (fst b) \<and> pbits (fst a) < pbits (fst b)"
  using pfx_cmp_order [of "fst b" "fst a"] by (auto simp: cmp_less_def split: if_splits)

lemma winners_sorted:
  assumes "rib_inv g"
  shows "sorted_wrt cmp_less (winners afi safi g)"
proof (cases "dict_get (gtables g) (afi, safi)")
  case (Some t)
  have "sorted_wrt cmp_less (named afi kds)" if "sorted_wrt (<) (map fst kds)" for kds
    using that by (induction kds) (auto simp: named_def cmp_less_key)
  then have "sorted_wrt cmp_less (filter P (named afi kds))" if "sorted_wrt (<) (map fst kds)" for P kds
    using that by (intro sorted_wrt_filter) blast
  then show ?thesis
    using Some items_sorted [OF table_invD(1) [OF tables_okD(1) [OF rib_invD(1) [OF assms] Some]]]
    by (simp add: winners_def)
qed (simp add: winners_def)

lemma page_rest:
  assumes "sorted_wrt cmp_less ws" and "n < length ws"
  shows "filter (\<lambda>(p, d). follows (Some (fst (ws ! n))) p) ws = drop (Suc n) ws"
proof -
  have ws: "ws = take n ws @ ws ! n # drop (Suc n) ws" using assms(2) by (rule id_take_nth_drop)
  have sorted: "sorted_wrt cmp_less (take n ws @ ws ! n # drop (Suc n) ws)" using assms(1) ws by simp
  have later: "follows (Some (fst (ws ! n))) (fst x)" if "x \<in> set (drop (Suc n) ws)" for x
    using sorted that by (auto simp: sorted_wrt_append follows_def cmp_less_def)
  have earlier: "\<not> follows (Some (fst (ws ! n))) (fst x)" if x: "x \<in> set (take n ws) \<or> x = ws ! n" for x
  proof -
    have "x = ws ! n \<or> cmp_less x (ws ! n)" using sorted x by (auto simp: sorted_wrt_append)
    then show ?thesis using pfx_cmp_order [of "fst x" "fst (ws ! n)"] less_asym
      by (auto simp: cmp_less_key follows_def)
  qed
  have "filter (\<lambda>(p, d). follows (Some (fst (ws ! n))) p) (take n ws @ ws ! n # drop (Suc n) ws) = drop (Suc n) ws"
    using later earlier by (auto simp: case_prod_beta filter_empty_conv intro!: filter_True)
  then show ?thesis using ws by simp
qed

text \<open>A client that asks for page after page, passing back the \<open>next\<close> it was given; the bound on
  the number of requests is the number of entries.\<close>

fun all_pages :: "nat \<Rightarrow> nat \<Rightarrow> nat \<Rightarrow> nat \<Rightarrow> prefix option \<Rightarrow> 's global_rib \<Rightarrow> (prefix \<times> dest) list" where
  "all_pages 0 afi safi limit after g = []"
| "all_pages (Suc n) afi safi limit after g =
     (case as_dict afi safi limit after g of
        (items, None) \<Rightarrow> items
      | (items, Some p) \<Rightarrow> items @ all_pages n afi safi limit (Some p) g)"

lemma all_pages_from:
  assumes inv: "rib_inv g" and limit: "limit \<noteq> 0"
    and rest: "filter (\<lambda>(p, d). follows after p) (winners afi safi g) = drop m (winners afi safi g)"
    and n: "length (winners afi safi g) - m < n"
  shows "all_pages n afi safi limit after g = drop m (winners afi safi g)"
  using rest n
proof (induction n arbitrary: after m)
  case 0
  then show ?case by simp
next
  case (Suc n)
  let ?ws = "winners afi safi g"
  show ?case
  proof (cases "length (drop m ?ws) > limit")
    case False
    then show ?thesis using Suc.prems(1) by (simp add: as_dict_page)
  next
    case True
    let ?n = "m + limit - 1"
    have len: "?n < length ?ws" using True by simp
    have "last (take limit (drop m ?ws)) = drop m ?ws ! (limit - 1)"
      using True limit by (simp add: last_conv_nth)
    then have l: "last (take limit (drop m ?ws)) = ?ws ! ?n"
      using limit True by (simp add: add.commute)
    have "filter (\<lambda>(p, d). follows (Some (fst (?ws ! ?n))) p) ?ws = drop (m + limit) ?ws"
      using page_rest [OF winners_sorted [OF inv] len] limit by simp
    from Suc.IH [OF this]
    have "all_pages n afi safi limit (Some (fst (?ws ! ?n))) g = drop (m + limit) ?ws"
      using Suc.prems(2) limit True by simp
    moreover have "take limit (drop m ?ws) @ drop (m + limit) ?ws = drop m ?ws"
      by (metis add.commute append_take_drop_id drop_drop)
    ultimately show ?thesis using Suc.prems(1) True limit l by (simp add: as_dict_page)
  qed
qed

text \<open>Following the pages of a listing, of any size, gives the whole table: every prefix that
  has a winner once, in ascending order, and none twice.\<close>

theorem pages_join_to_table:
  fixes es :: "rib_op list" and ops :: "'s sink_ops"
  assumes "new_global_rib sink bus fs = Inr g0"
  defines "g \<equiv> foldl (rib_step ops) g0 es"
  assumes "0 < limit"
  shows "all_pages (Suc (length (winners afi safi g))) afi safi limit None g = winners afi safi g
    \<and> sorted_wrt cmp_less (winners afi safi g)"
proof (rule conjI)
  have inv: "rib_inv g" unfolding g_def by (rule rib_machine.run_inv [OF new_global_rib_spec(1) [OF assms(1)]])
  show "all_pages (Suc (length (winners afi safi g))) afi safi limit None g = winners afi safi g"
    using all_pages_from [OF inv, of limit None afi safi 0 "Suc (length (winners afi safi g))"] assms(3)
    by (simp add: follows_def case_prod_beta)
  show "sorted_wrt cmp_less (winners afi safi g)" by (rule winners_sorted [OF inv])
qed

theorem pages_join_to_table_witness:
  "let g = foldl (rib_step null_sink_ops) sample_rib [RibOffer (sample_route 3 20 1) 1, RibSelect 1]
   in all_pages (Suc (length (winners 1 1 g))) 1 1 1 None g = winners 1 1 g"
  using pages_join_to_table [OF sample_new_rib, of 1, THEN conjunct1] by (simp only: Let_def)

end
