(* ===== verification/AddrText.thy ===== *)
theory AddrText
  imports PrefixTrie
begin

text \<open>
  \<open>parse_prefix\<close> of \<open>rib/prefix.pyx\<close> and the packed form of a prefix. The C library's
  \<open>inet_pton\<close> is the parameter \<open>pton\<close>: family and text to packed bytes, or nothing when the
  text is no address.
\<close>

section \<open>Parsing\<close>

type_synonym pton = "nat \<Rightarrow> string \<Rightarrow> byte list option"

fun partition_at :: "char \<Rightarrow> string \<Rightarrow> string \<times> string option" where
  \<comment> \<open>\<open>str.partition\<close>: the text before the first separator and the text after it\<close>
  "partition_at c [] = ([], None)"
| "partition_at c (x # xs) =
     (if x = c then ([], Some xs) else (case partition_at c xs of (a, b) \<Rightarrow> (x # a, b)))"

definition is_digit :: "char \<Rightarrow> bool" where
  "is_digit c \<longleftrightarrow> 48 \<le> (of_char c :: nat) \<and> (of_char c :: nat) \<le> 57"

definition parse_prefix :: "pton \<Rightarrow> string \<Rightarrow> prefix result" where
  "parse_prefix pton text =
    (case partition_at CHR ''/'' text of (addr_text, plen_text) \<Rightarrow>
       let afi = (if CHR '':'' \<in> set addr_text then AFI_IP6 else AFI_IP) in
       case pton afi addr_text of
         None \<Rightarrow> Inl (ValueError ''not a valid address'')
       | Some packed \<Rightarrow>
           (case plen_text of
              None \<Rightarrow> new_prefix afi (addr_bits afi) packed
            | Some digits \<Rightarrow>
                if digits = [] \<or> \<not> list_all is_digit digits then Inl (ValueError ''prefix length must be digits'')
                else if digits_val digits > addr_bits afi then Inl (ValueError ''prefix length out of range'')
                else new_prefix afi (digits_val digits) packed))"

definition is_host :: "prefix \<Rightarrow> bool" where
  "is_host p \<longleftrightarrow> plen p = addr_bits (pafi p)"

fun bits_bytes :: "nat \<Rightarrow> bool list \<Rightarrow> byte list" where
  "bits_bytes 0 bs = []"
| "bits_bytes (Suc n) bs = word_of_int (horner_sum of_bool 2 (rev (take 8 bs))) # bits_bytes n (drop 8 bs)"

definition packed :: "prefix \<Rightarrow> byte list" where
  "packed p = bits_bytes (addr_len (pafi p)) (packed_bits p)"

end
