(* ===== verification/Resolver.thy ===== *)
theory Resolver
  imports GlobalRibProps AddrText "HOL-Library.Multiset"
begin

text \<open>
  \<open>rib/resolver.py\<close>: static and imported entries in tables of their own, the ordered lookup
  (static, kernel, engine), and the recursion through engine routes.
\<close>

section \<open>Next hops and prefixes as arguments\<close>

datatype nexthop_arg = NH_None | NH_Bytes "byte list" | NH_Text string

definition pack_nexthop :: "pton \<Rightarrow> nexthop_arg \<Rightarrow> byte list result" where
  "pack_nexthop pton nh =
    (case nh of
       NH_None \<Rightarrow> Inr []
     | NH_Bytes b \<Rightarrow>
         if b = [] then Inr []
         else if length b \<noteq> 4 \<and> length b \<noteq> 16
         then Inl (ValueError ''a packed next-hop must be 4 or 16 bytes'') else Inr b
     | NH_Text s \<Rightarrow>
         if s = [] then Inr []
         else bind_res (parse_prefix pton s) (\<lambda>p.
           if \<not> is_host p then Inl (ValueError ''a next-hop must be a bare address, not a prefix'')
           else Inr (packed p)))"

section \<open>State\<close>

datatype source = SRC_STATIC | SRC_KERNEL | SRC_RIB

record resolution =
  res_prefix :: prefix
  res_nexthop :: "byte list"
  res_metric :: nat
  res_source :: source

type_synonym static_row = "prefix \<times> byte list \<times> int \<times> int"

text \<open>\<open>rs_signature\<close> is the sorted list of the loaded rows in the code, compared for equality
  only; two sorted lists are equal when they are the same multiset.\<close>

record resolver =
  rs_enabled :: bool
  rs_use_rib :: bool
  rs_kernel_import :: bool
  rs_via_default :: bool
  rs_generation :: nat
  rs_signature :: "static_row multiset option"
  rs_static :: "(nat, rtable) pydict"
  rs_kernel :: "(nat, rtable) pydict"
  rs_source :: nat
  rs_kernel_source :: nat
  rs_lookups :: nat
  rs_hits :: nat
  rs_kernel_loads :: nat
  rs_kernel_imported :: nat
  rs_kernel_skipped :: nat
  rs_kernel_errors :: nat
  rs_kernel_last_error :: "string option"
  rs_source_hits :: "(source, nat) pydict"
  rs_recursion_failures :: nat

definition fresh_table :: "nat \<Rightarrow> rtable" where
  "fresh_table afi = \<lparr>tafi = afi, tsafi = SAFI_UNICAST, ttrie = Leaf, tcount = 0, tversion = 0,
     tqueue = [], tqhead = 0, trversion = []\<rparr>"

definition fresh_tables :: "(nat, rtable) pydict" where
  "fresh_tables = [(AFI_IP, fresh_table AFI_IP), (AFI_IP6, fresh_table AFI_IP6)]"

definition new_resolver :: "bool \<Rightarrow> bool \<Rightarrow> bool \<Rightarrow> bool \<Rightarrow> nat \<Rightarrow> nat \<Rightarrow> resolver" where
  \<comment> \<open>each of the three knobs moves \<open>generation\<close> when the constructor first sets it\<close>
  "new_resolver enabled use_rib kernel_import via_default self_id ksource_id =
    \<lparr>rs_enabled = enabled, rs_use_rib = use_rib, rs_kernel_import = kernel_import, rs_via_default = via_default,
     rs_generation = 3, rs_signature = None, rs_static = fresh_tables, rs_kernel = fresh_tables,
     rs_source = self_id, rs_kernel_source = ksource_id, rs_lookups = 0, rs_hits = 0, rs_kernel_loads = 0,
     rs_kernel_imported = 0, rs_kernel_skipped = 0, rs_kernel_errors = 0, rs_kernel_last_error = None,
     rs_source_hits = [(SRC_STATIC, 0), (SRC_KERNEL, 0), (SRC_RIB, 0)], rs_recursion_failures = 0\<rparr>"

definition bump_generation :: "resolver \<Rightarrow> resolver" where
  "bump_generation s = s\<lparr>rs_generation := rs_generation s + 1\<rparr>"

definition set_enabled :: "bool \<Rightarrow> resolver \<Rightarrow> resolver" where
  "set_enabled b s = (if rs_enabled s \<noteq> b then bump_generation (s\<lparr>rs_enabled := b\<rparr>) else s)"

definition set_kernel_import :: "bool \<Rightarrow> resolver \<Rightarrow> resolver" where
  "set_kernel_import b s = (if rs_kernel_import s \<noteq> b then bump_generation (s\<lparr>rs_kernel_import := b\<rparr>) else s)"

definition set_via_default :: "bool \<Rightarrow> resolver \<Rightarrow> resolver" where
  "set_via_default b s = (if rs_via_default s \<noteq> b then bump_generation (s\<lparr>rs_via_default := b\<rparr>) else s)"

section \<open>Static entries\<close>

datatype prefix_arg = P_Prefix prefix | P_Text string

definition prefix_of_arg :: "pton \<Rightarrow> prefix_arg \<Rightarrow> prefix result" where
  "prefix_of_arg pton a = (case a of P_Prefix p \<Rightarrow> Inr p | P_Text s \<Rightarrow> parse_prefix pton s)"

text \<open>New route objects are numbered from \<open>oid\<close>; \<open>clk oid\<close> is the clock when object \<open>oid\<close> is made.\<close>

definition add_static :: "pton \<Rightarrow> (nat \<Rightarrow> time) \<Rightarrow> nat \<Rightarrow> prefix_arg \<Rightarrow> nexthop_arg \<Rightarrow> int \<Rightarrow> int \<Rightarrow> resolver \<Rightarrow>
    resolver \<times> route result" where
  "add_static pton clk oid arg nexthop distance metric s =
    (case prefix_of_arg pton arg of
       Inl e \<Rightarrow> (s, Inl e)
     | Inr p \<Rightarrow>
         (case pack_nexthop pton nexthop of
            Inl e \<Rightarrow> (s, Inl e)
          | Inr nh \<Rightarrow>
              (case dict_get (rs_static s) (pafi p) of
                 None \<Rightarrow> (s, Inl (ValueError ''unsupported address family number''))
               | Some t \<Rightarrow>
                   (case new_route p PROTO_STATIC distance metric nh (rs_source s) (clk oid) oid of
                      Inl e \<Rightarrow> (s, Inl e)
                    | Inr r \<Rightarrow>
                        (case tbl_offer r t of
                           Inl e \<Rightarrow> (s, Inl e)
                         | Inr (t', n) \<Rightarrow>
                             (bump_generation (s\<lparr>rs_static := dict_set (pafi p) (fst (reselect 0 t')) (rs_static s),
                                rs_signature := None\<rparr>), Inr r))))))"

definition remove_static :: "pton \<Rightarrow> prefix_arg \<Rightarrow> resolver \<Rightarrow> resolver \<times> bool result" where
  "remove_static pton arg s =
    (case prefix_of_arg pton arg of
       Inl e \<Rightarrow> (s, Inl e)
     | Inr p \<Rightarrow>
         (case dict_get (rs_static s) (pafi p) of
            None \<Rightarrow> (s, Inr False)
          | Some t \<Rightarrow>
              (case tbl_retract p PROTO_STATIC (rs_source s) t of (t1, n) \<Rightarrow>
                 let s1 = s\<lparr>rs_static := dict_set (pafi p) (fst (reselect 0 t1)) (rs_static s)\<rparr>
                 in (if n \<noteq> 0 then bump_generation (s1\<lparr>rs_signature := None\<rparr>) else s1, Inr (n \<noteq> 0)))))"

record static_body =
  sb_next_hop :: nexthop_arg
  sb_distance :: "int option"
  sb_metric :: "int option"

definition empty_body :: static_body where
  "empty_body = \<lparr>sb_next_hop = NH_None, sb_distance = None, sb_metric = None\<rparr>"

fun parse_entries :: "pton \<Rightarrow> (string \<times> static_body option) list \<Rightarrow> static_row list result" where
  "parse_entries pton [] = Inr []"
| "parse_entries pton ((text, body) # es) =
     bind_res (parse_prefix pton text) (\<lambda>p.
       let b = get_default body empty_body in
       bind_res (pack_nexthop pton (sb_next_hop b)) (\<lambda>nh.
         bind_res (parse_entries pton es) (\<lambda>rows.
           Inr ((p, nh, get_default (sb_distance b) 1, get_default (sb_metric b) 0) # rows))))"

fun offer_rows :: "(nat \<Rightarrow> time) \<Rightarrow> nat \<Rightarrow> nat \<Rightarrow> nat \<Rightarrow> static_row list \<Rightarrow> (nat, rtable) pydict \<Rightarrow>
    (nat, rtable) pydict \<times> py_error option" where
  "offer_rows clk proto source oid [] ts = (ts, None)"
| "offer_rows clk proto source oid ((p, nh, distance, metric) # rows) ts =
     (case dict_get ts (pafi p) of
        None \<Rightarrow> (ts, Some (ValueError ''unsupported address family number''))
      | Some t \<Rightarrow>
          (case new_route p proto distance metric nh source (clk oid) oid of
             Inl e \<Rightarrow> (ts, Some e)
           | Inr r \<Rightarrow>
               (case tbl_offer r t of
                  Inl e \<Rightarrow> (ts, Some e)
                | Inr (t', n) \<Rightarrow>
                    offer_rows clk proto source (oid + 1) rows (dict_set (pafi p) t' ts))))"

definition reselect_all :: "(nat, rtable) pydict \<Rightarrow> (nat, rtable) pydict" where
  "reselect_all ts = map (\<lambda>(a, t). (a, fst (reselect 0 t))) ts"

definition load_static :: "pton \<Rightarrow> (nat \<Rightarrow> time) \<Rightarrow> nat \<Rightarrow> (string \<times> static_body option) list \<Rightarrow> resolver \<Rightarrow>
    resolver \<times> nat result" where
  "load_static pton clk oid entries s =
    (case parse_entries pton entries of
       Inl e \<Rightarrow> (s, Inl e)
     | Inr rows \<Rightarrow>
         (case offer_rows clk PROTO_STATIC (rs_source s) oid rows fresh_tables of
            (ts, Some e) \<Rightarrow> (s\<lparr>rs_static := ts\<rparr>, Inl e)
          | (ts, None) \<Rightarrow>
              let s1 = s\<lparr>rs_static := reselect_all ts\<rparr>;
                  sig = Some (mset rows)
              in (if sig \<noteq> rs_signature s1 then bump_generation (s1\<lparr>rs_signature := sig\<rparr>) else s1,
                  Inr (length rows))))"

definition winning :: "(nat, rtable) pydict \<Rightarrow> nat \<Rightarrow> route list" where
  "winning ts afi =
    (case dict_get ts afi of
       None \<Rightarrow> []
     | Some t \<Rightarrow> List.map_filter (\<lambda>(k, d). dbest d) (trie_items (ttrie t)))"

definition statics :: "nat \<Rightarrow> resolver \<Rightarrow> route list" where
  "statics afi s = winning (rs_static s) afi"

definition kernels :: "nat \<Rightarrow> resolver \<Rightarrow> route list" where
  "kernels afi s = winning (rs_kernel s) afi"

section \<open>Lookup\<close>

definition usable_dest :: "bool \<Rightarrow> key \<times> dest \<Rightarrow> bool" where
  "usable_dest via_default kd \<longleftrightarrow> dbest (snd kd) \<noteq> None \<and> (length (fst kd) \<noteq> 0 \<or> via_default)"

definition covering :: "bool \<Rightarrow> rtable \<Rightarrow> byte list \<Rightarrow> nat option \<Rightarrow> (key \<times> dest) option result" where
  "covering via_default t addr len =
    (let bits = bytes_bits addr;
         walk = cover_walk (Suc (length bits)) (trie_lpm (ttrie t)) (usable_dest via_default) bits
     in case len of
          None \<Rightarrow> bind_res (tbl_lpm_addr t addr) (\<lambda>dest. Inr (walk dest))
        | Some n \<Rightarrow> bind_res (new_prefix (tafi t) n addr) (\<lambda>p. Inr (walk (tbl_lpm t p))))"

definition covered_by_static :: "prefix \<Rightarrow> resolver \<Rightarrow> bool result" where
  "covered_by_static p s =
    (case dict_get (rs_static s) (pafi p) of
       None \<Rightarrow> Inr False
     | Some t \<Rightarrow> bind_res (covering (rs_via_default s) t (packed p) (Some (plen p))) (\<lambda>d. Inr (d \<noteq> None)))"

definition table_step1 :: "source \<Rightarrow> (nat, rtable) pydict \<Rightarrow> bool \<Rightarrow> nat \<Rightarrow> byte list \<Rightarrow>
    (source \<times> prefix \<times> route) option result" where
  "table_step1 src ts via_default afi addr =
    (case dict_get ts afi of
       None \<Rightarrow> Inr None
     | Some t \<Rightarrow> bind_res (covering via_default t addr None) (\<lambda>found. Inr
         (case found of
            None \<Rightarrow> None
          | Some (k, d) \<Rightarrow> map_option (\<lambda>r. (src, \<lparr>pafi = afi, pbits = k\<rparr>, r)) (dbest d))))"

definition usable_route :: "bool \<Rightarrow> nat option \<Rightarrow> route \<Rightarrow> bool" where
  "usable_route via_default protocol r \<longleftrightarrow>
    (if protocol \<noteq> None \<and> rprotocol r = the protocol then False
     else plen (rprefix r) > 0 \<or> via_default)"

definition lookup_step :: "resolver \<Rightarrow> 's global_rib option \<Rightarrow> nat \<Rightarrow> byte list \<Rightarrow> nat option \<Rightarrow>
    (source \<times> prefix \<times> route) option result" where
  "lookup_step s rib afi addr protocol =
    bind_res (table_step1 SRC_STATIC (rs_static s) (rs_via_default s) afi addr) (\<lambda>a.
      if a \<noteq> None then Inr a
      else bind_res (table_step1 SRC_KERNEL (rs_kernel s) (rs_via_default s) afi addr) (\<lambda>b.
        if b \<noteq> None then Inr b
        else if \<not> rs_use_rib s then Inr None
        else (case rib of
                None \<Rightarrow> Inr None
              | Some g \<Rightarrow>
                  bind_res (grib_lpm afi addr SAFI_UNICAST (Some (usable_route (rs_via_default s) protocol)) g)
                    (\<lambda>r. Inr (map_option (\<lambda>r. (SRC_RIB, rprefix r, r)) r)))))"

abbreviation (input) "MAX_DEPTH \<equiv> 4 :: nat"

definition nexthop_afi :: "byte list \<Rightarrow> nat" where
  "nexthop_afi nh = (if length nh = 4 then AFI_IP else AFI_IP6)"

text \<open>The answer, and how many lookups were refused for a loop or for depth (0 or 1).\<close>

function resolve_from :: "resolver \<Rightarrow> 's global_rib option \<Rightarrow> nat \<Rightarrow> byte list \<Rightarrow> nat option \<Rightarrow> nat \<Rightarrow>
    (nat \<times> prefix) list \<Rightarrow> resolution option result \<times> nat" where
  "resolve_from s rib afi addr protocol depth seen =
    (case lookup_step s rib afi addr protocol of
       Inl e \<Rightarrow> (Inl e, 0)
     | Inr None \<Rightarrow> (Inr None, 0)
     | Inr (Some (src, p, r)) \<Rightarrow>
         let answer = \<lparr>res_prefix = p, res_nexthop = rnexthop r, res_metric = rmetric r, res_source = src\<rparr> in
         if src = SRC_RIB \<and> rnexthop r \<noteq> [] then
           (if (afi, p) \<in> set seen \<or> depth \<ge> MAX_DEPTH then (Inr None, 1)
            else (case resolve_from s rib (nexthop_afi (rnexthop r)) (rnexthop r) protocol (depth + 1) ((afi, p) # seen) of
                    (Inl e, n) \<Rightarrow> (Inl e, n)
                  | (Inr None, n) \<Rightarrow> (Inr None, n)
                  | (Inr (Some _), n) \<Rightarrow> (Inr (Some answer), n)))
         else (Inr (Some answer), 0))"
  by pat_completeness auto
termination by (relation "measure (\<lambda>(s, rib, afi, addr, protocol, depth, seen). MAX_DEPTH - depth)") auto

declare resolve_from.simps [simp del]

definition resolve :: "'s global_rib option \<Rightarrow> nat \<Rightarrow> byte list \<Rightarrow> nat option \<Rightarrow> resolver \<Rightarrow>
    resolver \<times> resolution option result" where
  "resolve rib afi addr protocol s =
    (if addr_len afi = 0 then (s, Inl (ValueError ''unsupported address family number''))
     else if length addr \<noteq> addr_len afi then (s, Inl (ValueError ''wrong address width''))
     else
       let s1 = s\<lparr>rs_lookups := rs_lookups s + 1\<rparr> in
       case resolve_from s rib afi addr protocol 0 [] of (found, failures) \<Rightarrow>
         let s2 = s1\<lparr>rs_recursion_failures := rs_recursion_failures s1 + failures\<rparr> in
         case found of
           Inr (Some a) \<Rightarrow>
             (s2\<lparr>rs_hits := rs_hits s2 + 1, rs_source_hits := dict_incr (res_source a) (rs_source_hits s2)\<rparr>, found)
         | _ \<Rightarrow> (s2, found))"

definition reachable :: "'s global_rib option \<Rightarrow> nat \<Rightarrow> byte list \<Rightarrow> nat option \<Rightarrow> resolver \<Rightarrow>
    resolver \<times> bool result" where
  "reachable rib afi addr protocol s =
    (if \<not> rs_enabled s then (s, Inr True)
     else (case resolve rib afi addr protocol s of
             (s', Inl e) \<Rightarrow> (s', Inl e)
           | (s', Inr found) \<Rightarrow> (s', Inr (found \<noteq> None))))"

definition igp_metric :: "'s global_rib option \<Rightarrow> nat \<Rightarrow> byte list \<Rightarrow> nat option \<Rightarrow> resolver \<Rightarrow>
    resolver \<times> nat result" where
  "igp_metric rib afi addr protocol s =
    (if \<not> rs_enabled s then (s, Inr 0)
     else (case resolve rib afi addr protocol s of
             (s', Inl e) \<Rightarrow> (s', Inl e)
           | (s', Inr None) \<Rightarrow> (s', Inr 0)
           | (s', Inr (Some a)) \<Rightarrow> (s', Inr (res_metric a))))"

section \<open>The kernel import\<close>

record kernel_route =
  kr_prefix :: "prefix option"
  kr_gateway :: "byte list option"
  kr_priority :: int

fun import_rows :: "kernel_route list \<Rightarrow> resolver \<Rightarrow> (static_row list \<times> nat) result" where
  "import_rows [] s = Inr ([], 0)"
| "import_rows (kr # krs) s =
     (case kr_prefix kr of
        None \<Rightarrow> import_rows krs s
      | Some p \<Rightarrow>
          if pafi p \<notin> dict_keys (rs_kernel s) then import_rows krs s
          else bind_res (covered_by_static p s) (\<lambda>shadowed.
            bind_res (import_rows krs s) (\<lambda>(rows, skipped).
              Inr ((p, get_default (kr_gateway kr) [], 255, kr_priority kr) # rows,
                   skipped + (if shadowed then 1 else 0)))))"

text \<open>\<open>dump\<close> is what the netlink dump of \<open>fib/netlink.py\<close> gave: the routes, or the text of the
  exception that it raised (an \<open>OSError\<close>, passed on to the caller).\<close>

definition load_kernel :: "(nat \<Rightarrow> time) \<Rightarrow> nat \<Rightarrow> string + kernel_route list \<Rightarrow> resolver \<Rightarrow>
    resolver \<times> (string + nat result)" where
  "load_kernel clk oid dump s =
    (if \<not> rs_kernel_import s
     then (s, Inr (Inl (RuntimeError ''ip.route.kernel-import is not enabled on this resolver'')))
     else (case dump of
        Inl exc \<Rightarrow> (s\<lparr>rs_kernel_errors := rs_kernel_errors s + 1, rs_kernel_last_error := Some exc\<rparr>, Inl exc)
      | Inr krs \<Rightarrow>
          (case import_rows krs s of
             Inl e \<Rightarrow> (s, Inr (Inl e))
           | Inr (rows, skipped) \<Rightarrow>
               (case offer_rows clk PROTO_UNSPEC (rs_kernel_source s) oid rows fresh_tables of
                  (ts, Some e) \<Rightarrow> (s\<lparr>rs_kernel := ts\<rparr>, Inr (Inl e))
                | (ts, None) \<Rightarrow>
                    (bump_generation (s\<lparr>rs_kernel := reselect_all ts, rs_kernel_loads := rs_kernel_loads s + 1,
                       rs_kernel_imported := length rows, rs_kernel_skipped := skipped,
                       rs_kernel_last_error := None\<rparr>),
                     Inr (Inr (length rows)))))))"

definition clear_kernel :: "resolver \<Rightarrow> resolver \<times> nat" where
  "clear_kernel s =
    (let dropped = sum_list (map (\<lambda>(a, t). tcount t) (rs_kernel s));
         s1 = s\<lparr>rs_kernel := fresh_tables, rs_kernel_imported := 0\<rparr>
     in (if dropped \<noteq> 0 then bump_generation s1 else s1, dropped))"

end
