(* ===== verification/ResolverProps.thy ===== *)
theory ResolverProps
  imports Resolver
begin

text \<open>
  What next-hop resolution promises: a configured static outranks every other source, the
  longest usable cover answers, a default route counts only when allowed, a chain of engine
  routes is followed exactly when it ends within the depth bound without repeating a prefix,
  loading the configured statics is all or nothing for unparseable entries, and the counters
  add up.
\<close>

section \<open>Invariant\<close>

definition good_tables :: "(nat, rtable) pydict \<Rightarrow> bool" where
  "good_tables ts \<longleftrightarrow> distinct (map fst ts) \<and> dict_keys ts = {AFI_IP, AFI_IP6}
     \<and> (\<forall>(a, t) \<in> set ts. table_inv t \<and> tafi t = a)"

definition settled :: "(nat, rtable) pydict \<Rightarrow> bool" where
  "settled ts \<longleftrightarrow> (\<forall>(a, t) \<in> set ts. waiting t = [])"

lemma good_tablesD:
  assumes "good_tables ts" and "dict_get ts a = Some t"
  shows "table_inv t" "tafi t = a" "a = AFI_IP \<or> a = AFI_IP6"
  using assms(1) map_of_SomeD [OF assms(2)] unfolding good_tables_def by force+

lemma good_tables_get: "good_tables ts \<Longrightarrow> (\<exists>t. dict_get ts a = Some t) \<longleftrightarrow> a \<in> {AFI_IP, AFI_IP6}"
  by (metis dict_get_None_iff good_tables_def not_None_eq)

lemma good_tables_set:
  assumes "good_tables ts" and "a \<in> {AFI_IP, AFI_IP6}" and "table_inv t" and "tafi t = a"
  shows "good_tables (dict_set a t ts)"
proof -
  have "(a', t') \<in> set (dict_set a t ts) \<Longrightarrow> table_inv t' \<and> tafi t' = a'" for a' t'
    using assms set_dict_set [of a t ts] unfolding good_tables_def by blast
  moreover have "dict_keys (dict_set a t ts) = {AFI_IP, AFI_IP6}"
    using assms(1,2) unfolding good_tables_def dict_keys_set by blast
  ultimately show ?thesis
    using assms(1) distinct_set [of ts a t] unfolding good_tables_def by blast
qed

lemma settled_set: "settled ts \<Longrightarrow> waiting t = [] \<Longrightarrow> settled (dict_set a t ts)"
  using set_dict_set [of a t ts] unfolding settled_def by blast

lemma fresh_table_inv: "table_inv (fresh_table a)"
proof -
  have "dom (node_exact (Leaf :: dest trie)) = {}" by (simp add: dom_def)
  then show ?thesis by (simp add: fresh_table_def table_inv_def route_total_def)
qed

lemma fresh_tables_ok: "good_tables fresh_tables" "settled fresh_tables"
  by (auto simp: fresh_tables_def good_tables_def settled_def fresh_table_inv) (simp_all add: fresh_table_def)

lemma reselect_zero: "table_inv t \<Longrightarrow> table_inv (fst (reselect 0 t)) \<and> tafi (fst (reselect 0 t)) = tafi t
    \<and> waiting (fst (reselect 0 t)) = [] \<and> routes_of (fst (reselect 0 t)) = routes_of t"
  using reselect_spec [of t 0 "fst (reselect 0 t)" "snd (reselect 0 t)"] drain_best [of t] by simp

lemma reselect_all_ok:
  assumes "good_tables ts"
  shows "good_tables (reselect_all ts)" "settled (reselect_all ts)"
proof -
  have keys: "map fst (reselect_all ts) = map fst ts" by (simp add: reselect_all_def case_prod_beta comp_def)
  then have keys': "dict_keys (reselect_all ts) = dict_keys ts" by (metis set_map)
  have all: "table_inv t' \<and> tafi t' = a \<and> waiting t' = []" if "(a, t') \<in> set (reselect_all ts)" for a t'
    using that assms reselect_zero by (auto simp: reselect_all_def good_tables_def)
  show "good_tables (reselect_all ts)"
    using assms all unfolding good_tables_def keys keys' by blast
  show "settled (reselect_all ts)" using all unfolding settled_def by blast
qed

lemma offer_in_tables:
  assumes "good_tables ts" and "dict_get ts (pafi (rprefix r)) = Some t"
  obtains t' n where "tbl_offer r t = Inr (t', n)" "table_inv t'" "tafi t' = pafi (rprefix r)"
    "routes_of t' = (routes_of t)(pbits (rprefix r) := offer_routes r (routes_of t (pbits (rprefix r))))"
    "good_tables (dict_set (pafi (rprefix r)) t' ts)"
proof -
  note T = good_tablesD [OF assms]
  obtain t' n where O: "tbl_offer r t = Inr (t', n)" "table_inv t'" "tafi t' = tafi t"
    "routes_of t' = (routes_of t)(pbits (rprefix r) := offer_routes r (routes_of t (pbits (rprefix r))))"
    using offer_spec [OF T(1), of r] T(2) by metis
  have "good_tables (dict_set (pafi (rprefix r)) t' ts)"
    using O T by (intro good_tables_set [OF assms(1)]) auto
  then show ?thesis using that [of t' n] O T(2) by simp
qed

lemma new_route_sel:
  "new_route p proto admin metric nh source now oid = Inr r \<Longrightarrow>
    rprefix r = p \<and> rprotocol r = proto \<and> rsource r = source \<and> rnexthop r = nh \<and> radmin r = nat admin \<and> rmetric r = nat metric"
  by (auto simp: new_route_def split: if_splits)

lemma offer_rows_good:
  "good_tables ts \<Longrightarrow> good_tables (fst (offer_rows clk proto source oid rows ts))"
proof (induction rows arbitrary: oid ts)
  case Nil
  then show ?case by simp
next
  case (Cons row rows)
  obtain p nh d m where row: "row = (p, nh, d, m)" by (cases row)
  show ?case
  proof (cases "dict_get ts (pafi p)")
    case None
    then show ?thesis using Cons.prems row by simp
  next
    case (Some t)
    show ?thesis
    proof (cases "new_route p proto d m nh source (clk oid) oid")
      case (Inl e)
      then show ?thesis using Cons.prems row Some by simp
    next
      case (Inr r)
      have p: "rprefix r = p" using new_route_sel [OF Inr] by simp
      obtain t' n where "tbl_offer r t = Inr (t', n)" "good_tables (dict_set (pafi p) t' ts)"
        using offer_in_tables [OF Cons.prems, of r t] Some p by metis
      then show ?thesis using row Some Inr Cons.IH by simp
    qed
  qed
qed

definition counted :: "resolver \<Rightarrow> bool" where
  "counted s \<longleftrightarrow> rs_hits s = dict_count (rs_source_hits s) SRC_STATIC + dict_count (rs_source_hits s) SRC_KERNEL
       + dict_count (rs_source_hits s) SRC_RIB
     \<and> rs_hits s + rs_recursion_failures s \<le> rs_lookups s"

definition resolver_inv :: "resolver \<Rightarrow> bool" where
  "resolver_inv s \<longleftrightarrow> good_tables (rs_static s) \<and> good_tables (rs_kernel s) \<and> counted s"


section \<open>One lookup\<close>

text \<open>A prefix of a table that may answer for an address: it covers it, has a winner, and is not
  the default route unless that is allowed.\<close>

definition usable_cover :: "(nat, rtable) pydict \<Rightarrow> bool \<Rightarrow> nat \<Rightarrow> byte list \<Rightarrow> prefix \<Rightarrow> route \<Rightarrow> bool" where
  "usable_cover ts via_default afi addr p r \<longleftrightarrow>
    covers afi addr p \<and> (plen p > 0 \<or> via_default)
    \<and> (\<exists>t. dict_get ts afi = Some t \<and> best_of t (pbits p) = Some r)"

lemma best_of_find: "best_of t k = Some r \<longleftrightarrow> (\<exists>d. find t k = Some d \<and> dbest d = Some r)"
  by (auto simp: best_of_def split: option.splits)

lemma table_step_spec':
  assumes ts: "good_tables ts" and w: "length addr = addr_len afi"
  obtains found where "table_step1 src ts via_default afi addr = Inr found"
    "\<And>src' p r. found = Some (src', p, r) \<Longrightarrow> src' = src \<and> usable_cover ts via_default afi addr p r
       \<and> (\<forall>p' r'. usable_cover ts via_default afi addr p' r' \<longrightarrow> plen p' \<le> plen p)"
    "found = None \<Longrightarrow> \<not> usable_cover ts via_default afi addr p r"
proof (cases "dict_get ts afi")
  case None
  then show ?thesis using that [of None] by (simp add: table_step1_def usable_cover_def)
next
  case (Some t)
  note T = good_tablesD [OF ts Some]
  note wf = table_invD(1) [OF T(1)]
  let ?k = "bytes_bits addr"
  let ?w = "cover_walk (Suc (length ?k)) (trie_lpm (ttrie t)) (usable_dest via_default) ?k (trie_lpm (ttrie t) ?k)"
  have c: "covering via_default t addr None = Inr ?w"
    using w T(2) by (simp add: covering_def tbl_lpm_addr_def Let_def)
  have U: "usable_cover ts via_default afi addr p r \<longleftrightarrow> pafi p = afi \<and> Sublist.prefix (pbits p) ?k
      \<and> (\<exists>d. find t (pbits p) = Some d \<and> dbest d = Some r \<and> usable_dest via_default (pbits p, d))" for p r
    using Some by (auto simp: usable_cover_def covers_def best_of_find usable_dest_def plen_def)
  show ?thesis
  proof (cases ?w)
    case None
    have "\<not> usable_cover ts via_default afi addr p r" for p r
      using trie.cover_walk_None [OF wf None] U by blast
    then show ?thesis using that [of None] Some c None by (simp add: table_step1_def)
  next
    case w: (Some kd)
    obtain q d where kd: "kd = (q, d)" by (cases kd)
    note C = trie.cover_walk_Some [OF wf w [unfolded kd]]
    obtain r where r: "dbest d = Some r" using C(3) by (auto simp: usable_dest_def)
    let ?p = "\<lparr>pafi = afi, pbits = q\<rparr>"
    have u: "usable_cover ts via_default afi addr ?p r" using U [of ?p r] C(1-3) r by simp
    have "plen p' \<le> plen ?p" if "usable_cover ts via_default afi addr p' r'" for p' r'
      using that U C(4) by (auto simp: plen_def)
    then have "\<forall>p' r'. usable_cover ts via_default afi addr p' r' \<longrightarrow> plen p' \<le> plen ?p" by blast
    moreover have "table_step1 src ts via_default afi addr = Inr (Some (src, ?p, r))"
      using Some c w kd r by (simp add: table_step1_def)
    ultimately show ?thesis using that [of "Some (src, ?p, r)"] u by blast
  qed
qed

text \<open>A configured static outranks the kernel's routes and the engine's: when a static entry
  may answer for an address, the answer is a static one, the longest that may, with its metric.\<close>

theorem static_answers_first:
  assumes "good_tables (rs_static s)" and "afi = AFI_IP \<or> afi = AFI_IP6" and "length addr = addr_len afi"
    and "usable_cover (rs_static s) (rs_via_default s) afi addr p r"
  shows "\<exists>a r'. snd (resolve rib afi addr protocol s) = Inr (Some a) \<and> res_source a = SRC_STATIC
    \<and> usable_cover (rs_static s) (rs_via_default s) afi addr (res_prefix a) r'
    \<and> res_metric a = rmetric r' \<and> res_nexthop a = rnexthop r' \<and> plen p \<le> plen (res_prefix a)"
proof -
  obtain found where F: "table_step1 SRC_STATIC (rs_static s) (rs_via_default s) afi addr = Inr found"
    "\<And>src' p r. found = Some (src', p, r) \<Longrightarrow> src' = SRC_STATIC \<and> usable_cover (rs_static s) (rs_via_default s) afi addr p r
       \<and> (\<forall>p' r'. usable_cover (rs_static s) (rs_via_default s) afi addr p' r' \<longrightarrow> plen p' \<le> plen p)"
    "found = None \<Longrightarrow> \<not> usable_cover (rs_static s) (rs_via_default s) afi addr p r"
    using table_step_spec' [OF assms(1,3), where p = p and r = r] by metis
  then obtain src q r' where f: "found = Some (src, q, r')" using assms(4) by (cases found) auto
  have "lookup_step s rib afi addr protocol = Inr (Some (SRC_STATIC, q, r'))"
    using F(1,2) f by (simp add: lookup_step_def)
  then have "resolve_from s rib afi addr protocol 0 [] =
      (Inr (Some \<lparr>res_prefix = q, res_nexthop = rnexthop r', res_metric = rmetric r', res_source = SRC_STATIC\<rparr>), 0)"
    by (subst resolve_from.simps) simp
  moreover have "addr_len afi \<noteq> 0" using assms(2) by (auto simp: addr_len_def)
  ultimately show ?thesis
    using F(2) [OF f] assms(3,4) by (auto simp: resolve_def Let_def)
qed

section \<open>Chains of engine routes\<close>

text \<open>Following next hops from an address: the steps through engine routes with a next hop, by
  the family and prefix that answered, until a step that ends the chain.\<close>

inductive chain :: "resolver \<Rightarrow> 's global_rib option \<Rightarrow> nat option \<Rightarrow> nat \<Rightarrow> byte list \<Rightarrow> (nat \<times> prefix) list \<Rightarrow> bool"
  for s rib protocol where
  chain_end: "lookup_step s rib afi addr protocol = Inr (Some (src, p, r)) \<Longrightarrow> src \<noteq> SRC_RIB \<or> rnexthop r = [] \<Longrightarrow>
     chain s rib protocol afi addr []"
| chain_via: "lookup_step s rib afi addr protocol = Inr (Some (SRC_RIB, p, r)) \<Longrightarrow> rnexthop r \<noteq> [] \<Longrightarrow>
     chain s rib protocol (nexthop_afi (rnexthop r)) (rnexthop r) ks \<Longrightarrow>
     chain s rib protocol afi addr ((afi, p) # ks)"

inductive_cases chain_cases: "chain s rib protocol afi addr ks"

lemma resolve_from_chain:
  "(\<exists>a. fst (resolve_from s rib afi addr protocol depth seen) = Inr (Some a)) \<longleftrightarrow>
    (\<exists>ks. chain s rib protocol afi addr ks \<and> depth + length ks \<le> max MAX_DEPTH depth \<and> distinct ks \<and> set ks \<inter> set seen = {})"
proof (induction s rib afi addr protocol depth seen rule: resolve_from.induct)
  case (1 s rib afi addr protocol depth seen)
  let ?res = "resolve_from s rib afi addr protocol depth seen"
  let ?ok = "\<lambda>ks. chain s rib protocol afi addr ks \<and> depth + length ks \<le> max MAX_DEPTH depth \<and> distinct ks \<and> set ks \<inter> set seen = {}"
  show ?case
  proof (cases "lookup_step s rib afi addr protocol")
    case (Inl e)
    then show ?thesis by (auto simp: resolve_from.simps [of s rib afi addr] elim: chain_cases)
  next
    case (Inr found)
    show ?thesis
    proof (cases found)
      case None
      then show ?thesis using Inr by (auto simp: resolve_from.simps [of s rib afi addr] elim: chain_cases)
    next
      case (Some spr)
      obtain src p r where step: "lookup_step s rib afi addr protocol = Inr (Some (src, p, r))"
        using Inr Some by (cases spr) auto
      show ?thesis
      proof (cases "src = SRC_RIB \<and> rnexthop r \<noteq> []")
        case False
        then have "?ok []" using step by (auto intro: chain_end)
        moreover have "\<exists>a. fst ?res = Inr (Some a)"
          using False step by (auto simp: resolve_from.simps [of s rib afi addr] Let_def)
        ultimately show ?thesis by blast
      next
        case rib: True
        let ?nh = "rnexthop r"
        have cons: "chain s rib protocol afi addr ks \<longleftrightarrow>
            (\<exists>ks'. ks = (afi, p) # ks' \<and> chain s rib protocol (nexthop_afi ?nh) ?nh ks')" for ks
          using step rib by (auto elim: chain_cases intro: chain_via)
        show ?thesis
        proof (cases "(afi, p) \<in> set seen \<or> depth \<ge> MAX_DEPTH")
          case True
          then have "\<not> ?ok ks" for ks unfolding cons by auto
          moreover have "fst ?res = Inr None"
            using True rib step by (simp add: resolve_from.simps [of s rib afi addr] Let_def)
          ultimately show ?thesis by auto
        next
          case False
          let ?sub = "resolve_from s rib (nexthop_afi ?nh) ?nh protocol (depth + 1) ((afi, p) # seen)"
          have IH: "(\<exists>a. fst ?sub = Inr (Some a)) \<longleftrightarrow>
              (\<exists>ks. chain s rib protocol (nexthop_afi ?nh) ?nh ks \<and> depth + 1 + length ks \<le> max MAX_DEPTH (depth + 1)
                 \<and> distinct ks \<and> set ks \<inter> set ((afi, p) # seen) = {})"
            using "1.IH" step rib False by simp
          have "(\<exists>a. fst ?res = Inr (Some a)) \<longleftrightarrow> (\<exists>a. fst ?sub = Inr (Some a))"
            using False rib step
            by (auto simp: resolve_from.simps [of s rib afi addr] Let_def split: prod.splits sum.splits option.splits)
          also have "\<dots> \<longleftrightarrow> (\<exists>ks. ?ok ks)"
          proof
            assume "\<exists>a. fst ?sub = Inr (Some a)"
            then obtain ks where "chain s rib protocol (nexthop_afi ?nh) ?nh ks" "depth + 1 + length ks \<le> max MAX_DEPTH (depth + 1)"
              "distinct ks" "set ks \<inter> set ((afi, p) # seen) = {}" unfolding IH by blast
            then have "?ok ((afi, p) # ks)" using False unfolding cons by auto
            then show "\<exists>ks. ?ok ks" by blast
          next
            assume "\<exists>ks. ?ok ks"
            then show "\<exists>a. fst ?sub = Inr (Some a)" unfolding IH cons using False by auto
          qed
          finally show ?thesis .
        qed
      qed
    qed
  qed
qed

text \<open>C10. An address resolves exactly when following next hops from it, through routes of the
  engine that another protocol offered, comes to an end within the depth bound (four lookups
  beyond the first) and never through the same prefix twice.\<close>

theorem resolve_follows_chain:
  "(\<exists>a. snd (resolve rib afi addr protocol s) = Inr (Some a)) \<longleftrightarrow>
    addr_len afi \<noteq> 0 \<and> length addr = addr_len afi
    \<and> (\<exists>ks. chain s rib protocol afi addr ks \<and> length ks \<le> MAX_DEPTH \<and> distinct ks)"
proof (cases "addr_len afi \<noteq> 0 \<and> length addr = addr_len afi")
  case True
  have "(\<exists>a. snd (resolve rib afi addr protocol s) = Inr (Some a)) \<longleftrightarrow>
      (\<exists>a. fst (resolve_from s rib afi addr protocol 0 []) = Inr (Some a))"
    using True by (auto simp: resolve_def Let_def split: prod.splits sum.splits option.splits)
  then show ?thesis using True resolve_from_chain [of s rib afi addr protocol 0 "[]"] by simp
next
  case False
  then show ?thesis by (auto simp: resolve_def)
qed


lemma cover_walk_ok: "cover_walk n lpm ok addr dest = Some d \<Longrightarrow> ok d"
  by (induction n lpm ok addr dest rule: cover_walk.induct) (auto split: if_splits)

lemma table_step1_usable:
  assumes "table_step1 src ts via_default afi addr = Inr (Some (src', p, r))"
  shows "src' = src" "plen p > 0 \<or> via_default"
  using assms cover_walk_ok [where ok = "usable_dest via_default"]
  by (fastforce simp: table_step1_def covering_def Let_def bind_res_Inr_iff usable_dest_def plen_def
      split: option.splits prod.splits)+

lemma grib_lpm_ok: "grib_lpm afi addr safi (Some ok) g = Inr (Some r) \<Longrightarrow> ok r"
  using cover_walk_ok [where ok = "\<lambda>(k, d). case dbest d of None \<Rightarrow> False | Some r \<Rightarrow> ok r"]
  by (fastforce simp: grib_lpm_def bind_res_Inr_iff split: option.splits prod.splits)

text \<open>What may vouch for a next hop: whichever source answers a lookup, the route is not a
  default unless that is allowed, and a route of the engine is never one of the protocol that
  asks.\<close>

theorem lookup_acceptable:
  assumes "lookup_step s rib afi addr protocol = Inr (Some (src, p, r))"
  shows "(plen p > 0 \<or> rs_via_default s) \<and> (src = SRC_RIB \<longrightarrow> protocol \<noteq> Some (rprotocol r))"
proof (intro conjI impI)
  obtain a where a: "table_step1 SRC_STATIC (rs_static s) (rs_via_default s) afi addr = Inr a"
    using assms by (auto simp: lookup_step_def bind_res_Inr_iff)
  show "plen p > 0 \<or> rs_via_default s"
    using assms a table_step1_usable(2) grib_lpm_ok [where ok = "usable_route (rs_via_default s) protocol"]
    by (fastforce simp: lookup_step_def bind_res_Inr_iff usable_route_def split: if_splits option.splits)
  show "protocol \<noteq> Some (rprotocol r)" if "src = SRC_RIB"
    using assms a that table_step1_usable(1) grib_lpm_ok [where ok = "usable_route (rs_via_default s) protocol"]
    by (fastforce simp: lookup_step_def bind_res_Inr_iff usable_route_def split: if_splits option.splits)
qed

section \<open>Loading the configured statics\<close>

type_synonym content = "byte list \<times> int \<times> int"

definition content :: "route \<Rightarrow> content" where
  "content r = (rnexthop r, int (radmin r), int (rmetric r))"

definition row_content :: "static_row list \<Rightarrow> prefix \<Rightarrow> content option" where
  \<comment> \<open>the last row for a prefix counts\<close>
  "row_content rows = map_of (rev rows)"

definition holds_row :: "nat \<Rightarrow> nat \<Rightarrow> route list \<Rightarrow> content option \<Rightarrow> bool" where
  "holds_row proto source rs c \<longleftrightarrow>
    (case c of None \<Rightarrow> rs = [] | Some c \<Rightarrow> \<exists>r. rs = [r] \<and> origin r = (proto, source) \<and> content r = c)"

definition holds_rows :: "nat \<Rightarrow> nat \<Rightarrow> (nat, rtable) pydict \<Rightarrow> (prefix \<Rightarrow> content option) \<Rightarrow> bool" where
  "holds_rows proto source ts m \<longleftrightarrow> (\<forall>a t k. dict_get ts a = Some t \<longrightarrow>
     holds_row proto source (routes_of t k) (m \<lparr>pafi = a, pbits = k\<rparr>))"

lemma offer_rows_content:
  "good_tables ts \<Longrightarrow> holds_rows proto source ts m \<Longrightarrow>
    offer_rows clk proto source oid rows ts = (ts', None) \<Longrightarrow> holds_rows proto source ts' (m ++ row_content rows)"
proof (induction rows arbitrary: oid ts m)
  case Nil
  then show ?case by (simp add: row_content_def)
next
  case (Cons row rows)
  obtain p nh d mt where row: "row = (p, nh, d, mt)" by (cases row)
  obtain t where t: "dict_get ts (pafi p) = Some t"
    using Cons.prems(3) row by (cases "dict_get ts (pafi p)") auto
  obtain r where r: "new_route p proto d mt nh source (clk oid) oid = Inr r"
    using Cons.prems(3) row t by (cases "new_route p proto d mt nh source (clk oid) oid") auto
  note R = new_route_sel [OF r]
  have c: "content r = (nh, d, mt)" using r by (auto simp: new_route_def content_def split: if_splits)
  obtain t' n where O: "tbl_offer r t = Inr (t', n)"
    "routes_of t' = (routes_of t)(pbits p := offer_routes r (routes_of t (pbits p)))"
    "good_tables (dict_set (pafi p) t' ts)"
    using offer_in_tables [OF Cons.prems(1), of r t] t R by metis
  have H: "holds_row proto source (routes_of t0 k) (m \<lparr>pafi = a, pbits = k\<rparr>)"
    if "dict_get ts a = Some t0" for a t0 k
    using Cons.prems(2) that unfolding holds_rows_def by blast
  have p: "\<lparr>pafi = a, pbits = k\<rparr> = p \<longleftrightarrow> a = pafi p \<and> k = pbits p" for a k by (cases p) auto
  have "holds_row proto source (offer_routes r (routes_of t (pbits p))) (Some (nh, d, mt))"
    using H [OF t, of "pbits p"] R c
    by (cases "m p") (auto simp: p holds_row_def offer_routes_def same_content_def content_def split: option.splits if_splits)
  note new = this
  have "holds_row proto source (routes_of t0 k) ((m(p \<mapsto> (nh, d, mt))) \<lparr>pafi = a, pbits = k\<rparr>)"
    if g: "dict_get (dict_set (pafi p) t' ts) a = Some t0" for a t0 k
  proof (cases "a = pafi p")
    case True
    then have "t0 = t'" using g by (simp add: dict_get_set)
    then show ?thesis using new H [OF t, of k] True p [of a k] by (cases "k = pbits p") (simp_all add: O(2))
  next
    case False
    then show ?thesis using g H [of a t0 k] p [of a k] by (simp add: dict_get_set)
  qed
  then have "holds_rows proto source (dict_set (pafi p) t' ts) (m(p \<mapsto> (nh, d, mt)))"
    unfolding holds_rows_def by blast
  moreover have "offer_rows clk proto source (oid + 1) rows (dict_set (pafi p) t' ts) = (ts', None)"
    using Cons.prems(3) row t r O(1) by simp
  ultimately have "holds_rows proto source ts' (m(p \<mapsto> (nh, d, mt)) ++ row_content rows)"
    by (rule Cons.IH [OF O(3)])
  moreover have "m(p \<mapsto> (nh, d, mt)) ++ row_content rows = m ++ row_content (row # rows)"
    by (rule ext) (simp add: row_content_def row map_add_def split: option.splits)
  ultimately show ?case by simp
qed


lemma load_static_good:
  assumes "good_tables (rs_static s)"
  shows "good_tables (rs_static (fst (load_static pton clk oid entries s)))"
proof (cases "parse_entries pton entries")
  case (Inl e)
  then show ?thesis using assms by (simp add: load_static_def)
next
  case (Inr rows)
  obtain ts err where ts: "offer_rows clk PROTO_STATIC (rs_source s) oid rows fresh_tables = (ts, err)"
    by (cases "offer_rows clk PROTO_STATIC (rs_source s) oid rows fresh_tables")
  then have "good_tables ts" using offer_rows_good [OF fresh_tables_ok(1)] by (metis fst_conv)
  then show ?thesis using Inr ts reselect_all_ok(1)
    by (cases err) (simp_all add: load_static_def Let_def bump_generation_def)
qed

lemma fresh_tables_hold: "holds_rows proto source fresh_tables Map.empty"
proof -
  have "routes_of (fresh_table a) k = []" for a k by (simp add: fresh_table_def routes_of_def)
  then show ?thesis by (auto simp: holds_rows_def fresh_tables_def holds_row_def split: if_splits)
qed

lemma reselect_all_get:
  "dict_get (reselect_all ts) a = map_option (\<lambda>t. fst (reselect 0 t)) (dict_get ts a)"
  by (simp add: reselect_all_def map_of_map)

lemma holds_rows_best:
  assumes "good_tables ts" and "holds_rows proto source ts m" and "dict_get (reselect_all ts) a = Some t"
  shows "map_option content (best_of t k) = m \<lparr>pafi = a, pbits = k\<rparr>"
proof -
  obtain t0 where t0: "dict_get ts a = Some t0" "t = fst (reselect 0 t0)"
    using assms(3) by (auto simp: reselect_all_get)
  have "best_of t k = dest_select (routes_of t0 k)"
    using drain_best(1) [OF good_tablesD(1) [OF assms(1) t0(1)]] t0(2) by simp
  moreover have "holds_row proto source (routes_of t0 k) (m \<lparr>pafi = a, pbits = k\<rparr>)"
    using assms(2) t0(1) by (simp add: holds_rows_def)
  ultimately show ?thesis by (auto simp: holds_row_def dest_select_def split: option.splits)
qed

text \<open>Loading the statics replaces: afterwards every prefix is resolved by exactly the last
  entry that the configuration has for it, with that entry's next hop, distance and metric, and
  a prefix that is gone from the configuration is gone from the tables, whatever they held.\<close>

theorem load_static_replaces:
  assumes "load_static pton clk oid entries s = (s', Inr n)" and "parse_entries pton entries = Inr rows"
    and "dict_get (rs_static s') a = Some t"
  shows "map_option content (best_of t k) = row_content rows \<lparr>pafi = a, pbits = k\<rparr> \<and> n = length rows"
proof (rule conjI)
  obtain ts where ts: "offer_rows clk PROTO_STATIC (rs_source s) oid rows fresh_tables = (ts, None)"
    "rs_static s' = reselect_all ts" "n = length rows"
    using assms(1,2) by (auto simp: load_static_def Let_def bump_generation_def split: prod.splits option.splits if_splits)
  have "good_tables ts" using offer_rows_good [OF fresh_tables_ok(1)] ts(1) by (metis fst_conv)
  moreover have "holds_rows PROTO_STATIC (rs_source s) ts (row_content rows)"
    using offer_rows_content [OF fresh_tables_ok(1) fresh_tables_hold ts(1)] by simp
  ultimately show "map_option content (best_of t k) = row_content rows \<lparr>pafi = a, pbits = k\<rparr>"
    using holds_rows_best assms(3) ts(2) by metis
  show "n = length rows" by (rule ts(3))
qed

text \<open>An entry that does not parse changes nothing, but one with a distance outside a byte
  does: it raises after the old tables are gone, so every static entry from before is lost, those
  ahead of it are offered but not selected, and the generation does not move.\<close>

theorem load_static_bad_distance:
  assumes "parse_entries pton entries = Inr ((p, nh, d, m) # rows)" and "d < 0 \<or> d > 255"
    and "pafi p = AFI_IP \<or> pafi p = AFI_IP6"
  shows "load_static pton clk oid entries s = (s\<lparr>rs_static := fresh_tables\<rparr>, Inl OverflowError)
    \<and> (parse_entries pton bad = Inl e \<longrightarrow> load_static pton clk oid bad s = (s, Inl e))"
  using assms by (auto simp: load_static_def fresh_tables_def new_route_def)

definition sample_pton :: pton where
  "sample_pton afi text = (if afi = 1 \<and> text = ''10.0.0.0'' then Some [10, 0, 0, 0]
     else if afi = 1 \<and> text = ''10.0.0.9'' then Some [10, 0, 0, 9] else None)"

definition sample_entries :: "int \<Rightarrow> (string \<times> static_body option) list" where
  "sample_entries d = [(''10.0.0.0/8'',
     Some \<lparr>sb_next_hop = NH_Text ''10.0.0.9'', sb_distance = Some d, sb_metric = Some 7\<rparr>)]"

definition sample_resolver :: resolver where
  "sample_resolver = new_resolver True True False False 0 1"

lemma sample_rows: "parse_entries sample_pton (sample_entries d) =
    Inr [(\<lparr>pafi = 1, pbits = [False, False, False, False, True, False, True, False]\<rparr>, [10, 0, 0, 9], d, 7)]"
proof -
  have "parse_prefix sample_pton ''10.0.0.0/8'' = Inr \<lparr>pafi = 1, pbits = [False, False, False, False, True, False, True, False]\<rparr>"
    by code_simp
  moreover have "pack_nexthop sample_pton (NH_Text ''10.0.0.9'') = Inr [10, 0, 0, 9]"
    by code_simp
  ultimately show ?thesis by (simp add: sample_entries_def Let_def)
qed

theorem load_static_bad_distance_witness:
  "load_static sample_pton (\<lambda>n. 0) 5 (sample_entries 300) sample_resolver
    = (sample_resolver\<lparr>rs_static := fresh_tables\<rparr>, Inl OverflowError)"
  by (rule load_static_bad_distance [OF sample_rows, THEN conjunct1]) simp_all

definition sample_loaded :: resolver where
  "sample_loaded = fst (load_static sample_pton (\<lambda>n. 0) 5 (sample_entries 1) sample_resolver)"

lemma sample_load: "load_static sample_pton (\<lambda>n. 0) 5 (sample_entries 1) sample_resolver = (sample_loaded, Inr 1)"
proof -
  have "snd (load_static sample_pton (\<lambda>n. 0) 5 (sample_entries 1) sample_resolver) = Inr 1" by code_simp
  then show ?thesis by (simp add: sample_loaded_def prod_eq_iff)
qed

lemma sample_loaded_table: "dict_get (rs_static sample_loaded) 1 \<noteq> None"
  by code_simp

theorem load_static_replaces_witness:
  "map_option content (best_of (the (dict_get (rs_static sample_loaded) 1))
      [False, False, False, False, True, False, True, False]) = Some ([10, 0, 0, 9], 1, 7)"
proof -
  obtain t where t: "dict_get (rs_static sample_loaded) 1 = Some t" using sample_loaded_table by blast
  show ?thesis
    unfolding t option.sel load_static_replaces [OF sample_load sample_rows t, THEN conjunct1] by (simp add: row_content_def)
qed

theorem lookup_acceptable_witness:
  "plen \<lparr>pafi = 1, pbits = [False, False, False, False, True, False, True, False]\<rparr> > 0 \<or> rs_via_default sample_loaded"
proof -
  have "lookup_step sample_loaded (None :: null_sink global_rib option) 1 [10, 1, 2, 3] (Some PROTO_BGP) =
    Inr (Some (SRC_STATIC, \<lparr>pafi = 1, pbits = [False, False, False, False, True, False, True, False]\<rparr>,
      \<lparr>rprefix = \<lparr>pafi = 1, pbits = [False, False, False, False, True, False, True, False]\<rparr>, rprotocol = 2,
       radmin = 1, rmetric = 7, rnexthop = [10, 0, 0, 9], rsource = 0, rtime = 0, roid = 5\<rparr>))"
    by code_simp
  then show ?thesis by (rule lookup_acceptable [THEN conjunct1])
qed

lemma sample_loaded_good: "good_tables (rs_static sample_loaded)"
  unfolding sample_loaded_def by (rule load_static_good) (simp add: sample_resolver_def new_resolver_def fresh_tables_ok)

theorem static_answers_first_witness:
  "\<exists>a. snd (resolve (None :: null_sink global_rib option) 1 [10, 1, 2, 3] None sample_loaded) = Inr (Some a)
    \<and> res_source a = SRC_STATIC"
proof -
  have "best_of (the (dict_get (rs_static sample_loaded) 1)) [False, False, False, False, True, False, True, False] \<noteq> None"
    by code_simp
  then obtain r where r: "best_of (the (dict_get (rs_static sample_loaded) 1))
      [False, False, False, False, True, False, True, False] = Some r" by blast
  have c: "Sublist.prefix [False, False, False, False, True, False, True, False] (bytes_bits [10, 1, 2, 3])" by code_simp
  have "usable_cover (rs_static sample_loaded) (rs_via_default sample_loaded) 1 [10, 1, 2, 3]
     \<lparr>pafi = 1, pbits = [False, False, False, False, True, False, True, False]\<rparr> r"
    using r c sample_loaded_table by (auto simp: usable_cover_def covers_def plen_def)
  from static_answers_first [OF sample_loaded_good _ _ this, of None None] show ?thesis
    by (auto simp: addr_len_def)
qed


section \<open>Every operation\<close>

lemma resolve_from_cases:
  "case resolve_from s rib afi addr protocol depth seen of
     (Inr (Some a), n) \<Rightarrow> n = 0
   | (found, n) \<Rightarrow> n \<le> 1"
proof (induction s rib afi addr protocol depth seen rule: resolve_from.induct)
  case (1 s rib afi addr protocol depth seen)
  show ?case
    using "1.IH" by (subst resolve_from.simps)
      (auto simp: Let_def split: sum.splits option.splits prod.splits)
qed

lemma resolve_inv:
  assumes "resolver_inv s"
  shows "resolver_inv (fst (resolve rib afi addr protocol s))"
proof -
  obtain found n where r: "resolve_from s rib afi addr protocol 0 [] = (found, n)"
    by (cases "resolve_from s rib afi addr protocol 0 []")
  have n: "case found of Inr (Some a) \<Rightarrow> n = 0 | _ \<Rightarrow> n \<le> 1"
    using resolve_from_cases [of s rib afi addr protocol 0 "[]"] r by (auto split: sum.splits option.splits)
  have c: "rs_hits s = dict_count (rs_source_hits s) SRC_STATIC + dict_count (rs_source_hits s) SRC_KERNEL
       + dict_count (rs_source_hits s) SRC_RIB" "rs_hits s + rs_recursion_failures s \<le> rs_lookups s"
    using assms by (simp_all add: resolver_inv_def counted_def)
  have "counted (fst (resolve rib afi addr protocol s))"
  proof (cases found)
    case (Inl e)
    then show ?thesis using r n c by (simp add: resolve_def counted_def Let_def)
  next
    case (Inr a)
    show ?thesis
    proof (cases a)
      case None
      then show ?thesis using Inr r n c by (simp add: resolve_def counted_def Let_def)
    next
      case (Some b)
      then show ?thesis using Inr r n c
        by (cases "res_source b") (simp_all add: resolve_def counted_def Let_def dict_count_incr)
    qed
  qed
  then show ?thesis using assms
    by (auto simp: resolver_inv_def resolve_def Let_def split: prod.splits sum.splits option.splits)
qed

lemma add_static_inv:
  assumes "resolver_inv s"
  shows "resolver_inv (fst (add_static pton clk oid arg nh distance metric s))"
proof -
  let ?res = "fst (add_static pton clk oid arg nh distance metric s)"
  have "good_tables (rs_static ?res) \<and> rs_kernel ?res = rs_kernel s \<and> counted ?res = counted s"
  proof (cases "\<exists>p b t r. prefix_of_arg pton arg = Inr p \<and> pack_nexthop pton nh = Inr b
      \<and> dict_get (rs_static s) (pafi p) = Some t
      \<and> new_route p PROTO_STATIC distance metric b (rs_source s) (clk oid) oid = Inr r")
    case False
    then have "?res = s"
      by (auto simp: add_static_def split: sum.splits option.splits)
    then show ?thesis using assms by (simp add: resolver_inv_def)
  next
    case True
    then obtain p b t r where R: "prefix_of_arg pton arg = Inr p" "pack_nexthop pton nh = Inr b"
      "dict_get (rs_static s) (pafi p) = Some t"
      "new_route p PROTO_STATIC distance metric b (rs_source s) (clk oid) oid = Inr r" by blast
    have good: "good_tables (rs_static s)" using assms by (simp add: resolver_inv_def)
    obtain t' n where O: "tbl_offer r t = Inr (t', n)" "table_inv t'" "tafi t' = pafi p"
      using offer_in_tables [OF good, of r t] R(3) new_route_sel [OF R(4)] by metis
    have "good_tables (dict_set (pafi p) (fst (reselect 0 t')) (rs_static s))"
      using reselect_zero [OF O(2)] O(3) good_tablesD(3) [OF good R(3)] by (intro good_tables_set [OF good]) auto
    then show ?thesis using R O(1) by (simp add: add_static_def bump_generation_def counted_def)
  qed
  then show ?thesis using assms by (simp add: resolver_inv_def)
qed

lemma remove_static_inv:
  assumes "resolver_inv s"
  shows "resolver_inv (fst (remove_static pton arg s))"
proof (cases "\<exists>p t. prefix_of_arg pton arg = Inr p \<and> dict_get (rs_static s) (pafi p) = Some t")
  case False
  then have "fst (remove_static pton arg s) = s" by (auto simp: remove_static_def split: sum.splits option.splits)
  then show ?thesis using assms by simp
next
  case True
  then obtain p t where R: "prefix_of_arg pton arg = Inr p" "dict_get (rs_static s) (pafi p) = Some t" by blast
  have good: "good_tables (rs_static s)" using assms by (simp add: resolver_inv_def)
  note T = good_tablesD [OF good R(2)]
  obtain t1 n where r: "tbl_retract p PROTO_STATIC (rs_source s) t = (t1, n)"
    by (cases "tbl_retract p PROTO_STATIC (rs_source s) t")
  note S = retract_spec(1,2) [OF T(1) r]
  have "good_tables (dict_set (pafi p) (fst (reselect 0 t1)) (rs_static s))"
    using reselect_zero [OF S(1)] S(2) T by (intro good_tables_set [OF good]) auto
  then show ?thesis using assms R r
    by (simp add: remove_static_def Let_def bump_generation_def resolver_inv_def counted_def)
qed

lemma load_kernel_inv:
  assumes "resolver_inv s"
  shows "resolver_inv (fst (load_kernel clk oid dump s))"
proof -
  have "good_tables (fst (offer_rows clk PROTO_UNSPEC (rs_kernel_source s) oid rows fresh_tables))" for rows
    by (rule offer_rows_good [OF fresh_tables_ok(1)])
  then have g: "offer_rows clk PROTO_UNSPEC (rs_kernel_source s) oid rows fresh_tables = (ts, err) \<Longrightarrow> good_tables ts"
    for rows ts err by (metis fst_conv)
  show ?thesis
    using assms g reselect_all_ok(1)
    by (auto simp: load_kernel_def resolver_inv_def counted_def bump_generation_def Let_def
        split: sum.splits prod.splits option.splits)
qed

datatype resolver_op =
    RsAdd nat prefix_arg nexthop_arg int int
  | RsRemove prefix_arg
  | RsLoad nat "(string \<times> static_body option) list"
  | RsKernel nat "string + kernel_route list"
  | RsClearKernel
  | RsResolve nat "byte list" "nat option"
  | RsEnabled bool
  | RsKernelImport bool
  | RsViaDefault bool

fun resolver_step :: "pton \<Rightarrow> (nat \<Rightarrow> time) \<Rightarrow> 's global_rib option \<Rightarrow> resolver \<Rightarrow> resolver_op \<Rightarrow> resolver" where
  "resolver_step pton clk rib s (RsAdd oid arg nh d m) = fst (add_static pton clk oid arg nh d m s)"
| "resolver_step pton clk rib s (RsRemove arg) = fst (remove_static pton arg s)"
| "resolver_step pton clk rib s (RsLoad oid entries) = fst (load_static pton clk oid entries s)"
| "resolver_step pton clk rib s (RsKernel oid dump) = fst (load_kernel clk oid dump s)"
| "resolver_step pton clk rib s RsClearKernel = fst (clear_kernel s)"
| "resolver_step pton clk rib s (RsResolve afi addr protocol) = fst (resolve rib afi addr protocol s)"
| "resolver_step pton clk rib s (RsEnabled b) = set_enabled b s"
| "resolver_step pton clk rib s (RsKernelImport b) = set_kernel_import b s"
| "resolver_step pton clk rib s (RsViaDefault b) = set_via_default b s"

lemma load_static_inv:
  assumes "resolver_inv s"
  shows "resolver_inv (fst (load_static pton clk oid entries s))"
  using assms load_static_good [of s pton clk oid entries]
  by (auto simp: resolver_inv_def load_static_def counted_def Let_def bump_generation_def
      split: sum.splits prod.splits option.splits)

interpretation resolver_machine: invariant_machine "resolver_step pton clk rib" resolver_inv
  for pton clk and rib :: "'s global_rib option"
proof
  fix s e
  assume inv: "resolver_inv s"
  have knobs: "resolver_inv (set_enabled b s)" "resolver_inv (set_kernel_import b s)" "resolver_inv (set_via_default b s)" for b
    using inv by (auto simp: set_enabled_def set_kernel_import_def set_via_default_def bump_generation_def
        resolver_inv_def counted_def)
  have clear: "resolver_inv (fst (clear_kernel s))"
    using inv fresh_tables_ok(1) by (simp add: clear_kernel_def Let_def bump_generation_def resolver_inv_def counted_def)
  show "resolver_inv (resolver_step pton clk rib s e)"
    by (cases e) (simp_all add: inv knobs clear add_static_inv remove_static_inv load_static_inv load_kernel_inv resolve_inv)
qed

interpretation resolver_generation: monotone_machine "resolver_step pton clk rib" rs_generation
  for pton clk and rib :: "'s global_rib option"
proof
  fix s e
  show "rs_generation s \<le> rs_generation (resolver_step pton clk rib s e)"
    by (cases e) (auto simp: add_static_def remove_static_def load_static_def load_kernel_def clear_kernel_def resolve_def
        set_enabled_def set_kernel_import_def set_via_default_def bump_generation_def Let_def
        split: sum.splits option.splits prod.splits)
qed

lemma new_resolver_inv: "resolver_inv (new_resolver a b c d i k)"
  by (simp add: new_resolver_def resolver_inv_def fresh_tables_ok counted_def dict_count_def)

text \<open>Through any run of configuration changes, imports and lookups, failed ones included, the
  tables stay well formed, every hit is counted under exactly one source, a lookup is never both
  a hit and a refused recursion, and the generation never goes back.\<close>

theorem resolver_run_invariant:
  fixes rib :: "'s global_rib option" and es :: "resolver_op list" and a b c d :: bool and i k :: nat
    and pton :: pton and clk :: "nat \<Rightarrow> time"
  defines "s0 \<equiv> new_resolver a b c d i k"
  defines "s \<equiv> foldl (resolver_step pton clk rib) s0 es"
  shows "resolver_inv s \<and> rs_generation s0 \<le> rs_generation s"
  unfolding s_def s0_def
  by (rule conjI [OF resolver_machine.run_inv [OF new_resolver_inv] resolver_generation.run_mono])

end
