(* ===== verification/PrefixList.thy ===== *)
theory PrefixList
  imports AddrText
begin

text \<open>
  \<open>policy/prefixlist.pyx\<close>: the values a configuration hands over, the entry with its length
  window, the list with its binary search, and the index of entries by prefix that one descent
  of the trie evaluates. An entry is an object with an identity (\<open>ple_oid\<close>, compared by \<open>is\<close>)
  and one mutable field, its hit counter, which the list keeps by identity.
\<close>

section \<open>Configured values\<close>

text \<open>What a parser of configuration documents can put in a field.\<close>

datatype pyval = V_Int int | V_Bool bool | V_Text string | V_Other

abbreviation (input) "ACTION_DENY \<equiv> 0 :: nat"
abbreviation (input) "ACTION_PERMIT \<equiv> 1 :: nat"
abbreviation (input) "NO_ENTRY \<equiv> -1 :: int"

definition ACTION_IDS :: "(string, nat) pydict" where
  "ACTION_IDS = [(''deny'', ACTION_DENY), (''permit'', ACTION_PERMIT)]"

definition ACTION_NAMES :: "(nat, string) pydict" where
  "ACTION_NAMES = [(ACTION_DENY, ''deny''), (ACTION_PERMIT, ''permit'')]"

definition action_id :: "pyval \<Rightarrow> nat result" where
  "action_id a =
    (case a of
       V_Text s \<Rightarrow>
         (case dict_get ACTION_IDS s of
            Some n \<Rightarrow> Inr n
          | None \<Rightarrow> Inl (ValueError ''action must be permit or deny''))
     | V_Int i \<Rightarrow>
         if i = int ACTION_DENY \<or> i = int ACTION_PERMIT then Inr (nat i)
         else Inl (ValueError ''action must be permit, deny, 0 or 1'')
     | _ \<Rightarrow> Inl (ValueError ''action must be permit, deny, 0 or 1''))"

definition seq_number :: "pyval \<Rightarrow> nat result" where
  "seq_number v =
    (case v of
       V_Int i \<Rightarrow> if i < 0 \<or> i > 0xffffffff then Inl (ValueError ''seq is outside its range'') else Inr (nat i)
     | _ \<Rightarrow> Inl (ValueError ''seq must be an integer''))"

datatype prefix_value = PV_Prefix prefix | PV_Text string | PV_Other

definition coerce_prefix :: "pton \<Rightarrow> prefix_value \<Rightarrow> prefix result" where
  "coerce_prefix pton v =
    (case v of
       PV_Prefix p \<Rightarrow> Inr p
     | PV_Text s \<Rightarrow> parse_prefix pton s
     | PV_Other \<Rightarrow> Inl (ValueError ''prefix must be a Prefix or prefix text''))"

definition coerce_bound :: "string \<Rightarrow> pyval \<Rightarrow> nat \<Rightarrow> nat result" where
  "coerce_bound which v abits =
    (case v of
       V_Int i \<Rightarrow>
         if i < 0 \<or> i > int abits then Inl (ValueError (which @ '' is outside its address family''))
         else Inr (nat i)
     | _ \<Rightarrow> Inl (ValueError (which @ '' must be an integer'')))"

section \<open>One entry\<close>

record ple =
  ple_seq :: nat
  ple_action :: nat
  ple_prefix :: prefix
  ple_le :: nat
  ple_ge :: nat
  ple_lo :: nat
  ple_hi :: nat
  ple_oid :: nat

definition new_ple :: "pton \<Rightarrow> nat \<Rightarrow> pyval \<Rightarrow> pyval \<Rightarrow> prefix_value \<Rightarrow> pyval \<Rightarrow> pyval \<Rightarrow> ple result" where
  "new_ple pton oid seq action pfx le ge =
    bind_res (coerce_prefix pton pfx) (\<lambda>p.
      let abits = addr_bits (pafi p) in
      bind_res (coerce_bound ''le'' le abits) (\<lambda>le_v.
      bind_res (coerce_bound ''ge'' ge abits) (\<lambda>ge_v.
        if le_v \<noteq> 0 \<and> le_v < plen p then Inl (ValueError ''le is shorter than the prefix length'')
        else if ge_v \<noteq> 0 \<and> ge_v < plen p then Inl (ValueError ''ge is shorter than the prefix length'')
        else if le_v \<noteq> 0 \<and> ge_v \<noteq> 0 \<and> ge_v > le_v then Inl (ValueError ''ge is greater than le'')
        else
          bind_res (seq_number seq) (\<lambda>n.
          bind_res (action_id action) (\<lambda>a.
            Inr \<lparr>ple_seq = n, ple_action = a, ple_prefix = p, ple_le = le_v, ple_ge = ge_v,
              ple_lo = (if ge_v \<noteq> 0 then ge_v else plen p),
              ple_hi = (if le_v \<noteq> 0 then le_v else if ge_v \<noteq> 0 then abits else plen p),
              ple_oid = oid\<rparr>)))))"

section \<open>The list\<close>

text \<open>\<open>pl_made\<close> counts the entry objects made so far and numbers the next one.\<close>

record prefix_list =
  pl_name :: string
  pl_afi :: nat
  pl_abits :: nat
  pl_version :: nat
  pl_hits :: nat
  pl_matches :: nat
  pl_trie :: "ple list trie"
  pl_entries :: "ple list"
  pl_entry_hits :: "(nat, nat) pydict"
  pl_made :: nat

definition new_prefix_list :: "string \<Rightarrow> int \<Rightarrow> prefix_list result" where
  "new_prefix_list name afi =
    (if name = [] then Inl (ValueError ''a prefix-list name is required'')
     else if afi < 0 \<or> afi > 255 \<or> addr_len (nat afi) = 0
     then Inl (ValueError ''unsupported address family number'')
     else Inr \<lparr>pl_name = name, pl_afi = nat afi, pl_abits = addr_bits (nat afi), pl_version = 0,
       pl_hits = 0, pl_matches = 0, pl_trie = Leaf, pl_entries = [], pl_entry_hits = [], pl_made = 0\<rparr>)"

function index_loop :: "ple list \<Rightarrow> nat \<Rightarrow> nat \<Rightarrow> nat \<Rightarrow> int" where
  "index_loop es seq lo hi =
    (if lo < hi then
       (let mid = (lo + hi) div 2; e = es ! mid in
        if ple_seq e = seq then int mid
        else if ple_seq e < seq then index_loop es seq (mid + 1) hi
        else index_loop es seq lo mid)
     else - 1 - int lo)"
  by pat_completeness auto
termination by (relation "measure (\<lambda>(es, seq, lo, hi). hi - lo)") auto

declare index_loop.simps [simp del]

definition index_of :: "nat \<Rightarrow> prefix_list \<Rightarrow> int" where
  "index_of seq l = index_loop (pl_entries l) seq 0 (length (pl_entries l))"

fun file_bucket :: "ple \<Rightarrow> ple list \<Rightarrow> ple list" where
  "file_bucket e [] = [e]"
| "file_bucket e (x # xs) = (if ple_seq x > ple_seq e then e # x # xs else x # file_bucket e xs)"

definition pl_file :: "ple \<Rightarrow> prefix_list \<Rightarrow> prefix_list" where
  "pl_file e l =
    (let k = pbits (ple_prefix e) in
     case node_exact (pl_trie l) k of
       None \<Rightarrow> l\<lparr>pl_trie := trie_insert k [e] (pl_trie l)\<rparr>
     | Some b \<Rightarrow> l\<lparr>pl_trie := trie_insert k (file_bucket e b) (pl_trie l)\<rparr>)"

fun unfile_bucket :: "ple \<Rightarrow> ple list \<Rightarrow> ple list" where
  "unfile_bucket e [] = []"
| "unfile_bucket e (x # xs) = (if ple_oid x = ple_oid e then xs else x # unfile_bucket e xs)"

definition pl_unfile :: "ple \<Rightarrow> prefix_list \<Rightarrow> prefix_list" where
  "pl_unfile e l =
    (let k = pbits (ple_prefix e) in
     case node_exact (pl_trie l) k of
       None \<Rightarrow> l
     | Some b \<Rightarrow>
         (let b' = unfile_bucket e b in
          if b' = [] then l\<lparr>pl_trie := trie_remove k (pl_trie l)\<rparr>
          else l\<lparr>pl_trie := trie_insert k b' (pl_trie l)\<rparr>))"

definition pl_insert :: "nat \<Rightarrow> 'a \<Rightarrow> 'a list \<Rightarrow> 'a list" where
  \<comment> \<open>\<open>list.insert(i, x)\<close>\<close>
  "pl_insert i x xs = take i xs @ x # drop i xs"

definition pl_add :: "pton \<Rightarrow> pyval \<Rightarrow> pyval \<Rightarrow> prefix_value \<Rightarrow> pyval \<Rightarrow> pyval \<Rightarrow> prefix_list \<Rightarrow>
    prefix_list \<times> ple result" where
  "pl_add pton seq action pfx le ge l0 =
    (case new_ple pton (pl_made l0) seq action pfx le ge of
       Inl e \<Rightarrow> (l0, Inl e)
     | Inr entry \<Rightarrow>
         let l = l0\<lparr>pl_made := pl_made l0 + 1\<rparr> in
         if pafi (ple_prefix entry) \<noteq> pl_afi l
         then (l, Inl (ValueError ''not in the address family of the prefix-list''))
         else
           (let index = index_of (ple_seq entry) l;
                l1 = (if index \<ge> 0 then
                        (let l' = pl_unfile (pl_entries l ! nat index) l
                         in l'\<lparr>pl_entries := (pl_entries l')[nat index := entry]\<rparr>)
                      else l\<lparr>pl_entries := pl_insert (nat (- 1 - index)) entry (pl_entries l)\<rparr>);
                l2 = pl_file entry l1
            in (l2\<lparr>pl_version := pl_version l2 + 1\<rparr>, Inr entry)))"

definition pl_remove :: "pyval \<Rightarrow> prefix_list \<Rightarrow> prefix_list \<times> bool result" where
  "pl_remove seq l =
    (case seq_number seq of
       Inl e \<Rightarrow> (l, Inl e)
     | Inr n \<Rightarrow>
         (let index = index_of n l in
          if index < 0 then (l, Inr False)
          else
            (let l1 = pl_unfile (pl_entries l ! nat index) l;
                 es = pl_entries l1
             in (l1\<lparr>pl_entries := take (nat index) es @ drop (Suc (nat index)) es,
                   pl_version := pl_version l1 + 1\<rparr>, Inr True))))"

definition pl_clear :: "prefix_list \<Rightarrow> prefix_list \<times> nat" where
  "pl_clear l =
    (let removed = length (pl_entries l);
         l1 = l\<lparr>pl_entries := [], pl_trie := Leaf\<rparr>
     in (if removed \<noteq> 0 then l1\<lparr>pl_version := pl_version l1 + 1\<rparr> else l1, removed))"

section \<open>Evaluation\<close>

text \<open>The scan of one node's entries: the first whose window admits the length, kept when it comes
  before the best so far.\<close>

fun bucket_pick :: "nat \<Rightarrow> ple option \<Rightarrow> ple list \<Rightarrow> ple option" where
  "bucket_pick n best [] = best"
| "bucket_pick n best (e # es) =
     (if ple_lo e \<le> n \<and> n \<le> ple_hi e then
        (case best of None \<Rightarrow> Some e | Some b \<Rightarrow> if ple_seq e < ple_seq b then Some e else best)
      else bucket_pick n best es)"

fun lookup_walk :: "ple list trie \<Rightarrow> key \<Rightarrow> ple option \<Rightarrow> ple option" where
  "lookup_walk Leaf k best = best"
| "lookup_walk (Node p v l r) k best =
     (if length p \<le> length k then
        (if \<not> pfx_match p k then best
         else
           (let best' = (case v of None \<Rightarrow> best | Some bucket \<Rightarrow> bucket_pick (length k) best bucket)
            in if length p = length k then best'
               else if k ! length p then lookup_walk r k best' else lookup_walk l k best'))
      else best)"

definition pl_lookup :: "prefix \<Rightarrow> prefix_list \<Rightarrow> ple option" where
  "pl_lookup p l = lookup_walk (pl_trie l) (pbits p) None"

definition pl_evaluate :: "prefix_value \<Rightarrow> prefix_list \<Rightarrow> prefix_list \<times> int result" where
  "pl_evaluate v l0 =
    (case v of
       PV_Prefix p \<Rightarrow>
         (let l = l0\<lparr>pl_hits := pl_hits l0 + 1\<rparr> in
          if pafi p \<noteq> pl_afi l then (l, Inr NO_ENTRY)
          else (case pl_lookup p l of
                  None \<Rightarrow> (l, Inr NO_ENTRY)
                | Some e \<Rightarrow>
                    (l\<lparr>pl_entry_hits := dict_incr (ple_oid e) (pl_entry_hits l),
                       pl_matches := pl_matches l + 1\<rparr>, Inr (int (ple_action e)))))
     | _ \<Rightarrow> (l0, Inl (ValueError ''a Prefix is required'')))"

definition pl_permits :: "prefix_value \<Rightarrow> prefix_list \<Rightarrow> prefix_list \<times> bool result" where
  "pl_permits v l =
    (case pl_evaluate v l of (l', r) \<Rightarrow> (l', bind_res r (\<lambda>a. Inr (a = int ACTION_PERMIT))))"

definition ple_hits :: "prefix_list \<Rightarrow> ple \<Rightarrow> nat" where
  "ple_hits l e = dict_count (pl_entry_hits l) (ple_oid e)"

end
