(* ===== verification/SeqList.thy ===== *)
theory SeqList
  imports Prelude
begin

text \<open>
  Lists of entries kept in ascending order of a sequence number, at most one per number: what a
  prefix-list, an AS-path access-list and a route-map are. Insertion with replacement and
  removal are related to the finite map from sequence numbers to entries, and the locale
  \<open>ordered_filter\<close> states the evaluation contract that the three share: the first entry in
  sequence order that admits the candidate decides.
\<close>

definition seq_sorted :: "('e \<Rightarrow> nat) \<Rightarrow> 'e list \<Rightarrow> bool" where
  "seq_sorted f xs = sorted_wrt (\<lambda>x y. f x < f y) xs"

fun seq_put :: "('e \<Rightarrow> nat) \<Rightarrow> 'e \<Rightarrow> 'e list \<Rightarrow> 'e list" where
  "seq_put f e [] = [e]"
| "seq_put f e (x # xs) =
     (if f x = f e then e # xs else if f x > f e then e # x # xs else x # seq_put f e xs)"

fun seq_del :: "('e \<Rightarrow> nat) \<Rightarrow> nat \<Rightarrow> 'e list \<Rightarrow> 'e list" where
  "seq_del f n [] = []"
| "seq_del f n (x # xs) = (if f x = n then xs else x # seq_del f n xs)"

definition seq_map :: "('e \<Rightarrow> nat) \<Rightarrow> 'e list \<Rightarrow> nat \<rightharpoonup> 'e" where
  "seq_map f xs n = find (\<lambda>x. f x = n) xs"

lemma seq_sorted_simps [simp]:
  "seq_sorted f []"
  "seq_sorted f (x # xs) \<longleftrightarrow> (\<forall>y \<in> set xs. f x < f y) \<and> seq_sorted f xs"
  "seq_sorted f (xs @ ys) \<longleftrightarrow> seq_sorted f xs \<and> seq_sorted f ys \<and> (\<forall>x \<in> set xs. \<forall>y \<in> set ys. f x < f y)"
  by (auto simp: seq_sorted_def sorted_wrt_append)

lemma seq_sorted_filter [simp]: "seq_sorted f xs \<Longrightarrow> seq_sorted f (filter P xs)"
  by (induction xs) auto

lemma set_seq_put: "set (seq_put f e xs) \<subseteq> insert e (set xs)"
  by (induction xs) auto

lemma set_seq_del: "set (seq_del f n xs) \<subseteq> set xs"
  by (induction xs) auto

lemma seq_put_sorted: "seq_sorted f xs \<Longrightarrow> seq_sorted f (seq_put f e xs)"
proof (induction xs)
  case (Cons x xs)
  then show ?case using set_seq_put [of f e xs] by fastforce
qed simp

lemma seq_del_sorted: "seq_sorted f xs \<Longrightarrow> seq_sorted f (seq_del f n xs)"
proof (induction xs)
  case (Cons x xs)
  then show ?case using set_seq_del [of f n xs] by fastforce
qed simp

text \<open>Where the code finds the place by an index, the list is split there.\<close>

lemma seq_put_insert:
  "\<forall>x \<in> set as. f x < f e \<Longrightarrow> \<forall>x \<in> set bs. f e < f x \<Longrightarrow> seq_put f e (as @ bs) = as @ e # bs"
  by (induction as) (cases bs, auto)

lemma seq_put_replace:
  "\<forall>x \<in> set as. f x < f e \<Longrightarrow> f y = f e \<Longrightarrow> seq_put f e (as @ y # bs) = as @ e # bs"
  by (induction as) auto

lemma seq_del_split:
  "\<forall>x \<in> set as. f x < f y \<Longrightarrow> seq_del f (f y) (as @ y # bs) = as @ bs"
  by (induction as) auto

lemma seq_del_absent: "\<forall>x \<in> set xs. f x \<noteq> n \<Longrightarrow> seq_del f n xs = xs"
  by (induction xs) auto

lemma seq_split:
  assumes "seq_sorted f xs" and "i < length xs"
  shows "xs = take i xs @ xs ! i # drop (Suc i) xs"
    and "\<forall>x \<in> set (take i xs). f x < f (xs ! i)"
    and "\<forall>x \<in> set (drop (Suc i) xs). f (xs ! i) < f x"
proof -
  show e: "xs = take i xs @ xs ! i # drop (Suc i) xs" by (rule id_take_nth_drop [OF assms(2)])
  have "seq_sorted f (take i xs @ xs ! i # drop (Suc i) xs)" using assms(1) e by simp
  then show "\<forall>x \<in> set (take i xs). f x < f (xs ! i)" "\<forall>x \<in> set (drop (Suc i) xs). f (xs ! i) < f x"
    by auto
qed

lemma seq_map_simps [simp]:
  "seq_map f [] = Map.empty"
  "seq_map f (x # xs) = (seq_map f xs)(f x \<mapsto> x)"
  by (auto simp: seq_map_def fun_eq_iff)

lemma seq_map_SomeD: "seq_map f xs n = Some x \<Longrightarrow> x \<in> set xs \<and> f x = n"
  by (induction xs) (auto split: if_splits)

lemma seq_map_absent: "\<forall>x \<in> set xs. f x \<noteq> n \<Longrightarrow> seq_map f xs n = None"
  by (induction xs) auto

lemma seq_map_mem: "seq_sorted f xs \<Longrightarrow> x \<in> set xs \<Longrightarrow> seq_map f xs (f x) = Some x"
  by (induction xs) auto

lemma seq_map_Some_iff: "seq_sorted f xs \<Longrightarrow> seq_map f xs n = Some x \<longleftrightarrow> x \<in> set xs \<and> f x = n"
  using seq_map_SomeD seq_map_mem by fast

lemma seq_map_put: "seq_sorted f xs \<Longrightarrow> seq_map f (seq_put f e xs) = (seq_map f xs)(f e \<mapsto> e)"
  by (induction xs) (auto simp: fun_upd_twist)

lemma seq_map_del: "seq_sorted f xs \<Longrightarrow> seq_map f (seq_del f n xs) = (seq_map f xs)(n := None)"
proof (induction xs)
  case (Cons x xs)
  have "seq_map f xs (f x) = None" using Cons.prems by (intro seq_map_absent) auto
  then show ?case using Cons by (auto simp: fun_eq_iff)
qed simp

lemma seq_map_inject:
  assumes "seq_sorted f xs" and "seq_sorted f ys" and "seq_map f xs = seq_map f ys"
  shows "xs = ys"
proof -
  have "x \<in> set xs \<longleftrightarrow> x \<in> set ys" for x
    using seq_map_Some_iff [OF assms(1), of "f x" x] seq_map_Some_iff [OF assms(2), of "f x" x] assms(3)
    by simp
  then have "set xs = set ys" by blast
  moreover have "sorted_wrt (\<lambda>x y. f x < f y) xs" "sorted_wrt (\<lambda>x y. f x < f y) ys"
    using assms by (simp_all add: seq_sorted_def)
  ultimately show ?thesis
  proof (induction xs arbitrary: ys)
    case Nil
    then show ?case by simp
  next
    case (Cons x xs)
    then obtain y ys' where ys: "ys = y # ys'" by (cases ys) auto
    have xy: "x = y"
    proof (rule ccontr)
      assume "x \<noteq> y"
      then have "x \<in> set ys'" "y \<in> set xs" using Cons.prems(1) ys by auto
      then have "f y < f x" "f x < f y" using Cons.prems(2,3) ys by auto
      then show False by simp
    qed
    have "x \<notin> set xs" "y \<notin> set ys'" using Cons.prems(2,3) ys by auto
    then have "set xs = set ys'" using Cons.prems(1) ys xy by auto
    then show ?case using Cons ys xy by auto
  qed
qed

section \<open>First match\<close>

lemma find_SomeD: "find P xs = Some e \<Longrightarrow> e \<in> set xs \<and> P e"
  by (induction xs) (auto split: if_splits)

lemma find_NoneD: "find P xs = None \<Longrightarrow> \<forall>x \<in> set xs. \<not> P x"
  by (induction xs) (auto split: if_splits)

definition lowest :: "('e \<Rightarrow> nat) \<Rightarrow> 'e set \<Rightarrow> 'e option \<Rightarrow> bool" where
  "lowest f S r = (case r of None \<Rightarrow> S = {} | Some e \<Rightarrow> e \<in> S \<and> (\<forall>x \<in> S. f e \<le> f x))"

lemma lowest_find: "seq_sorted f xs \<Longrightarrow> lowest f {x \<in> set xs. P x} (find P xs)"
proof (induction xs)
  case (Cons x xs)
  then have "lowest f {x \<in> set xs. P x} (find P xs)" by simp
  then show ?case using Cons.prems by (auto simp: lowest_def intro: less_imp_le split: option.splits)
qed (simp add: lowest_def)

lemma lowest_unique:
  assumes "seq_sorted f xs" and "lowest f {x \<in> set xs. P x} r"
  shows "r = find P xs"
proof -
  note F = lowest_find [OF assms(1), of P]
  show ?thesis
  proof (cases r)
    case None
    then show ?thesis using assms(2) F by (auto simp: lowest_def split: option.splits)
  next
    case (Some e)
    then obtain e' where e': "find P xs = Some e'"
      using assms(2) F by (auto simp: lowest_def split: option.splits)
    then have "f e = f e'" using assms(2) F Some by (auto simp: lowest_def intro: antisym)
    moreover have "e \<in> set xs" "e' \<in> set xs" using assms(2) F Some e' by (auto simp: lowest_def)
    ultimately have "e = e'" using seq_map_Some_iff [OF assms(1)] by (metis option.inject)
    then show ?thesis using Some e' by simp
  qed
qed

text \<open>
  The contract of a filter: its entries are in sequence order, and its verdict on a candidate is
  the action of the first that admits it, or "no match".
\<close>

locale ordered_filter =
  fixes entries :: "'s \<Rightarrow> 'e list"
    and seqno :: "'e \<Rightarrow> nat"
    and admits :: "'e \<Rightarrow> 'c \<Rightarrow> bool"
    and action :: "'e \<Rightarrow> nat"
    and verdict :: "'s \<Rightarrow> 'c \<Rightarrow> int"
    and inv :: "'s \<Rightarrow> bool"
  assumes in_order: "inv s \<Longrightarrow> seq_sorted seqno (entries s)"
    and first_match: "inv s \<Longrightarrow>
      verdict s c = (case find (\<lambda>e. admits e c) (entries s) of None \<Rightarrow> -1 | Some e \<Rightarrow> int (action e))"
begin

lemma verdict_iff:
  assumes "inv s" and "0 \<le> v"
  shows "verdict s c = v \<longleftrightarrow> (\<exists>e \<in> set (entries s). admits e c \<and> int (action e) = v
    \<and> (\<forall>x \<in> set (entries s). admits x c \<longrightarrow> seqno e \<le> seqno x))"
proof -
  note S = in_order [OF assms(1)]
  show ?thesis
  proof (cases "find (\<lambda>e. admits e c) (entries s)")
    case None
    then have "verdict s c = -1" using first_match [OF assms(1), of c] by simp
    moreover note find_NoneD [OF None]
    ultimately show ?thesis using assms(2) by auto
  next
    case (Some e)
    have v: "verdict s c = int (action e)" using first_match [OF assms(1), of c] Some by simp
    have e: "e \<in> set (entries s)" "admits e c" "\<forall>x \<in> set (entries s). admits x c \<longrightarrow> seqno e \<le> seqno x"
      using lowest_find [OF S, of "\<lambda>e. admits e c"] Some by (auto simp: lowest_def)
    have same: "e' = e" if "e' \<in> set (entries s)" "admits e' c"
      "\<forall>x \<in> set (entries s). admits x c \<longrightarrow> seqno e' \<le> seqno x" for e'
    proof -
      have "lowest seqno {x \<in> set (entries s). admits x c} (Some e')" using that by (simp add: lowest_def)
      from lowest_unique [OF S this] Some show ?thesis by simp
    qed
    show ?thesis
    proof
      assume "verdict s c = v"
      then have "int (action e) = v" using v by simp
      then show "\<exists>e \<in> set (entries s). admits e c \<and> int (action e) = v
          \<and> (\<forall>x \<in> set (entries s). admits x c \<longrightarrow> seqno e \<le> seqno x)"
        using e by (intro bexI [of _ e] conjI)
    next
      assume "\<exists>e \<in> set (entries s). admits e c \<and> int (action e) = v
          \<and> (\<forall>x \<in> set (entries s). admits x c \<longrightarrow> seqno e \<le> seqno x)"
      then obtain e' where e': "e' \<in> set (entries s)" "admits e' c" "int (action e') = v"
        "\<forall>x \<in> set (entries s). admits x c \<longrightarrow> seqno e' \<le> seqno x" by blast
      have "e' = e" by (rule same [OF e'(1,2,4)])
      with e'(3) v show "verdict s c = v" by simp
    qed
  qed
qed

lemma no_match_iff:
  assumes "inv s"
  shows "verdict s c = -1 \<longleftrightarrow> (\<forall>e \<in> set (entries s). \<not> admits e c)"
proof (cases "find (\<lambda>e. admits e c) (entries s)")
  case None
  then show ?thesis using first_match [OF assms, of c] find_NoneD [OF None] by simp
next
  case (Some e)
  then show ?thesis using first_match [OF assms, of c] find_SomeD [OF Some] by auto
qed

text \<open>The same over the map from sequence numbers to entries, which is what a configuration is.\<close>

lemma verdict_config:
  assumes "inv s" and "seq_map seqno (entries s) n = Some e" and "admits e c"
    and "\<And>n' e'. seq_map seqno (entries s) n' = Some e' \<Longrightarrow> admits e' c \<Longrightarrow> n \<le> n'"
  shows "verdict s c = int (action e)"
proof -
  note S = in_order [OF assms(1)]
  have e: "e \<in> set (entries s)" "seqno e = n" using seq_map_SomeD [OF assms(2)] by auto
  have "lowest seqno {x \<in> set (entries s). admits x c} (Some e)"
    using e assms(3,4) seq_map_mem [OF S] by (auto simp: lowest_def)
  then have "find (\<lambda>e. admits e c) (entries s) = Some e" using lowest_unique [OF S] by metis
  then show ?thesis using first_match [OF assms(1), of c] by simp
qed

lemma no_match_config:
  assumes "inv s"
  shows "verdict s c = -1 \<longleftrightarrow> (\<forall>n e. seq_map seqno (entries s) n = Some e \<longrightarrow> \<not> admits e c)"
  using no_match_iff [OF assms, of c] seq_map_SomeD seq_map_mem [OF in_order [OF assms]] by metis

end

end
