(* ===== verification/PrefixListProps.thy ===== *)
theory PrefixListProps
  imports PrefixList SeqList
begin

text \<open>
  The prefix-list of \<open>PrefixList\<close> is an ordered filter: its entries and its index by prefix agree
  after every operation, the binary search finds the place of a sequence number, and one descent
  of the trie gives the verdict of a scan of the whole list.
\<close>

section \<open>The binary search\<close>

lemma index_loop_spec:
  assumes "seq_sorted ple_seq es" and "lo \<le> hi" and "hi \<le> length es"
    and "\<forall>i < lo. ple_seq (es ! i) < n" and "\<forall>i < length es. hi \<le> i \<longrightarrow> n < ple_seq (es ! i)"
  shows "(\<exists>i < length es. index_loop es n lo hi = int i \<and> ple_seq (es ! i) = n)
    \<or> (\<exists>i \<le> length es. index_loop es n lo hi = - 1 - int i
        \<and> (\<forall>j < i. ple_seq (es ! j) < n) \<and> (\<forall>j < length es. i \<le> j \<longrightarrow> n < ple_seq (es ! j)))"
  using assms
proof (induction es n lo hi rule: index_loop.induct)
  case (1 es n lo hi)
  have mono: "ple_seq (es ! i) < ple_seq (es ! j)" if "i < j" "j < length es" for i j
    using "1.prems"(1) that by (simp add: seq_sorted_def sorted_wrt_iff_nth_less)
  show ?case
  proof (cases "lo < hi")
    case False
    then show ?thesis using "1.prems" by (intro disjI2 exI [of _ lo]) (simp add: index_loop.simps)
  next
    case True
    define mid where "mid = (lo + hi) div 2"
    have mid: "lo \<le> mid" "mid < hi" using True by (auto simp: mid_def)
    have step: "index_loop es n lo hi =
        (if ple_seq (es ! mid) = n then int mid
         else if ple_seq (es ! mid) < n then index_loop es n (mid + 1) hi else index_loop es n lo mid)"
      using True by (subst index_loop.simps) (simp add: mid_def Let_def)
    consider "ple_seq (es ! mid) = n" | "ple_seq (es ! mid) < n" | "n < ple_seq (es ! mid)" by linarith
    then show ?thesis
    proof cases
      case 1
      then show ?thesis using step mid "1.prems"(3) by (intro disjI1 exI [of _ mid]) simp
    next
      case 2
      have "\<forall>i < mid + 1. ple_seq (es ! i) < n"
      proof (intro allI impI)
        fix i assume "i < mid + 1"
        then show "ple_seq (es ! i) < n" using mono [of i mid] 2 mid "1.prems"(3) by (cases "i = mid") auto
      qed
      then show ?thesis
        using "1.IH"(1) [OF True mid_def refl] 2 step mid "1.prems" by simp
    next
      case 3
      have "\<forall>i < length es. mid \<le> i \<longrightarrow> n < ple_seq (es ! i)"
      proof (intro allI impI)
        fix i assume "i < length es" "mid \<le> i"
        then show "n < ple_seq (es ! i)" using mono [of mid i] 3 by (cases "i = mid") auto
      qed
      moreover have "index_loop es n lo hi = index_loop es n lo mid" using step 3 by auto
      ultimately show ?thesis
        using "1.IH"(2) [OF True mid_def refl] 3 mid "1.prems" by simp
    qed
  qed
qed

lemma index_of_cases:
  assumes "seq_sorted ple_seq (pl_entries l)"
  obtains (found) i where "i < length (pl_entries l)" "index_of n l = int i" "ple_seq (pl_entries l ! i) = n"
  | (absent) i where "i \<le> length (pl_entries l)" "index_of n l = - 1 - int i"
      "\<forall>x \<in> set (take i (pl_entries l)). ple_seq x < n" "\<forall>x \<in> set (drop i (pl_entries l)). n < ple_seq x"
proof -
  have "(\<exists>i < length (pl_entries l). index_of n l = int i \<and> ple_seq (pl_entries l ! i) = n)
    \<or> (\<exists>i \<le> length (pl_entries l). index_of n l = - 1 - int i
        \<and> (\<forall>j < i. ple_seq (pl_entries l ! j) < n)
        \<and> (\<forall>j < length (pl_entries l). i \<le> j \<longrightarrow> n < ple_seq (pl_entries l ! j)))"
    unfolding index_of_def by (rule index_loop_spec [OF assms]) auto
  then show thesis
  proof (elim disjE exE conjE)
    fix i assume "i < length (pl_entries l)" "index_of n l = int i" "ple_seq (pl_entries l ! i) = n"
    then show thesis by (rule found)
  next
    fix i assume i: "i \<le> length (pl_entries l)" "index_of n l = - 1 - int i"
      and below: "\<forall>j < i. ple_seq (pl_entries l ! j) < n"
      and above: "\<forall>j < length (pl_entries l). i \<le> j \<longrightarrow> n < ple_seq (pl_entries l ! j)"
    show thesis
    proof (rule absent [OF i])
      show "\<forall>x \<in> set (take i (pl_entries l)). ple_seq x < n"
        using below by (auto simp: in_set_conv_nth)
      show "\<forall>x \<in> set (drop i (pl_entries l)). n < ple_seq x"
        using above by (auto simp: in_set_conv_nth)
    qed
  qed
qed

section \<open>The index by prefix\<close>

definition ple_key :: "ple \<Rightarrow> key" where
  "ple_key e = pbits (ple_prefix e)"

definition bucket_of :: "ple list \<Rightarrow> key \<Rightarrow> ple list option" where
  "bucket_of es k = (case filter (\<lambda>e. ple_key e = k) es of [] \<Rightarrow> None | b \<Rightarrow> Some b)"

lemma bucket_of_eq: "filter (\<lambda>e. ple_key e = k) es = b \<Longrightarrow> b \<noteq> [] \<Longrightarrow> bucket_of es k = Some b"
  by (auto simp: bucket_of_def split: list.splits)

lemma bucket_of_None: "filter (\<lambda>e. ple_key e = k) es = [] \<Longrightarrow> bucket_of es k = None"
  by (simp add: bucket_of_def)

lemma bucket_of_Some: "bucket_of es k = Some b \<longleftrightarrow> b = filter (\<lambda>e. ple_key e = k) es \<and> b \<noteq> []"
  by (auto simp: bucket_of_def split: list.splits)

definition indexed :: "ple list trie \<Rightarrow> ple list \<Rightarrow> bool" where
  "indexed t es \<longleftrightarrow> trie_wf t \<and> (\<forall>k. node_exact t k = bucket_of es k)"

lemma file_bucket_split:
  "\<forall>x \<in> set as. ple_seq x < ple_seq e \<Longrightarrow> \<forall>x \<in> set bs. ple_seq e < ple_seq x \<Longrightarrow>
   file_bucket e (as @ bs) = as @ e # bs"
  by (induction as) (cases bs, auto)

lemma unfile_bucket_split:
  "\<forall>x \<in> set as. ple_oid x \<noteq> ple_oid e \<Longrightarrow> unfile_bucket e (as @ e # bs) = as @ bs"
  by (induction as) auto

lemma pl_file_indexed:
  assumes "indexed (pl_trie l) (as @ bs)"
    and "\<forall>x \<in> set as. ple_seq x < ple_seq e" and "\<forall>x \<in> set bs. ple_seq e < ple_seq x"
  shows "indexed (pl_trie (pl_file e l)) (as @ e # bs)" "pl_file e l = l\<lparr>pl_trie := pl_trie (pl_file e l)\<rparr>"
proof -
  let ?k = "ple_key e"
  have T: "trie_wf (pl_trie l)" "\<And>k. node_exact (pl_trie l) k = bucket_of (as @ bs) k"
    using assms(1) by (auto simp: indexed_def)
  define b where "b = (case node_exact (pl_trie l) ?k of None \<Rightarrow> [e] | Some b \<Rightarrow> file_bucket e b)"
  have f: "pl_file e l = l\<lparr>pl_trie := trie_insert ?k b (pl_trie l)\<rparr>"
    by (simp add: pl_file_def b_def ple_key_def Let_def split: option.splits)
  then show "pl_file e l = l\<lparr>pl_trie := pl_trie (pl_file e l)\<rparr>" by simp
  have "b = filter (\<lambda>x. ple_key x = ?k) (as @ e # bs)"
  proof (cases "filter (\<lambda>x. ple_key x = ?k) (as @ bs) = []")
    case True
    then show ?thesis using T(2) [of ?k] by (simp add: b_def bucket_of_None)
  next
    case False
    then have "node_exact (pl_trie l) ?k = Some (filter (\<lambda>x. ple_key x = ?k) (as @ bs))"
      using T(2) [of ?k] bucket_of_eq by metis
    then show ?thesis
      using file_bucket_split [of "filter (\<lambda>x. ple_key x = ?k) as" e "filter (\<lambda>x. ple_key x = ?k) bs"] assms(2,3)
      by (simp add: b_def)
  qed
  then have "node_exact (trie_insert ?k b (pl_trie l)) k = bucket_of (as @ e # bs) k" for k
  proof (cases "k = ?k")
    case True
    assume "b = filter (\<lambda>x. ple_key x = ?k) (as @ e # bs)"
    then have "bucket_of (as @ e # bs) ?k = Some b" by (auto simp: bucket_of_Some)
    then show ?thesis using True by (simp add: trie.get_put [OF T(1)])
  next
    case False
    then show ?thesis by (auto simp: trie.get_put [OF T(1)] T(2) bucket_of_def)
  qed
  then show "indexed (pl_trie (pl_file e l)) (as @ e # bs)"
    by (simp add: f indexed_def trie.inv_put [OF T(1)])
qed

lemma pl_unfile_indexed:
  assumes "indexed (pl_trie l) (as @ e # bs)" and "\<forall>x \<in> set as. ple_oid x \<noteq> ple_oid e"
  shows "indexed (pl_trie (pl_unfile e l)) (as @ bs)" "pl_unfile e l = l\<lparr>pl_trie := pl_trie (pl_unfile e l)\<rparr>"
proof -
  let ?k = "ple_key e" and ?f = "\<lambda>xs. filter (\<lambda>x. ple_key x = ple_key e) xs"
  have T: "trie_wf (pl_trie l)" "\<And>k. node_exact (pl_trie l) k = bucket_of (as @ e # bs) k"
    using assms(1) by (auto simp: indexed_def)
  have "node_exact (pl_trie l) ?k = Some (?f as @ e # ?f bs)"
    unfolding T(2) by (simp add: bucket_of_Some)
  moreover have "unfile_bucket e (?f as @ e # ?f bs) = ?f as @ ?f bs"
    using assms(2) by (intro unfile_bucket_split) auto
  ultimately have f: "pl_unfile e l = l\<lparr>pl_trie :=
      (if ?f (as @ bs) = [] then trie_remove ?k (pl_trie l) else trie_insert ?k (?f (as @ bs)) (pl_trie l))\<rparr>"
    by (simp add: pl_unfile_def ple_key_def Let_def)
  then show "pl_unfile e l = l\<lparr>pl_trie := pl_trie (pl_unfile e l)\<rparr>" by simp
  have other: "bucket_of (as @ bs) k = bucket_of (as @ e # bs) k" if "k \<noteq> ?k" for k
    using that by (auto simp: bucket_of_def)
  show "indexed (pl_trie (pl_unfile e l)) (as @ bs)"
  proof (cases "?f (as @ bs) = []")
    case True
    then show ?thesis using other T(2) bucket_of_None [OF True]
      by (simp add: f indexed_def trie.inv_del [OF T(1)] trie.get_del [OF T(1)])
  next
    case False
    then show ?thesis using other T(2) bucket_of_eq [OF refl False]
      by (simp only: f indexed_def) (auto simp: trie.inv_put [OF T(1)] trie.get_put [OF T(1)])
  qed
qed


section \<open>The invariant\<close>

definition ple_ok :: "prefix_list \<Rightarrow> ple \<Rightarrow> bool" where
  "ple_ok l e \<longleftrightarrow> pafi (ple_prefix e) = pl_afi l \<and> ple_action e \<in> {ACTION_DENY, ACTION_PERMIT}
    \<and> plen (ple_prefix e) \<le> ple_lo e \<and> ple_lo e \<le> ple_hi e \<and> ple_seq e \<le> 0xffffffff \<and> ple_oid e < pl_made l"

definition pl_inv :: "prefix_list \<Rightarrow> bool" where
  "pl_inv l \<longleftrightarrow> seq_sorted ple_seq (pl_entries l) \<and> distinct (map ple_oid (pl_entries l))
    \<and> (\<forall>e \<in> set (pl_entries l). ple_ok l e) \<and> indexed (pl_trie l) (pl_entries l)"

lemma pl_invD:
  assumes "pl_inv l"
  shows "seq_sorted ple_seq (pl_entries l)" "distinct (map ple_oid (pl_entries l))"
    "e \<in> set (pl_entries l) \<Longrightarrow> ple_ok l e" "indexed (pl_trie l) (pl_entries l)"
  using assms by (auto simp: pl_inv_def)

text \<open>What one line of a configuration turns into.\<close>

lemma new_ple_spec:
  assumes "new_ple pton oid seq action pfx le ge = Inr e"
  shows "ple_oid e = oid" "ple_action e \<in> {ACTION_DENY, ACTION_PERMIT}" "ple_seq e \<le> 0xffffffff"
    "plen (ple_prefix e) \<le> ple_lo e \<and> ple_lo e \<le> ple_hi e"
  using assms
  by (auto simp: new_ple_def bind_res_Inr_iff Let_def coerce_bound_def seq_number_def action_id_def ACTION_IDS_def
      split: if_splits pyval.splits)


lemma pl_inv_made: "pl_inv l \<Longrightarrow> pl_inv (l\<lparr>pl_made := pl_made l + 1\<rparr>)"
  by (auto simp: pl_inv_def ple_ok_def)

lemma oids_before:
  assumes "distinct (map ple_oid (as @ e # bs))"
  shows "\<forall>x \<in> set as. ple_oid x \<noteq> ple_oid e"
  using assms by (auto simp: image_iff)

definition pl_store :: "ple \<Rightarrow> prefix_list \<Rightarrow> prefix_list" where
  "pl_store entry l =
    (let index = index_of (ple_seq entry) l;
         l1 = (if index \<ge> 0 then
                 (let l' = pl_unfile (pl_entries l ! nat index) l
                  in l'\<lparr>pl_entries := (pl_entries l')[nat index := entry]\<rparr>)
               else l\<lparr>pl_entries := pl_insert (nat (- 1 - index)) entry (pl_entries l)\<rparr>)
     in pl_file entry l1)"

lemma pl_add_alt: "pl_add pton seq action pfx le ge l0 =
    (case new_ple pton (pl_made l0) seq action pfx le ge of
       Inl e \<Rightarrow> (l0, Inl e)
     | Inr entry \<Rightarrow>
         let l = l0\<lparr>pl_made := pl_made l0 + 1\<rparr> in
         if pafi (ple_prefix entry) \<noteq> pl_afi l
         then (l, Inl (ValueError ''not in the address family of the prefix-list''))
         else (let l2 = pl_store entry l in (l2\<lparr>pl_version := pl_version l2 + 1\<rparr>, Inr entry)))"
  by (simp only: pl_add_def pl_store_def Let_def)

lemma pl_store_spec:
  assumes "seq_sorted ple_seq (pl_entries l)" and "distinct (map ple_oid (pl_entries l))"
    and "indexed (pl_trie l) (pl_entries l)"
  shows "pl_store e l = l\<lparr>pl_trie := pl_trie (pl_store e l), pl_entries := seq_put ple_seq e (pl_entries l)\<rparr>"
    "indexed (pl_trie (pl_store e l)) (seq_put ple_seq e (pl_entries l))"
proof -
  let ?es = "pl_entries l"
  have "pl_store e l = l\<lparr>pl_trie := pl_trie (pl_store e l), pl_entries := seq_put ple_seq e ?es\<rparr>
    \<and> indexed (pl_trie (pl_store e l)) (seq_put ple_seq e ?es)"
    using assms(1)
  proof (cases rule: index_of_cases [where n = "ple_seq e"])
    case (found i)
    let ?as = "take i ?es" and ?bs = "drop (Suc i) ?es"
    note S = seq_split [OF assms(1) found(1)]
    have put: "seq_put ple_seq e ?es = ?as @ e # ?bs"
      using seq_put_replace [of ?as ple_seq e "?es ! i" ?bs] S(1,2) found(3) by simp
    have ix: "indexed (pl_trie l) (?as @ ?es ! i # ?bs)" using assms(3) S(1) by simp
    have "\<forall>x \<in> set ?as. ple_oid x \<noteq> ple_oid (?es ! i)"
      using assms(2) S(1) by (intro oids_before [of ?as _ ?bs]) simp
    note U = pl_unfile_indexed [OF ix this]
    define l1 where "l1 = (pl_unfile (?es ! i) l)\<lparr>pl_entries := ?es[i := e]\<rparr>"
    have "pl_entries (pl_unfile (?es ! i) l) = ?es" by (subst U(2)) simp
    then have st: "pl_store e l = pl_file e l1" using found by (simp add: pl_store_def l1_def)
    have "indexed (pl_trie l1) (?as @ ?bs)" using U(1) by (simp add: l1_def)
    note F = pl_file_indexed [OF this, of e]
    have l1: "l1 = l\<lparr>pl_trie := pl_trie l1, pl_entries := ?es[i := e]\<rparr>"
      unfolding l1_def by (subst U(2)) simp
    have "?es[i := e] = ?as @ e # ?bs" by (rule upd_conv_take_nth_drop [OF found(1)])
    then have T: "l1\<lparr>pl_trie := t\<rparr> = l\<lparr>pl_trie := t, pl_entries := ?as @ e # ?bs\<rparr>" for t
      by (subst l1) simp
    have "pl_file e l1 = l1\<lparr>pl_trie := pl_trie (pl_file e l1)\<rparr>"
      "indexed (pl_trie (pl_file e l1)) (?as @ e # ?bs)"
      using F S(2,3) found(3) by auto
    then show ?thesis unfolding st put T [symmetric] by simp
  next
    case (absent i)
    let ?as = "take i ?es" and ?bs = "drop i ?es"
    have put: "seq_put ple_seq e ?es = ?as @ e # ?bs"
      using seq_put_insert [OF absent(3,4)] by simp
    define l1 where "l1 = l\<lparr>pl_entries := ?as @ e # ?bs\<rparr>"
    have st: "pl_store e l = pl_file e l1" using absent(2) by (simp add: pl_store_def l1_def pl_insert_def)
    have "indexed (pl_trie l1) (?as @ ?bs)" using assms(3) by (simp add: l1_def)
    note F = pl_file_indexed [OF this absent(3,4)]
    have T: "l1\<lparr>pl_trie := t\<rparr> = l\<lparr>pl_trie := t, pl_entries := ?as @ e # ?bs\<rparr>" for t
      by (simp add: l1_def)
    show ?thesis unfolding st put T [symmetric] using F by simp
  qed
  then show "pl_store e l = l\<lparr>pl_trie := pl_trie (pl_store e l), pl_entries := seq_put ple_seq e ?es\<rparr>"
    "indexed (pl_trie (pl_store e l)) (seq_put ple_seq e ?es)" by simp_all
qed


section \<open>The descent\<close>

definition ple_admits :: "ple \<Rightarrow> prefix \<Rightarrow> bool" where
  "ple_admits e p \<longleftrightarrow> contains (ple_prefix e) p \<and> ple_lo e \<le> plen p \<and> plen p \<le> ple_hi e"

text \<open>The entries below a trie that lie on the path to a key and admit its length.\<close>

definition on_path :: "(key \<times> ple list) set \<Rightarrow> key \<Rightarrow> ple set" where
  "on_path items k = {e. \<exists>q b. (q, b) \<in> items \<and> Sublist.prefix q k \<and> e \<in> set b
     \<and> ple_lo e \<le> length k \<and> length k \<le> ple_hi e}"

lemma bucket_pick_lowest:
  assumes "seq_sorted ple_seq b" and "lowest ple_seq S best"
  shows "lowest ple_seq (S \<union> {e \<in> set b. ple_lo e \<le> n \<and> n \<le> ple_hi e}) (bucket_pick n best b)"
  using assms(1)
proof (induction b)
  case Nil
  then show ?case using assms(2) by simp
next
  case (Cons e es)
  show ?case
  proof (cases "ple_lo e \<le> n \<and> n \<le> ple_hi e")
    case True
    then show ?thesis using assms(2) Cons.prems
      by (auto simp: lowest_def split: option.splits)
  next
    case False
    then have "{x \<in> set (e # es). ple_lo x \<le> n \<and> n \<le> ple_hi x} = {x \<in> set es. ple_lo x \<le> n \<and> n \<le> ple_hi x}"
      by auto
    moreover have "bucket_pick n best (e # es) = bucket_pick n best es" using False by auto
    moreover have "lowest ple_seq (S \<union> {x \<in> set es. ple_lo x \<le> n \<and> n \<le> ple_hi x}) (bucket_pick n best es)"
      using Cons by simp
    ultimately show ?thesis by (simp only:)
  qed
qed

lemma on_path_Node:
  assumes "trie_wf (Node p v l r)" and "Sublist.prefix p k"
  shows "on_path (set (trie_items (Node p v l r))) k =
    (case v of None \<Rightarrow> {} | Some b \<Rightarrow> {e \<in> set b. ple_lo e \<le> length k \<and> length k \<le> ple_hi e})
    \<union> (if p = k then {} else on_path (set (trie_items (if k ! length p then r else l))) k)" (is "?L = ?V \<union> ?R")
proof
  show "?L \<subseteq> ?V \<union> ?R"
  proof
    fix e assume "e \<in> ?L"
    then obtain q b where q: "(q, b) \<in> set (trie_items (Node p v l r))" "Sublist.prefix q k" "e \<in> set b"
      "ple_lo e \<le> length k" "length k \<le> ple_hi e" by (auto simp: on_path_def)
    have B: "Sublist.prefix p q \<and>
      (q = p \<and> v = Some b \<or> q \<noteq> p \<and> (q, b) \<in> set (trie_items (if q ! length p then r else l)))"
      by (rule items_Node_below [OF assms(1) q(1)])
    show "e \<in> ?V \<union> ?R"
    proof (cases "q = p")
      case True
      then have "v = Some b" using B by simp
      then show ?thesis using q by simp
    next
      case False
      have "Sublist.prefix q k" by (rule q(2))
      then have "length p < length q" "p \<noteq> k" "q ! length p = k ! length p"
        using B False by (auto simp: prefix_def nth_append)
      then show ?thesis using B False q by (auto simp: on_path_def)
    qed
  qed
  show "?V \<union> ?R \<subseteq> ?L" using assms(2)
    by (auto simp: on_path_def split: option.splits if_splits)
qed

lemma on_path_off:
  assumes "trie_wf (Node p v l r)" and "\<not> Sublist.prefix p k"
  shows "on_path (set (trie_items (Node p v l r))) k = {}"
  using items_Node_below [OF assms(1)] assms(2) prefix_order.trans
  by (fastforce simp: on_path_def simp del: trie_items.simps)

lemma lookup_walk_lowest:
  assumes "trie_wf t" and "\<forall>(q, b) \<in> set (trie_items t). seq_sorted ple_seq b" and "lowest ple_seq S best"
  shows "lowest ple_seq (S \<union> on_path (set (trie_items t)) k) (lookup_walk t k best)"
  using assms
proof (induction t k best arbitrary: S rule: lookup_walk.induct)
  case (1 k best)
  then show ?case by (simp add: on_path_def)
next
  case (2 p v l r k best)
  show ?case
  proof (cases "Sublist.prefix p k")
    case False
    then have "lookup_walk (Node p v l r) k best = best" using walk_guard [of p k] by auto
    then show ?thesis using on_path_off [OF "2.prems"(1) False] "2.prems"(3) by simp
  next
    case True
    then have g: "length p \<le> length k" "pfx_match p k" using walk_guard by auto
    define best' where "best' = (case v of None \<Rightarrow> best | Some bucket \<Rightarrow> bucket_pick (length k) best bucket)"
    let ?V = "case v of None \<Rightarrow> {} | Some b \<Rightarrow> {e \<in> set b. ple_lo e \<le> length k \<and> length k \<le> ple_hi e}"
    have b': "lowest ple_seq (S \<union> ?V) best'"
      using "2.prems"(2,3) by (auto simp: best'_def bucket_pick_lowest split: option.splits)
    have W: "trie_wf l" "trie_wf r" "\<forall>(q, b) \<in> set (trie_items l). seq_sorted ple_seq b"
      "\<forall>(q, b) \<in> set (trie_items r). seq_sorted ple_seq b"
      using "2.prems"(1,2) by auto
    show ?thesis
    proof (cases "length p = length k")
      case eq: True
      then have "p = k" using prefix_same_length [OF True] by simp
      then show ?thesis using b' g eq on_path_Node [OF "2.prems"(1) True]
        by (simp add: best'_def del: trie_items.simps)
    next
      case neq: False
      then have "p \<noteq> k" by auto
      then have P: "S \<union> on_path (set (trie_items (Node p v l r))) k =
        (S \<union> ?V) \<union> on_path (set (trie_items (if k ! length p then r else l))) k"
        using on_path_Node [OF "2.prems"(1) True] by (simp add: Un_assoc del: trie_items.simps)
      show ?thesis unfolding P using "2.IH" g neq b' W
        by (cases "k ! length p") (simp_all add: best'_def [symmetric])
    qed
  qed
qed


lemma indexed_items:
  assumes "indexed t es" and "(q, b) \<in> set (trie_items t)"
  shows "b = filter (\<lambda>e. ple_key e = q) es"
  using assms node_exact_items [of t q b] by (auto simp: indexed_def bucket_of_Some)

lemma indexed_on_path:
  assumes "indexed t es"
  shows "on_path (set (trie_items t)) k =
    {e \<in> set es. Sublist.prefix (ple_key e) k \<and> ple_lo e \<le> length k \<and> length k \<le> ple_hi e}" (is "?L = ?R")
proof
  show "?L \<subseteq> ?R" using indexed_items [OF assms] by (fastforce simp: on_path_def)
  show "?R \<subseteq> ?L"
  proof
    fix e assume e: "e \<in> ?R"
    let ?b = "filter (\<lambda>x. ple_key x = ple_key e) es"
    have "e \<in> set ?b" using e by simp
    then have "?b \<noteq> []" by (cases ?b) auto
    then have "node_exact t (ple_key e) = Some ?b"
      using assms by (simp add: indexed_def bucket_of_Some)
    then have "(ple_key e, ?b) \<in> set (trie_items t)"
      using assms by (simp add: indexed_def node_exact_items [symmetric])
    then show "e \<in> ?L" using e \<open>e \<in> set ?b\<close> unfolding on_path_def by blast
  qed
qed

lemma ple_admits_path:
  "pafi (ple_prefix e) = pafi p \<Longrightarrow>
   ple_admits e p \<longleftrightarrow> Sublist.prefix (ple_key e) (pbits p) \<and> ple_lo e \<le> length (pbits p) \<and> length (pbits p) \<le> ple_hi e"
  using walk_guard [of "ple_key e" "pbits p"]
  by (auto simp: ple_admits_def contains_def plen_def ple_key_def not_less)

lemma pl_lookup_find:
  assumes "pl_inv l" and "pafi p = pl_afi l"
  shows "pl_lookup p l = find (\<lambda>e. ple_admits e p) (pl_entries l)"
proof (rule lowest_unique [OF pl_invD(1) [OF assms(1)]])
  note ix = pl_invD(4) [OF assms(1)]
  have "\<forall>(q, b) \<in> set (trie_items (pl_trie l)). seq_sorted ple_seq b"
    using indexed_items [OF ix] pl_invD(1) [OF assms(1)] by fastforce
  then have "lowest ple_seq ({} \<union> on_path (set (trie_items (pl_trie l))) (pbits p)) (pl_lookup p l)"
    unfolding pl_lookup_def using ix by (intro lookup_walk_lowest) (auto simp: indexed_def lowest_def)
  moreover have "on_path (set (trie_items (pl_trie l))) (pbits p) = {e \<in> set (pl_entries l). ple_admits e p}"
    unfolding indexed_on_path [OF ix]
    using ple_admits_path pl_invD(3) [OF assms(1)] assms(2) by (auto simp: ple_ok_def)
  ultimately show "lowest ple_seq {e \<in> set (pl_entries l). ple_admits e p} (pl_lookup p l)" by simp
qed

section \<open>Runs\<close>

datatype pl_op = PlAdd pyval pyval prefix_value pyval pyval | PlRemove pyval | PlClear | PlEvaluate prefix_value

fun pl_step :: "pton \<Rightarrow> prefix_list \<Rightarrow> pl_op \<Rightarrow> prefix_list" where
  "pl_step pton l (PlAdd seq a p le ge) = fst (pl_add pton seq a p le ge l)"
| "pl_step pton l (PlRemove seq) = fst (pl_remove seq l)"
| "pl_step pton l PlClear = fst (pl_clear l)"
| "pl_step pton l (PlEvaluate p) = fst (pl_evaluate p l)"

text \<open>The configuration that the same operations leave: the last line for each sequence number.\<close>

definition ple_line :: "ple \<Rightarrow> ple" where
  "ple_line e = e\<lparr>ple_oid := 0\<rparr>"

fun cfg_step :: "pton \<Rightarrow> nat \<Rightarrow> (nat \<rightharpoonup> ple) \<Rightarrow> pl_op \<Rightarrow> (nat \<rightharpoonup> ple)" where
  "cfg_step pton afi m (PlAdd seq a p le ge) =
     (case new_ple pton 0 seq a p le ge of
        Inl _ \<Rightarrow> m
      | Inr e \<Rightarrow> if pafi (ple_prefix e) \<noteq> afi then m else m(ple_seq e \<mapsto> e))"
| "cfg_step pton afi m (PlRemove seq) = (case seq_number seq of Inl _ \<Rightarrow> m | Inr n \<Rightarrow> m(n := None))"
| "cfg_step pton afi m PlClear = Map.empty"
| "cfg_step pton afi m (PlEvaluate p) = m"

lemma new_ple_oid: "new_ple pton oid seq a p le ge = map_sum id (\<lambda>e. e\<lparr>ple_oid := oid\<rparr>) (new_ple pton 0 seq a p le ge)"
  by (simp add: new_ple_def bind_res_def Let_def split: sum.splits)

lemma ple_line_simps [simp]:
  "ple_seq (ple_line e) = ple_seq e" "ple_action (ple_line e) = ple_action e"
  "ple_prefix (ple_line e) = ple_prefix e" "ple_admits (ple_line e) p = ple_admits e p"
  by (simp_all add: ple_line_def ple_admits_def)

definition pl_config :: "prefix_list \<Rightarrow> nat \<rightharpoonup> ple" where
  "pl_config l n = map_option ple_line (seq_map ple_seq (pl_entries l) n)"

lemma distinct_seq_put:
  "distinct (map ple_oid xs) \<Longrightarrow> \<forall>x \<in> set xs. ple_oid x \<noteq> ple_oid e \<Longrightarrow>
   distinct (map ple_oid (seq_put ple_seq e xs))"
proof (induction xs)
  case (Cons x xs)
  then show ?case using set_seq_put [of ple_seq e xs] by auto
qed simp

lemma distinct_seq_del: "distinct (map ple_oid xs) \<Longrightarrow> distinct (map ple_oid (seq_del ple_seq n xs))"
proof (induction xs)
  case (Cons x xs)
  then show ?case using set_seq_del [of ple_seq n xs] by auto
qed simp

lemma pl_add_spec:
  assumes "pl_inv l"
  shows "pl_inv (fst (pl_add pton seq a p le ge l))"
    "pl_config (fst (pl_add pton seq a p le ge l)) = cfg_step pton (pl_afi l) (pl_config l) (PlAdd seq a p le ge)"
    "pl_afi (fst (pl_add pton seq a p le ge l)) = pl_afi l"
proof -
  note I = pl_invD [OF assms]
  have "pl_inv l' \<and> pl_config l' = cfg_step pton (pl_afi l) (pl_config l) (PlAdd seq a p le ge) \<and> pl_afi l' = pl_afi l"
    if l': "l' = fst (pl_add pton seq a p le ge l)" for l'
  proof (cases "new_ple pton 0 seq a p le ge")
    case (Inl x)
    then show ?thesis using assms l' by (simp add: pl_add_def new_ple_oid [of pton "pl_made l"])
  next
    case (Inr e0)
    define e where "e = e0\<lparr>ple_oid := pl_made l\<rparr>"
    have N: "new_ple pton (pl_made l) seq a p le ge = Inr e"
      using Inr by (simp add: new_ple_oid [of pton "pl_made l"] e_def)
    define l1 where "l1 = l\<lparr>pl_made := pl_made l + 1\<rparr>"
    have line: "ple_line e = e0" using new_ple_spec(1) [OF Inr] by (simp add: e_def ple_line_def)
    show ?thesis
    proof (cases "pafi (ple_prefix e) = pl_afi l")
      case False
      then have "l' = l1" using l' N by (simp add: pl_add_alt l1_def Let_def)
      then show ?thesis using pl_inv_made [OF assms] False Inr
        by (simp add: l1_def pl_config_def e_def fun_eq_iff)
    next
      case True
      note S = pl_store_spec [of l1 e]
      have s1: "pl_entries l1 = pl_entries l" "pl_trie l1 = pl_trie l" "pl_afi l1 = pl_afi l"
        "pl_made l1 = Suc (pl_made l)"
        by (simp_all add: l1_def)
      note S = S [unfolded s1, OF I(1,2,4)]
      have l'2: "l' = (pl_store e l1)\<lparr>pl_version := pl_version (pl_store e l1) + 1\<rparr>"
        using l' N True by (simp add: pl_add_alt l1_def Let_def)
      have E: "pl_entries l' = seq_put ple_seq e (pl_entries l)" "pl_trie l' = pl_trie (pl_store e l1)"
        "pl_afi l' = pl_afi l" "pl_made l' = Suc (pl_made l)"
        unfolding l'2 by (subst S(1), simp add: s1)+
      have new: "\<forall>x \<in> set (pl_entries l). ple_oid x \<noteq> ple_oid e"
        using I(3) by (fastforce simp: ple_ok_def e_def)
      have "ple_ok l' e"
        using new_ple_spec(2-4) [OF N] True E by (simp add: ple_ok_def) (simp add: e_def)
      moreover have "ple_ok l' x" if "x \<in> set (pl_entries l)" for x
        using I(3) [OF that] E by (simp add: ple_ok_def)
      ultimately have "\<forall>x \<in> set (pl_entries l'). ple_ok l' x"
        using E(1) set_seq_put [of ple_seq e "pl_entries l"] by auto
      then have "pl_inv l'"
        using E S(2) seq_put_sorted [OF I(1)] distinct_seq_put [OF I(2) new] by (simp add: pl_inv_def)
      moreover have "pl_config l' = (pl_config l)(ple_seq e0 \<mapsto> e0)"
        using seq_map_put [OF I(1), of e] line
        by (auto simp: pl_config_def E(1) fun_eq_iff e_def)
      ultimately show ?thesis using Inr E(3) True by (simp add: e_def)
    qed
  qed
  then show "pl_inv (fst (pl_add pton seq a p le ge l))"
    "pl_config (fst (pl_add pton seq a p le ge l)) = cfg_step pton (pl_afi l) (pl_config l) (PlAdd seq a p le ge)"
    "pl_afi (fst (pl_add pton seq a p le ge l)) = pl_afi l" by blast+
qed

lemma pl_remove_spec:
  assumes "pl_inv l"
  shows "pl_inv (fst (pl_remove seq l))"
    "pl_config (fst (pl_remove seq l)) = cfg_step pton (pl_afi l) (pl_config l) (PlRemove seq)"
    "pl_afi (fst (pl_remove seq l)) = pl_afi l"
    "seq_number seq = Inr n \<Longrightarrow> pl_entries (fst (pl_remove seq l)) = seq_del ple_seq n (pl_entries l)"
proof -
  note I = pl_invD [OF assms]
  have "pl_inv l' \<and> pl_config l' = cfg_step pton (pl_afi l) (pl_config l) (PlRemove seq) \<and> pl_afi l' = pl_afi l
      \<and> (\<forall>n. seq_number seq = Inr n \<longrightarrow> pl_entries l' = seq_del ple_seq n (pl_entries l))"
    if l': "l' = fst (pl_remove seq l)" for l'
  proof (cases "seq_number seq")
    case (Inl x)
    then show ?thesis using assms l' by (simp add: pl_remove_def)
  next
    case (Inr n)
    let ?es = "pl_entries l"
    show ?thesis
      using I(1)
    proof (cases rule: index_of_cases [where n = n])
      case (absent i)
      have "\<forall>x \<in> set ?es. ple_seq x \<noteq> n"
        using absent(3,4) by (metis append_take_drop_id less_irrefl set_append UnE)
      then have "pl_config l n = None" "seq_del ple_seq n ?es = ?es"
        by (simp_all add: pl_config_def seq_map_absent seq_del_absent)
      then show ?thesis using assms l' Inr absent(2) by (simp add: pl_remove_def fun_upd_idem)
    next
      case (found i)
      let ?as = "take i ?es" and ?bs = "drop (Suc i) ?es" and ?e = "?es ! i"
      note S = seq_split [OF I(1) found(1)]
      have del: "seq_del ple_seq n ?es = ?as @ ?bs"
        using seq_del_split [of ?as ple_seq ?e ?bs] S(1,2) found(3) by simp
      have ix: "indexed (pl_trie l) (?as @ ?e # ?bs)" using I(4) S(1) by simp
      have "\<forall>x \<in> set ?as. ple_oid x \<noteq> ple_oid ?e"
        using I(2) S(1) by (intro oids_before [of ?as _ ?bs]) simp
      note U = pl_unfile_indexed [OF ix this]
      have s1: "pl_entries (pl_unfile ?e l) = ?es" by (subst U(2)) simp
      have E: "pl_entries l' = seq_del ple_seq n ?es" "pl_trie l' = pl_trie (pl_unfile ?e l)"
        "pl_afi l' = pl_afi l" "pl_made l' = pl_made l"
        using l' Inr found(2) by (simp_all add: pl_remove_def Let_def s1 del) (subst U(2), simp)+
      have "ple_ok l' x" if "x \<in> set ?es" for x
        using I(3) [OF that] E by (simp add: ple_ok_def)
      then have "\<forall>x \<in> set (pl_entries l'). ple_ok l' x"
        using E(1) set_seq_del [of ple_seq n ?es] by auto
      moreover have "seq_sorted ple_seq (pl_entries l')" "distinct (map ple_oid (pl_entries l'))"
        using seq_del_sorted [OF I(1)] distinct_seq_del [OF I(2)] by (simp_all only: E(1))
      moreover have "indexed (pl_trie l') (pl_entries l')" using U(1) by (simp only: E(1,2) del)
      ultimately have "pl_inv l'" by (simp only: pl_inv_def)
      moreover have "pl_config l' = (pl_config l)(n := None)"
        using seq_map_del [OF I(1), of n] by (auto simp: pl_config_def E(1) fun_eq_iff)
      ultimately show ?thesis using Inr E(1,3) by simp
    qed
  qed
  then show "pl_inv (fst (pl_remove seq l))"
    "pl_config (fst (pl_remove seq l)) = cfg_step pton (pl_afi l) (pl_config l) (PlRemove seq)"
    "pl_afi (fst (pl_remove seq l)) = pl_afi l"
    "seq_number seq = Inr n \<Longrightarrow> pl_entries (fst (pl_remove seq l)) = seq_del ple_seq n (pl_entries l)"
    by blast+
qed

lemma indexed_Nil: "indexed Leaf []"
  by (simp add: indexed_def bucket_of_def)

lemma pl_clear_spec:
  "pl_inv (fst (pl_clear l))" "pl_config (fst (pl_clear l)) = Map.empty" "pl_afi (fst (pl_clear l)) = pl_afi l"
  by (simp_all add: pl_clear_def Let_def pl_inv_def indexed_Nil pl_config_def fun_eq_iff)

lemma pl_evaluate_state: "fst (pl_evaluate v l) = l\<lparr>pl_hits := pl_hits (fst (pl_evaluate v l)),
    pl_matches := pl_matches (fst (pl_evaluate v l)), pl_entry_hits := pl_entry_hits (fst (pl_evaluate v l))\<rparr>"
  by (simp add: pl_evaluate_def Let_def split: prefix_value.splits option.splits)

lemma pl_evaluate_spec:
  "pl_inv (fst (pl_evaluate v l)) = pl_inv l" "pl_config (fst (pl_evaluate v l)) = pl_config l"
  "pl_afi (fst (pl_evaluate v l)) = pl_afi l" "pl_version (fst (pl_evaluate v l)) = pl_version l"
  by (subst pl_evaluate_state, simp add: pl_inv_def ple_ok_def pl_config_def fun_eq_iff)+

lemma pl_step_spec:
  assumes "pl_inv l"
  shows "pl_inv (pl_step pton l op)" "pl_config (pl_step pton l op) = cfg_step pton (pl_afi l) (pl_config l) op"
    "pl_afi (pl_step pton l op) = pl_afi l"
  using pl_add_spec [OF assms] pl_remove_spec [OF assms] pl_clear_spec [of l] pl_evaluate_spec [of _ l] assms
  by (cases op; simp del: cfg_step.simps(1,2))+


interpretation pl_machine: invariant_machine "pl_step pton" pl_inv
  by unfold_locales (rule pl_step_spec(1))

lemma new_prefix_list_spec:
  assumes "new_prefix_list name afi = Inr l"
  shows "pl_inv l" "pl_config l = Map.empty" "pl_afi l = nat afi" "pl_hits l = 0" "pl_matches l = 0" "pl_entries l = []"
  using assms
  by (auto simp: new_prefix_list_def pl_inv_def indexed_Nil pl_config_def fun_eq_iff split: if_splits)

lemma pl_run_spec:
  assumes "pl_inv l"
  shows "pl_config (foldl (pl_step pton) l ops) = foldl (cfg_step pton (pl_afi l)) (pl_config l) ops
    \<and> pl_afi (foldl (pl_step pton) l ops) = pl_afi l"
  using assms
proof (induction ops arbitrary: l)
  case (Cons op ops)
  then show ?case using Cons.IH [OF pl_step_spec(1) [OF Cons.prems]] pl_step_spec(2,3) [OF Cons.prems] by simp
qed simp

section \<open>Evaluation\<close>

definition pl_verdict :: "prefix_list \<Rightarrow> prefix \<Rightarrow> int" where
  "pl_verdict l p =
    (if pafi p \<noteq> pl_afi l then NO_ENTRY
     else case pl_lookup p l of None \<Rightarrow> NO_ENTRY | Some e \<Rightarrow> int (ple_action e))"

lemma pl_lookup_hits [simp]: "pl_lookup p (l\<lparr>pl_hits := n\<rparr>) = pl_lookup p l"
  by (simp add: pl_lookup_def)

lemma pl_evaluate_verdict: "snd (pl_evaluate (PV_Prefix p) l) = Inr (pl_verdict l p)"
  by (simp add: pl_evaluate_def pl_verdict_def Let_def split: option.splits)

interpretation pl: ordered_filter pl_entries ple_seq ple_admits ple_action pl_verdict pl_inv
proof
  fix l p
  assume inv: "pl_inv l"
  show "seq_sorted ple_seq (pl_entries l)" by (rule pl_invD(1) [OF inv])
  show "pl_verdict l p =
      (case find (\<lambda>e. ple_admits e p) (pl_entries l) of None \<Rightarrow> -1 | Some e \<Rightarrow> int (ple_action e))"
  proof (cases "pafi p = pl_afi l")
    case True
    then show ?thesis using pl_lookup_find [OF inv True] by (simp add: pl_verdict_def)
  next
    case False
    then have "\<not> ple_admits e p" if "e \<in> set (pl_entries l)" for e
      using pl_invD(3) [OF inv that] by (auto simp: ple_admits_def contains_def ple_ok_def)
    then have "find (\<lambda>e. ple_admits e p) (pl_entries l) = None" by (auto simp: find_None_iff)
    then show ?thesis using False by (simp add: pl_verdict_def)
  qed
qed

lemma pl_config_iff:
  assumes "pl_inv l"
  shows "pl_config l n = Some x \<longleftrightarrow> (\<exists>e \<in> set (pl_entries l). ple_seq e = n \<and> ple_line e = x)"
  using seq_map_Some_iff [OF pl_invD(1) [OF assms], of n] by (auto simp: pl_config_def)

text \<open>C27. A prefix-list decides as its configuration says, whatever edits led to it: the verdict
  on a prefix is the action of the line with the lowest sequence number among those whose
  prefix contains it and whose window admits its length, and there is no verdict exactly when
  there is no such line; a later line for a number replaced an earlier one, and rejected or
  foreign lines left no trace.\<close>

theorem prefix_list_first_match:
  fixes pton name afi ops
  assumes "new_prefix_list name afi = Inr l0"
  defines "l \<equiv> foldl (pl_step pton) l0 ops" and "m \<equiv> foldl (cfg_step pton (nat afi)) Map.empty ops"
  shows "(snd (pl_evaluate (PV_Prefix p) l) = Inr NO_ENTRY \<longleftrightarrow> (\<forall>n e. m n = Some e \<longrightarrow> \<not> ple_admits e p))
    \<and> (\<forall>n e. m n = Some e \<and> ple_admits e p \<and> (\<forall>n' e'. m n' = Some e' \<and> ple_admits e' p \<longrightarrow> n \<le> n')
          \<longrightarrow> snd (pl_evaluate (PV_Prefix p) l) = Inr (int (ple_action e)))"
proof (intro conjI allI impI; (elim conjE)?)
  note N = new_prefix_list_spec [OF assms(1)]
  have inv: "pl_inv l" unfolding l_def by (rule pl_machine.run_inv [OF N(1)])
  have m: "pl_config l = m" using pl_run_spec [OF N(1), of pton ops] N(2,3) by (simp add: l_def m_def)
  note M = pl_config_iff [OF inv, unfolded m]
  show "snd (pl_evaluate (PV_Prefix p) l) = Inr NO_ENTRY \<longleftrightarrow> (\<forall>n e. m n = Some e \<longrightarrow> \<not> ple_admits e p)"
  proof -
    have "ple_admits (ple_line e) p \<longleftrightarrow> ple_admits e p" "m (ple_seq e) = Some (ple_line e)"
      if "e \<in> set (pl_entries l)" for e using that M by auto
    then have "(\<forall>n e. m n = Some e \<longrightarrow> \<not> ple_admits e p) \<longleftrightarrow> (\<forall>e \<in> set (pl_entries l). \<not> ple_admits e p)"
      using M by (metis ple_line_simps(4))
    then show ?thesis using pl.no_match_iff [OF inv, of p] by (simp add: pl_evaluate_verdict)
  qed
  fix n e assume e: "m n = Some e" "ple_admits e p"
    and least: "\<forall>n' e'. m n' = Some e' \<and> ple_admits e' p \<longrightarrow> n \<le> n'"
  obtain e0 where e0: "e0 \<in> set (pl_entries l)" "ple_seq e0 = n" "ple_line e0 = e" using e(1) M by blast
  have "ple_seq e0 \<le> ple_seq x" if "x \<in> set (pl_entries l)" "ple_admits x p" for x
    using least [rule_format, of "ple_seq x" "ple_line x"] that M e0(2) by auto
  moreover have "ple_admits e0 p" "ple_action e0 = ple_action e" using e(2) e0(3) by auto
  ultimately have "pl_verdict l p = int (ple_action e)"
    using pl.verdict_iff [OF inv, of "int (ple_action e)" p] e0(1) by auto
  then show "snd (pl_evaluate (PV_Prefix p) l) = Inr (int (ple_action e))" by (simp add: pl_evaluate_verdict)
qed


definition sample_line :: "int \<Rightarrow> string \<Rightarrow> key \<Rightarrow> int \<Rightarrow> int \<Rightarrow> pl_op" where
  "sample_line n a k le ge = PlAdd (V_Int n) (V_Text a) (PV_Prefix \<lparr>pafi = 1, pbits = k\<rparr>) (V_Int le) (V_Int ge)"

definition sample_lines :: "pl_op list" where
  "sample_lines = [sample_line 10 ''permit'' [True] 24 0, sample_line 5 ''deny'' [True, False] 0 8,
     sample_line 20 ''deny'' [] 32 0, sample_line 20 ''permit'' [] 2 0, sample_line 7 ''allow'' [] 0 0]"

definition sample_list :: prefix_list where
  "sample_list = \<lparr>pl_name = ''P'', pl_afi = 1, pl_abits = 32, pl_version = 0, pl_hits = 0, pl_matches = 0,
     pl_trie = Leaf, pl_entries = [], pl_entry_hits = [], pl_made = 0\<rparr>"

lemma sample_list_new: "new_prefix_list ''P'' 1 = Inr sample_list"
  by (simp add: new_prefix_list_def sample_list_def addr_len_def addr_bits_def)

theorem prefix_list_first_match_witness:
  "snd (pl_evaluate (PV_Prefix \<lparr>pafi = 1, pbits = [False, False, False]\<rparr>)
     (foldl (pl_step (\<lambda>afi t. None)) sample_list sample_lines)) = Inr NO_ENTRY"
proof -
  have "\<not> ple_admits e \<lparr>pafi = 1, pbits = [False, False, False]\<rparr>"
    if "foldl (cfg_step (\<lambda>afi t. None) (nat 1)) Map.empty sample_lines n = Some e" for n e
    using that
    by (simp add: sample_lines_def sample_line_def new_ple_def coerce_prefix_def coerce_bound_def seq_number_def
        action_id_def ACTION_IDS_def addr_bits_def plen_def ple_admits_def contains_def pfx_match_def Let_def
        split: if_splits) auto
  then show ?thesis
    using prefix_list_first_match [OF sample_list_new, THEN conjunct1, THEN iffD2] by blast
qed

section \<open>Versions\<close>

lemma pl_version_step:
  "pl_version l \<le> pl_version (pl_step pton l op)
   \<and> (pl_version (pl_step pton l op) = pl_version l \<longrightarrow> pl_entries (pl_step pton l op) = pl_entries l)"
proof (cases op)
  case (PlAdd seq a p le ge)
  have "pl_version (pl_store e l') = pl_version l'" for e l'
    by (simp add: pl_store_def pl_file_def pl_unfile_def Let_def split: option.splits)
  then show ?thesis by (simp add: PlAdd pl_add_alt Let_def split: sum.splits)
next
  case (PlRemove seq)
  then show ?thesis by (simp add: pl_remove_def pl_unfile_def Let_def split: sum.splits option.splits)
next
  case PlClear
  then show ?thesis by (simp add: pl_clear_def Let_def)
next
  case (PlEvaluate v)
  then show ?thesis by (simp add: pl_evaluate_def Let_def split: prefix_value.splits option.splits)
qed

interpretation pl_versions: monotone_machine "pl_step pton" pl_version
  by unfold_locales (use pl_version_step in blast)

text \<open>A version names a configuration: while edits and evaluations go on, as long as the
  version of a list has not moved its entries are the same objects in the same order, and the
  version never goes back, so a configuration that changed never carries an old version.\<close>

theorem prefix_list_version_names_entries:
  fixes l :: prefix_list and pton ops
  defines "l' \<equiv> foldl (pl_step pton) l ops"
  shows "pl_version l \<le> pl_version l' \<and> (pl_version l' = pl_version l \<longrightarrow> pl_entries l' = pl_entries l)"
  unfolding l'_def
proof (induction ops arbitrary: l)
  case (Cons op ops)
  then show ?case using pl_version_step [of l pton op] Cons.IH [of "pl_step pton l op"] by fastforce
qed simp

theorem prefix_list_version_names_entries_witness:
  "pl_entries (foldl (pl_step (\<lambda>afi t. None)) sample_list [PlRemove (V_Int 3), PlClear]) = pl_entries sample_list"
  by (rule prefix_list_version_names_entries [THEN conjunct2, THEN mp]) code_simp


section \<open>Counters\<close>

definition entry_hits_sum :: "prefix_list \<Rightarrow> nat" where
  "entry_hits_sum l = sum_list (map (ple_hits l) (pl_entries l))"

definition counted_inv :: "prefix_list \<Rightarrow> bool" where
  "counted_inv l \<longleftrightarrow> distinct (map fst (pl_entry_hits l)) \<and> sum_list (map snd (pl_entry_hits l)) = pl_matches l
    \<and> pl_matches l \<le> pl_hits l"

lemma sum_dict_set:
  "distinct (map fst d) \<Longrightarrow>
   sum_list (map snd (dict_set k v d)) + dict_count d k = sum_list (map snd d) + (v :: nat)"
  by (induction d) (auto simp: dict_count_def get_default_def map_of_eq_None_iff split: option.splits)

lemma sum_dict_incr: "distinct (map fst d) \<Longrightarrow> sum_list (map snd (dict_incr k d)) = sum_list (map snd d) + 1"
  using sum_dict_set [of d k "dict_count d k + 1"] by (simp add: dict_incr_def dict_count_def)

lemma sum_override:
  "distinct ks \<Longrightarrow> sum_list (map (\<lambda>x. if x = k then v else f x) ks) \<le> (v :: nat) + sum_list (map f ks)"
proof (induction ks)
  case (Cons x ks)
  have "(\<Sum>x\<leftarrow>ks. if x = k then v else f x) = sum_list (map f ks)" if "k \<notin> set ks"
    using that by (intro arg_cong [where f = sum_list] map_cong) auto
  then show ?case using Cons by auto
qed simp

lemma sum_counts_le:
  "distinct ks \<Longrightarrow> sum_list (map (dict_count d) ks) \<le> sum_list (map snd (d :: ('k, nat) pydict))"
proof (induction d)
  case Nil
  then show ?case by (simp add: dict_count_def)
next
  case (Cons kv d)
  have "dict_count (kv # d) = (\<lambda>x. if x = fst kv then snd kv else dict_count d x)"
    by (cases kv) (auto simp: dict_count_def)
  then show ?case using sum_override [OF Cons.prems, of "fst kv" "snd kv" "dict_count d"] Cons by simp
qed

lemma pl_file_counters [simp]:
  "pl_entry_hits (pl_file e l) = pl_entry_hits l" "pl_matches (pl_file e l) = pl_matches l" "pl_hits (pl_file e l) = pl_hits l"
  "pl_entry_hits (pl_unfile e l) = pl_entry_hits l" "pl_matches (pl_unfile e l) = pl_matches l" "pl_hits (pl_unfile e l) = pl_hits l"
  by (simp_all add: pl_file_def pl_unfile_def Let_def split: option.splits)

lemma pl_step_counted:
  assumes "counted_inv l"
  shows "counted_inv (pl_step pton l op)"
proof (cases op)
  case (PlAdd seq a p le ge)
  then show ?thesis using assms
    by (simp add: counted_inv_def pl_add_alt pl_store_def Let_def split: sum.splits)
next
  case (PlRemove seq)
  then show ?thesis using assms by (simp add: counted_inv_def pl_remove_def Let_def split: sum.splits)
next
  case PlClear
  then show ?thesis using assms by (simp add: counted_inv_def pl_clear_def Let_def)
next
  case (PlEvaluate v)
  then show ?thesis using assms
    by (auto simp: counted_inv_def pl_evaluate_def Let_def sum_dict_incr split: prefix_value.splits option.splits)
       (simp add: dict_incr_def)
qed

interpretation pl_counted: invariant_machine "pl_step pton" counted_inv
  by unfold_locales (rule pl_step_counted)

lemma sum_list_seq_del:
  assumes "seq_sorted ple_seq es" and "e \<in> set es"
  shows "sum_list (map f (seq_del ple_seq (ple_seq e) es)) + f e = sum_list (map (f :: ple \<Rightarrow> nat) es)"
  using assms by (induction es) auto

lemma pl_remove_found:
  assumes "pl_inv l" and "e \<in> set (pl_entries l)"
  shows "entry_hits_sum (fst (pl_remove (V_Int (int (ple_seq e))) l)) + ple_hits l e = entry_hits_sum l"
    "pl_matches (fst (pl_remove (V_Int (int (ple_seq e))) l)) = pl_matches l"
proof -
  let ?l' = "fst (pl_remove (V_Int (int (ple_seq e))) l)"
  have "ple_seq e \<le> 0xffffffff" using pl_invD(3) [OF assms] by (simp add: ple_ok_def)
  then have n: "seq_number (V_Int (int (ple_seq e))) = Inr (ple_seq e)" by (simp add: seq_number_def)
  show "pl_matches ?l' = pl_matches l"
    by (simp add: pl_remove_def Let_def split: sum.splits)
  have "pl_entry_hits ?l' = pl_entry_hits l"
    by (simp add: pl_remove_def Let_def split: sum.splits)
  then have "ple_hits ?l' = ple_hits l" by (simp add: ple_hits_def fun_eq_iff)
  then show "entry_hits_sum ?l' + ple_hits l e = entry_hits_sum l"
    using sum_list_seq_del [OF pl_invD(1) [OF assms(1)] assms(2), of "ple_hits l"]
    by (simp add: entry_hits_sum_def pl_remove_spec(4) [OF assms(1) n])
qed

text \<open>The counters of a list account for its evaluations: matches never exceed evaluations
  and the hits of the listed entries never exceed the matches; they need not add up to the
  matches, since removing an entry takes its hits out of the sum and leaves the matches.\<close>

theorem prefix_list_counters:
  fixes pton ops
  assumes "new_prefix_list name afi = Inr l0"
  defines "l \<equiv> foldl (pl_step pton) l0 ops"
  shows "entry_hits_sum l \<le> pl_matches l \<and> pl_matches l \<le> pl_hits l
    \<and> (\<forall>e \<in> set (pl_entries l).
         entry_hits_sum (fst (pl_remove (V_Int (int (ple_seq e))) l)) + ple_hits l e = entry_hits_sum l
         \<and> pl_matches (fst (pl_remove (V_Int (int (ple_seq e))) l)) = pl_matches l)"
proof -
  have inv: "pl_inv l" unfolding l_def by (rule pl_machine.run_inv [OF new_prefix_list_spec(1) [OF assms(1)]])
  have "counted_inv l0" using assms(1) by (auto simp: new_prefix_list_def counted_inv_def split: if_splits)
  then have C: "counted_inv l" unfolding l_def by (rule pl_counted.run_inv)
  have "entry_hits_sum l = sum_list (map (dict_count (pl_entry_hits l)) (map ple_oid (pl_entries l)))"
    by (simp add: entry_hits_sum_def ple_hits_def [abs_def] comp_def)
  also have "\<dots> \<le> pl_matches l"
    using sum_counts_le [OF pl_invD(2) [OF inv], of "pl_entry_hits l"] C by (simp add: counted_inv_def)
  finally show ?thesis using C pl_remove_found [OF inv] by (simp add: counted_inv_def)
qed

theorem prefix_list_counters_witness:
  "let l = foldl (pl_step (\<lambda>afi t. None)) sample_list
       [sample_line 10 ''permit'' [True] 24 0, PlEvaluate (PV_Prefix \<lparr>pafi = 1, pbits = [True, True]\<rparr>)]
   in entry_hits_sum (fst (pl_remove (V_Int 10) l)) < pl_matches (fst (pl_remove (V_Int 10) l))"
proof -
  define ops where "ops = [sample_line 10 ''permit'' [True] 24 0, PlEvaluate (PV_Prefix \<lparr>pafi = 1, pbits = [True, True]\<rparr>)]"
  define l where "l = foldl (pl_step (\<lambda>afi t. None)) sample_list ops"
  have "entry_hits_sum l = 1 \<and> pl_matches l = 1 \<and> (\<exists>e \<in> set (pl_entries l). ple_seq e = 10 \<and> ple_hits l e = 1)"
    unfolding l_def ops_def by code_simp
  then obtain e where "e \<in> set (pl_entries l)" "ple_seq e = 10" "ple_hits l e = 1"
    "entry_hits_sum l = 1" "pl_matches l = 1" by blast
  then have "entry_hits_sum (fst (pl_remove (V_Int 10) l)) < pl_matches (fst (pl_remove (V_Int 10) l))"
    using prefix_list_counters [OF sample_list_new, of "\<lambda>afi t. None" ops, folded l_def,
       THEN conjunct2, THEN conjunct2, THEN bspec, of e] by simp
  then show ?thesis by (simp only: Let_def l_def ops_def)
qed

end
