(* ===== verification/AsPath.thy ===== *)
theory AsPath
  imports PrefixList SeqList
begin

text \<open>
  \<open>policy/aspath.py\<close>: the translation of the underscore, the stripping of redundant wildcards,
  the guard that judges a parsed pattern, the pattern and result caches and the access-list.
  What Python's \<open>re\<close> does is a parameter (\<open>sre\<close>): whether a text compiles, its parse tree, and
  whether it is found in a path. The parse tree is the datatype \<open>rx\<close>, with the node types of
  \<open>sre_parse\<close>; a code point is a natural number.
\<close>

section \<open>Rewriting the text\<close>

abbreviation (input) "MAX_PATTERN_LENGTH \<equiv> 256 :: nat"
abbreviation (input) "MAX_EXPONENT \<equiv> 2 :: nat"
abbreviation (input) "QUADRATIC_MAX_ASNS \<equiv> 255 :: nat"
abbreviation (input) "RESULT_CACHE_MAX \<equiv> 4096 :: nat"
abbreviation (input) "PATTERN_CACHE_MAX \<equiv> 256 :: nat"

definition BACKSLASH :: char where
  "BACKSLASH = char_of (92 :: nat)"

definition UNDERSCORE :: string where
  "UNDERSCORE = ''(?:^|[ ,{}()'' @ [BACKSLASH, CHR ''['', BACKSLASH, CHR '']''] @ '']|$)''"

text \<open>The loop of \<open>translate\<close>; the flag says whether the scan is inside a class.\<close>

function (sequential) translate_loop :: "bool \<Rightarrow> string \<Rightarrow> string" where
  "translate_loop in_class [] = []"
| "translate_loop in_class (c # cs) =
     (if c = BACKSLASH \<and> cs \<noteq> [] then c # hd cs # translate_loop in_class (tl cs)
      else if in_class then c # translate_loop (c \<noteq> CHR '']'') cs
      else if c = CHR ''['' then
        (let (caret, r1) = (if cs \<noteq> [] \<and> hd cs = CHR ''^'' then ([CHR ''^''], tl cs) else ([], cs));
             (close, r2) = (if r1 \<noteq> [] \<and> hd r1 = CHR '']'' then ([CHR '']''], tl r1) else ([], r1))
         in c # caret @ close @ translate_loop True r2)
      else if c = CHR ''_'' then UNDERSCORE @ translate_loop False cs
      else c # translate_loop False cs)"
  by pat_completeness auto
termination
  by (relation "measure (\<lambda>(b, s). length s)") (auto split: if_splits simp: less_Suc_eq_le intro: order_trans [OF diff_le_self] le_SucI)

definition translate :: "string \<Rightarrow> string" where
  "translate pattern = (if CHR ''_'' \<notin> set pattern then pattern else translate_loop False pattern)"

definition escaped :: "string \<Rightarrow> nat \<Rightarrow> bool" where
  "escaped text index = odd (length (takeWhile (\<lambda>c. c = BACKSLASH) (rev (take index text))))"

definition starts_with :: "string \<Rightarrow> string \<Rightarrow> bool" where
  "starts_with s p \<longleftrightarrow> take (length p) s = p"

definition ends_with :: "string \<Rightarrow> string \<Rightarrow> bool" where
  "ends_with s p \<longleftrightarrow> length p \<le> length s \<and> drop (length s - length p) s = p"

fun strip_head :: "string list \<Rightarrow> string \<Rightarrow> string" where
  "strip_head [] s = s"
| "strip_head (h # hs) s =
     (if starts_with s h then
        (let rest = drop (length h) s
         in if take 1 rest \<notin> {''*'', ''+'', ''?'', ''{''} then rest else s)
      else strip_head hs s)"

fun strip_tail :: "string list \<Rightarrow> string \<Rightarrow> string" where
  "strip_tail [] s = s"
| "strip_tail (t # ts) s =
     (if ends_with s t \<and> \<not> escaped s (length s - length t) then take (length s - length t) s
      else strip_tail ts s)"

definition HEADS :: "string list" where
  "HEADS = [''^.*?'', ''^.*'', ''.*?'', ''.*'']"

definition TAILS :: "string list" where
  "TAILS = [''.*?$'', ''.*$'', ''.*?'', ''.*'']"

definition strip_once :: "string \<Rightarrow> string" where
  "strip_once s = strip_tail TAILS (strip_head HEADS s)"

lemma strip_head_length: "length (strip_head hs s) \<le> length s"
  by (induction hs) (auto simp: Let_def)

lemma strip_tail_length: "length (strip_tail ts s) \<le> length s"
  by (induction ts) auto

lemma strip_head_shorter: "strip_head hs s \<noteq> s \<Longrightarrow> length (strip_head hs s) < length s"
proof (induction hs)
  case (Cons h hs)
  have "length (drop n s) < length s" if "drop n s \<noteq> s" for n
    using that by (cases "n = 0"; cases s) auto
  then show ?case using Cons by (auto simp: Let_def)
qed simp

lemma strip_tail_shorter: "strip_tail ts s \<noteq> s \<Longrightarrow> length (strip_tail ts s) < length s"
proof (induction ts)
  case (Cons t ts)
  have "length (take n s) < length s" if "take n s \<noteq> s" for n
    using that by (cases "n < length s") auto
  then show ?case using Cons by auto
qed simp

lemma strip_once_shorter:
  assumes "strip_once s \<noteq> s"
  shows "length (strip_once s) < length s"
proof (cases "strip_tail TAILS (strip_head HEADS s) = strip_head HEADS s")
  case True
  then show ?thesis using strip_head_shorter [of HEADS s] assms by (simp add: strip_once_def)
next
  case False
  from strip_tail_shorter [OF this] strip_head_length show ?thesis
    unfolding strip_once_def by (rule less_le_trans)
qed

function strip_wildcards :: "string \<Rightarrow> string" where
  "strip_wildcards pattern =
    (if strip_once pattern = pattern then pattern else strip_wildcards (strip_once pattern))"
  by pat_completeness auto
termination by (relation "measure length") (auto simp: strip_once_shorter)

declare strip_wildcards.simps [simp del]

section \<open>The parse tree\<close>

datatype at_code = AT_BEGINNING | AT_BEGINNING_STRING | AT_BOUNDARY | AT_NON_BOUNDARY | AT_END | AT_END_STRING

datatype category =
    CATEGORY_DIGIT | CATEGORY_NOT_DIGIT | CATEGORY_SPACE | CATEGORY_NOT_SPACE | CATEGORY_WORD | CATEGORY_NOT_WORD

datatype class_item = C_NEGATE | C_LITERAL nat | C_RANGE nat nat | C_CATEGORY category

datatype repeat_kind = MAX_REPEAT | MIN_REPEAT | POSSESSIVE_REPEAT

text \<open>The upper bound of a repeat is \<open>None\<close> where \<open>sre_parse\<close> has \<open>MAXREPEAT\<close>.\<close>

datatype rx =
    LITERAL nat
  | NOT_LITERAL nat
  | ANY
  | IN "class_item list"
  | AT at_code
  | SUBPATTERN "rx list"
  | BRANCH "rx list list"
  | REPEAT repeat_kind nat "nat option" "rx list"
  | ASSERT "rx list"
  | ASSERT_NOT "rx list"
  | ATOMIC_GROUP "rx list"
  | GROUPREF nat
  | GROUPREF_EXISTS nat "rx list" "rx list"

definition DELIMITERS :: "nat set" where
  "DELIMITERS = set (map of_char '' ,{}()[]'')"

definition EDGES :: "at_code set" where
  "EDGES = {AT_BEGINNING, AT_BEGINNING_STRING, AT_END, AT_END_STRING}"

abbreviation (input) "SHORT_REPEAT \<equiv> 32 :: nat"

text \<open>\<open>None\<close> is \<open>_ANY\<close>, a set too wide to reason about.\<close>

definition union_chars :: "nat set option \<Rightarrow> nat set option \<Rightarrow> nat set option" where
  "union_chars a b = (case (a, b) of (Some x, Some y) \<Rightarrow> Some (x \<union> y) | _ \<Rightarrow> None)"

fun rx_items :: "rx list \<Rightarrow> rx list" where
  "rx_items [] = []"
| "rx_items (SUBPATTERN s # xs) = rx_items s @ rx_items xs"
| "rx_items (x # xs) = x # rx_items xs"

definition char_range :: "nat \<Rightarrow> nat \<Rightarrow> nat set" where
  "char_range lo hi = set [lo..<Suc hi]"

fun class_chars :: "class_item list \<Rightarrow> nat set option" where
  "class_chars [] = Some {}"
| "class_chars (C_NEGATE # cs) = None"
| "class_chars (C_LITERAL c # cs) = union_chars (Some {c}) (class_chars cs)"
| "class_chars (C_RANGE lo hi # cs) =
     (if int hi - int lo > 512 then None else union_chars (Some (char_range lo hi)) (class_chars cs))"
| "class_chars (C_CATEGORY CATEGORY_DIGIT # cs) = union_chars (Some (char_range 48 57)) (class_chars cs)"
| "class_chars (C_CATEGORY CATEGORY_SPACE # cs) = union_chars (Some {32, 9, 10, 13, 12, 11}) (class_chars cs)"
| "class_chars (C_CATEGORY _ # cs) = None"

text \<open>A group never changes what a sequence consumes: where the code walks the spliced items, a
  group is walked in place here (\<open>seq_chars_items\<close> and its like below).\<close>

fun item_chars :: "rx \<Rightarrow> nat set option"
  and seq_chars :: "rx list \<Rightarrow> nat set option"
  and alts_chars :: "rx list list \<Rightarrow> nat set option" where
  "item_chars (LITERAL c) = Some {c}"
| "item_chars (IN cs) = class_chars cs"
| "item_chars (AT a) = Some {}"
| "item_chars (ASSERT s) = Some {}"
| "item_chars (ASSERT_NOT s) = Some {}"
| "item_chars (BRANCH alts) = alts_chars alts"
| "item_chars (REPEAT k lo hi s) = seq_chars s"
| "item_chars (ATOMIC_GROUP s) = seq_chars s"
| "item_chars (SUBPATTERN s) = seq_chars s"
| "item_chars (NOT_LITERAL c) = None"
| "item_chars ANY = None"
| "item_chars (GROUPREF n) = None"
| "item_chars (GROUPREF_EXISTS n s t) = None"
| "seq_chars [] = Some {}"
| "seq_chars (x # xs) = union_chars (item_chars x) (seq_chars xs)"
| "alts_chars [] = Some {}"
| "alts_chars (a # as) = union_chars (seq_chars a) (alts_chars as)"

text \<open>One alternative of a delimiter-like item: \<open>None\<close> when it is not one, the empty set when it is
  an edge.\<close>

definition delimiter_alt :: "rx list \<Rightarrow> nat set option" where
  "delimiter_alt alt =
    (case rx_items alt of
       [AT a] \<Rightarrow> if a \<in> EDGES then Some {} else None
     | [LITERAL c] \<Rightarrow> if c \<in> DELIMITERS then Some {c} else None
     | [IN cs] \<Rightarrow>
         (case class_chars cs of
            None \<Rightarrow> None
          | Some got \<Rightarrow> if got \<noteq> {} \<and> got \<subseteq> DELIMITERS then Some got else None)
     | _ \<Rightarrow> None)"

fun delimiter_alts :: "rx list list \<Rightarrow> nat set option" where
  "delimiter_alts [] = Some {}"
| "delimiter_alts (a # as) = union_chars (delimiter_alt a) (delimiter_alts as)"

definition delimiter_chars :: "rx \<Rightarrow> nat set option" where
  "delimiter_chars item =
    (case delimiter_alts (case item of BRANCH alts \<Rightarrow> alts | _ \<Rightarrow> [[item]]) of
       None \<Rightarrow> None
     | Some cs \<Rightarrow> if cs = {} then None else Some cs)"

definition many :: "nat option \<Rightarrow> bool" where
  "many hi = (case hi of None \<Rightarrow> True | Some n \<Rightarrow> n > 1)"

fun item_repeats :: "rx \<Rightarrow> rx list list"
  and seq_repeats :: "rx list \<Rightarrow> rx list list"
  and alts_repeats :: "rx list list \<Rightarrow> rx list list" where
  \<comment> \<open>the bodies of the repeats found\<close>
  "item_repeats (REPEAT k lo hi s) = (if many hi then [s] else []) @ seq_repeats s"
| "item_repeats (BRANCH alts) = alts_repeats alts"
| "item_repeats (ASSERT s) = seq_repeats s"
| "item_repeats (ASSERT_NOT s) = seq_repeats s"
| "item_repeats (ATOMIC_GROUP s) = seq_repeats s"
| "item_repeats (SUBPATTERN s) = seq_repeats s"
| "item_repeats _ = []"
| "seq_repeats [] = []"
| "seq_repeats (x # xs) = item_repeats x @ seq_repeats xs"
| "alts_repeats [] = []"
| "alts_repeats (a # as) = seq_repeats a @ alts_repeats as"

section \<open>The guard\<close>

datatype edge = Start | End

lemma rx_items_size: "size_list size (rx_items s) \<le> size_list size s"
  by (induction s rule: rx_items.induct) auto

lemma branch_smaller:
  assumes "rx_items body = [BRANCH alts]" and "alt \<in> set alts"
  shows "size_list size alt < size_list size body"
proof -
  have "size_list size alt < Suc (size_list (size_list size) alts)"
    using assms(2) by (induction alts) auto
  also have "\<dots> < size_list size (rx_items body)" unfolding assms(1) by simp
  also have "\<dots> \<le> size_list size body" by (rule rx_items_size)
  finally show ?thesis .
qed

definition fenced_at :: "nat set option \<Rightarrow> edge \<Rightarrow> rx \<Rightarrow> edge set" where
  "fenced_at inside name item =
    (case (delimiter_chars item, inside) of
       (Some fence, Some ins) \<Rightarrow> if fence \<inter> ins = {} then {name} else {}
     | _ \<Rightarrow> {})"

function fenced_edges :: "rx list \<Rightarrow> nat set option \<Rightarrow> edge set" where
  "fenced_edges body inside =
    (case rx_items body of
       [] \<Rightarrow> {}
     | [BRANCH alts] \<Rightarrow> fold (\<inter>) (map (\<lambda>alt. fenced_edges alt inside) alts) {Start, End}
     | item # items \<Rightarrow> fenced_at inside Start item \<union> fenced_at inside End (last (item # items)))"
  by pat_completeness auto
termination
  by (relation "measure (\<lambda>(body, inside). size_list size body)") (auto intro: branch_smaller)

declare fenced_edges.simps [simp del]

fun union_all :: "nat set option list \<Rightarrow> nat set option" where
  "union_all [] = Some {}"
| "union_all (c # cs) = union_chars c (union_all cs)"

definition delimited :: "rx list \<Rightarrow> rx list list \<Rightarrow> bool" where
  "delimited body inner = (fenced_edges body (union_all (map seq_chars inner)) \<noteq> {})"

text \<open>What an item or a sequence can begin with, and whether it can consume nothing.\<close>

fun item_first :: "rx \<Rightarrow> nat set option \<times> bool"
  and seq_first :: "rx list \<Rightarrow> nat set option \<times> bool"
  and alts_first :: "rx list list \<Rightarrow> nat set option \<times> bool" where
  "item_first (AT a) = (Some {}, True)"
| "item_first (ASSERT s) = (Some {}, True)"
| "item_first (ASSERT_NOT s) = (Some {}, True)"
| "item_first (REPEAT k lo hi s) = (case seq_first s of (got, nullable) \<Rightarrow> (got, \<not> (lo > 0 \<and> \<not> nullable)))"
| "item_first (BRANCH alts) = alts_first alts"
| "item_first (ATOMIC_GROUP s) = seq_first s"
| "item_first (SUBPATTERN s) = seq_first s"
| "item_first (LITERAL c) = (item_chars (LITERAL c), False)"
| "item_first (NOT_LITERAL c) = (item_chars (NOT_LITERAL c), False)"
| "item_first ANY = (item_chars ANY, False)"
| "item_first (IN cs) = (item_chars (IN cs), False)"
| "item_first (GROUPREF n) = (item_chars (GROUPREF n), False)"
| "item_first (GROUPREF_EXISTS n s t) = (item_chars (GROUPREF_EXISTS n s t), False)"
| "seq_first [] = (Some {}, True)"
| "seq_first (x # xs) =
     (case item_first x of (chars, nullable) \<Rightarrow>
        if \<not> nullable then (chars, False)
        else (case seq_first xs of (chars', nullable') \<Rightarrow> (union_chars chars chars', nullable')))"
| "alts_first [] = (Some {}, False)"
| "alts_first (a # as) =
     (case seq_first a of (got, nullable) \<Rightarrow>
        case alts_first as of (chars, any_null) \<Rightarrow> (union_chars got chars, nullable \<or> any_null))"

definition edge_only :: "rx list \<Rightarrow> bool" where
  "edge_only alt \<longleftrightarrow> rx_items alt \<noteq> [] \<and>
    list_all (\<lambda>item. case item of AT a \<Rightarrow> a \<in> EDGES | _ \<Rightarrow> False) (rx_items alt)"

fun is_repeat :: "rx \<Rightarrow> bool" where
  "is_repeat (REPEAT k lo hi s) = True"
| "is_repeat _ = False"

fun skip_common :: "rx list \<Rightarrow> rx list \<Rightarrow> rx list \<times> rx list" where
  "skip_common (x # xs) (y # ys) =
     (if \<not> is_repeat x \<and> x = y then skip_common xs ys else (x # xs, y # ys))"
| "skip_common xs ys = (xs, ys)"

definition rx_distinct :: "rx list \<Rightarrow> rx list \<Rightarrow> bool" where
  "rx_distinct a b =
    (case skip_common (rx_items a) (rx_items b) of (a', b') \<Rightarrow>
       case (seq_first a', seq_first b') of
         ((Some first_a, False), (Some first_b, False)) \<Rightarrow> first_a \<inter> first_b = {}
       | _ \<Rightarrow> False)"

fun pairwise_distinct :: "rx list list \<Rightarrow> bool" where
  "pairwise_distinct [] = True"
| "pairwise_distinct (a # as) \<longleftrightarrow> list_all (rx_distinct a) as \<and> pairwise_distinct as"

definition ambiguous :: "rx list list \<Rightarrow> bool" where
  "ambiguous alts \<longleftrightarrow> \<not> pairwise_distinct (filter (\<lambda>alt. \<not> edge_only alt) alts)"

definition path_spanning :: "nat option \<Rightarrow> rx list \<Rightarrow> nat" where
  "path_spanning hi body =
    (if (case hi of None \<Rightarrow> True | Some n \<Rightarrow> n > SHORT_REPEAT) then
       (case seq_chars body of
          None \<Rightarrow> 1
        | Some chars \<Rightarrow> if chars \<inter> DELIMITERS \<noteq> {} then 1 else 0)
     else 0)"

definition add_res :: "nat result \<Rightarrow> nat result \<Rightarrow> nat result" where
  "add_res a b = bind_res a (\<lambda>m. bind_res b (\<lambda>n. Inr (m + n)))"

fun judge_item :: "bool \<Rightarrow> rx \<Rightarrow> nat result"
  and judge_seq :: "bool \<Rightarrow> rx list \<Rightarrow> nat result"
  and judge_alts :: "bool \<Rightarrow> rx list list \<Rightarrow> nat result" where
  "judge_item rep (GROUPREF n) = Inl (ValueError ''as-path regex uses a backreference or a group conditional'')"
| "judge_item rep (GROUPREF_EXISTS n s t) = Inl (ValueError ''as-path regex uses a backreference or a group conditional'')"
| "judge_item rep (REPEAT k lo hi body) =
     (if many hi \<and> seq_repeats body \<noteq> [] \<and> \<not> delimited body (seq_repeats body)
      then Inl (ValueError ''as-path regex repeats a group that itself repeats'')
      else add_res (Inr (if many hi then path_spanning hi body else 0)) (judge_seq (rep \<or> many hi) body))"
| "judge_item rep (BRANCH alts) =
     (if rep \<and> ambiguous alts
      then Inl (ValueError ''as-path regex repeats an alternation whose branches can match the same text'')
      else judge_alts rep alts)"
| "judge_item rep (ASSERT s) = judge_seq rep s"
| "judge_item rep (ASSERT_NOT s) = judge_seq rep s"
| "judge_item rep (ATOMIC_GROUP s) = judge_seq rep s"
| "judge_item rep (SUBPATTERN s) = judge_seq rep s"
| "judge_item rep (LITERAL c) = Inr 0"
| "judge_item rep (NOT_LITERAL c) = Inr 0"
| "judge_item rep ANY = Inr 0"
| "judge_item rep (IN cs) = Inr 0"
| "judge_item rep (AT a) = Inr 0"
| "judge_seq rep [] = Inr 0"
| "judge_seq rep (x # xs) = add_res (judge_item rep x) (judge_seq rep xs)"
| "judge_alts rep [] = Inr 0"
| "judge_alts rep (a # as) = add_res (judge_seq rep a) (judge_alts rep as)"

definition anchored :: "rx list \<Rightarrow> bool" where
  "anchored parsed \<longleftrightarrow>
    (case rx_items parsed of AT a # _ \<Rightarrow> a \<in> {AT_BEGINNING, AT_BEGINNING_STRING} | _ \<Rightarrow> False)"

section \<open>Programs and caches\<close>

text \<open>The standard library: \<open>re.compile\<close> succeeding, the parse tree, and \<open>re.search\<close> finding the
  compiled text in a path.\<close>

record sre =
  sre_compiles :: "string \<Rightarrow> bool"
  sre_parse :: "string \<Rightarrow> rx list option"
  sre_search :: "string \<Rightarrow> string \<Rightarrow> bool"

record rx_program =
  prog_regex :: string
  prog_spanning :: nat
  prog_exponent :: nat
  prog_results :: "(string, bool) pydict option"

definition new_program :: "string \<Rightarrow> nat \<Rightarrow> nat \<Rightarrow> rx_program" where
  "new_program regex spanning exponent =
    \<lparr>prog_regex = regex, prog_spanning = spanning, prog_exponent = exponent,
     prog_results = (if spanning \<noteq> 0 then Some [] else None)\<rparr>"

definition build_program :: "sre \<Rightarrow> string \<Rightarrow> rx_program result" where
  "build_program re pattern =
    (if length pattern > MAX_PATTERN_LENGTH then Inl (ValueError ''as-path regex is too long'')
     else if \<not> sre_compiles re (translate pattern) then Inl (ValueError ''not a valid as-path regex'')
     else
       (let text = translate (strip_wildcards pattern) in
        case sre_parse re text of
          None \<Rightarrow> Inl (ValueError ''not a valid as-path regex'')
        | Some parsed \<Rightarrow>
            if \<not> sre_compiles re text then Inl (ValueError ''not a valid as-path regex'')
            else bind_res (judge_seq False parsed) (\<lambda>spanning.
              let exponent = spanning + (if anchored parsed then 0 else 1) in
              if exponent > MAX_EXPONENT then Inl (ValueError ''as-path regex has too many path-spanning repeats'')
              else Inr (new_program text spanning exponent))))"

text \<open>The module's state: the programs made so far, as objects numbered in order, and the cache from
  pattern text to program.\<close>

record pattern_store =
  ps_programs :: "rx_program list"
  ps_cache :: "(string, nat) pydict"

definition new_store :: pattern_store where
  "new_store = \<lparr>ps_programs = [], ps_cache = []\<rparr>"

datatype pattern_arg = PA_Text string | PA_Other

definition get_program :: "sre \<Rightarrow> pattern_arg \<Rightarrow> pattern_store \<Rightarrow> pattern_store \<times> nat result" where
  "get_program re arg ps =
    (case arg of
       PA_Other \<Rightarrow> (ps, Inl (ValueError ''an as-path regex must be a string''))
     | PA_Text pattern \<Rightarrow>
         if pattern = [] then (ps, Inl (ValueError ''an as-path regex must not be empty''))
         else
           (case dict_get (ps_cache ps) pattern of
              Some n \<Rightarrow> (ps, Inr n)
            | None \<Rightarrow>
                (case build_program re pattern of
                   Inl e \<Rightarrow> (ps, Inl e)
                 | Inr prog \<Rightarrow>
                     let cache = (if length (ps_cache ps) \<ge> PATTERN_CACHE_MAX then [] else ps_cache ps);
                         n = length (ps_programs ps)
                     in (\<lparr>ps_programs = ps_programs ps @ [prog], ps_cache = dict_set pattern n cache\<rparr>, Inr n))))"

definition check_length :: "sre \<Rightarrow> pattern_arg \<Rightarrow> nat \<Rightarrow> pattern_store \<Rightarrow> pattern_store \<times> unit result" where
  "check_length re pattern longest ps =
    (case get_program re pattern ps of
       (ps', Inl e) \<Rightarrow> (ps', Inl e)
     | (ps', Inr n) \<Rightarrow>
         let program = ps_programs ps' ! n in
         if prog_exponent program < 2 then (ps', Inr ())
         else if longest \<noteq> 0 \<and> longest \<le> QUADRATIC_MAX_ASNS then (ps', Inr ())
         else (ps', Inl (ValueError ''as-path regex grows with the square of the path length'')))"

text \<open>\<open>AsPathMatcher\<close>: the pattern text and the program it was built from, whose compiled text
  never changes and whose results are shared.\<close>

record matcher =
  am_pattern :: string
  am_program :: nat

definition new_matcher :: "sre \<Rightarrow> pattern_arg \<Rightarrow> pattern_store \<Rightarrow> pattern_store \<times> matcher result" where
  "new_matcher re arg ps =
    (case get_program re arg ps of
       (ps', Inl e) \<Rightarrow> (ps', Inl e)
     | (ps', Inr n) \<Rightarrow>
         (ps', Inr \<lparr>am_pattern = (case arg of PA_Text s \<Rightarrow> s | PA_Other \<Rightarrow> []), am_program = n\<rparr>))"

definition remember :: "string \<Rightarrow> bool \<Rightarrow> (string, bool) pydict \<Rightarrow> (string, bool) pydict" where
  "remember path hit results =
    (let r = dict_set path hit results in if length r > RESULT_CACHE_MAX then tl r else r)"

definition matcher_matches :: "sre \<Rightarrow> matcher \<Rightarrow> string option \<Rightarrow> pattern_store \<Rightarrow> pattern_store \<times> bool" where
  "matcher_matches re m arg ps =
    (let path = get_default arg [];
         program = ps_programs ps ! am_program m;
         store = (\<lambda>r. ps\<lparr>ps_programs := (ps_programs ps)[am_program m := program\<lparr>prog_results := Some r\<rparr>]\<rparr>)
     in case prog_results program of
          None \<Rightarrow> (ps, sre_search re (prog_regex program) path)
        | Some results \<Rightarrow>
            (case dict_get results path of
               Some hit \<Rightarrow> (store (dict_pop path results @ [(path, hit)]), hit)
             | None \<Rightarrow>
                 (let hit = sre_search re (prog_regex program) path
                  in (store (remember path hit results), hit))))"

section \<open>The access-list\<close>

record ape =
  ape_seq :: nat
  ape_action :: nat
  ape_matcher :: matcher
  ape_hits :: nat

record as_path_list =
  apl_name :: string
  apl_version :: nat
  apl_hits :: nat
  apl_matches :: nat
  apl_entries :: "ape list"

definition new_as_path_list :: "string \<Rightarrow> as_path_list result" where
  "new_as_path_list name =
    (if name = [] then Inl (ValueError ''an as-path access-list name is required'')
     else Inr \<lparr>apl_name = name, apl_version = 0, apl_hits = 0, apl_matches = 0, apl_entries = []\<rparr>)"

definition new_ape :: "sre \<Rightarrow> pyval \<Rightarrow> pyval \<Rightarrow> pattern_arg \<Rightarrow> pattern_store \<Rightarrow> pattern_store \<times> ape result" where
  "new_ape re seq action pattern ps =
    (case seq_number seq of
       Inl e \<Rightarrow> (ps, Inl e)
     | Inr n \<Rightarrow>
         (case action_id action of
            Inl e \<Rightarrow> (ps, Inl e)
          | Inr a \<Rightarrow>
              (case new_matcher re pattern ps of
                 (ps', Inl e) \<Rightarrow> (ps', Inl e)
               | (ps', Inr m) \<Rightarrow> (ps', Inr \<lparr>ape_seq = n, ape_action = a, ape_matcher = m, ape_hits = 0\<rparr>))))"

definition apl_add :: "sre \<Rightarrow> pyval \<Rightarrow> pyval \<Rightarrow> pattern_arg \<Rightarrow> pattern_store \<times> as_path_list \<Rightarrow>
    (pattern_store \<times> as_path_list) \<times> ape result" where
  "apl_add re seq action pattern s =
    (case new_ape re seq action pattern (fst s) of
       (ps, Inl e) \<Rightarrow> ((ps, snd s), Inl e)
     | (ps, Inr entry) \<Rightarrow>
         ((ps, (snd s)\<lparr>apl_entries := seq_put ape_seq entry (apl_entries (snd s)),
                  apl_version := apl_version (snd s) + 1\<rparr>), Inr entry))"

definition apl_remove :: "pyval \<Rightarrow> as_path_list \<Rightarrow> as_path_list \<times> bool result" where
  "apl_remove seq l =
    (case seq_number seq of
       Inl e \<Rightarrow> (l, Inl e)
     | Inr n \<Rightarrow>
         if n \<in> ape_seq ` set (apl_entries l)
         then (l\<lparr>apl_entries := seq_del ape_seq n (apl_entries l), apl_version := apl_version l + 1\<rparr>, Inr True)
         else (l, Inr False))"

definition apl_clear :: "as_path_list \<Rightarrow> as_path_list \<times> nat" where
  "apl_clear l =
    (let removed = length (apl_entries l); l1 = l\<lparr>apl_entries := []\<rparr>
     in (if removed \<noteq> 0 then l1\<lparr>apl_version := apl_version l1 + 1\<rparr> else l1, removed))"

text \<open>The scan: the entries before the match are left as they are, the one that matches counts.\<close>

fun apl_scan :: "sre \<Rightarrow> string \<Rightarrow> ape list \<Rightarrow> pattern_store \<Rightarrow> pattern_store \<times> ape list \<times> nat option" where
  "apl_scan re path [] ps = (ps, [], None)"
| "apl_scan re path (e # es) ps =
     (case matcher_matches re (ape_matcher e) (Some path) ps of
        (ps', True) \<Rightarrow> (ps', e\<lparr>ape_hits := ape_hits e + 1\<rparr> # es, Some (ape_action e))
      | (ps', False) \<Rightarrow> (case apl_scan re path es ps' of (ps'', es', r) \<Rightarrow> (ps'', e # es', r)))"

datatype path_arg = Path_None | Path_Text string | Path_Other

definition apl_evaluate :: "sre \<Rightarrow> path_arg \<Rightarrow> pattern_store \<times> as_path_list \<Rightarrow>
    (pattern_store \<times> as_path_list) \<times> int result" where
  "apl_evaluate re arg s =
    (case arg of
       Path_Other \<Rightarrow> (s, Inl (ValueError ''an AS path must be a string''))
     | _ \<Rightarrow>
         (let path = (case arg of Path_Text p \<Rightarrow> p | _ \<Rightarrow> []);
              l = (snd s)\<lparr>apl_hits := apl_hits (snd s) + 1\<rparr>
          in case apl_scan re path (apl_entries l) (fst s) of
               (ps, es, None) \<Rightarrow> ((ps, l\<lparr>apl_entries := es\<rparr>), Inr NO_ENTRY)
             | (ps, es, Some a) \<Rightarrow>
                 ((ps, l\<lparr>apl_entries := es, apl_matches := apl_matches l + 1\<rparr>), Inr (int a))))"

definition apl_permits :: "sre \<Rightarrow> path_arg \<Rightarrow> pattern_store \<times> as_path_list \<Rightarrow>
    (pattern_store \<times> as_path_list) \<times> bool result" where
  "apl_permits re arg s =
    (case apl_evaluate re arg s of (s', r) \<Rightarrow> (s', bind_res r (\<lambda>a. Inr (a = int ACTION_PERMIT))))"

end
