(* ===== verification/AsPathProps.thy ===== *)
theory AsPathProps
  imports AsPath
begin

text \<open>
  What the guard of \<open>AsPath\<close> promises, against a matching relation on texts, and the caches and
  access-lists. The relation says from which position to which a node can match; it ignores what
  only restricts matching further (atomicity, lookaround), so that a bound on it is a bound on the
  matcher, and has no rule for group references and conditionals, which the guard refuses. Texts are canonical path strings: digits and
  delimiters, on which the Unicode categories come down to the ASCII ones.
\<close>

section \<open>Matching\<close>

fun at_holds :: "nat list \<Rightarrow> at_code \<Rightarrow> nat \<Rightarrow> bool" where
  "at_holds w AT_BEGINNING i \<longleftrightarrow> i = 0"
| "at_holds w AT_BEGINNING_STRING i \<longleftrightarrow> i = 0"
| "at_holds w AT_END i \<longleftrightarrow> i = length w"
| "at_holds w AT_END_STRING i \<longleftrightarrow> i = length w"
| "at_holds w AT_BOUNDARY i \<longleftrightarrow> True"
| "at_holds w AT_NON_BOUNDARY i \<longleftrightarrow> True"

fun category_has :: "category \<Rightarrow> nat \<Rightarrow> bool" where
  "category_has CATEGORY_DIGIT c \<longleftrightarrow> 48 \<le> c \<and> c \<le> 57"
| "category_has CATEGORY_NOT_DIGIT c \<longleftrightarrow> \<not> (48 \<le> c \<and> c \<le> 57)"
| "category_has CATEGORY_SPACE c \<longleftrightarrow> c = 32 \<or> 9 \<le> c \<and> c \<le> 13"
| "category_has CATEGORY_NOT_SPACE c \<longleftrightarrow> \<not> (c = 32 \<or> 9 \<le> c \<and> c \<le> 13)"
| "category_has CATEGORY_WORD c \<longleftrightarrow> 48 \<le> c \<and> c \<le> 57 \<or> 65 \<le> c \<and> c \<le> 90 \<or> c = 95 \<or> 97 \<le> c \<and> c \<le> 122"
| "category_has CATEGORY_NOT_WORD c \<longleftrightarrow> \<not> (48 \<le> c \<and> c \<le> 57 \<or> 65 \<le> c \<and> c \<le> 90 \<or> c = 95 \<or> 97 \<le> c \<and> c \<le> 122)"

fun member_has :: "class_item \<Rightarrow> nat \<Rightarrow> bool" where
  "member_has C_NEGATE c \<longleftrightarrow> False"
| "member_has (C_LITERAL d) c \<longleftrightarrow> c = d"
| "member_has (C_RANGE lo hi) c \<longleftrightarrow> lo \<le> c \<and> c \<le> hi"
| "member_has (C_CATEGORY k) c \<longleftrightarrow> category_has k c"

definition class_has :: "class_item list \<Rightarrow> nat \<Rightarrow> bool" where
  "class_has cs c \<longleftrightarrow> (C_NEGATE \<in> set cs) \<noteq> list_ex (\<lambda>m. member_has m c) cs"

inductive item_match :: "nat list \<Rightarrow> rx \<Rightarrow> nat \<Rightarrow> nat \<Rightarrow> bool"
  and seq_match :: "nat list \<Rightarrow> rx list \<Rightarrow> nat \<Rightarrow> nat \<Rightarrow> bool"
  and rep_match :: "nat list \<Rightarrow> rx list \<Rightarrow> nat \<Rightarrow> nat \<Rightarrow> nat \<Rightarrow> bool"
  for w :: "nat list" where
  m_literal: "i < length w \<Longrightarrow> w ! i = c \<Longrightarrow> item_match w (LITERAL c) i (Suc i)"
| m_not_literal: "i < length w \<Longrightarrow> w ! i \<noteq> c \<Longrightarrow> item_match w (NOT_LITERAL c) i (Suc i)"
| m_any: "i < length w \<Longrightarrow> item_match w ANY i (Suc i)"
| m_class: "i < length w \<Longrightarrow> class_has cs (w ! i) \<Longrightarrow> item_match w (IN cs) i (Suc i)"
| m_at: "i \<le> length w \<Longrightarrow> at_holds w a i \<Longrightarrow> item_match w (AT a) i i"
| m_group: "seq_match w s i j \<Longrightarrow> item_match w (SUBPATTERN s) i j"
| m_branch: "alt \<in> set alts \<Longrightarrow> seq_match w alt i j \<Longrightarrow> item_match w (BRANCH alts) i j"
| m_repeat: "rep_match w s n i j \<Longrightarrow> lo \<le> n \<Longrightarrow> (\<And>m. hi = Some m \<Longrightarrow> n \<le> m) \<Longrightarrow> item_match w (REPEAT k lo hi s) i j"
| m_ahead: "i \<le> length w \<Longrightarrow> item_match w (ASSERT s) i i"
| m_not_ahead: "i \<le> length w \<Longrightarrow> item_match w (ASSERT_NOT s) i i"
| m_atomic: "seq_match w s i j \<Longrightarrow> item_match w (ATOMIC_GROUP s) i j"
| m_empty: "i \<le> length w \<Longrightarrow> seq_match w [] i i"
| m_cons: "item_match w x i k \<Longrightarrow> seq_match w xs k j \<Longrightarrow> seq_match w (x # xs) i j"
| m_none: "i \<le> length w \<Longrightarrow> rep_match w s 0 i i"
| m_more: "seq_match w s i k \<Longrightarrow> rep_match w s n k j \<Longrightarrow> rep_match w s (Suc n) i j"

inductive_cases item_matchE [elim!]:
  "item_match w (LITERAL c) i j" "item_match w (NOT_LITERAL c) i j" "item_match w ANY i j"
  "item_match w (IN cs) i j" "item_match w (AT a) i j" "item_match w (SUBPATTERN s) i j"
  "item_match w (BRANCH alts) i j" "item_match w (ASSERT s) i j" "item_match w (ASSERT_NOT s) i j"
  "item_match w (ATOMIC_GROUP s) i j"

inductive_cases repeat_matchE: "item_match w (REPEAT k lo hi s) i j"

inductive_simps seq_match_simps [simp]: "seq_match w [] i j" "seq_match w (x # xs) i j"

inductive_cases rep_matchE: "rep_match w s 0 i j" "rep_match w s (Suc n) i j"

lemma match_bounds:
  "item_match w x i j \<Longrightarrow> i \<le> j \<and> j \<le> length w"
  "seq_match w s i j \<Longrightarrow> i \<le> j \<and> j \<le> length w"
  "rep_match w s n i j \<Longrightarrow> i \<le> j \<and> j \<le> length w"
  by (induction rule: item_match_seq_match_rep_match.inducts) auto

lemma seq_match_append: "seq_match w (s @ t) i j \<longleftrightarrow> (\<exists>k. seq_match w s i k \<and> seq_match w t k j)"
proof (induction s arbitrary: i)
  case Nil
  show ?case using match_bounds(2) [of w t i j] by fastforce
next
  case (Cons x s)
  then show ?case by auto
qed

lemma seq_match_items: "seq_match w (rx_items s) i j \<longleftrightarrow> seq_match w s i j"
proof (induction s arbitrary: i j rule: rx_items.induct)
  case (2 s xs)
  then show ?case by (auto simp: seq_match_append intro: m_group)
qed auto

section \<open>What can be consumed\<close>

lemma union_chars_Some: "union_chars a b = Some c \<longleftrightarrow> (\<exists>x y. a = Some x \<and> b = Some y \<and> c = x \<union> y)"
  by (auto simp: union_chars_def split: option.splits)

lemma mem_char_range [simp]: "c \<in> char_range lo hi \<longleftrightarrow> lo \<le> c \<and> c \<le> hi"
  by (auto simp: char_range_def)

lemma class_chars_sound: "class_chars cs = Some S \<Longrightarrow> class_has cs c \<Longrightarrow> c \<in> S"
proof -
  have "C_NEGATE \<notin> set cs \<and> (list_ex (\<lambda>m. member_has m c) cs \<longrightarrow> c \<in> S)" if "class_chars cs = Some S"
    using that
    by (induction cs arbitrary: S rule: class_chars.induct)
       (auto simp: union_chars_Some split: if_splits)
  then show "class_chars cs = Some S \<Longrightarrow> class_has cs c \<Longrightarrow> c \<in> S" by (auto simp: class_has_def)
qed

definition consumes_in :: "nat list \<Rightarrow> nat \<Rightarrow> nat \<Rightarrow> nat set option \<Rightarrow> bool" where
  "consumes_in w i j S \<longleftrightarrow> (\<forall>cs. S = Some cs \<longrightarrow> (\<forall>k. i \<le> k \<and> k < j \<longrightarrow> w ! k \<in> cs))"

lemma consumes_in_join:
  "consumes_in w i k a \<Longrightarrow> consumes_in w k j b \<Longrightarrow> consumes_in w i j (union_chars a b)"
  unfolding consumes_in_def union_chars_Some by (metis Un_iff not_le)

lemma alts_chars_mem: "alt \<in> set alts \<Longrightarrow> consumes_in w i j (seq_chars alt) \<Longrightarrow> consumes_in w i j (alts_chars alts)"
  by (induction alts) (auto simp: consumes_in_def union_chars_Some)

lemma match_chars:
  "item_match w x i j \<Longrightarrow> consumes_in w i j (item_chars x)"
  "seq_match w s i j \<Longrightarrow> consumes_in w i j (seq_chars s)"
  "rep_match w s n i j \<Longrightarrow> consumes_in w i j (seq_chars s)"
proof (induction rule: item_match_seq_match_rep_match.inducts)
  case (m_cons x i k xs j)
  then show ?case by (simp add: consumes_in_join)
next
  case (m_more s i k n j)
  then show ?case using consumes_in_join [of w i k "seq_chars s" j "seq_chars s"]
    by (cases "seq_chars s") (auto simp: union_chars_def consumes_in_def)
qed (auto simp: consumes_in_def less_Suc_eq class_chars_sound intro: alts_chars_mem [unfolded consumes_in_def, rule_format])


section \<open>What a match can begin with\<close>

definition begins_in :: "nat list \<Rightarrow> nat \<Rightarrow> nat \<Rightarrow> nat set option \<times> bool \<Rightarrow> bool" where
  "begins_in w i j f \<longleftrightarrow> (\<not> snd f \<longrightarrow> i < j) \<and> (\<forall>cs. fst f = Some cs \<longrightarrow> i < j \<longrightarrow> w ! i \<in> cs)"

lemma alts_first_mem:
  "alt \<in> set alts \<Longrightarrow> begins_in w i j (seq_first alt) \<Longrightarrow> begins_in w i j (alts_first alts)"
proof (induction alts)
  case (Cons a as)
  obtain got n chars m where f: "seq_first a = (got, n)" "alts_first as = (chars, m)" by fastforce
  show ?case using Cons f by (auto simp: begins_in_def union_chars_Some)
qed simp

lemma begins_in_seq:
  assumes "begins_in w i k (item_first x)" and "begins_in w k j (seq_first xs)" and "i \<le> k" "k \<le> j"
  shows "begins_in w i j (seq_first (x # xs))"
proof -
  obtain a n b m where f: "item_first x = (a, n)" "seq_first xs = (b, m)" by fastforce
  show ?thesis
  proof (cases "i = k")
    case True
    then show ?thesis using assms f by (auto simp: begins_in_def union_chars_Some)
  next
    case False
    then show ?thesis using assms f by (auto simp: begins_in_def union_chars_Some)
  qed
qed

lemma match_first:
  "item_match w x i j \<Longrightarrow> begins_in w i j (item_first x)"
  "seq_match w s i j \<Longrightarrow> begins_in w i j (seq_first s)"
  "rep_match w s n i j \<Longrightarrow> begins_in w i j (fst (seq_first s), n = 0 \<or> snd (seq_first s))"
proof (induction rule: item_match_seq_match_rep_match.inducts)
  case (m_class i cs)
  then show ?case using class_chars_sound [of cs _ "w ! i"] by (auto simp: begins_in_def)
next
  case (m_branch alt alts i j)
  then show ?case by (simp add: alts_first_mem)
next
  case (m_repeat s n i j lo hi k)
  obtain a m where f: "seq_first s = (a, m)" by fastforce
  show ?case using m_repeat f by (auto simp: begins_in_def)
next
  case (m_cons x i k xs j)
  then show ?case using begins_in_seq match_bounds by blast
next
  case (m_more s i k n j)
  have "i \<le> k" "k \<le> j" using m_more(1,3) match_bounds by auto
  then show ?case using m_more(2,4) by (cases "i = k") (auto simp: begins_in_def)
qed (auto simp: begins_in_def)

text \<open>An item whose width is always the same.\<close>

fun item_width :: "rx \<Rightarrow> nat option" where
  "item_width (LITERAL c) = Some 1"
| "item_width (NOT_LITERAL c) = Some 1"
| "item_width ANY = Some 1"
| "item_width (IN cs) = Some 1"
| "item_width (AT a) = Some 0"
| "item_width (ASSERT s) = Some 0"
| "item_width (ASSERT_NOT s) = Some 0"
| "item_width _ = None"

lemma item_width_match: "item_match w x i j \<Longrightarrow> item_width x = Some n \<Longrightarrow> j = i + n"
  by (cases x) auto

fun common_items :: "rx list \<Rightarrow> rx list \<Rightarrow> rx list" where
  "common_items (x # xs) (y # ys) = (if \<not> is_repeat x \<and> x = y then x # common_items xs ys else [])"
| "common_items xs ys = []"

lemma skip_common_split:
  "skip_common xs ys = (a, b) \<Longrightarrow> xs = common_items xs ys @ a \<and> ys = common_items xs ys @ b"
  by (induction xs ys rule: skip_common.induct) (auto split: if_splits)

lemma same_width:
  "seq_match w s i k \<Longrightarrow> seq_match w s i k' \<Longrightarrow> \<forall>x \<in> set s. item_width x \<noteq> None \<Longrightarrow> k = k'"
proof (induction s arbitrary: i)
  case (Cons x s)
  obtain m m' where m: "item_match w x i m" "seq_match w s m k" "item_match w x i m'" "seq_match w s m' k'"
    using Cons.prems(1,2) by auto
  obtain n where "item_width x = Some n" using Cons.prems(3) by auto
  then have "m = m'" using item_width_match m(1,3) by blast
  then show ?case using Cons.IH m(2,4) Cons.prems(3) by auto
qed simp

lemma first_disjoint:
  assumes "seq_first a = (Some A, False)" "seq_first b = (Some B, False)" "A \<inter> B = {}"
    and "seq_match w a i j" "seq_match w b i j'"
  shows False
  using match_first(2) [OF assms(4)] match_first(2) [OF assms(5)] assms(1-3)
  by (auto simp: begins_in_def)


text \<open>Alternatives that the guard takes for distinct cannot both match from one position of a
  path, where the leading items they have in common consume a fixed number of characters.\<close>

theorem distinct_alternatives_exclude:
  assumes "rx_distinct a b" and "\<forall>x \<in> set (common_items (rx_items a) (rx_items b)). item_width x \<noteq> None"
    and "seq_match w a i j"
  shows "\<not> seq_match w b i j'"
proof
  assume "seq_match w b i j'"
  obtain a' b' where sk: "skip_common (rx_items a) (rx_items b) = (a', b')" by fastforce
  note sp = skip_common_split [OF sk]
  let ?c = "common_items (rx_items a) (rx_items b)"
  obtain fa na fb nb where ab: "seq_first a' = (fa, na)" "seq_first b' = (fb, nb)" by fastforce
  then obtain A B where f: "seq_first a' = (Some A, False)" "seq_first b' = (Some B, False)" "A \<inter> B = {}"
    using assms(1) sk by (auto simp: rx_distinct_def split: option.splits bool.splits)
  have "seq_match w (?c @ a') i j" "seq_match w (?c @ b') i j'"
    using assms(3) \<open>seq_match w b i j'\<close> sp seq_match_items by metis+
  then obtain k k' where k: "seq_match w ?c i k" "seq_match w a' k j" "seq_match w ?c i k'" "seq_match w b' k' j'"
    by (auto simp: seq_match_append)
  then have "k = k'" using same_width assms(2) by blast
  with k first_disjoint [OF f] show False by blast
qed

definition RX_DIGITS :: rx where
  "RX_DIGITS = REPEAT MAX_REPEAT 1 None [IN [C_RANGE 48 57]]"

text \<open>The parse tree of what \<open>_\<close> becomes.\<close>

definition RX_UNDERSCORE :: rx where
  "RX_UNDERSCORE = BRANCH [[AT AT_BEGINNING], [IN (map (\<lambda>c. C_LITERAL (of_char c)) '' ,{}()[]'')], [AT AT_END]]"

theorem distinct_alternatives_exclude_witness:
  "\<not> seq_match [49, 50] [LITERAL 49, LITERAL 51] 0 2"
proof (rule distinct_alternatives_exclude [where a = "[LITERAL 49, LITERAL 50]" and j = 2])
  show "rx_distinct [LITERAL 49, LITERAL 50] [LITERAL 49, LITERAL 51]" by code_simp
  show "\<forall>x \<in> set (common_items (rx_items [LITERAL 49, LITERAL 50]) (rx_items [LITERAL 49, LITERAL 51])). item_width x \<noteq> None"
    by simp
  have "item_match [49, 50] (LITERAL 49) 0 (Suc 0)" "item_match [49, 50] (LITERAL 50) (Suc 0) (Suc (Suc 0))"
    by (rule m_literal; simp)+
  note l = this
  show "seq_match [49, 50] [LITERAL 49, LITERAL 50] 0 2"
    unfolding numeral_2_eq_2 by (rule m_cons [OF l(1) m_cons [OF l(2) m_empty]]) simp
qed

text \<open>Without that condition the claim fails: the guard takes the underscore followed by {6 and the
  underscore followed by 6 for distinct, and on a path that begins with a set both match the same
  text, one with the underscore at the start of the path and one with it as the brace.\<close>

theorem distinct_alternatives_overlap:
  "rx_distinct [RX_UNDERSCORE, LITERAL 123, LITERAL 54] [RX_UNDERSCORE, LITERAL 54]
   \<and> seq_match [123, 54, 125] [RX_UNDERSCORE, LITERAL 123, LITERAL 54] 0 2
   \<and> seq_match [123, 54, 125] [RX_UNDERSCORE, LITERAL 54] 0 2"
proof (intro conjI)
  show "rx_distinct [RX_UNDERSCORE, LITERAL 123, LITERAL 54] [RX_UNDERSCORE, LITERAL 54]" by code_simp
  let ?w = "[123, 54, 125] :: nat list"
  have u: "item_match ?w RX_UNDERSCORE 0 0" unfolding RX_UNDERSCORE_def
    by (rule m_branch [of "[AT AT_BEGINNING]"]) (auto intro: m_at)
  have u1: "item_match ?w RX_UNDERSCORE 0 (Suc 0)" unfolding RX_UNDERSCORE_def
    by (rule m_branch [of "[IN (map (\<lambda>c. C_LITERAL (of_char c)) '' ,{}()[]'')]"])
       (auto intro!: exI [of _ "Suc 0"] m_class simp: class_has_def)
  have l: "item_match ?w (LITERAL 123) 0 (Suc 0)" "item_match ?w (LITERAL 54) (Suc 0) (Suc (Suc 0))"
    by (rule m_literal; simp)+
  show "seq_match ?w [RX_UNDERSCORE, LITERAL 123, LITERAL 54] 0 2"
    unfolding numeral_2_eq_2 by (rule m_cons [OF u m_cons [OF l(1) m_cons [OF l(2) m_empty]]]) simp
  show "seq_match ?w [RX_UNDERSCORE, LITERAL 54] 0 2"
    unfolding numeral_2_eq_2 by (rule m_cons [OF u1 m_cons [OF l(2) m_empty]]) simp
qed


section \<open>Passes of a repeat\<close>

text \<open>The ends of the passes that a repeat's body makes over a stretch of the text.\<close>

fun passes :: "nat list \<Rightarrow> rx list \<Rightarrow> nat \<Rightarrow> nat list \<Rightarrow> nat \<Rightarrow> bool" where
  "passes w s i [] j \<longleftrightarrow> i = j"
| "passes w s i (k # ks) j \<longleftrightarrow> i < k \<and> seq_match w s i k \<and> passes w s k ks j"

lemma passes_le: "passes w s i ks j \<Longrightarrow> i \<le> j"
  by (induction ks arbitrary: i) (auto, meson le_trans less_imp_le)

lemma passes_append: "passes w s i ks m \<Longrightarrow> passes w s m ks' j \<Longrightarrow> passes w s i (ks @ ks') j"
  by (induction ks arbitrary: i) auto

lemma passes_rep: "passes w s i ks j \<Longrightarrow> j \<le> length w \<Longrightarrow> rep_match w s (length ks) i j"
  by (induction ks arbitrary: i) (auto intro: m_none m_more)

lemma delimiter_alt_match:
  assumes "delimiter_alt alt = Some F" and "seq_match w alt i j" and "0 < i"
  shows "i < j \<and> j = Suc i \<and> w ! i \<in> F \<or> i = j \<and> i = length w"
proof -
  have m: "seq_match w (rx_items alt) i j" using assms(2) seq_match_items by blast
  show ?thesis
  proof (cases "rx_items alt")
    case Nil
    then show ?thesis using assms(1) by (simp add: delimiter_alt_def)
  next
    case (Cons x xs)
    have xs: "xs = []"
      using assms(1) Cons by (cases x; cases xs) (simp_all add: delimiter_alt_def)
    have x: "item_match w x i j" using m Cons xs by (auto)
    show ?thesis
    proof (cases x)
      case (AT a)
      then show ?thesis using assms(1,3) x Cons xs
        by (cases a) (auto simp: delimiter_alt_def EDGES_def split: if_splits)
    next
      case (LITERAL c)
      then show ?thesis using assms(1) x Cons xs by (auto simp: delimiter_alt_def split: if_splits)
    next
      case (IN cs)
      then show ?thesis using assms(1) x Cons xs class_chars_sound
        by (auto simp: delimiter_alt_def split: if_splits option.splits)
    qed (use assms(1) Cons xs in \<open>simp_all add: delimiter_alt_def\<close>)
  qed
qed

lemma delimiter_alts_mem:
  "delimiter_alts alts = Some F \<Longrightarrow> alt \<in> set alts \<Longrightarrow> \<exists>G. delimiter_alt alt = Some G \<and> G \<subseteq> F"
  by (induction alts arbitrary: F) (auto simp: union_chars_Some, blast)

lemma delimiter_chars_match:
  assumes "delimiter_chars d = Some F" and "item_match w d i j" and "0 < i"
  shows "j = Suc i \<and> w ! i \<in> F \<or> i = j \<and> i = length w"
proof -
  define alts where "alts = (case d of BRANCH alts \<Rightarrow> alts | _ \<Rightarrow> [[d]])"
  have F: "delimiter_alts alts = Some F"
    using assms(1) by (auto simp: delimiter_chars_def alts_def split: option.splits if_splits)
  have "\<exists>alt \<in> set alts. seq_match w alt i j"
  proof (cases d)
    case (BRANCH as)
    then show ?thesis using assms(2) by (auto simp: alts_def)
  qed (use assms(2) match_bounds(1) [OF assms(2)] m_cons [OF assms(2) m_empty] in \<open>auto simp: alts_def\<close>)
  then obtain alt where alt: "alt \<in> set alts" "seq_match w alt i j" by blast
  then obtain G where "delimiter_alt alt = Some G" "G \<subseteq> F" using delimiter_alts_mem [OF F] by blast
  then show ?thesis using delimiter_alt_match [OF _ alt(2) assms(3)] by blast
qed

lemma fenced_pass:
  assumes "delimiter_chars d = Some F" and "seq_chars rest = Some C" and "F \<inter> C = {}" and "0 < i" and "i < k"
    and "seq_match w (d # rest) i k"
  shows "w ! i \<in> F" "\<And>m. i < m \<Longrightarrow> m < k \<Longrightarrow> w ! m \<notin> F"
proof -
  obtain m where m: "item_match w d i m" "seq_match w rest m k" using assms(6) by (auto elim: m_cons)
  have b: "m \<le> k" "k \<le> length w" using match_bounds(2) [OF m(2)] by auto
  then have m': "m = Suc i" "w ! i \<in> F" using delimiter_chars_match [OF assms(1) m(1) assms(4)] assms(5) by auto
  then show "w ! i \<in> F" by simp
  show "w ! n \<notin> F" if "i < n" "n < k" for n
    using match_chars(2) [OF m(2)] assms(2,3) that m'(1) by (auto simp: consumes_in_def)
qed

text \<open>Where a repeated body begins with a delimiter that nothing after it can consume, there is
  one way to split a stretch of the path into passes.\<close>

theorem fenced_passes_unique:
  assumes "delimiter_chars d = Some F" and "seq_chars rest = Some C" and "F \<inter> C = {}" and "0 < i"
    and "passes w (d # rest) i ks j" and "passes w (d # rest) i ks' j"
  shows "ks = ks'"
  using assms(4-6)
proof (induction ks arbitrary: i ks')
  case Nil
  then show ?case using passes_le by (cases ks') (auto, fastforce)
next
  case (Cons k ks)
  note fp = fenced_pass [OF assms(1-3)]
  have P: "i < k" "seq_match w (d # rest) i k" "passes w (d # rest) k ks j" using Cons.prems(2) by simp_all
  then obtain k' ks2 where ks': "ks' = k' # ks2" using Cons.prems(3) passes_le [OF P(3)] by (cases ks') auto
  have Q: "i < k'" "seq_match w (d # rest) i k'" "passes w (d # rest) k' ks2 j" using Cons.prems(3) ks' by simp_all
  have next_fence: "w ! a \<in> F" if "passes w (d # rest) a as j" "a < j" "0 < a" for a as
    using that fp(1) by (cases as) auto
  have "\<not> k < k'"
    using next_fence [OF P(3)] fp(2) [OF Cons.prems(1) Q(1,2), of k] passes_le [OF Q(3)] P(1) by fastforce
  moreover have "\<not> k' < k"
    using next_fence [OF Q(3)] fp(2) [OF Cons.prems(1) P(1,2), of k'] passes_le [OF P(3)] Q(1) by fastforce
  ultimately have "k = k'" by simp
  then show ?case using Cons.IH [OF _ P(3), of ks2] Q ks' P(1) by simp
qed


theorem fenced_passes_unique_witness:
  "{ks. passes [49, 32, 50, 32, 51] [RX_UNDERSCORE, RX_DIGITS] 1 ks 5} = {[3, 5]}"
proof -
  let ?w = "[49, 32, 50, 32, 51] :: nat list" and ?s = "[RX_UNDERSCORE, RX_DIGITS]"
  have d: "delimiter_chars RX_UNDERSCORE = Some DELIMITERS" by code_simp
  have c: "seq_chars [RX_DIGITS] = Some (char_range 48 57)" by code_simp
  have e: "DELIMITERS \<inter> char_range 48 57 = {}" by code_simp
  have u: "item_match ?w RX_UNDERSCORE i (Suc i)" if "i = 1 \<or> i = 3" for i unfolding RX_UNDERSCORE_def
    by (rule m_branch [of "[IN (map (\<lambda>c. C_LITERAL (of_char c)) '' ,{}()[]'')]"])
       (use that in \<open>auto intro!: exI [of _ "Suc i"] m_class simp: class_has_def\<close>)
  have n: "seq_match ?w [IN [C_RANGE 48 57]] i (Suc i)" if "i = 2 \<or> i = 4" for i
    by (rule m_cons [OF m_class m_empty]) (use that in \<open>auto simp: class_has_def\<close>)
  have g: "item_match ?w RX_DIGITS i (Suc i)" if "i = 2 \<or> i = 4" for i unfolding RX_DIGITS_def
    by (rule m_repeat [OF m_more [OF n [OF that] m_none]]) (use that in auto)
  have s: "seq_match ?w ?s i (Suc (Suc i))" if "i = 1 \<or> i = 3" for i
    by (rule m_cons [OF u m_cons [OF g m_empty]]) (use that in auto)
  have p: "passes ?w ?s 1 [3, 5] 5" using s [of 1] s [of 3] by (simp add: numeral_eq_Suc del: seq_match_simps)
  show ?thesis using fenced_passes_unique [OF d c e _ _ p] p by auto
qed

section \<open>A repeat that the guard lets through\<close>

definition RUNAWAY_BODY :: "rx list" where
  "RUNAWAY_BODY = [RX_UNDERSCORE, RX_DIGITS, REPEAT MAX_REPEAT 0 (Some 1) [SUBPATTERN [RX_UNDERSCORE, RX_DIGITS]]]"

text \<open>The parse of \<open>^(_[0-9]+(_[0-9]+)?)+$\<close>.\<close>

definition RUNAWAY :: "rx list" where
  "RUNAWAY = [AT AT_BEGINNING, REPEAT MAX_REPEAT 1 None [SUBPATTERN RUNAWAY_BODY], AT AT_END]"

text \<open>The path of \<open>n\<close> one-digit AS numbers.\<close>

definition path_of :: "nat \<Rightarrow> nat list" where
  "path_of n = map (\<lambda>k. if even k then 49 else 32) [0..<2 * n - 1]"

lemma asn_pass:
  assumes "k < n"
  shows "seq_match (path_of n) [RX_UNDERSCORE, RX_DIGITS] (2 * k - 1) (2 * k + 1)"
proof -
  let ?w = "path_of n"
  have len: "length ?w = 2 * n - 1" by (simp add: path_of_def)
  have "seq_match ?w [IN [C_RANGE 48 57]] (2 * k) (Suc (2 * k))"
    by (rule m_cons [OF m_class m_empty]) (use assms in \<open>auto simp: class_has_def path_of_def\<close>)
  then have d: "item_match ?w RX_DIGITS (2 * k) (2 * k + 1)" unfolding RX_DIGITS_def
    by (intro m_repeat [OF m_more [OF _ m_none]]) (use assms len in auto)
  have u: "item_match ?w RX_UNDERSCORE (2 * k - 1) (2 * k)"
  proof (cases "k = 0")
    case True
    show ?thesis unfolding RX_UNDERSCORE_def
      by (rule m_branch [of "[AT AT_BEGINNING]"]) (use True in \<open>auto intro: m_at\<close>)
  next
    case False
    then have i: "Suc (2 * k - 1) = 2 * k" "odd (2 * k - 1)" "2 * k - 1 < length ?w" using assms len by auto
    then have "?w ! (2 * k - 1) = 32" by (simp add: path_of_def)
    then have c: "class_has (map (\<lambda>c. C_LITERAL (of_char c)) '' ,{}()[]'') (?w ! (2 * k - 1))"
      by (simp add: class_has_def)
    have "seq_match ?w [IN (map (\<lambda>c. C_LITERAL (of_char c)) '' ,{}()[]'')] (2 * k - 1) (Suc (2 * k - 1))"
      by (rule m_cons [OF m_class [OF i(3) c] m_empty]) (use i in auto)
    then have "seq_match ?w [IN (map (\<lambda>c. C_LITERAL (of_char c)) '' ,{}()[]'')] (2 * k - 1) (2 * k)"
      unfolding i(1) .
    then show ?thesis unfolding RX_UNDERSCORE_def by (rule m_branch [rotated]) simp
  qed
  show ?thesis by (rule m_cons [OF u m_cons [OF d m_empty]]) (use assms len in auto)
qed

lemma runaway_pass:
  assumes "k < n"
  shows "seq_match (path_of n) RUNAWAY_BODY (2 * k - 1) (2 * k + 1)"
    and "k + 1 < n \<Longrightarrow> seq_match (path_of n) RUNAWAY_BODY (2 * k - 1) (2 * k + 3)"
proof -
  let ?w = "path_of n" and ?r = "REPEAT MAX_REPEAT 0 (Some 1) [SUBPATTERN [RX_UNDERSCORE, RX_DIGITS]]"
  have len: "length ?w = 2 * n - 1" by (simp add: path_of_def)
  have b: "RUNAWAY_BODY = [RX_UNDERSCORE, RX_DIGITS] @ [?r]" by (simp add: RUNAWAY_BODY_def)
  have "item_match ?w ?r (2 * k + 1) (2 * k + 1)" by (rule m_repeat [OF m_none]) (use assms len in auto)
  then have "seq_match ?w [?r] (2 * k + 1) (2 * k + 1)" by (rule m_cons [OF _ m_empty]) (use assms len in auto)
  then show "seq_match ?w RUNAWAY_BODY (2 * k - 1) (2 * k + 1)"
    unfolding b seq_match_append using asn_pass [OF assms] by blast
  assume k: "k + 1 < n"
  have "seq_match ?w [RX_UNDERSCORE, RX_DIGITS] (2 * k + 1) (2 * k + 3)"
    using asn_pass [OF k] by (simp add: numeral_eq_Suc del: seq_match_simps)
  then have "seq_match ?w [SUBPATTERN [RX_UNDERSCORE, RX_DIGITS]] (2 * k + 1) (2 * k + 3)"
    by (rule m_cons [OF m_group m_empty]) (use k len in auto)
  then have "item_match ?w ?r (2 * k + 1) (2 * k + 3)"
    by (rule m_repeat [OF m_more [OF _ m_none]]) (use k len in auto)
  then have "seq_match ?w [?r] (2 * k + 1) (2 * k + 3)" by (rule m_cons [OF _ m_empty]) (use k len in auto)
  then show "seq_match ?w RUNAWAY_BODY (2 * k - 1) (2 * k + 3)"
    unfolding b seq_match_append using asn_pass [OF assms] by blast
qed

text \<open>For each pair of AS numbers, one pass over both or one pass each.\<close>

fun split_of :: "nat \<Rightarrow> bool list \<Rightarrow> nat list" where
  "split_of k [] = []"
| "split_of k (b # bs) = (if b then [2 * k + 3] else [2 * k + 1, 2 * k + 3]) @ split_of (k + 2) bs"

lemma split_of_passes:
  "k + 2 * length bs \<le> n \<Longrightarrow> passes (path_of n) RUNAWAY_BODY (2 * k - 1) (split_of k bs) (2 * (k + 2 * length bs) - 1)"
proof (induction bs arbitrary: k)
  case (Cons b bs)
  have k: "k < n" "k + 1 < n" "k + 2 + 2 * length bs \<le> n" using Cons.prems by auto
  have e: "2 * (k + 2) - 1 = 2 * k + 3" "2 * (k + 2 + 2 * length bs) - 1 = 2 * (k + 2 * length (b # bs)) - 1"
    by simp_all
  have rest: "passes (path_of n) RUNAWAY_BODY (2 * k + 3) (split_of (k + 2) bs) (2 * (k + 2 * length (b # bs)) - 1)"
    using Cons.IH [OF k(3)] unfolding e .
  have "seq_match (path_of n) RUNAWAY_BODY (2 * k + 1) (2 * k + 3)"
    using runaway_pass(1) [OF k(2)] by (simp add: numeral_eq_Suc)
  then show ?case using rest runaway_pass [OF k(1)] k(2) by (cases b) auto
qed simp

lemma split_of_inject: "length bs = length bs' \<Longrightarrow> split_of k bs = split_of k bs' \<Longrightarrow> bs = bs'"
  by (induction bs bs' arbitrary: k rule: list_induct2) (auto split: if_splits)

text \<open>C28. The guard accepts ^(_[0-9]+(_[0-9]+)?)+$ as linear (one path-spanning repeat, anchored),
  yet a path of 2n AS numbers can be split into passes of its repeated group in at least 2^n
  ways: a fence at the start of each pass does not keep passes from trading what follows it.\<close>

theorem guard_accepts_exponential:
  "judge_seq False RUNAWAY = Inr 1 \<and> anchored RUNAWAY
   \<and> (\<exists>S. S \<subseteq> {ks. passes (path_of (2 * n)) RUNAWAY_BODY 0 ks (length (path_of (2 * n)))}
          \<and> finite S \<and> card S = 2 ^ n)"
proof (intro conjI)
  show "judge_seq False RUNAWAY = Inr 1" by code_simp
  show "anchored RUNAWAY" by code_simp
  let ?B = "{bs :: bool list. length bs = n}"
  let ?S = "split_of 0 ` ?B"
  have B: "?B = {bs. set bs \<subseteq> UNIV \<and> length bs = n}" by simp
  have "finite ?B" unfolding B by (rule finite_lists_length_eq) simp
  moreover have "card ?B = 2 ^ n" unfolding B by (subst card_lists_length_eq) (simp_all add: card_UNIV_bool)
  moreover have "inj_on (split_of 0) ?B" by (rule inj_onI) (auto intro: split_of_inject)
  ultimately have "finite ?S" "card ?S = 2 ^ n" by (simp_all add: card_image)
  moreover have "?S \<subseteq> {ks. passes (path_of (2 * n)) RUNAWAY_BODY 0 ks (length (path_of (2 * n)))}"
    using split_of_passes [of 0 _ "2 * n"] by (auto simp: path_of_def)
  ultimately show "\<exists>S. S \<subseteq> {ks. passes (path_of (2 * n)) RUNAWAY_BODY 0 ks (length (path_of (2 * n)))}
      \<and> finite S \<and> card S = 2 ^ n" by blast
qed

end
