(* ===== verification/AsPathListProps.thy ===== *)
theory AsPathListProps
  imports AsPath
begin

text \<open>
  The caches of \<open>AsPath\<close> never change an answer, and its access-list is an ordered filter: from any
  state of the shared pattern store, with other lists compiling and matching in between, the
  verdict is that of the first entry whose pattern is found in the path.
\<close>

section \<open>The pattern store\<close>

definition compiled_text :: "string \<Rightarrow> string" where
  "compiled_text pattern = translate (strip_wildcards pattern)"

definition accepted :: "sre \<Rightarrow> pattern_arg \<Rightarrow> bool" where
  "accepted re arg = (case arg of PA_Other \<Rightarrow> False
     | PA_Text p \<Rightarrow> p \<noteq> [] \<and> (case build_program re p of Inl _ \<Rightarrow> False | Inr _ \<Rightarrow> True))"

definition regexes :: "pattern_store \<Rightarrow> string list" where
  "regexes ps = map prog_regex (ps_programs ps)"

definition results_ok :: "sre \<Rightarrow> rx_program \<Rightarrow> bool" where
  "results_ok re prog \<longleftrightarrow> (\<forall>rs. prog_results prog = Some rs \<longrightarrow>
     length rs \<le> RESULT_CACHE_MAX \<and> (\<forall>(p, b) \<in> set rs. b = sre_search re (prog_regex prog) p))"

definition store_ok :: "sre \<Rightarrow> pattern_store \<Rightarrow> bool" where
  "store_ok re ps \<longleftrightarrow> length (ps_cache ps) \<le> PATTERN_CACHE_MAX
     \<and> (\<forall>(p, n) \<in> set (ps_cache ps). accepted re (PA_Text p) \<and> n < length (regexes ps)
          \<and> regexes ps ! n = compiled_text p)
     \<and> (\<forall>prog \<in> set (ps_programs ps). results_ok re prog)"

lemma store_okD:
  assumes "store_ok re ps"
  shows "length (ps_cache ps) \<le> PATTERN_CACHE_MAX"
    "(p, n) \<in> set (ps_cache ps) \<Longrightarrow> accepted re (PA_Text p) \<and> n < length (regexes ps) \<and> regexes ps ! n = compiled_text p"
    "prog \<in> set (ps_programs ps) \<Longrightarrow> results_ok re prog"
  using assms by (auto simp: store_ok_def)

lemma store_ok_new: "store_ok re new_store"
  by (simp add: store_ok_def new_store_def)

lemma build_program_regex: "build_program re p = Inr prog \<Longrightarrow> prog_regex prog = compiled_text p \<and> results_ok re prog"
  by (auto simp: build_program_def compiled_text_def Let_def bind_res_Inr_iff new_program_def results_ok_def
      split: if_splits option.splits)

lemma length_dict_set: "length (dict_set k v d) \<le> Suc (length d)"
  by (induction d) auto

lemma get_program_ok:
  assumes "store_ok re ps" and "get_program re arg ps = (ps', r)"
  shows "store_ok re ps'" "Sublist.prefix (regexes ps) (regexes ps')"
    "r = Inr n \<Longrightarrow> accepted re arg \<and> n < length (regexes ps') \<and> (\<exists>p. arg = PA_Text p \<and> regexes ps' ! n = compiled_text p)"
    "r = Inl e \<Longrightarrow> \<not> accepted re arg"
proof -
  have "store_ok re ps' \<and> Sublist.prefix (regexes ps) (regexes ps')
    \<and> (\<forall>n. r = Inr n \<longrightarrow> accepted re arg \<and> n < length (regexes ps') \<and> (\<exists>p. arg = PA_Text p \<and> regexes ps' ! n = compiled_text p))
    \<and> (\<forall>e. r = Inl e \<longrightarrow> \<not> accepted re arg)"
  proof (cases arg)
    case PA_Other
    then show ?thesis using assms by (auto simp: get_program_def accepted_def)
  next
    case (PA_Text p)
    consider "p = []" | n where "p \<noteq> []" "dict_get (ps_cache ps) p = Some n"
      | e where "p \<noteq> []" "dict_get (ps_cache ps) p = None" "build_program re p = Inl e"
      | prog where "p \<noteq> []" "dict_get (ps_cache ps) p = None" "build_program re p = Inr prog"
      by (cases "build_program re p"; cases "dict_get (ps_cache ps) p") auto
    then show ?thesis
    proof cases
      case 2
      then have "(p, n) \<in> set (ps_cache ps)" by (simp add: map_of_SomeD)
      then show ?thesis using assms 2 PA_Text store_okD(2) [OF assms(1)] by (auto simp: get_program_def)
    next
      case 4
      define cache where "cache = (if length (ps_cache ps) \<ge> PATTERN_CACHE_MAX then [] else ps_cache ps)"
      let ?n = "length (ps_programs ps)"
      have r: "ps' = \<lparr>ps_programs = ps_programs ps @ [prog], ps_cache = dict_set p ?n cache\<rparr>" "r = Inr ?n"
        using assms(2) 4 PA_Text by (auto simp: get_program_def cache_def Let_def)
      have rx: "regexes ps' = regexes ps @ [compiled_text p]"
        using build_program_regex [OF 4(3)] by (simp add: r regexes_def)
      have acc: "accepted re arg" using 4 PA_Text by (simp add: accepted_def)
      have len: "?n = length (regexes ps)" by (simp add: regexes_def)
      have sub: "set cache \<subseteq> set (ps_cache ps)" by (auto simp: cache_def)
      have "accepted re (PA_Text q) \<and> n < length (regexes ps') \<and> regexes ps' ! n = compiled_text q"
        if "(q, n) \<in> set (dict_set p ?n cache)" for q n
      proof -
        have "(q, n) = (p, ?n) \<or> (q, n) \<in> set (ps_cache ps)"
          using set_dict_set [THEN subsetD, OF that] sub by auto
        then show ?thesis using store_okD(2) [OF assms(1), of q n] acc PA_Text by (auto simp: rx len nth_append)
      qed
      moreover have "length cache < PATTERN_CACHE_MAX" using store_okD(1) [OF assms(1)] by (auto simp: cache_def)
      then have "length (dict_set p ?n cache) \<le> PATTERN_CACHE_MAX" using length_dict_set [of p ?n cache] by linarith
      moreover have "\<forall>x \<in> set (ps_programs ps'). results_ok re x"
        using store_okD(3) [OF assms(1)] build_program_regex [OF 4(3)] by (auto simp: r)
      ultimately have "store_ok re ps'" by (auto simp: store_ok_def r)
      then show ?thesis using rx acc PA_Text by (auto simp: r(2) len nth_append)
    qed (use assms PA_Text in \<open>auto simp: get_program_def accepted_def\<close>)
  qed
  then show "store_ok re ps'" "Sublist.prefix (regexes ps) (regexes ps')"
    "r = Inr n \<Longrightarrow> accepted re arg \<and> n < length (regexes ps') \<and> (\<exists>p. arg = PA_Text p \<and> regexes ps' ! n = compiled_text p)"
    "r = Inl e \<Longrightarrow> \<not> accepted re arg" by auto
qed

section \<open>Matchers\<close>

definition matcher_ok :: "pattern_store \<Rightarrow> matcher \<Rightarrow> bool" where
  "matcher_ok ps m \<longleftrightarrow> am_program m < length (regexes ps) \<and> regexes ps ! am_program m = compiled_text (am_pattern m)"

lemma matcher_ok_prefix: "matcher_ok ps m \<Longrightarrow> Sublist.prefix (regexes ps) (regexes ps') \<Longrightarrow> matcher_ok ps' m"
  by (auto simp: matcher_ok_def prefix_def nth_append)

lemma new_matcher_ok:
  assumes "store_ok re ps" and "new_matcher re arg ps = (ps', r)"
  shows "store_ok re ps'" "Sublist.prefix (regexes ps) (regexes ps')"
    "r = Inr m \<Longrightarrow> accepted re arg \<and> matcher_ok ps' m \<and> arg = PA_Text (am_pattern m)"
    "r = Inl e \<Longrightarrow> \<not> accepted re arg"
proof -
  obtain ps1 r1 where g: "get_program re arg ps = (ps1, r1)" by fastforce
  note G = get_program_ok [OF assms(1) g]
  have p: "ps' = ps1" using assms(2) g by (auto simp: new_matcher_def split: sum.splits)
  show "store_ok re ps'" "Sublist.prefix (regexes ps) (regexes ps')" using G(1,2) p by auto
  show "accepted re arg \<and> matcher_ok ps' m \<and> arg = PA_Text (am_pattern m)" if r: "r = Inr m"
  proof -
    obtain n where "r1 = Inr n" using assms(2) g r by (auto simp: new_matcher_def split: sum.splits)
    with G(3) [OF this] assms(2) g r show ?thesis by (auto simp: new_matcher_def matcher_ok_def p)
  qed
  show "\<not> accepted re arg" if "r = Inl e"
    using assms(2) g that G(4) by (auto simp: new_matcher_def split: sum.splits)
qed

lemma length_dict_pop: "(k, v) \<in> set d \<Longrightarrow> length (dict_pop k d) < length d"
  using length_filter_dict_pop_less [of k v d "\<lambda>_. True"] by simp

lemma remember_ok:
  assumes "length rs \<le> RESULT_CACHE_MAX" and "\<forall>(p, b) \<in> set rs. b = f p"
  shows "length (remember path (f path) rs) \<le> RESULT_CACHE_MAX"
    "\<forall>(p, b) \<in> set (remember path (f path) rs). b = f p"
proof -
  show "length (remember path (f path) rs) \<le> RESULT_CACHE_MAX"
    using length_dict_set [of path "f path" rs] assms(1) by (auto simp: remember_def Let_def)
  have "set (remember path (f path) rs) \<subseteq> set (dict_set path (f path) rs)"
    by (auto simp: remember_def Let_def dest: list.set_sel(2) [rotated])
  then show "\<forall>(p, b) \<in> set (remember path (f path) rs). b = f p"
    using set_dict_set [of path "f path" rs] assms(2) by auto
qed

lemma matcher_matches_ok:
  assumes "store_ok re ps" and "matcher_ok ps m" and "matcher_matches re m arg ps = (ps', b)"
  shows "b = sre_search re (compiled_text (am_pattern m)) (get_default arg [])"
    "store_ok re ps'" "regexes ps' = regexes ps"
proof -
  define path where "path = get_default arg []"
  define prog where "prog = ps_programs ps ! am_program m"
  have lt: "am_program m < length (ps_programs ps)" using assms(2) by (simp add: matcher_ok_def regexes_def)
  have rx: "prog_regex prog = compiled_text (am_pattern m)"
    using assms(2) lt by (simp add: matcher_ok_def regexes_def prog_def)
  have ok: "results_ok re prog" using store_okD(3) [OF assms(1)] lt by (simp add: prog_def)
  define st where "st = (\<lambda>r. ps\<lparr>ps_programs := (ps_programs ps)[am_program m := prog\<lparr>prog_results := Some r\<rparr>]\<rparr>)"
  have st_rx: "regexes (st r) = regexes ps" for r
    using lt by (simp add: st_def regexes_def map_update prog_def list_update_same_conv)
  have st_ok: "store_ok re (st r)"
    if "length r \<le> RESULT_CACHE_MAX" "\<forall>(p, b) \<in> set r. b = sre_search re (prog_regex prog) p" for r
  proof -
    have "results_ok re (prog\<lparr>prog_results := Some r\<rparr>)" using that by (simp add: results_ok_def)
    moreover have "ps_cache (st r) = ps_cache ps" "set (ps_programs (st r)) \<subseteq> insert (prog\<lparr>prog_results := Some r\<rparr>) (set (ps_programs ps))"
      by (simp_all add: st_def set_update_subset_insert)
    ultimately show ?thesis using assms(1) st_rx [of r] by (auto simp: store_ok_def)
  qed
  have "b = sre_search re (prog_regex prog) path \<and> store_ok re ps' \<and> regexes ps' = regexes ps"
  proof (cases "prog_results prog")
    case None
    then show ?thesis using assms(1,3) by (auto simp: matcher_matches_def prog_def path_def)
  next
    case (Some rs)
    have R: "length rs \<le> RESULT_CACHE_MAX" "\<forall>(p, b) \<in> set rs. b = sre_search re (prog_regex prog) p"
      using ok Some by (auto simp: results_ok_def)
    show ?thesis
    proof (cases "dict_get rs path")
      case None
      then have "ps' = st (remember path b rs)" "b = sre_search re (prog_regex prog) path"
        using assms(3) Some by (auto simp: matcher_matches_def prog_def path_def st_def Let_def)
      then show ?thesis using remember_ok [OF R] st_ok st_rx by simp
    next
      case hit: (Some h)
      then have m: "(path, h) \<in> set rs" by (rule map_of_SomeD)
      have p: "ps' = st (dict_pop path rs @ [(path, h)])" "b = h"
        using assms(3) Some hit by (auto simp: matcher_matches_def prog_def path_def st_def Let_def)
      have "length (dict_pop path rs @ [(path, h)]) \<le> RESULT_CACHE_MAX"
        using length_dict_pop [OF m] R(1) by simp
      moreover have "\<forall>(p, b) \<in> set (dict_pop path rs @ [(path, h)]). b = sre_search re (prog_regex prog) p"
        using set_dict_pop [of path rs] R(2) m by auto
      ultimately show ?thesis using st_ok st_rx R(2) m p by auto
    qed
  qed
  then show "b = sre_search re (compiled_text (am_pattern m)) (get_default arg [])"
    "store_ok re ps'" "regexes ps' = regexes ps"
    by (simp_all add: rx path_def)
qed

section \<open>The access-list\<close>

type_synonym ap_state = "pattern_store \<times> as_path_list"

definition ape_ok :: "pattern_store \<Rightarrow> ape \<Rightarrow> bool" where
  "ape_ok ps e \<longleftrightarrow> matcher_ok ps (ape_matcher e) \<and> ape_action e \<in> {ACTION_DENY, ACTION_PERMIT}"

definition ap_inv :: "sre \<Rightarrow> ap_state \<Rightarrow> bool" where
  "ap_inv re s \<longleftrightarrow> store_ok re (fst s) \<and> seq_sorted ape_seq (apl_entries (snd s))
     \<and> (\<forall>e \<in> set (apl_entries (snd s)). ape_ok (fst s) e)"

definition ape_admits :: "sre \<Rightarrow> ape \<Rightarrow> string \<Rightarrow> bool" where
  "ape_admits re e path = sre_search re (compiled_text (am_pattern (ape_matcher e))) path"

definition ape_line :: "ape \<Rightarrow> nat \<times> string" where
  "ape_line e = (ape_action e, am_pattern (ape_matcher e))"

lemma apl_scan_ok:
  assumes "store_ok re ps" and "\<forall>e \<in> set es. ape_ok ps e" and "apl_scan re path es ps = (ps', es', r)"
  shows "store_ok re ps'" "regexes ps' = regexes ps" "map (\<lambda>e. e\<lparr>ape_hits := 0\<rparr>) es' = map (\<lambda>e. e\<lparr>ape_hits := 0\<rparr>) es"
    "r = map_option ape_action (find (\<lambda>e. ape_admits re e path) es)"
proof -
  have "store_ok re ps' \<and> regexes ps' = regexes ps \<and> map (\<lambda>e. e\<lparr>ape_hits := 0\<rparr>) es' = map (\<lambda>e. e\<lparr>ape_hits := 0\<rparr>) es
    \<and> r = map_option ape_action (find (\<lambda>e. ape_admits re e path) es)"
    using assms
  proof (induction es arbitrary: ps ps' es' r)
    case Nil
    then show ?case by simp
  next
    case (Cons e es)
    obtain ps1 b where m: "matcher_matches re (ape_matcher e) (Some path) ps = (ps1, b)" by fastforce
    have "matcher_ok ps (ape_matcher e)" using Cons.prems(2) by (simp add: ape_ok_def)
    note M = matcher_matches_ok [OF Cons.prems(1) this m]
    have b: "b = ape_admits re e path" using M(1) by (simp add: ape_admits_def)
    show ?case
    proof (cases b)
      case True
      then show ?thesis using Cons.prems(3) m M(2,3) b by auto
    next
      case False
      obtain ps2 es2 r2 where rec: "apl_scan re path es ps1 = (ps2, es2, r2)" by (cases "apl_scan re path es ps1") auto
      have "\<forall>e \<in> set es. ape_ok ps1 e" using Cons.prems(2) M(3) by (simp add: ape_ok_def matcher_ok_def)
      note Cons.IH [OF M(2) this rec]
      then show ?thesis using Cons.prems(3) m False rec M(3) b by auto
    qed
  qed
  then show "store_ok re ps'" "regexes ps' = regexes ps" "map (\<lambda>e. e\<lparr>ape_hits := 0\<rparr>) es' = map (\<lambda>e. e\<lparr>ape_hits := 0\<rparr>) es"
    "r = map_option ape_action (find (\<lambda>e. ape_admits re e path) es)" by auto
qed


datatype ap_op =
    ApAdd pyval pyval pattern_arg
  | ApRemove pyval
  | ApClear
  | ApEvaluate path_arg
  | ApOther pattern_arg "string option"  \<comment> \<open>another list compiles a pattern and matches a path\<close>

fun ap_step :: "sre \<Rightarrow> ap_state \<Rightarrow> ap_op \<Rightarrow> ap_state" where
  "ap_step re s (ApAdd seq a p) = fst (apl_add re seq a p s)"
| "ap_step re s (ApRemove seq) = (fst s, fst (apl_remove seq (snd s)))"
| "ap_step re s ApClear = (fst s, fst (apl_clear (snd s)))"
| "ap_step re s (ApEvaluate path) = fst (apl_evaluate re path s)"
| "ap_step re s (ApOther p path) =
     (case new_matcher re p (fst s) of
        (ps, Inl _) \<Rightarrow> (ps, snd s)
      | (ps, Inr m) \<Rightarrow> (fst (matcher_matches re m path ps), snd s))"

fun ap_cfg_step :: "sre \<Rightarrow> (nat \<rightharpoonup> nat \<times> string) \<Rightarrow> ap_op \<Rightarrow> (nat \<rightharpoonup> nat \<times> string)" where
  "ap_cfg_step re m (ApAdd seq a arg) =
     (case (seq_number seq, action_id a, arg) of
        (Inr n, Inr act, PA_Text p) \<Rightarrow> if accepted re arg then m(n \<mapsto> (act, p)) else m
      | _ \<Rightarrow> m)"
| "ap_cfg_step re m (ApRemove seq) = (case seq_number seq of Inl _ \<Rightarrow> m | Inr n \<Rightarrow> m(n := None))"
| "ap_cfg_step re m ApClear = Map.empty"
| "ap_cfg_step re m _ = m"

definition ap_config :: "ap_state \<Rightarrow> nat \<rightharpoonup> nat \<times> string" where
  "ap_config s n = map_option ape_line (seq_map ape_seq (apl_entries (snd s)) n)"

lemma seq_map_lines: "map_option g (seq_map f xs n) = map_of (map (\<lambda>x. (f x, g x)) xs) n"
  by (induction xs) auto

lemma same_entries:
  assumes "map (\<lambda>e. e\<lparr>ape_hits := 0\<rparr>) es' = map (\<lambda>e. e\<lparr>ape_hits := 0\<rparr>) es"
  shows "map ape_seq es' = map ape_seq es" "map ape_matcher es' = map ape_matcher es"
    "map ape_action es' = map ape_action es"
  using arg_cong [OF assms, of "map ape_seq"] arg_cong [OF assms, of "map ape_matcher"]
    arg_cong [OF assms, of "map ape_action"] by (simp_all add: comp_def)

lemma seq_sorted_map: "seq_sorted f xs \<longleftrightarrow> sorted_wrt (<) (map f xs)"
  by (simp add: seq_sorted_def sorted_wrt_map)

lemma ape_ok_same:
  assumes "map (\<lambda>e. e\<lparr>ape_hits := 0\<rparr>) es' = map (\<lambda>e. e\<lparr>ape_hits := 0\<rparr>) es" and "\<forall>e \<in> set es. ape_ok ps e"
  shows "\<forall>e \<in> set es'. ape_ok ps e"
proof
  fix e assume "e \<in> set es'"
  then obtain i where i: "i < length es'" "e = es' ! i" by (auto simp: in_set_conv_nth)
  have len: "length es' = length es" using arg_cong [OF assms(1), of length] by simp
  have "ape_matcher e = ape_matcher (es ! i)" "ape_action e = ape_action (es ! i)"
    using same_entries [OF assms(1)] i len by (metis nth_map)+
  moreover have "es ! i \<in> set es" using i len by simp
  then have "ape_ok ps (es ! i)" using assms(2) by blast
  ultimately show "ape_ok ps e" by (simp add: ape_ok_def)
qed

lemma ape_ok_prefix: "ape_ok ps e \<Longrightarrow> Sublist.prefix (regexes ps) (regexes ps') \<Longrightarrow> ape_ok ps' e"
  by (auto simp: ape_ok_def matcher_ok_prefix)

lemma apl_evaluate_ok:
  assumes "ap_inv re s"
  shows "ap_inv re (fst (apl_evaluate re arg s))" "ap_config (fst (apl_evaluate re arg s)) = ap_config s"
    "snd (apl_evaluate re (Path_Text path) s) =
       Inr (case find (\<lambda>e. ape_admits re e path) (apl_entries (snd s)) of None \<Rightarrow> -1 | Some e \<Rightarrow> int (ape_action e))"
proof -
  obtain ps l where s: "s = (ps, l)" by (cases s)
  have I: "store_ok re ps" "seq_sorted ape_seq (apl_entries l)" "\<forall>e \<in> set (apl_entries l). ape_ok ps e"
    using assms by (auto simp: ap_inv_def s)
  have main: "ap_inv re (fst (apl_evaluate re (Path_Text p) s)) \<and> ap_config (fst (apl_evaluate re (Path_Text p) s)) = ap_config s
    \<and> snd (apl_evaluate re (Path_Text p) s) =
       Inr (case find (\<lambda>e. ape_admits re e p) (apl_entries (snd s)) of None \<Rightarrow> -1 | Some e \<Rightarrow> int (ape_action e))" for p
  proof -
    obtain ps' es r where sc: "apl_scan re p (apl_entries l) ps = (ps', es, r)"
      by (cases "apl_scan re p (apl_entries l) ps") auto
    note S = apl_scan_ok [OF I(1,3) sc]
    let ?s' = "fst (apl_evaluate re (Path_Text p) s)"
    have E: "fst ?s' = ps'" "apl_entries (snd ?s') = es"
      "snd (apl_evaluate re (Path_Text p) s) = Inr (case r of None \<Rightarrow> -1 | Some a \<Rightarrow> int a)"
      using sc by (auto simp: apl_evaluate_def s Let_def split: option.splits)
    have "\<forall>e \<in> set es. ape_ok ps' e"
      using ape_ok_same [OF S(3) I(3)] S(2) by (auto simp: ape_ok_def matcher_ok_def)
    moreover have "seq_sorted ape_seq es" using I(2) same_entries(1) [OF S(3)] by (simp add: seq_sorted_map)
    ultimately have "ap_inv re ?s'" using S(1) E by (simp add: ap_inv_def)
    moreover have "map (\<lambda>x. (ape_seq x, ape_line x)) es = map (\<lambda>x. (ape_seq x, ape_line x)) (apl_entries l)"
    proof -
      have z: "map (\<lambda>x. (ape_seq x, ape_line x)) xs = zip (map ape_seq xs) (zip (map ape_action xs) (map am_pattern (map ape_matcher xs)))" for xs
        by (induction xs) (simp_all add: ape_line_def)
      show ?thesis unfolding z same_entries [OF S(3)] by (rule refl)
    qed
    then have "ap_config ?s' = ap_config s" by (simp add: ap_config_def [abs_def] E(2) seq_map_lines) (simp add: s)
    ultimately show ?thesis using E(3) S(4) by (auto simp: s split: option.splits)
  qed
  show "snd (apl_evaluate re (Path_Text path) s) =
       Inr (case find (\<lambda>e. ape_admits re e path) (apl_entries (snd s)) of None \<Rightarrow> -1 | Some e \<Rightarrow> int (ape_action e))"
    using main by blast
  have none: "apl_evaluate re Path_None s = apl_evaluate re (Path_Text []) s" by (simp add: apl_evaluate_def)
  show "ap_inv re (fst (apl_evaluate re arg s))" "ap_config (fst (apl_evaluate re arg s)) = ap_config s"
    using main assms none by (cases arg; simp add: apl_evaluate_def)+
qed


lemma ap_step_ok:
  assumes "ap_inv re s"
  shows "ap_inv re (ap_step re s op)" "ap_config (ap_step re s op) = ap_cfg_step re (ap_config s) op"
proof -
  obtain ps l where s: "s = (ps, l)" by (cases s)
  have I: "store_ok re ps" "seq_sorted ape_seq (apl_entries l)" "\<forall>e \<in> set (apl_entries l). ape_ok ps e"
    using assms by (auto simp: ap_inv_def s)
  have "ap_inv re (ap_step re s op) \<and> ap_config (ap_step re s op) = ap_cfg_step re (ap_config s) op"
  proof (cases op)
    case (ApAdd seq a arg)
    show ?thesis
    proof (cases "seq_number seq")
      case (Inl x)
      then show ?thesis using assms by (simp add: ApAdd apl_add_def new_ape_def)
    next
      case n: (Inr n)
      show ?thesis
      proof (cases "action_id a")
        case (Inl x)
        then show ?thesis using assms n by (simp add: ApAdd apl_add_def new_ape_def)
      next
        case act: (Inr act)
        obtain ps1 r where m: "new_matcher re arg ps = (ps1, r)" by fastforce
        note M = new_matcher_ok [OF I(1) m]
        have ok1: "\<forall>e \<in> set (apl_entries l). ape_ok ps1 e" using I(3) ape_ok_prefix M(2) by blast
        show ?thesis
        proof (cases r)
          case (Inl e)
          then show ?thesis using M(1,4) n act m I(2) ok1
            by (auto simp: ApAdd apl_add_def new_ape_def ap_inv_def ap_config_def fun_eq_iff s accepted_def
                split: pattern_arg.splits)
        next
          case (Inr mt)
          define e where "e = \<lparr>ape_seq = n, ape_action = act, ape_matcher = mt, ape_hits = 0\<rparr>"
          have st: "ap_step re s op = (ps1, l\<lparr>apl_entries := seq_put ape_seq e (apl_entries l), apl_version := apl_version l + 1\<rparr>)"
            using n act m Inr by (simp add: ApAdd apl_add_def new_ape_def s e_def)
          have "act \<in> {ACTION_DENY, ACTION_PERMIT}"
            using act by (auto simp: action_id_def ACTION_IDS_def split: pyval.splits if_splits)
          then have "ape_ok ps1 e" using M(3) [OF Inr] by (simp add: e_def ape_ok_def)
          then have "\<forall>x \<in> set (seq_put ape_seq e (apl_entries l)). ape_ok ps1 x"
            using ok1 set_seq_put [of ape_seq e "apl_entries l"] by auto
          then have "ap_inv re (ap_step re s op)" using M(1) seq_put_sorted [OF I(2)] by (simp add: st ap_inv_def)
          moreover have "ap_config (ap_step re s op) = (ap_config s)(n \<mapsto> (act, am_pattern mt))"
          proof -
            have es: "apl_entries (snd (ap_step re s op)) = seq_put ape_seq e (apl_entries l)"
              and e: "ape_seq e = n" "ape_line e = (act, am_pattern mt)"
              by (simp only: st, simp) (simp_all add: e_def ape_line_def)
            show ?thesis
              by (simp add: fun_eq_iff ap_config_def es seq_map_put [OF I(2)] e) (simp add: s)
          qed
          ultimately show ?thesis using M(3) [OF Inr] n act by (auto simp: ApAdd)
        qed
      qed
    qed
  next
    case (ApRemove seq)
    show ?thesis
    proof (cases "seq_number seq")
      case (Inl x)
      then show ?thesis using assms by (simp add: ApRemove apl_remove_def)
    next
      case n: (Inr n)
      let ?es = "seq_del ape_seq n (apl_entries l)"
      have e: "apl_entries (snd (ap_step re s op)) = ?es" "fst (ap_step re s op) = ps"
        using n by (auto simp: ApRemove apl_remove_def s intro!: seq_del_absent [symmetric])
      have "\<forall>x \<in> set ?es. ape_ok ps x" using I(3) set_seq_del [of ape_seq n "apl_entries l"] by auto
      then have "ap_inv re (ap_step re s op)" using I(1) seq_del_sorted [OF I(2)] e by (simp add: ap_inv_def)
      moreover have "ap_config (ap_step re s op) = (ap_config s)(n := None)"
        using seq_map_del [OF I(2), of n] e by (auto simp: ap_config_def fun_eq_iff s)
      ultimately show ?thesis using n by (simp add: ApRemove)
    qed
  next
    case ApClear
    then show ?thesis using I(1) by (simp add: ap_inv_def apl_clear_def Let_def ap_config_def fun_eq_iff s)
  next
    case (ApEvaluate arg)
    then show ?thesis using apl_evaluate_ok(1,2) [OF assms] by simp
  next
    case (ApOther arg path)
    obtain ps1 r where m: "new_matcher re arg ps = (ps1, r)" by fastforce
    note M = new_matcher_ok [OF I(1) m]
    have ok1: "\<forall>e \<in> set (apl_entries l). ape_ok ps1 e" using I(3) ape_ok_prefix M(2) by blast
    show ?thesis
    proof (cases r)
      case (Inl e)
      then show ?thesis using m M(1) ok1 I(2) by (simp add: ApOther s ap_inv_def ap_config_def fun_eq_iff)
    next
      case (Inr mt)
      obtain ps2 b where mm: "matcher_matches re mt path ps1 = (ps2, b)" by fastforce
      have "matcher_ok ps1 mt" using M(3) [OF Inr] by simp
      note R = matcher_matches_ok [OF M(1) this mm]
      have "\<forall>e \<in> set (apl_entries l). ape_ok ps2 e" using ok1 R(3) by (simp add: ape_ok_def matcher_ok_def)
      then show ?thesis using m mm Inr R(2) I(2) by (simp add: ApOther s ap_inv_def ap_config_def fun_eq_iff)
    qed
  qed
  then show "ap_inv re (ap_step re s op)" "ap_config (ap_step re s op) = ap_cfg_step re (ap_config s) op" by auto
qed

interpretation ap_machine: invariant_machine "ap_step re" "ap_inv re"
  by unfold_locales (rule ap_step_ok(1))

lemma ap_run_config:
  "ap_inv re s \<Longrightarrow> ap_config (foldl (ap_step re) s ops) = foldl (ap_cfg_step re) (ap_config s) ops"
  by (induction ops arbitrary: s) (simp_all add: ap_step_ok)

lemma ap_new:
  assumes "new_as_path_list name = Inr l0"
  shows "ap_inv re (new_store, l0)" "ap_config (new_store, l0) = Map.empty"
  using assms store_ok_new [of re]
  by (auto simp: new_as_path_list_def ap_inv_def ap_config_def fun_eq_iff split: if_splits)

section \<open>Evaluation\<close>

definition ap_verdict :: "sre \<Rightarrow> ap_state \<Rightarrow> string \<Rightarrow> int" where
  "ap_verdict re s path = (case snd (apl_evaluate re (Path_Text path) s) of Inr v \<Rightarrow> v | Inl _ \<Rightarrow> NO_ENTRY)"

interpretation apl: ordered_filter "\<lambda>s. apl_entries (snd s)" ape_seq "ape_admits re" ape_action "ap_verdict re" "ap_inv re"
proof
  fix s path
  assume inv: "ap_inv re s"
  show "seq_sorted ape_seq (apl_entries (snd s))" using inv by (simp add: ap_inv_def)
  show "ap_verdict re s path =
      (case find (\<lambda>e. ape_admits re e path) (apl_entries (snd s)) of None \<Rightarrow> -1 | Some e \<Rightarrow> int (ape_action e))"
    using apl_evaluate_ok(3) [OF inv, of path] by (simp add: ap_verdict_def)
qed

lemma ap_config_Some:
  "ap_config s n = Some (a, p) \<longleftrightarrow> (\<exists>e. seq_map ape_seq (apl_entries (snd s)) n = Some e \<and> ape_action e = a
     \<and> am_pattern (ape_matcher e) = p)"
  by (auto simp: ap_config_def ape_line_def)

text \<open>C29. An AS-path access-list decides as its configuration says, whatever edits, evaluations and
  work of other lists on the shared caches came before: the verdict on a path is the action of
  the lowest-numbered line whose pattern, translated, is found in the path, and there is none
  exactly when no line's pattern is; lines with a rejected pattern left no trace.\<close>

theorem as_path_list_first_match:
  fixes re name ops path
  assumes "new_as_path_list name = Inr l0"
  defines "s \<equiv> foldl (ap_step re) (new_store, l0) ops" and "m \<equiv> foldl (ap_cfg_step re) Map.empty ops"
    and "found \<equiv> \<lambda>p. sre_search re (translate (strip_wildcards p)) path"
  shows "(snd (apl_evaluate re (Path_Text path) s) = Inr NO_ENTRY \<longleftrightarrow> (\<forall>n a p. m n = Some (a, p) \<longrightarrow> \<not> found p))
    \<and> (\<forall>n a p. m n = Some (a, p) \<and> found p \<and> (\<forall>n' a' p'. m n' = Some (a', p') \<and> found p' \<longrightarrow> n \<le> n')
          \<longrightarrow> snd (apl_evaluate re (Path_Text path) s) = Inr (int a))"
proof -
  have inv: "ap_inv re s" unfolding s_def by (rule ap_machine.run_inv [OF ap_new(1) [OF assms(1)]])
  have m: "ap_config s = m" using ap_run_config [OF ap_new(1) [OF assms(1)]] ap_new(2) [OF assms(1)] by (simp add: s_def m_def)
  have v: "snd (apl_evaluate re (Path_Text path) s) = Inr (ap_verdict re s path)"
    using apl_evaluate_ok(3) [OF inv, of path] by (simp add: ap_verdict_def)
  have ad: "ape_admits re e path = found (am_pattern (ape_matcher e))" for e
    by (simp add: ape_admits_def compiled_text_def found_def)
  show ?thesis
  proof (intro conjI allI impI; (elim conjE)?)
    show "snd (apl_evaluate re (Path_Text path) s) = Inr NO_ENTRY \<longleftrightarrow> (\<forall>n a p. m n = Some (a, p) \<longrightarrow> \<not> found p)"
      using apl.no_match_config [OF inv, of path] by (auto simp: v ad ap_config_Some simp flip: m)
    fix n a p assume a: "m n = Some (a, p)" "found p" and least: "\<forall>n' a' p'. m n' = Some (a', p') \<and> found p' \<longrightarrow> n \<le> n'"
    obtain e where e: "seq_map ape_seq (apl_entries (snd s)) n = Some e" "ape_action e = a" "am_pattern (ape_matcher e) = p"
      using a(1) by (auto simp: ap_config_Some simp flip: m)
    have "ap_verdict re s path = int (ape_action e)"
    proof (rule apl.verdict_config [OF inv e(1)])
      show "ape_admits re e path" using a(2) e(3) by (simp add: ad)
      show "n \<le> n'" if "seq_map ape_seq (apl_entries (snd s)) n' = Some e'" "ape_admits re e' path" for n' e'
        using least that by (auto simp: ad ap_config_Some simp flip: m)
    qed
    then show "snd (apl_evaluate re (Path_Text path) s) = Inr (int a)" using e(2) by (simp add: v)
  qed
qed

text \<open>The caches of the pattern store are bounded and hold only right answers, through any run:
  at most 256 patterns, each leading to the program of its own text, and at most 4096 remembered
  results per program, each what a search of the path would say.\<close>

theorem pattern_caches_sound:
  fixes re name ops
  assumes "new_as_path_list name = Inr l0"
  defines "ps \<equiv> fst (foldl (ap_step re) (new_store, l0) ops)"
  shows "length (ps_cache ps) \<le> PATTERN_CACHE_MAX
    \<and> (\<forall>(p, n) \<in> set (ps_cache ps). n < length (ps_programs ps)
         \<and> prog_regex (ps_programs ps ! n) = translate (strip_wildcards p))
    \<and> (\<forall>prog \<in> set (ps_programs ps). \<forall>rs. prog_results prog = Some rs \<longrightarrow>
         length rs \<le> RESULT_CACHE_MAX \<and> (\<forall>(path, b) \<in> set rs. b = sre_search re (prog_regex prog) path))"
proof -
  have "ap_inv re (foldl (ap_step re) (new_store, l0) ops)"
    by (rule ap_machine.run_inv [OF ap_new(1) [OF assms(1)]])
  then have "store_ok re ps" by (simp add: ap_inv_def ps_def)
  then show ?thesis
    unfolding store_ok_def results_ok_def by (fastforce simp: regexes_def compiled_text_def)
qed


text \<open>A stand-in for the library on three patterns: digits are found as substrings.\<close>

definition sample_sre :: sre where
  "sample_sre = \<lparr>sre_compiles = (\<lambda>s. True), sre_parse = (\<lambda>s. Some (map (\<lambda>c. LITERAL (of_char c)) s)),
     sre_search = (\<lambda>p s. Sublist.sublist p s)\<rparr>"

definition sample_apl :: as_path_list where
  "sample_apl = \<lparr>apl_name = ''A'', apl_version = 0, apl_hits = 0, apl_matches = 0, apl_entries = []\<rparr>"

lemma sample_apl_new: "new_as_path_list ''A'' = Inr sample_apl"
  by (simp add: new_as_path_list_def sample_apl_def)

definition sample_ap_ops :: "ap_op list" where
  "sample_ap_ops = [ApAdd (V_Int 10) (V_Text ''permit'') (PA_Text ''65001''), ApAdd (V_Int 5) (V_Text ''deny'') (PA_Text ''65002''),
     ApAdd (V_Int 7) (V_Text ''deny'') PA_Other, ApRemove (V_Int 5)]"

lemma sample_ap_cfg: "foldl (ap_cfg_step sample_sre) Map.empty sample_ap_ops = [10 \<mapsto> (1, ''65001'')]"
proof -
  have "accepted sample_sre (PA_Text ''65001'')" "accepted sample_sre (PA_Text ''65002'')" by code_simp+
  then show ?thesis
    by (simp add: sample_ap_ops_def seq_number_def action_id_def ACTION_IDS_def accepted_def [of _ PA_Other] fun_eq_iff)
qed

lemma sample_strip: "translate (strip_wildcards ''65001'') = ''65001''"
  by code_simp

theorem as_path_list_first_match_witness:
  "snd (apl_evaluate sample_sre (Path_Text ''65000 65001'')
     (foldl (ap_step sample_sre) (new_store, sample_apl) sample_ap_ops)) = Inr 1"
proof -
  have "sre_search sample_sre ''65001'' ''65000 65001''" by code_simp
  then have "snd (apl_evaluate sample_sre (Path_Text ''65000 65001'')
     (foldl (ap_step sample_sre) (new_store, sample_apl) sample_ap_ops)) = Inr (int 1)"
    by (intro as_path_list_first_match [OF sample_apl_new, THEN conjunct2, rule_format, of _ _ 10 _ "''65001''"])
       (auto simp: sample_ap_cfg sample_strip split: if_splits)
  then show ?thesis by simp
qed

theorem pattern_caches_sound_witness:
  "length (ps_cache (fst (foldl (ap_step sample_sre) (new_store, sample_apl) sample_ap_ops))) \<le> 256"
  by (rule pattern_caches_sound [OF sample_apl_new, THEN conjunct1])

end
