(* ===== verification/Compare.thy ===== *)
theory Compare
  imports Prelude
begin

text \<open>
  Three-way comparison, as the code writes it: a chain of fields, each deciding by -1 or 1
  when it differs and leaving the rest to the next. The locale states what makes such a
  comparison usable for choosing a winner, a total preorder on a set of values, and proves
  once what choosing by a linear scan gives. The rules after it build the contract for a
  chain out of its last comparison, one field at a time.
\<close>

section \<open>Comparators\<close>

locale comparator_on =
  fixes cmp :: "'a \<Rightarrow> 'a \<Rightarrow> int"
    and S :: "'a set"
  assumes flip: "a \<in> S \<Longrightarrow> b \<in> S \<Longrightarrow> cmp b a = - cmp a b"
    and le_trans: "a \<in> S \<Longrightarrow> b \<in> S \<Longrightarrow> c \<in> S \<Longrightarrow> cmp a b \<le> 0 \<Longrightarrow> cmp b c \<le> 0 \<Longrightarrow> cmp a c \<le> 0"
begin

lemma self [simp]: "a \<in> S \<Longrightarrow> cmp a a = 0"
  using flip [of a a] by simp

lemma le_or_ge: "a \<in> S \<Longrightarrow> b \<in> S \<Longrightarrow> cmp a b \<le> 0 \<or> cmp b a \<le> 0"
  using flip [of a b] by linarith

lemma ge_iff: "a \<in> S \<Longrightarrow> b \<in> S \<Longrightarrow> 0 \<le> cmp a b \<longleftrightarrow> cmp b a \<le> 0"
  using flip [of a b] by linarith

lemma less_le_trans:
  assumes "a \<in> S" "b \<in> S" "c \<in> S" "cmp a b < 0" "cmp b c \<le> 0"
  shows "cmp a c < 0"
proof (rule ccontr)
  assume "\<not> cmp a c < 0"
  then have "cmp c a \<le> 0" using flip [of a c] assms by simp
  then have "cmp b a \<le> 0" using le_trans [of b c a] assms by simp
  then show False using flip [of a b] assms by simp
qed

lemma zero_trans:
  assumes "a \<in> S" "b \<in> S" "c \<in> S" "cmp a b = 0" "cmp b c = 0"
  shows "cmp a c = 0"
proof -
  have "cmp a c \<le> 0" using le_trans [of a b c] assms by simp
  moreover have "cmp c a \<le> 0"
    using le_trans [of c b a] flip [of a b] flip [of b c] assms by simp
  ultimately show ?thesis using flip [of a c] assms by simp
qed

end

lemma comparator_on_cong:
  assumes f: "comparator_on f T" and S: "S \<subseteq> T"
    and eq: "\<And>a b. a \<in> S \<Longrightarrow> b \<in> S \<Longrightarrow> g a b = f a b"
  shows "comparator_on g S"
proof -
  show ?thesis
  proof
    fix a b assume "a \<in> S" "b \<in> S"
    then show "g b a = - g a b" using comparator_on.flip [OF f, of a b] S eq by (metis subsetD)
  next
    fix a b c assume "a \<in> S" "b \<in> S" "c \<in> S" "g a b \<le> 0" "g b c \<le> 0"
    then show "g a c \<le> 0" using comparator_on.le_trans [OF f, of a b c] S eq by (metis subsetD)
  qed
qed

lemma comparator_on_image:
  assumes "comparator_on cmp T" "f ` S \<subseteq> T"
  shows "comparator_on (\<lambda>a b. cmp (f a) (f b)) S"
proof -
  show ?thesis
  proof
    fix a b assume "a \<in> S" "b \<in> S"
    then show "cmp (f b) (f a) = - cmp (f a) (f b)"
      using comparator_on.flip [OF assms(1), of "f a" "f b"] assms(2) by blast
  next
    fix a b c assume "a \<in> S" "b \<in> S" "c \<in> S" "cmp (f a) (f b) \<le> 0" "cmp (f b) (f c) \<le> 0"
    then show "cmp (f a) (f c) \<le> 0"
      using comparator_on.le_trans [OF assms(1), of "f a" "f b" "f c"] assms(2) by blast
  qed
qed

lemma comparator_zero: "comparator_on (\<lambda>_ _. 0) S"
  by unfold_locales simp_all

text \<open>The step of a chain. The rest is compared only among values with the same key.\<close>

definition by_key :: "('a \<Rightarrow> 'k::linorder) \<Rightarrow> ('a \<Rightarrow> 'a \<Rightarrow> int) \<Rightarrow> 'a \<Rightarrow> 'a \<Rightarrow> int" where
  "by_key f rest a b = (if f a \<noteq> f b then if f a < f b then -1 else 1 else rest a b)"

lemma comparator_by_key:
  assumes rest: "\<And>k. comparator_on rest {x \<in> S. f x = k}"
  shows "comparator_on (by_key f rest) S"
proof
  fix a b assume ab: "a \<in> S" "b \<in> S"
  show "by_key f rest b a = - by_key f rest a b"
  proof (cases "f a = f b")
    case True
    show ?thesis using comparator_on.flip [OF rest [of "f b"], of a b] ab True by (simp add: by_key_def)
  qed (auto simp: by_key_def)
next
  fix a b c
  assume S: "a \<in> S" "b \<in> S" "c \<in> S" and ab: "by_key f rest a b \<le> 0" and bc: "by_key f rest b c \<le> 0"
  have le: "f a \<le> f b" "f b \<le> f c"
    using ab bc by (auto simp: by_key_def split: if_splits)
  show "by_key f rest a c \<le> 0"
  proof (cases "f a = f c")
    case True
    then have eq: "f a = f b" "f b = f c" using le by auto
    show ?thesis
      using comparator_on.le_trans [OF rest [of "f b"], of a b c] S ab bc eq by (simp add: by_key_def)
  next
    case False
    with le show ?thesis by (simp add: by_key_def)
  qed
qed

lemma by_key_zero [simp]: "by_key f rest a b = 0 \<longleftrightarrow> f a = f b \<and> rest a b = 0"
  by (simp add: by_key_def)

lemma comparator_by_keys: "comparator_on rest UNIV \<Longrightarrow> comparator_on (by_key f rest) S"
  by (rule comparator_by_key) (rule comparator_on_cong [where T = UNIV], auto)

section \<open>Choosing by a scan\<close>

text \<open>The scan every selector of the engine runs: the first candidate is held, and a later
  one takes its place when it compares as strictly better.\<close>

fun scan_best :: "('a \<Rightarrow> 'a \<Rightarrow> int) \<Rightarrow> 'a \<Rightarrow> 'a list \<Rightarrow> 'a" where
  "scan_best cmp b [] = b"
| "scan_best cmp b (p # ps) = scan_best cmp (if 0 < cmp b p then p else b) ps"

lemma scan_best_in: "scan_best cmp b ps \<in> insert b (set ps)"
  by (induction ps arbitrary: b) (auto split: if_splits)

lemma scan_best_snoc:
  "scan_best cmp b (ps @ [p]) = (let c = scan_best cmp b ps in if 0 < cmp c p then p else c)"
  by (induction ps arbitrary: b) (simp_all add: Let_def)

lemma scan_best_cong:
  assumes "\<And>x y. x \<in> insert b (set ps) \<Longrightarrow> y \<in> set ps \<Longrightarrow> (0 < f x y) = (0 < g x y)"
  shows "scan_best f b ps = scan_best g b ps"
  using assms
proof (induction ps arbitrary: b)
  case (Cons p ps)
  have "(0 < f b p) = (0 < g b p)" using Cons.prems [of b p] by simp
  moreover have "scan_best f x ps = scan_best g x ps" if "x \<in> {b, p}" for x
    by (rule Cons.IH) (use Cons.prems that in auto)
  ultimately show ?case by simp
qed simp

context comparator_on
begin

lemma scan_best_le:
  assumes "insert b (set ps) \<subseteq> S" "x \<in> insert b (set ps)"
  shows "cmp (scan_best cmp b ps) x \<le> 0"
  using assms
proof (induction ps arbitrary: b x)
  case Nil
  then show ?case by simp
next
  case (Cons p ps)
  let ?c = "if 0 < cmp b p then p else b"
  have S: "insert ?c (set ps) \<subseteq> S" "b \<in> S" "p \<in> S" using Cons.prems(1) by auto
  have r: "scan_best cmp ?c ps \<in> S" using scan_best_in [of cmp ?c ps] S by auto
  have c: "cmp (scan_best cmp ?c ps) ?c \<le> 0" by (rule Cons.IH [OF S(1)]) simp
  have bp: "cmp ?c b \<le> 0 \<and> cmp ?c p \<le> 0"
    using flip [of b p] S by simp
  consider "x = b" | "x = p" | "x \<in> set ps" using Cons.prems(2) by auto
  then show ?case
  proof cases
    case 1
    have "cmp (scan_best cmp ?c ps) b \<le> 0"
      using le_trans [OF r _ S(2) c] bp S by auto
    with 1 show ?thesis by simp
  next
    case 2
    have "cmp (scan_best cmp ?c ps) p \<le> 0"
      using le_trans [OF r _ S(3) c] bp S by auto
    with 2 show ?thesis by simp
  next
    case 3
    then show ?thesis using Cons.IH [OF S(1)] by simp
  qed
qed

lemma least_tie:
  assumes "a \<in> S" "b \<in> S" "cmp a b \<le> 0" "cmp b a \<le> 0"
  shows "cmp a b = 0"
  using flip [of a b] assms by simp

text \<open>Where no two candidates tie, what the scan finds does not depend on their order.\<close>

lemma scan_best_order:
  assumes "insert b (set ps) \<subseteq> S" "insert c (set qs) = insert b (set ps)"
    and strict: "\<And>x y. x \<in> insert b (set ps) \<Longrightarrow> y \<in> insert b (set ps) \<Longrightarrow> x \<noteq> y \<Longrightarrow> cmp x y \<noteq> 0"
  shows "scan_best cmp b ps = scan_best cmp c qs"
proof (rule ccontr)
  let ?x = "scan_best cmp b ps" and ?y = "scan_best cmp c qs"
  assume ne: "?x \<noteq> ?y"
  have x: "?x \<in> insert b (set ps)" by (rule scan_best_in)
  have y: "?y \<in> insert b (set ps)" using scan_best_in [of cmp c qs] assms(2) by simp
  have "cmp ?x ?y \<le> 0" by (rule scan_best_le [OF assms(1) y])
  moreover have "cmp ?y ?x \<le> 0" by (rule scan_best_le) (use assms x in auto)
  ultimately have "cmp ?x ?y = 0" using least_tie x y assms(1) by blast
  then show False using strict [OF x y ne] by simp
qed

end

end
