(* ===== verification/Attrs.thy ===== *)
theory Attrs
  imports Compare "HOL-Library.List_Lexorder" "HOL-Library.Product_Lexorder"
begin

unbundle bit_operations_syntax

text \<open>
  BGP path attribute sets (\<open>plugins/bgp/attrs.pyx\<close>, \<open>attrs.pxd\<close>): the canonical form that
  \<open>attrs_finalize\<close> gives a set, the fields derived from its AS_PATH, the order and hash by
  which sets are interned, the AS_PATH and community codecs, and the interning table with
  its explicit reference counts. An \<open>AttrSet\<close> that the table touches is an object of a store
  (\<open>aheap\<close>), because interning is about which of several equal objects is the shared one.
  \<open>long\<close> and \<open>unsigned long\<close> are 64 bits wide; \<open>_hash\<close> is kept as its bit pattern.
\<close>

type_synonym bytestr = "byte list"

type_synonym u32 = "32 word"

section \<open>Constants\<close>

abbreviation (input) "ORIGIN_IGP \<equiv> 0 :: byte"
abbreviation (input) "AS_SET \<equiv> 1 :: byte"
abbreviation (input) "AS_SEQUENCE \<equiv> 2 :: byte"
abbreviation (input) "AS_CONFED_SEQUENCE \<equiv> 3 :: byte"
abbreviation (input) "AS_CONFED_SET \<equiv> 4 :: byte"
abbreviation (input) "AS_TRANS \<equiv> 23456 :: u32"

abbreviation (input) "ATTRF_MED \<equiv> 0x01 :: byte"
abbreviation (input) "ATTRF_LOCAL_PREF \<equiv> 0x02 :: byte"
abbreviation (input) "ATTRF_ATOMIC_AGGREGATE \<equiv> 0x04 :: byte"
abbreviation (input) "ATTRF_ORIGINATOR_ID \<equiv> 0x08 :: byte"
abbreviation (input) "ATTRF_INTERNED \<equiv> 0x10 :: byte"

text \<open>The presence bits, without the interning bit: what the order and the hash look at.\<close>

definition PRESENCE :: byte where
  "PRESENCE = ATTRF_MED OR ATTRF_LOCAL_PREF OR ATTRF_ATOMIC_AGGREGATE OR ATTRF_ORIGINATOR_ID"

section \<open>Packed words and records\<close>

definition rd32 :: "bytestr \<Rightarrow> u32" where
  "rd32 p = (push_bit 24 (ucast (p ! 0))) OR (push_bit 16 (ucast (p ! 1)))
    OR (push_bit 8 (ucast (p ! 2))) OR ucast (p ! 3)"

definition groups :: "nat \<Rightarrow> bytestr \<Rightarrow> bytestr list" where
  \<comment> \<open>\<open>[v[i * width:(i + 1) * width] for i in range(count)]\<close>\<close>
  "groups width v = map (\<lambda>i. take width (drop (i * width) v)) [0..<length v div width]"

fun ascending :: "'a::linorder list \<Rightarrow> bool" where
  "ascending (x # y # zs) \<longleftrightarrow> x < y \<and> ascending (y # zs)"
| "ascending _ \<longleftrightarrow> True"

definition sort_groups :: "bytestr \<Rightarrow> nat \<Rightarrow> bytestr" where
  "sort_groups v width =
    (let count = length v div width in
     if count < 2 then take (count * width) v
     else if length v = count * width \<and> ascending (groups width v) then v
     else concat (sort (remdups (groups width v))))"

text \<open>One attribute TLV at the head of a run: the whole of it, or nothing when it does not
  fit. Bit \<open>0x10\<close> of the flags says that the length field has two bytes.\<close>

definition tlv_size :: "bytestr \<Rightarrow> nat option" where
  "tlv_size p =
    (if length p < 3 then None
     else if p ! 0 AND 0x10 \<noteq> 0
     then if length p < 4 then None
          else let n = 4 + (unat (p ! 2) * 256 + unat (p ! 3)) in if length p < n then None else Some n
     else let n = 3 + unat (p ! 2) in if length p < n then None else Some n)"

lemma tlv_size_bounds: "tlv_size p = Some n \<Longrightarrow> 3 \<le> n \<and> n \<le> length p"
  by (auto simp: tlv_size_def Let_def split: if_splits)

function tlvs :: "bytestr \<Rightarrow> (byte \<times> bytestr) list" where
  "tlvs p = (case tlv_size p of None \<Rightarrow> [] | Some n \<Rightarrow> (p ! 1, take n p) # tlvs (drop n p))"
  by auto
termination
  by (relation "measure length") (auto dest!: tlv_size_bounds)

declare tlvs.simps [simp del]

definition sort_unknown :: "bytestr \<Rightarrow> bytestr" where
  "sort_unknown v =
    (if length (tlvs v) < 2 then concat (map snd (tlvs v)) else concat (map snd (sort (tlvs v))))"

section \<open>The AS_PATH\<close>

text \<open>The walk over the segments: total length, neighbouring AS, whether one was found.\<close>

function walk_segments :: "bytestr \<Rightarrow> u32 \<Rightarrow> u32 \<Rightarrow> bool \<Rightarrow> u32 \<times> u32" where
  "walk_segments p tot nbr have =
    (if length p < 2 then (tot, nbr)
     else let seg = p ! 0; cnt = unat (p ! 1); rest = drop 2 p in
       if length rest < cnt * 4 then (tot, nbr)
       else let named = \<not> have \<and> cnt \<noteq> 0;
                after = drop (cnt * 4) rest in
         if seg = AS_SEQUENCE
         then walk_segments after (tot + of_nat cnt) (if named then rd32 rest else nbr) (have \<or> cnt \<noteq> 0)
         else if seg = AS_SET
         then walk_segments after (tot + 1) (if named then rd32 rest else nbr) (have \<or> cnt \<noteq> 0)
         else walk_segments after tot nbr have)"
  by auto
termination
  by (relation "measure (\<lambda>(p, _). length p)") auto

declare walk_segments.simps [simp del]

definition walk_as_path :: "bytestr \<Rightarrow> u32 \<times> u32" where
  "walk_as_path path = walk_segments path 0 0 False"

function as_segments :: "bytestr \<Rightarrow> (byte \<times> u32 list) list" where
  "as_segments p =
    (if length p < 2 then []
     else let cnt = unat (p ! 1); rest = drop 2 p in
       if length rest < cnt * 4 then []
       else (p ! 0, map (\<lambda>i. rd32 (drop (i * 4) rest)) [0..<cnt]) # as_segments (drop (cnt * 4) rest))"
  by auto
termination
  by (relation "measure length") auto

declare as_segments.simps [simp del]

function path_has_as :: "u32 \<Rightarrow> bytestr \<Rightarrow> bool" where
  "path_has_as asn p =
    (if length p < 2 then False
     else let cnt = unat (p ! 1); rest = drop 2 p in
       if length rest < cnt * 4 then False
       else if list_ex (\<lambda>i. rd32 (drop (i * 4) rest) = asn) [0..<cnt] then True
       else path_has_as asn (drop (cnt * 4) rest))"
  by auto
termination
  by (relation "measure (\<lambda>(_, p). length p)") auto

declare path_has_as.simps [simp del]

text \<open>Numbers come in as unbounded integers; their low 32 bits are stored. A bare list of
  numbers is short for one AS_SEQUENCE, and a bare empty list for no segment.\<close>

datatype segments_arg = Bare "int list" | Segments "(int \<times> int list) list"

definition be32 :: "int \<Rightarrow> bytestr" where
  "be32 v = [word_of_int (drop_bit 24 v), word_of_int (drop_bit 16 v), word_of_int (drop_bit 8 v), word_of_int v]"

function chunks255 :: "'a list \<Rightarrow> 'a list list" where
  "chunks255 xs = (if length xs \<le> 255 then [xs] else take 255 xs # chunks255 (drop 255 xs))"
  by auto
termination
  by (relation "measure length") auto

declare chunks255.simps [simp del]

definition seg_bytes :: "int \<Rightarrow> int list \<Rightarrow> bytestr" where
  "seg_bytes seg chunk = [word_of_int seg, of_nat (length chunk)] @ concat (map be32 chunk)"

fun pack_segments :: "(int \<times> int list) list \<Rightarrow> bytestr result" where
  "pack_segments [] = Inr []"
| "pack_segments ((seg, asns) # segs) =
    (if 255 < length asns \<and> seg \<noteq> 2
     then Inl (ValueError (''AS_SET of '' @ nat_str (length asns) @ '' exceeds the 255 the one-byte count can express, and a set cannot be split without lengthening the path''))
     else if seg < 0 \<or> 255 < seg then Inl (ValueError ''byte must be in range(0, 256)'')
     else bind_res (pack_segments segs) (\<lambda>rest. Inr (concat (map (seg_bytes seg) (chunks255 asns)) @ rest)))"

definition make_as_path :: "segments_arg \<Rightarrow> bytestr result" where
  "make_as_path arg =
    (case arg of
      Bare asns \<Rightarrow> if asns = [] then Inr [] else pack_segments [(2, asns)]
    | Segments segs \<Rightarrow> pack_segments segs)"

definition make_communities :: "int list \<Rightarrow> bytestr" where
  "make_communities values = concat (map be32 (sort (remdups values)))"

section \<open>Attribute sets\<close>

record attr_set =
  a_origin :: byte
  a_flags :: byte
  a_as_path :: bytestr
  a_nexthop :: bytestr
  a_nexthop_local :: bytestr
  a_med :: u32
  a_local_pref :: u32
  a_communities :: bytestr
  a_ext_communities :: bytestr
  a_large_communities :: bytestr
  a_originator_id :: u32
  a_cluster_list :: bytestr
  a_aggregator :: bytestr
  a_unknown :: bytestr
  a_as_path_len :: u32
  a_neighbor_as :: u32
  a_cluster_len :: "16 word"
  a_hash :: "64 word"
  a_refs :: int

definition attrs_blank :: attr_set where
  "attrs_blank = \<lparr>a_origin = ORIGIN_IGP, a_flags = 0, a_as_path = [], a_nexthop = [], a_nexthop_local = [],
    a_med = 0, a_local_pref = 0, a_communities = [], a_ext_communities = [], a_large_communities = [],
    a_originator_id = 0, a_cluster_list = [], a_aggregator = [], a_unknown = [],
    a_as_path_len = 0, a_neighbor_as = 0, a_cluster_len = 0, a_hash = 0, a_refs = 0\<rparr>"

definition has_flag :: "byte \<Rightarrow> attr_set \<Rightarrow> bool" where
  "has_flag f a \<longleftrightarrow> a_flags a AND f \<noteq> 0"

definition has_med :: "attr_set \<Rightarrow> bool" where
  "has_med a = has_flag ATTRF_MED a"

definition has_local_pref :: "attr_set \<Rightarrow> bool" where
  "has_local_pref a = has_flag ATTRF_LOCAL_PREF a"

definition atomic_aggregate :: "attr_set \<Rightarrow> bool" where
  "atomic_aggregate a = has_flag ATTRF_ATOMIC_AGGREGATE a"

definition has_originator_id :: "attr_set \<Rightarrow> bool" where
  "has_originator_id a = has_flag ATTRF_ORIGINATOR_ID a"

definition interned :: "attr_set \<Rightarrow> bool" where
  "interned a = has_flag ATTRF_INTERNED a"

text \<open>The FNV-1a fold.\<close>

abbreviation (input) "FNV_PRIME \<equiv> 16777619 :: 64 word"

definition hash_bytes :: "64 word \<Rightarrow> bytestr \<Rightarrow> 64 word" where
  "hash_bytes h v = (fold (\<lambda>b acc. (acc XOR ucast b) * FNV_PRIME) v h XOR of_nat (length v)) * FNV_PRIME"

definition hash_u32 :: "64 word \<Rightarrow> u32 \<Rightarrow> 64 word" where
  "hash_u32 h v = fold (\<lambda>k acc. (acc XOR ucast (drop_bit k v AND 0xff)) * FNV_PRIME) [0, 8, 16, 24] h"

definition attrs_hash :: "attr_set \<Rightarrow> 64 word" where
  "attrs_hash a =
    (let h = hash_u32 2166136261 (ucast (a_origin a));
         h = hash_u32 h (ucast (a_flags a AND PRESENCE));
         h = hash_bytes h (a_as_path a);
         h = hash_bytes h (a_nexthop a);
         h = hash_bytes h (a_nexthop_local a);
         h = (if has_med a then hash_u32 h (a_med a) else h);
         h = (if has_local_pref a then hash_u32 h (a_local_pref a) else h);
         h = hash_bytes h (a_communities a);
         h = hash_bytes h (a_ext_communities a);
         h = hash_bytes h (a_large_communities a);
         h = (if has_originator_id a then hash_u32 h (a_originator_id a) else h);
         h = hash_bytes h (a_cluster_list a);
         h = hash_bytes h (a_aggregator a);
         h = hash_bytes h (a_unknown a)
     in if h \<noteq> -1 then h else -2)"

definition attrs_finalize :: "attr_set \<Rightarrow> attr_set" where
  "attrs_finalize a =
    (let a = a\<lparr>a_communities := sort_groups (a_communities a) 4,
               a_ext_communities := sort_groups (a_ext_communities a) 8,
               a_large_communities := sort_groups (a_large_communities a) 12,
               a_unknown := sort_unknown (a_unknown a)\<rparr>;
         a = a\<lparr>a_cluster_list := take (length (a_cluster_list a) div 4 * 4) (a_cluster_list a)\<rparr>;
         a = a\<lparr>a_cluster_len := of_nat (length (a_cluster_list a) div 4)\<rparr>;
         (len, nbr) = walk_as_path (a_as_path a);
         a = a\<lparr>a_as_path_len := len, a_neighbor_as := nbr\<rparr>
     in a\<lparr>a_hash := attrs_hash a\<rparr>)"

definition flags_of :: "bool \<Rightarrow> bool \<Rightarrow> bool \<Rightarrow> bool \<Rightarrow> byte" where
  "flags_of med local_pref atomic originator =
    (if med then ATTRF_MED else 0) OR (if local_pref then ATTRF_LOCAL_PREF else 0)
    OR (if atomic then ATTRF_ATOMIC_AGGREGATE else 0) OR (if originator then ATTRF_ORIGINATOR_ID else 0)"

text \<open>The constructor: the fields it is given (the flags by keyword), then \<open>attrs_finalize\<close>.
  Fields that are left at their default are those of \<open>attrs_blank\<close>.\<close>

definition new_attr_set :: "attr_set \<Rightarrow> bool \<Rightarrow> bool \<Rightarrow> bool \<Rightarrow> bool \<Rightarrow> attr_set" where
  "new_attr_set given med local_pref atomic originator =
    attrs_finalize (given\<lparr>a_flags := flags_of med local_pref atomic originator, a_refs := 0\<rparr>)"

definition attr_path_list :: "attr_set \<Rightarrow> (byte \<times> u32 list) list" where
  "attr_path_list a = as_segments (a_as_path a)"

definition has_as :: "attr_set \<Rightarrow> u32 \<Rightarrow> bool" where
  "has_as a asn = (if a_as_path a = [] \<or> asn = AS_TRANS then False else path_has_as asn (a_as_path a))"

definition words_of :: "bytestr \<Rightarrow> u32 list" where
  "words_of v = map (\<lambda>i. rd32 (drop (i * 4) v)) [0..<length v div 4]"

definition community_list :: "attr_set \<Rightarrow> u32 list" where
  "community_list a = (if length (a_communities a) < 4 then [] else words_of (a_communities a))"

definition cluster_ids :: "attr_set \<Rightarrow> u32 list" where
  "cluster_ids a = (if length (a_cluster_list a) < 4 then [] else words_of (a_cluster_list a))"

fun join :: "string \<Rightarrow> string list \<Rightarrow> string" where
  "join sep [] = ''''"
| "join sep [x] = x"
| "join sep (x # y # zs) = x @ sep @ join sep (y # zs)"

definition segment_str :: "byte \<times> u32 list \<Rightarrow> string list" where
  "segment_str s =
    (case s of (seg, asns) \<Rightarrow>
      let strs = map (\<lambda>w. nat_str (unat w)) asns; txt = join '' '' strs in
      if seg = AS_SET then [''{'' @ join '','' strs @ ''}'']
      else if seg = AS_CONFED_SEQUENCE then [''('' @ txt @ '')'']
      else if seg = AS_CONFED_SET then [''['' @ join '','' strs @ '']'']
      else if txt \<noteq> '''' then [txt] else [])"

definition as_path_str :: "attr_set \<Rightarrow> string" where
  "as_path_str a = join '' '' (concat (map segment_str (attr_path_list a)))"

section \<open>The order\<close>

text \<open>\<open>memcmp\<close> on strings of the same length.\<close>

fun memcmp :: "bytestr \<Rightarrow> bytestr \<Rightarrow> int" where
  "memcmp (x # xs) (y # ys) = (if x = y then memcmp xs ys else if x < y then -1 else 1)"
| "memcmp _ _ = 0"

definition cmp_bytes :: "bytestr \<Rightarrow> bytestr \<Rightarrow> int" where
  "cmp_bytes x y =
    (if length x \<noteq> length y then if length x < length y then -1 else 1
     else if length x = 0 then 0
     else let c = memcmp x y in if c \<noteq> 0 then if c < 0 then -1 else 1 else 0)"

definition attrs_cmp :: "attr_set \<Rightarrow> attr_set \<Rightarrow> int" where
  "attrs_cmp a b =
    (let fa = a_flags a AND PRESENCE; fb = a_flags b AND PRESENCE in
     if a_origin a \<noteq> a_origin b then if a_origin a < a_origin b then -1 else 1 else
     if fa \<noteq> fb then if fa < fb then -1 else 1 else
     (let c = cmp_bytes (a_as_path a) (a_as_path b) in if c \<noteq> 0 then c else
     (let c = cmp_bytes (a_nexthop a) (a_nexthop b) in if c \<noteq> 0 then c else
     (let c = cmp_bytes (a_nexthop_local a) (a_nexthop_local b) in if c \<noteq> 0 then c else
     (if fa AND ATTRF_MED \<noteq> 0 \<and> a_med a \<noteq> a_med b then if a_med a < a_med b then -1 else 1 else
     (if fa AND ATTRF_LOCAL_PREF \<noteq> 0 \<and> a_local_pref a \<noteq> a_local_pref b then if a_local_pref a < a_local_pref b then -1 else 1 else
     (let c = cmp_bytes (a_communities a) (a_communities b) in if c \<noteq> 0 then c else
     (let c = cmp_bytes (a_ext_communities a) (a_ext_communities b) in if c \<noteq> 0 then c else
     (let c = cmp_bytes (a_large_communities a) (a_large_communities b) in if c \<noteq> 0 then c else
     (if fa AND ATTRF_ORIGINATOR_ID \<noteq> 0 \<and> a_originator_id a \<noteq> a_originator_id b then if a_originator_id a < a_originator_id b then -1 else 1 else
     (let c = cmp_bytes (a_cluster_list a) (a_cluster_list b) in if c \<noteq> 0 then c else
     (let c = cmp_bytes (a_aggregator a) (a_aggregator b) in if c \<noteq> 0 then c else
     cmp_bytes (a_unknown a) (a_unknown b)))))))))))))"

section \<open>The interning table\<close>

type_synonym aheap = "nat \<Rightarrow> attr_set"

record attr_table =
  t_sets :: "nat list"
  t_hits :: nat
  t_misses :: nat
  t_releases :: nat

definition new_attr_table :: attr_table where
  "new_attr_table = \<lparr>t_sets = [], t_hits = 0, t_misses = 0, t_releases = 0\<rparr>"

text \<open>The dictionary finds a key that is the same object, or has the same hash and compares
  equal.\<close>

definition same_set :: "aheap \<Rightarrow> nat \<Rightarrow> nat \<Rightarrow> bool" where
  "same_set h k a \<longleftrightarrow> k = a \<or> a_hash (h k) = a_hash (h a) \<and> attrs_cmp (h k) (h a) = 0"

definition find_set :: "aheap \<Rightarrow> attr_table \<Rightarrow> nat \<Rightarrow> nat option" where
  "find_set h t a = find (\<lambda>k. same_set h k a) (t_sets t)"

definition mark_interned :: "attr_set \<Rightarrow> attr_set" where
  "mark_interned a = a\<lparr>a_flags := a_flags a OR ATTRF_INTERNED\<rparr>"

definition unmark_interned :: "attr_set \<Rightarrow> attr_set" where
  "unmark_interned a = a\<lparr>a_flags := a_flags a AND NOT ATTRF_INTERNED\<rparr>"

definition intern :: "nat \<Rightarrow> attr_table \<times> aheap \<Rightarrow> nat \<times> attr_table \<times> aheap" where
  "intern a s =
    (case s of (t, h) \<Rightarrow>
      case find_set h t a of
        Some found \<Rightarrow> (found, t\<lparr>t_hits := t_hits t + 1\<rparr>, h(found := (h found)\<lparr>a_refs := a_refs (h found) + 1\<rparr>))
      | None \<Rightarrow> (a, t\<lparr>t_sets := t_sets t @ [a], t_misses := t_misses t + 1\<rparr>,
                 h(a := (mark_interned (h a))\<lparr>a_refs := 1\<rparr>)))"

definition release :: "nat option \<Rightarrow> attr_table \<times> aheap \<Rightarrow> int \<times> attr_table \<times> aheap" where
  "release arg s =
    (case s of (t, h) \<Rightarrow>
      case arg of
        None \<Rightarrow> (-1, t, h)
      | Some a \<Rightarrow>
          if find_set h t a \<noteq> Some a then (-1, t, h)
          else let t = t\<lparr>t_releases := t_releases t + 1\<rparr>; n = a_refs (h a) - 1 in
            if n \<le> 0
            then (0, t\<lparr>t_sets := remove1 a (t_sets t)\<rparr>,
                  h(a := (unmark_interned (h a))\<lparr>a_refs := 0\<rparr>))
            else (n, t, h(a := (h a)\<lparr>a_refs := n\<rparr>)))"

definition table_count :: "attr_table \<Rightarrow> nat" where
  "table_count t = length (t_sets t)"

definition table_references :: "aheap \<Rightarrow> attr_table \<Rightarrow> int" where
  \<comment> \<open>the \<open>references\<close> of \<open>stats\<close>\<close>
  "table_references h t = (\<Sum>a\<leftarrow>t_sets t. a_refs (h a))"

definition table_clear :: "attr_table \<Rightarrow> attr_table" where
  "table_clear t = \<lparr>t_sets = [], t_hits = 0, t_misses = 0, t_releases = 0\<rparr>"

end
