(* ===== verification/AttrsPath.thy ===== *)
theory AttrsPath
  imports Attrs
begin

text \<open>
  The AS_PATH of an attribute set: the walk that derives the path length and the neighbouring
  AS, and the search for an AS, agree with the decoded segments; decoding gives back what
  \<open>make_as_path\<close> was given, long sequences split at 255 and the length unchanged.
\<close>

section \<open>The AS_PATH and its decoded segments\<close>

definition hops :: "byte \<times> u32 list \<Rightarrow> u32" where
  "hops s = (if fst s = AS_SEQUENCE then of_nat (length (snd s)) else if fst s = AS_SET then 1 else 0)"

definition names_neighbor :: "byte \<times> u32 list \<Rightarrow> bool" where
  "names_neighbor s \<longleftrightarrow> (fst s = AS_SEQUENCE \<or> fst s = AS_SET) \<and> snd s \<noteq> []"

definition path_hops :: "(byte \<times> u32 list) list \<Rightarrow> u32" where
  "path_hops segs = (\<Sum>s\<leftarrow>segs. hops s)"

definition path_neighbor :: "(byte \<times> u32 list) list \<Rightarrow> u32" where
  "path_neighbor segs = (case find names_neighbor segs of None \<Rightarrow> 0 | Some s \<Rightarrow> hd (snd s))"

lemma path_hops_simps [simp]:
  "path_hops [] = 0" "path_hops (s # segs) = hops s + path_hops segs"
  by (simp_all add: path_hops_def)

lemma hd_words: "0 < n \<Longrightarrow> hd (map (\<lambda>i. rd32 (drop (i * 4) p)) [0..<n]) = rd32 p"
  by (simp add: upt_conv_Cons)

lemma walk_segments_step:
  assumes "\<not> (length p < 2 \<or> length (drop 2 p) < unat (p ! 1) * 4)"
  shows "walk_segments p tot nbr have =
    (let after = drop (unat (p ! 1) * 4) (drop 2 p);
         named = (if have \<or> unat (p ! 1) = 0 then nbr else rd32 (drop 2 p)) in
     if p ! 0 = AS_SEQUENCE then walk_segments after (tot + of_nat (unat (p ! 1))) named (have \<or> unat (p ! 1) \<noteq> 0)
     else if p ! 0 = AS_SET then walk_segments after (tot + 1) named (have \<or> unat (p ! 1) \<noteq> 0)
     else walk_segments after tot nbr have)"
  using assms by (subst walk_segments.simps) (simp add: Let_def)

lemma segments_stop:
  assumes "length p < 2 \<or> length (drop 2 p) < unat (p ! 1) * 4"
  shows "walk_segments p tot nbr have = (tot, nbr)" "as_segments p = []" "path_has_as asn p = False"
  using assms
  by (subst walk_segments.simps as_segments.simps path_has_as.simps; auto simp: Let_def)+

lemma as_segments_step:
  assumes "\<not> (length p < 2 \<or> length (drop 2 p) < unat (p ! 1) * 4)"
  shows "as_segments p =
    (p ! 0, map (\<lambda>i. rd32 (drop (i * 4) (drop 2 p))) [0..<unat (p ! 1)])
    # as_segments (drop (unat (p ! 1) * 4) (drop 2 p))"
  using assms by (subst as_segments.simps) (simp add: Let_def)

lemma walk_segments_eq:
  "walk_segments p tot nbr have =
    (tot + path_hops (as_segments p), if have then nbr else
      (case find names_neighbor (as_segments p) of None \<Rightarrow> nbr | Some s \<Rightarrow> hd (snd s)))"
proof (induction p arbitrary: tot nbr "have" rule: as_segments.induct)
  case (1 p)
  show ?case
  proof (cases "length p < 2 \<or> length (drop 2 p) < unat (p ! 1) * 4")
    case True
    then show ?thesis by (simp add: segments_stop)
  next
    case False
    define cnt rest where d: "cnt = unat (p ! 1)" "rest = drop 2 p"
    define after asns where e: "after = drop (cnt * 4) rest" "asns = map (\<lambda>i. rd32 (drop (i * 4) rest)) [0..<cnt]"
    have IH: "walk_segments after t n h = (t + path_hops (as_segments after), if h then n else
      (case find names_neighbor (as_segments after) of None \<Rightarrow> n | Some s \<Rightarrow> hd (snd s)))" for t n h
      using "1.IH" [OF _ refl refl, of t n h] False unfolding d e by simp
    have asns: "length asns = cnt" "asns = [] \<longleftrightarrow> cnt = 0" by (simp_all add: e)
    have hd: "cnt \<noteq> 0 \<Longrightarrow> hd asns = rd32 rest" unfolding e by (rule hd_words) simp
    note steps = walk_segments_step [OF False] as_segments_step [OF False]
    show ?thesis
      unfolding steps d [symmetric] e [symmetric] Let_def IH
      by (simp add: hops_def names_neighbor_def asns hd add.assoc)
  qed
qed

lemma walk_as_path_eq: "walk_as_path p = (path_hops (as_segments p), path_neighbor (as_segments p))"
  by (simp add: walk_as_path_def walk_segments_eq path_neighbor_def split: option.split)

lemma path_has_as_iff: "path_has_as asn p \<longleftrightarrow> (\<exists>s\<in>set (as_segments p). asn \<in> set (snd s))"
proof (induction asn p rule: path_has_as.induct)
  case (1 asn p)
  show ?case
  proof (cases "length p < 2 \<or> length (drop 2 p) < unat (p ! 1) * 4")
    case True
    then show ?thesis by (simp add: segments_stop)
  next
    case False
    let ?cnt = "unat (p ! 1)" and ?rest = "drop 2 p"
    let ?hit = "list_ex (\<lambda>i. rd32 (drop (i * 4) ?rest) = asn) [0..<?cnt]"
    have segs: "as_segments p = (p ! 0, map (\<lambda>i. rd32 (drop (i * 4) ?rest)) [0..<?cnt]) # as_segments (drop (?cnt * 4) ?rest)"
      using False by (subst as_segments.simps) (simp add: Let_def)
    have hit: "?hit \<longleftrightarrow> asn \<in> set (map (\<lambda>i. rd32 (drop (i * 4) ?rest)) [0..<?cnt])"
      by (auto simp: list_ex_iff)
    have "path_has_as asn p \<longleftrightarrow> ?hit \<or> path_has_as asn (drop (?cnt * 4) ?rest)"
      using False by (subst path_has_as.simps) (simp add: Let_def)
    also have "\<dots> \<longleftrightarrow> ?hit \<or> (\<exists>s\<in>set (as_segments (drop (?cnt * 4) ?rest)). asn \<in> set (snd s))"
      using "1.IH" [OF _ refl refl] False by blast
    finally show ?thesis unfolding segs hit by simp
  qed
qed

section \<open>Packing and unpacking\<close>

lemma length_be32 [simp]: "length (be32 v) = 4"
  by (simp add: be32_def)

lemma rd32_be32 [simp]: "rd32 (be32 v @ r) = word_of_int v"
proof (rule bit_word_eqI)
  fix n assume "n < LENGTH(32)"
  then have n: "n < 32" by simp
  consider "n < 8" | "8 \<le> n" "n < 16" | "16 \<le> n" "n < 24" | "24 \<le> n" using n by linarith
  then show "bit (rd32 (be32 v @ r)) n = bit (word_of_int v :: u32) n"
    using n by cases (auto simp: rd32_def be32_def bit_simps)
qed

lemma length_concat_be32 [simp]: "length (concat (map be32 xs)) = length xs * 4"
  by (induction xs) simp_all

lemma words_concat_be32:
  "map (\<lambda>i. rd32 (drop (i * 4) (concat (map be32 xs) @ r))) [0..<length xs] = map word_of_int xs"
proof (induction xs)
  case (Cons x xs)
  have "map (\<lambda>i. rd32 (drop (i * 4) (concat (map be32 (x # xs)) @ r))) [0..<length (x # xs)]
      = rd32 (be32 x @ concat (map be32 xs) @ r)
        # map (\<lambda>i. rd32 (drop (Suc i * 4) (be32 x @ concat (map be32 xs) @ r))) [0..<length xs]"
    by (simp add: upt_conv_Cons map_Suc_upt [symmetric] del: upt_Suc)
  also have "\<dots> = word_of_int x # map (\<lambda>i. rd32 (drop (i * 4) (concat (map be32 xs) @ r))) [0..<length xs]"
    by (simp add: rd32_be32 [of x "concat (map be32 xs) @ r"])
  finally show ?case using Cons by simp
qed simp

lemma as_segments_seg_bytes:
  assumes "length chunk \<le> 255"
  shows "as_segments (seg_bytes seg chunk @ r) = (word_of_int seg, map word_of_int chunk) # as_segments r"
proof -
  have cnt: "unat (of_nat (length chunk) :: byte) = length chunk"
    using assms by (simp add: unsigned_of_nat take_bit_nat_eq_self)
  define p where "p = seg_bytes seg chunk @ r"
  have p: "p = word_of_int seg # of_nat (length chunk) # concat (map be32 chunk) @ r"
    by (simp add: p_def seg_bytes_def)
  have d: "p ! 0 = word_of_int seg" "p ! 1 = of_nat (length chunk)" "drop 2 p = concat (map be32 chunk) @ r" "2 \<le> length p"
    by (simp_all add: p)
  have "\<not> (length p < 2 \<or> length (drop 2 p) < unat (p ! 1) * 4)"
    unfolding d using d(4) by (simp add: cnt)
  from as_segments_step [OF this] show ?thesis
    unfolding d cnt words_concat_be32 p_def [symmetric] by simp
qed

lemma chunks255_props:
  "concat (chunks255 xs) = xs \<and> (\<forall>c\<in>set (chunks255 xs). length c \<le> 255)"
proof (induction xs rule: chunks255.induct)
  case (1 xs)
  show ?case
  proof (cases "length xs \<le> 255")
    case True
    then show ?thesis by (simp add: chunks255.simps)
  next
    case False
    then show ?thesis using 1 by (subst (1 2) chunks255.simps) simp
  qed
qed

lemma as_segments_chunks:
  "(\<forall>c\<in>set cs. length c \<le> 255) \<Longrightarrow>
    as_segments (concat (map (seg_bytes seg) cs) @ r)
      = map (\<lambda>c. (word_of_int seg, map word_of_int c)) cs @ as_segments r"
  by (induction cs) (simp_all add: as_segments_seg_bytes)

definition split_segment :: "int \<times> int list \<Rightarrow> (byte \<times> u32 list) list" where
  "split_segment s = map (\<lambda>c. (word_of_int (fst s), map word_of_int c)) (chunks255 (snd s))"

lemma as_segments_pack: "pack_segments segs = Inr p \<Longrightarrow> as_segments p = concat (map split_segment segs)"
proof (induction segs arbitrary: p)
  case Nil
  then show ?case by (auto simp: as_segments.simps)
next
  case (Cons s segs)
  obtain seg asns where s: "s = (seg, asns)" by (cases s)
  obtain q where q: "pack_segments segs = Inr q" and p: "p = concat (map (seg_bytes seg) (chunks255 asns)) @ q"
    using Cons.prems s by (auto simp: bind_res_Inr_iff split: if_splits)
  have "as_segments p = map (\<lambda>c. (word_of_int seg, map word_of_int c)) (chunks255 asns) @ as_segments q"
    unfolding p by (rule as_segments_chunks) (use chunks255_props in blast)
  moreover have "split_segment s = map (\<lambda>c. (word_of_int seg, map word_of_int c)) (chunks255 asns)"
    by (simp add: split_segment_def s)
  ultimately show ?case using Cons.IH [OF q] by simp
qed

lemma hops_chunks:
  "path_hops (map (\<lambda>c. (2, map word_of_int c)) cs) = of_nat (length (concat cs))"
  by (induction cs) (simp_all add: hops_def)

lemma path_hops_append [simp]: "path_hops (xs @ ys) = path_hops xs + path_hops ys"
  by (induction xs) simp_all


text \<open>A segment that one-byte fields can express, a sequence of any length among them.\<close>

definition packable :: "int \<times> int list \<Rightarrow> bool" where
  "packable s \<longleftrightarrow> 0 \<le> fst s \<and> fst s \<le> 255 \<and> (fst s = 2 \<or> length (snd s) \<le> 255)"

lemma pack_segments_ok: "pack_segments segs = Inr p \<Longrightarrow> list_all packable segs"
  by (induction segs arbitrary: p) (auto simp: bind_res_Inr_iff packable_def split: if_splits)

lemma pack_segments_total:
  "list_all packable segs \<Longrightarrow> \<exists>p. pack_segments segs = Inr p"
  by (induction segs) (auto simp: packable_def)

lemma pack_segments_fails: "pack_segments segs = Inl e \<Longrightarrow> \<not> list_all packable segs"
  using pack_segments_total by fastforce

text \<open>The comparison length of a path as it is given.\<close>

definition segment_hops :: "int \<times> int list \<Rightarrow> u32" where
  "segment_hops s = (if fst s = 2 then of_nat (length (snd s)) else if fst s = 1 then 1 else 0)"

lemma word_byte_eq: "0 \<le> k \<Longrightarrow> k \<le> 255 \<Longrightarrow> (word_of_int k :: byte) = word_of_int j \<longleftrightarrow> k = j" if "0 \<le> j" "j \<le> 255"
  using that by (simp add: word_of_int_eq_iff take_bit_int_eq_self)

lemma hops_split:
  assumes "packable s"
  shows "path_hops (split_segment s) = segment_hops s"
proof -
  have type: "(word_of_int (fst s) :: byte) = 2 \<longleftrightarrow> fst s = 2" "(word_of_int (fst s) :: byte) = 1 \<longleftrightarrow> fst s = 1"
    using word_byte_eq [of 2 "fst s"] word_byte_eq [of 1 "fst s"] assms by (simp_all add: packable_def)
  show ?thesis
  proof (cases "fst s = 2")
    case True
    then show ?thesis
      using hops_chunks [of "chunks255 (snd s)"] chunks255_props [of "snd s"]
      by (simp add: split_segment_def segment_hops_def)
  next
    case False
    with assms have "chunks255 (snd s) = [snd s]" by (simp add: chunks255.simps packable_def)
    with False show ?thesis
      by (simp add: split_segment_def segment_hops_def hops_def type)
  qed
qed

lemma hops_pack:
  "list_all packable segs \<Longrightarrow>
    path_hops (concat (map split_segment segs)) = (\<Sum>s\<leftarrow>segs. segment_hops s)"
  by (induction segs) (simp_all add: hops_split)

lemma finalize_path:
  "attr_path_list (attrs_finalize a) = attr_path_list a"
  "a_as_path (attrs_finalize a) = a_as_path a"
  "a_as_path_len (attrs_finalize a) = path_hops (attr_path_list a)"
  "a_neighbor_as (attrs_finalize a) = path_neighbor (attr_path_list a)"
  by (simp_all add: attrs_finalize_def Let_def attr_path_list_def walk_as_path_eq split: prod.split)

section \<open>Properties\<close>

text \<open>
  C26. An AS_PATH packed from segments decodes to those segments, each number by its low 32
  bits and each AS_SEQUENCE of more than 255 as consecutive ones of at most 255; the derived
  length is that of the path as given, one per AS of a sequence and one per set.
\<close>

theorem as_path_round_trip:
  assumes "make_as_path (Segments segs) = Inr p" and "a_as_path a = p"
  shows "attr_path_list (attrs_finalize a) = concat (map split_segment segs)
    \<and> a_as_path_len (attrs_finalize a) = (\<Sum>s\<leftarrow>segs. segment_hops s)"
proof -
  have pack: "pack_segments segs = Inr p" using assms(1) by (simp add: make_as_path_def)
  have "attr_path_list a = concat (map split_segment segs)"
    using as_segments_pack [OF pack] assms(2) by (simp add: attr_path_list_def)
  then show ?thesis
    using hops_pack [OF pack_segments_ok [OF pack]] by (simp add: finalize_path)
qed

definition sample_segments :: "(int \<times> int list) list" where
  "sample_segments = [(2, [65001, 65002]), (1, [7, 8])]"

definition sample_path :: bytestr where
  "sample_path = [2, 2, 0, 0, 0xfd, 0xe9, 0, 0, 0xfd, 0xea, 1, 2, 0, 0, 0, 7, 0, 0, 0, 8]"

lemma as_path_round_trip_witness:
  "attr_path_list (attrs_finalize (attrs_blank\<lparr>a_as_path := sample_path\<rparr>)) = concat (map split_segment sample_segments)
    \<and> a_as_path_len (attrs_finalize (attrs_blank\<lparr>a_as_path := sample_path\<rparr>)) = (\<Sum>s\<leftarrow>sample_segments. segment_hops s)"
proof (rule as_path_round_trip)
  show "make_as_path (Segments sample_segments) = Inr sample_path" by code_simp
  show "a_as_path (attrs_blank\<lparr>a_as_path := sample_path\<rparr>) = sample_path" by simp
qed

text \<open>
  The fields derived once per attribute set say what the decoded AS_PATH says: its
  length, with a set counted once and confederation segments not at all, the first AS of the
  first sequence or set that has one, and whether an AS occurs, which AS_TRANS never does.
\<close>

theorem derived_fields_agree:
  "a_as_path_len (attrs_finalize a) = path_hops (attr_path_list a)
   \<and> a_neighbor_as (attrs_finalize a) = path_neighbor (attr_path_list a)
   \<and> has_as (attrs_finalize a) asn = (asn \<noteq> AS_TRANS \<and> asn \<in> (\<Union>s\<in>set (attr_path_list a). set (snd s)))"
  by (auto simp: finalize_path has_as_def path_has_as_iff attr_path_list_def as_segments.simps [of "[]"])

text \<open>A path that begins with the placeholder AS groups under it, for MED, as if it were the
  neighbouring AS.\<close>

lemma as_trans_is_a_neighbor:
  "a_neighbor_as (attrs_finalize (attrs_blank\<lparr>a_as_path := [2, 1, 0, 0, 0x5b, 0xa0]\<rparr>)) = AS_TRANS"
  by code_simp

end
