(* ===== verification/AttrsProps.thy ===== *)
theory AttrsProps
  imports Attrs "HOL-Library.Multiset"
begin

text \<open>
  What makes attribute sets internable: the order is total and zero exactly between sets of
  the same meaning, which also hash alike; the canonical form depends on nothing but the
  meaning; the AS_PATH codec and the derived fields agree with the decoded segments; the
  table holds exactly the sets that have an outstanding claim.
\<close>

section \<open>The order and the hash\<close>

lemma memcmp_order:
  "length x = length y \<Longrightarrow> memcmp x y = (if x = y then 0 else if x < y then -1 else 1)"
  by (induction x y rule: list_induct2) auto

abbreviation bytes_key :: "bytestr \<Rightarrow> nat \<times> bytestr" where
  "bytes_key v \<equiv> (length v, v)"

lemma cmp_bytes_key: "cmp_bytes x y = by_key bytes_key (\<lambda>_ _. 0) x y"
  by (auto simp: cmp_bytes_def by_key_def memcmp_order Let_def)

lemma cmp_bytes_zero [simp]: "cmp_bytes x y = 0 \<longleftrightarrow> x = y"
  by (auto simp: cmp_bytes_key)

lemma cmp_bytes_cases:
  "cmp_bytes x y = (if bytes_key x \<noteq> bytes_key y then if bytes_key x < bytes_key y then -1 else 1 else 0)"
  by (simp add: cmp_bytes_key by_key_def)

definition presence :: "attr_set \<Rightarrow> byte" where
  "presence a = a_flags a AND PRESENCE"

definition opt_key :: "byte \<Rightarrow> (attr_set \<Rightarrow> u32) \<Rightarrow> attr_set \<Rightarrow> u32" where
  "opt_key f get a = (if presence a AND f \<noteq> 0 then get a else 0)"

text \<open>The order as a chain of keys.\<close>

definition attrs_chain :: "attr_set \<Rightarrow> attr_set \<Rightarrow> int" where
  "attrs_chain =
    by_key a_origin (by_key presence (by_key (bytes_key \<circ> a_as_path) (by_key (bytes_key \<circ> a_nexthop)
      (by_key (bytes_key \<circ> a_nexthop_local) (by_key (opt_key ATTRF_MED a_med)
      (by_key (opt_key ATTRF_LOCAL_PREF a_local_pref) (by_key (bytes_key \<circ> a_communities)
      (by_key (bytes_key \<circ> a_ext_communities) (by_key (bytes_key \<circ> a_large_communities)
      (by_key (opt_key ATTRF_ORIGINATOR_ID a_originator_id) (by_key (bytes_key \<circ> a_cluster_list)
      (by_key (bytes_key \<circ> a_aggregator) (by_key (bytes_key \<circ> a_unknown) (\<lambda>_ _. 0))))))))))))))"

lemma by_bytes:
  "by_key (bytes_key \<circ> f) r a b = (let c = cmp_bytes (f a) (f b) in if c \<noteq> 0 then c else r a b)"
  by (simp add: by_key_def cmp_bytes_cases)

lemma by_option:
  "presence a = presence b \<Longrightarrow>
    by_key (opt_key F get) r a b =
      (if presence a AND F \<noteq> 0 \<and> get a \<noteq> get b then if get a < get b then -1 else 1 else r a b)"
  by (simp add: by_key_def opt_key_def)

lemma attrs_cmp_chain: "attrs_cmp a b = attrs_chain a b"
proof (cases "a_origin a = a_origin b \<and> presence a = presence b")
  case True
  have unknown: "by_key (bytes_key \<circ> a_unknown) (\<lambda>_ _. 0) a b = cmp_bytes (a_unknown a) (a_unknown b)"
    by (simp add: by_bytes Let_def)
  show ?thesis
    unfolding attrs_cmp_def attrs_chain_def presence_def [symmetric]
    using True unknown by (simp only: by_bytes by_option by_key_def [of a_origin] by_key_def [of presence]) simp
next
  case False
  then show ?thesis
    by (auto simp: attrs_cmp_def attrs_chain_def by_key_def presence_def)
qed

interpretation attrs: comparator_on attrs_cmp UNIV
proof -
  have "comparator_on attrs_chain UNIV"
    unfolding attrs_chain_def by (intro comparator_by_keys comparator_zero)
  then show "comparator_on attrs_cmp UNIV"
    by (rule comparator_on_cong) (simp_all add: attrs_cmp_chain)
qed

text \<open>Two sets mean the same when they agree on every attribute that they carry.\<close>

definition same_meaning :: "attr_set \<Rightarrow> attr_set \<Rightarrow> bool" where
  "same_meaning a b \<longleftrightarrow>
    a_origin a = a_origin b \<and> presence a = presence b \<and> a_as_path a = a_as_path b
    \<and> a_nexthop a = a_nexthop b \<and> a_nexthop_local a = a_nexthop_local b
    \<and> (has_med a \<longrightarrow> a_med a = a_med b) \<and> (has_local_pref a \<longrightarrow> a_local_pref a = a_local_pref b)
    \<and> a_communities a = a_communities b \<and> a_ext_communities a = a_ext_communities b
    \<and> a_large_communities a = a_large_communities b
    \<and> (has_originator_id a \<longrightarrow> a_originator_id a = a_originator_id b)
    \<and> a_cluster_list a = a_cluster_list b \<and> a_aggregator a = a_aggregator b \<and> a_unknown a = a_unknown b"

lemma presence_flags:
  "presence a AND ATTRF_MED \<noteq> 0 \<longleftrightarrow> has_med a"
  "presence a AND ATTRF_LOCAL_PREF \<noteq> 0 \<longleftrightarrow> has_local_pref a"
  "presence a AND ATTRF_ORIGINATOR_ID \<noteq> 0 \<longleftrightarrow> has_originator_id a"
  by (simp_all add: presence_def PRESENCE_def has_med_def has_local_pref_def has_originator_id_def
      has_flag_def and.assoc)

lemma same_presence:
  assumes "presence a = presence b"
  shows "has_med a = has_med b" "has_local_pref a = has_local_pref b" "has_originator_id a = has_originator_id b"
  using assms presence_flags by metis+

lemma opt_key_eq:
  "presence a = presence b \<Longrightarrow>
    opt_key F get a = opt_key F get b \<longleftrightarrow> (presence a AND F \<noteq> 0 \<longrightarrow> get a = get b)"
  by (simp add: opt_key_def)

lemma length_and_eq:
  "length x = length y \<and> x = y \<and> R \<longleftrightarrow> x = y \<and> R"
  "length x = length y \<and> x = y \<longleftrightarrow> x = y"
  by auto

lemma attrs_cmp_zero: "attrs_cmp a b = 0 \<longleftrightarrow> same_meaning a b"
proof (cases "presence a = presence b")
  case True
  then show ?thesis
    unfolding attrs_cmp_chain attrs_chain_def same_meaning_def
    by (simp add: opt_key_eq presence_flags length_and_eq same_presence [OF True] cong: conj_cong)
next
  case False
  then show ?thesis
    unfolding attrs_cmp_chain attrs_chain_def same_meaning_def by simp
qed

lemma same_meaning_hash:
  assumes "same_meaning a b"
  shows "attrs_hash a = attrs_hash b"
proof -
  have "presence a = presence b" using assms by (simp add: same_meaning_def)
  note P = same_presence [OF this]
  show ?thesis
    using assms unfolding attrs_hash_def same_meaning_def presence_def [symmetric]
    by (simp add: P [symmetric] cong: if_cong)
qed


section \<open>Canonical form\<close>

lemma concat_groups:
  assumes "0 < w"
  shows "concat (groups w v) = take (length v div w * w) v"
proof -
  have "concat (map (\<lambda>i. take w (drop (i * w) v)) [0..<n]) = take (n * w) v" if "n \<le> length v div w" for n
    using that
  proof (induction n)
    case (Suc n)
    have "take (w + n * w) v = take (n * w) v @ take w (drop (n * w) v)"
      by (metis add.commute take_add)
    with Suc show ?case by simp
  qed simp
  then show ?thesis by (simp add: groups_def)
qed

lemma length_groups [simp]: "length (groups w v) = length v div w"
  by (simp add: groups_def)

lemma groups_width:
  assumes "g \<in> set (groups w v)"
  shows "length g = w"
proof -
  obtain i where i: "i < length v div w" and g: "g = take w (drop (i * w) v)"
    using assms by (auto simp: groups_def)
  have "(i + 1) * w \<le> length v"
    using i by (metis Suc_eq_plus1 Suc_leI div_times_less_eq_dividend le_trans mult_le_mono1)
  then show ?thesis using g by simp
qed

lemma groups_concat:
  assumes "0 < w" "\<And>g. g \<in> set gs \<Longrightarrow> length g = w"
  shows "groups w (concat gs) = gs"
proof -
  have len: "length (concat gs) = length gs * w"
    using assms(2) by (induction gs) simp_all
  have "take w (drop (i * w) (concat gs)) = gs ! i" if "i < length gs" for i
    using that assms(2)
  proof (induction gs arbitrary: i)
    case (Cons g gs)
    then show ?case by (cases i) simp_all
  qed simp
  then show ?thesis
    using assms(1) by (intro nth_equalityI) (simp_all add: groups_def len)
qed

lemma ascending_sorted: "ascending xs \<longleftrightarrow> sorted_wrt (<) xs"
  by (induction xs rule: ascending.induct) (auto dest: less_trans)

lemma sort_groups_eq:
  assumes "0 < w"
  shows "sort_groups v w = concat (sorted_list_of_set (set (groups w v)))"
proof -
  have sorted: "sorted_list_of_set (set (groups w v)) = sort (remdups (groups w v))"
    by (simp add: sorted_list_of_set_sort_remdups)
  consider "length v div w < 2" | "length v = length v div w * w" "ascending (groups w v)" "2 \<le> length v div w"
    | "\<not> length v div w < 2" "\<not> (length v = length v div w * w \<and> ascending (groups w v))"
    by fastforce
  then show ?thesis
  proof cases
    case 1
    then have "length (groups w v) < 2" by simp
    then have "sort (remdups (groups w v)) = groups w v"
      by (cases "groups w v" rule: remdups_adj.cases) auto
    with 1 show ?thesis by (simp add: sort_groups_def sorted concat_groups [OF assms])
  next
    case 2
    then have "sorted_wrt (<) (groups w v)" by (simp add: ascending_sorted)
    then have "sorted (groups w v)" "distinct (groups w v)"
      by (simp_all add: strict_sorted_iff)
    then have "sort (remdups (groups w v)) = groups w v"
      by (simp add: distinct_remdups_id sorted_sort_id)
    then have "concat (sort (remdups (groups w v))) = v"
      using concat_groups [OF assms, of v] 2(1) by simp
    with 2 show ?thesis by (simp add: sort_groups_def sorted)
  next
    case 3
    then show ?thesis by (auto simp: sort_groups_def sorted Let_def)
  qed
qed

lemma groups_sort_groups:
  assumes "0 < w"
  shows "groups w (sort_groups v w) = sorted_list_of_set (set (groups w v))"
  unfolding sort_groups_eq [OF assms]
  by (rule groups_concat [OF assms]) (auto intro: groups_width)

lemma sort_groups_idem: "0 < w \<Longrightarrow> sort_groups (sort_groups v w) w = sort_groups v w"
  by (simp add: sort_groups_eq [of w "sort_groups v w"] groups_sort_groups) (simp add: sort_groups_eq)


text \<open>Preserved TLVs.\<close>

definition whole_tlv :: "byte \<times> bytestr \<Rightarrow> bool" where
  "whole_tlv t \<longleftrightarrow> tlv_size (snd t) = Some (length (snd t)) \<and> fst t = snd t ! 1"

lemma tlv_size_append: "tlv_size p = Some n \<Longrightarrow> tlv_size (p @ q) = Some n"
  by (auto simp: tlv_size_def Let_def nth_append split: if_splits)

lemma tlv_size_take: "tlv_size p = Some n \<Longrightarrow> tlv_size (take n p) = Some n"
  by (auto simp: tlv_size_def Let_def split: if_splits)

lemma tlvs_whole: "t \<in> set (tlvs p) \<Longrightarrow> whole_tlv t"
proof (induction p rule: tlvs.induct)
  case (1 p)
  show ?case
  proof (cases "tlv_size p")
    case None
    with "1.prems" show ?thesis by (simp add: tlvs.simps)
  next
    case (Some n)
    note b = tlv_size_bounds [OF Some]
    have "t = (p ! 1, take n p) \<or> t \<in> set (tlvs (drop n p))"
      using "1.prems" Some by (subst (asm) tlvs.simps) simp
    moreover have "whole_tlv (p ! 1, take n p)"
      using tlv_size_take [OF Some] b by (simp add: whole_tlv_def)
    ultimately show ?thesis using "1.IH" [OF Some] by blast
  qed
qed

lemma tlvs_concat: "\<forall>t\<in>set ts. whole_tlv t \<Longrightarrow> tlvs (concat (map snd ts)) = ts"
proof (induction ts)
  case Nil
  show ?case by (simp add: tlvs.simps tlv_size_def)
next
  case (Cons t ts)
  obtain ty v where t: "t = (ty, v)" by (cases t)
  have v: "tlv_size v = Some (length v)" "ty = v ! 1" using Cons.prems t by (simp_all add: whole_tlv_def)
  have "tlv_size (v @ concat (map snd ts)) = Some (length v)" by (rule tlv_size_append [OF v(1)])
  moreover have "1 < length v" using tlv_size_bounds [OF v(1)] by simp
  ultimately show ?case using Cons t v by (subst tlvs.simps) (simp add: nth_append)
qed

lemma sort_short: "length xs < 2 \<Longrightarrow> sort xs = xs"
  by (cases xs rule: remdups_adj.cases) auto

lemma sort_unknown_eq: "sort_unknown v = concat (map snd (sort (tlvs v)))"
  by (simp add: sort_unknown_def sort_short)

lemma tlvs_sort_unknown: "tlvs (sort_unknown v) = sort (tlvs v)"
  unfolding sort_unknown_eq by (rule tlvs_concat) (auto dest: tlvs_whole)

lemma sort_unknown_iff: "sort_unknown v = sort_unknown w \<longleftrightarrow> mset (tlvs v) = mset (tlvs w)"
proof
  assume "sort_unknown v = sort_unknown w"
  then have "sort (tlvs v) = sort (tlvs w)" using tlvs_sort_unknown by metis
  then show "mset (tlvs v) = mset (tlvs w)" by (metis mset_sort)
next
  assume "mset (tlvs v) = mset (tlvs w)"
  then have "sort (tlvs v) = sort (tlvs w)" by (intro properties_for_sort) simp_all
  then show "sort_unknown v = sort_unknown w" by (simp add: sort_unknown_eq)
qed

lemma sort_groups_iff:
  assumes "0 < w"
  shows "sort_groups u w = sort_groups v w \<longleftrightarrow> set (groups w u) = set (groups w v)"
proof
  assume "sort_groups u w = sort_groups v w"
  then have "sorted_list_of_set (set (groups w u)) = sorted_list_of_set (set (groups w v))"
    using groups_sort_groups [OF assms] by metis
  then show "set (groups w u) = set (groups w v)" by (simp add: sorted_list_of_set_inject)
qed (simp add: sort_groups_eq [OF assms])

lemma finalize_fields:
  "a_origin (attrs_finalize a) = a_origin a"
  "a_flags (attrs_finalize a) = a_flags a"
  "a_as_path (attrs_finalize a) = a_as_path a"
  "a_nexthop (attrs_finalize a) = a_nexthop a"
  "a_nexthop_local (attrs_finalize a) = a_nexthop_local a"
  "a_med (attrs_finalize a) = a_med a"
  "a_local_pref (attrs_finalize a) = a_local_pref a"
  "a_communities (attrs_finalize a) = sort_groups (a_communities a) 4"
  "a_ext_communities (attrs_finalize a) = sort_groups (a_ext_communities a) 8"
  "a_large_communities (attrs_finalize a) = sort_groups (a_large_communities a) 12"
  "a_originator_id (attrs_finalize a) = a_originator_id a"
  "a_cluster_list (attrs_finalize a) = take (length (a_cluster_list a) div 4 * 4) (a_cluster_list a)"
  "a_aggregator (attrs_finalize a) = a_aggregator a"
  "a_unknown (attrs_finalize a) = sort_unknown (a_unknown a)"
  "a_as_path_len (attrs_finalize a) = fst (walk_as_path (a_as_path a))"
  "a_neighbor_as (attrs_finalize a) = snd (walk_as_path (a_as_path a))"
  "a_refs (attrs_finalize a) = a_refs a"
  by (simp_all add: attrs_finalize_def Let_def split: prod.split)

lemma finalize_flags [simp]:
  "has_med (attrs_finalize a) = has_med a"
  "has_local_pref (attrs_finalize a) = has_local_pref a"
  "has_originator_id (attrs_finalize a) = has_originator_id a"
  "presence (attrs_finalize a) = presence a"
  by (simp_all add: has_med_def has_local_pref_def has_originator_id_def has_flag_def presence_def finalize_fields)

lemma attrs_hash_cong: "attrs_hash (a\<lparr>a_hash := h\<rparr>) = attrs_hash a"
  by (simp add: attrs_hash_def Let_def has_med_def has_local_pref_def has_originator_id_def has_flag_def)

text \<open>A set is final when its hash is that of its fields; nothing later changes one of these
  but the reference count and the interning bit.\<close>

definition final :: "attr_set \<Rightarrow> bool" where
  "final a \<longleftrightarrow> a_hash a = attrs_hash a"

lemma attrs_finalize_final: "final (attrs_finalize a)"
  by (simp add: final_def attrs_finalize_def Let_def attrs_hash_cong split: prod.split)

text \<open>What the wire can say in several ways: communities in any order and repeated, preserved
  attributes in any order, and a cluster list with a cut-off last identifier.\<close>

definition same_attributes :: "attr_set \<Rightarrow> attr_set \<Rightarrow> bool" where
  "same_attributes a b \<longleftrightarrow>
    a_origin a = a_origin b \<and> presence a = presence b \<and> a_as_path a = a_as_path b
    \<and> a_nexthop a = a_nexthop b \<and> a_nexthop_local a = a_nexthop_local b
    \<and> (has_med a \<longrightarrow> a_med a = a_med b) \<and> (has_local_pref a \<longrightarrow> a_local_pref a = a_local_pref b)
    \<and> set (groups 4 (a_communities a)) = set (groups 4 (a_communities b))
    \<and> set (groups 8 (a_ext_communities a)) = set (groups 8 (a_ext_communities b))
    \<and> set (groups 12 (a_large_communities a)) = set (groups 12 (a_large_communities b))
    \<and> (has_originator_id a \<longrightarrow> a_originator_id a = a_originator_id b)
    \<and> groups 4 (a_cluster_list a) = groups 4 (a_cluster_list b)
    \<and> a_aggregator a = a_aggregator b \<and> mset (tlvs (a_unknown a)) = mset (tlvs (a_unknown b))"

lemma cluster_iff:
  "take (length v div 4 * 4) v = take (length w div 4 * 4) w \<longleftrightarrow> groups 4 v = groups 4 w"
proof
  assume eq: "take (length v div 4 * 4) v = take (length w div 4 * 4) w"
  have "groups 4 (concat (groups 4 u)) = groups 4 u" for u :: bytestr
    by (rule groups_concat) (auto intro: groups_width)
  then show "groups 4 v = groups 4 w"
    using eq concat_groups [of 4 v] concat_groups [of 4 w] by (metis zero_less_numeral)
next
  assume "groups 4 v = groups 4 w"
  then show "take (length v div 4 * 4) v = take (length w div 4 * 4) w"
    using concat_groups [of 4 v] concat_groups [of 4 w] by simp
qed

text \<open>
  C25. Two attribute sets are one key of the interning dictionary, by hash and comparison,
  exactly when they carry the same attributes: the same scalars where present, the same
  communities as a set of whole records, the same cluster list, the same preserved
  attributes in whatever order they arrived.
\<close>

theorem interned_together_iff_same_attributes:
  "a_hash (attrs_finalize a) = a_hash (attrs_finalize b) \<and> attrs_cmp (attrs_finalize a) (attrs_finalize b) = 0
   \<longleftrightarrow> same_attributes a b"
proof -
  have "same_meaning (attrs_finalize a) (attrs_finalize b) \<longleftrightarrow> same_attributes a b"
    by (simp add: same_meaning_def same_attributes_def finalize_fields sort_groups_iff sort_unknown_iff cluster_iff)
  moreover have "same_meaning (attrs_finalize a) (attrs_finalize b) \<Longrightarrow>
      a_hash (attrs_finalize a) = a_hash (attrs_finalize b)"
    using attrs_finalize_final same_meaning_hash unfolding final_def by metis
  ultimately show ?thesis by (auto simp: attrs_cmp_zero)
qed

end
