(* ===== verification/AttrTable.thy ===== *)
theory AttrTable
  imports AttrsProps SeqList
begin

text \<open>
  The interning table at work: runs of \<open>intern\<close> and \<open>release\<close> over a store of attribute sets,
  against the multiset of claims that they have taken and not given back.
\<close>

section \<open>What the table writes leaves the meaning of a set alone\<close>

lemma presence_writes [simp]:
  "presence (a\<lparr>a_refs := n\<rparr>) = presence a"
  "presence (mark_interned a) = presence a"
  "presence (unmark_interned a) = presence a"
  by (simp_all add: presence_def mark_interned_def unmark_interned_def PRESENCE_def and.assoc bit.conj_disj_distrib2)

lemma interned_writes [simp]:
  "interned (a\<lparr>a_refs := n\<rparr>) = interned a"
  "interned (mark_interned a)"
  "\<not> interned (unmark_interned a)"
  by (simp_all add: interned_def has_flag_def mark_interned_def unmark_interned_def and.assoc bit.conj_disj_distrib2)

lemma same_meaning_refl [simp]: "same_meaning a a"
  by (simp add: same_meaning_def)

lemma same_meaning_sym: "same_meaning a b \<Longrightarrow> same_meaning b a"
  using attrs.flip [of a b] attrs_cmp_zero by (metis UNIV_I neg_equal_0_iff_equal)

lemma same_meaning_trans: "same_meaning a b \<Longrightarrow> same_meaning b c \<Longrightarrow> same_meaning a c"
  using attrs.zero_trans [of a b c] attrs_cmp_zero by (metis UNIV_I)

text \<open>Two objects are indistinguishable to the dictionary as they stand.\<close>

definition untouched :: "attr_set \<Rightarrow> attr_set \<Rightarrow> bool" where
  "untouched a b \<longleftrightarrow> same_meaning a b \<and> a_hash a = a_hash b"

lemma same_meaning_left: "same_meaning a b \<Longrightarrow> same_meaning a c = same_meaning b c"
  using same_meaning_trans same_meaning_sym by blast

lemma same_meaning_refs: "same_meaning (a\<lparr>a_refs := n\<rparr>) a"
  by (simp add: same_meaning_def)

lemma same_meaning_flags: "presence (a\<lparr>a_flags := f\<rparr>) = presence a \<Longrightarrow> same_meaning (a\<lparr>a_flags := f\<rparr>) a"
  by (simp add: same_meaning_def)

lemma untouched_writes [simp]:
  "untouched (a\<lparr>a_refs := n\<rparr>) b = untouched a b"
  "untouched (mark_interned a) b = untouched a b"
  "untouched (unmark_interned a) b = untouched a b"
proof -
  have "same_meaning (mark_interned a) a" "same_meaning (unmark_interned a) a"
    using presence_writes(2,3) [of a] unfolding mark_interned_def unmark_interned_def
    by (simp_all add: same_meaning_flags del: and_minus_numerals)
  note m = this [THEN same_meaning_left] same_meaning_refs [THEN same_meaning_left]
  have h: "a_hash (mark_interned a) = a_hash a" "a_hash (unmark_interned a) = a_hash a"
    by (simp_all add: mark_interned_def unmark_interned_def)
  show
    "untouched (a\<lparr>a_refs := n\<rparr>) b = untouched a b"
    "untouched (mark_interned a) b = untouched a b"
    "untouched (unmark_interned a) b = untouched a b"
    unfolding untouched_def by (simp_all add: m h)
qed

section \<open>Runs and their claims\<close>

datatype claim_event = Intern nat | Release "nat option"

definition table_step :: "attr_table \<times> aheap \<Rightarrow> claim_event \<Rightarrow> attr_table \<times> aheap" where
  "table_step s e = (case e of Intern a \<Rightarrow> snd (intern a s) | Release arg \<Rightarrow> snd (release arg s))"

definition claim_step :: "attr_table \<times> aheap \<Rightarrow> nat multiset \<Rightarrow> claim_event \<Rightarrow> nat multiset" where
  "claim_step s M e =
    (case e of Intern a \<Rightarrow> add_mset (fst (intern a s)) M
     | Release None \<Rightarrow> M
     | Release (Some a) \<Rightarrow> M - {#a#})"

type_synonym claim_state = "(attr_table \<times> aheap) \<times> nat multiset"

definition tracked_step :: "claim_state \<Rightarrow> claim_event \<Rightarrow> claim_state" where
  "tracked_step c e = (table_step (fst c) e, claim_step (fst c) (snd c) e)"

definition table_inv :: "aheap \<Rightarrow> claim_state \<Rightarrow> bool" where
  "table_inv h0 c \<longleftrightarrow> (case c of ((t, h), M) \<Rightarrow>
    distinct (t_sets t) \<and> set (t_sets t) = set_mset M
    \<and> (\<forall>a. a_refs (h a) = int (count M a) \<and> interned (h a) = (a \<in># M) \<and> untouched (h a) (h0 a))
    \<and> (\<forall>a\<in>#M. \<forall>b\<in>#M. same_meaning (h0 a) (h0 b) \<longrightarrow> a = b)
    \<and> size M + t_releases t = t_hits t + t_misses t)"

lemma claims_invI:
  assumes "distinct (t_sets t)" "set (t_sets t) = set_mset M"
    and "\<And>a. a_refs (h a) = int (count M a)" "\<And>a. interned (h a) = (a \<in># M)" "\<And>a. untouched (h a) (h0 a)"
    and "\<And>a b. a \<in># M \<Longrightarrow> b \<in># M \<Longrightarrow> same_meaning (h0 a) (h0 b) \<Longrightarrow> a = b"
    and "size M + t_releases t = t_hits t + t_misses t"
  shows "table_inv h0 ((t, h), M)"
  using assms by (simp add: table_inv_def)

lemma claims_invD:
  assumes "table_inv h0 ((t, h), M)"
  shows "distinct (t_sets t)" "set (t_sets t) = set_mset M"
    "a_refs (h a) = int (count M a)" "interned (h a) = (a \<in># M)" "untouched (h a) (h0 a)"
    "a \<in># M \<Longrightarrow> b \<in># M \<Longrightarrow> same_meaning (h0 a) (h0 b) \<Longrightarrow> a = b"
    "size M + t_releases t = t_hits t + t_misses t"
  using assms by (simp_all add: table_inv_def)

definition all_final :: "aheap \<Rightarrow> bool" where
  "all_final h \<longleftrightarrow> (\<forall>a. final (h a))"

lemma same_set_iff:
  assumes "all_final h0" "\<And>a. untouched (h a) (h0 a)"
  shows "same_set h k a \<longleftrightarrow> same_meaning (h0 k) (h0 a)"
proof -
  have hash: "a_hash (h x) = a_hash (h0 x)" and mean: "same_meaning (h x) (h0 x)" for x
    using assms(2) by (simp_all add: untouched_def)
  have "same_meaning (h k) (h a) \<longleftrightarrow> same_meaning (h0 k) (h0 a)"
    using mean same_meaning_left same_meaning_sym by blast
  moreover have "same_meaning (h0 k) (h0 a) \<Longrightarrow> a_hash (h0 k) = a_hash (h0 a)"
    using assms(1) same_meaning_hash unfolding all_final_def final_def by metis
  ultimately show ?thesis
    by (auto simp: same_set_def attrs_cmp_zero hash)
qed

lemma find_set_Some:
  assumes "all_final h0" "table_inv h0 ((t, h), M)" "find_set h t a = Some b"
  shows "b \<in># M" "same_meaning (h0 b) (h0 a)"
  using find_SomeD [OF assms(3) [unfolded find_set_def]] claims_invD [OF assms(2)]
    same_set_iff [OF assms(1)] by auto

lemma find_set_None:
  assumes "all_final h0" "table_inv h0 ((t, h), M)" "find_set h t a = None" "b \<in># M"
  shows "\<not> same_meaning (h0 b) (h0 a)"
  using find_NoneD [OF assms(3) [unfolded find_set_def]] claims_invD [OF assms(2)]
    same_set_iff [OF assms(1)] assms(4) by auto

lemma find_set_member:
  assumes "all_final h0" "table_inv h0 ((t, h), M)" "b \<in># M" "same_meaning (h0 b) (h0 a)"
  shows "find_set h t a = Some b"
proof (cases "find_set h t a")
  case None
  from find_set_None [OF assms(1,2) this assms(3)] assms(4) show ?thesis by simp
next
  case (Some c)
  note c = find_set_Some [OF assms(1,2) Some]
  have "same_meaning (h0 c) (h0 b)" using c(2) assms(4) same_meaning_trans same_meaning_sym by blast
  then have "c = b" using claims_invD(6) [OF assms(2) c(1) assms(3)] by simp
  with Some show ?thesis by simp
qed

lemma find_set_self_iff:
  assumes "all_final h0" "table_inv h0 ((t, h), M)"
  shows "find_set h t a = Some a \<longleftrightarrow> a \<in># M"
proof
  assume "find_set h t a = Some a"
  from find_set_Some(1) [OF assms this] show "a \<in># M" .
next
  assume "a \<in># M"
  from find_set_member [OF assms this same_meaning_refl] show "find_set h t a = Some a" .
qed

lemma intern_inv:
  assumes fin: "all_final h0" and inv: "table_inv h0 ((t, h), M)" and i: "intern a (t, h) = (b, t', h')"
  shows "table_inv h0 ((t', h'), add_mset b M)"
proof (cases "find_set h t a")
  case (Some c)
  note c = find_set_Some [OF fin inv Some]
  have e: "b = c" "t' = t\<lparr>t_hits := t_hits t + 1\<rparr>" "h' = h(c := (h c)\<lparr>a_refs := a_refs (h c) + 1\<rparr>)"
    using i Some by (auto simp: intern_def)
  show ?thesis
    unfolding e using claims_invD [OF inv] c(1)
    by (intro claims_invI) (auto simp: insert_absorb)
next
  case None
  note new = find_set_None [OF fin inv None]
  have e: "b = a" "t' = t\<lparr>t_sets := t_sets t @ [a], t_misses := t_misses t + 1\<rparr>"
    "h' = h(a := (mark_interned (h a))\<lparr>a_refs := 1\<rparr>)"
    using i None by (auto simp: intern_def)
  have a: "a \<notin># M" using new [of a] by auto
  show ?thesis
    unfolding e
  proof (rule claims_invI)
    fix x y
    assume "x \<in># add_mset a M" "y \<in># add_mset a M" "same_meaning (h0 x) (h0 y)"
    then show "x = y"
      using new same_meaning_sym claims_invD(6) [OF inv] by auto
  qed (use claims_invD [OF inv] a in \<open>auto simp: not_in_iff\<close>)
qed

lemma release_inv:
  assumes fin: "all_final h0" and inv: "table_inv h0 ((t, h), M)" and r: "release (Some a) (t, h) = (n, t', h')"
  shows "table_inv h0 ((t', h'), M - {#a#})"
proof (cases "a \<in># M")
  case False
  then have "find_set h t a \<noteq> Some a" using find_set_self_iff [OF fin inv] by simp
  then have "t' = t" "h' = h" using r by (simp_all add: release_def)
  with inv False show ?thesis by (simp add: diff_single_trivial)
next
  case True
  then have f: "find_set h t a = Some a" using find_set_self_iff [OF fin inv] by simp
  obtain N where M: "M = add_mset a N" using True by (meson mset_add)
  have refs: "a_refs (h a) = int (count N a) + 1" using claims_invD(3) [OF inv, of a] M by simp
  show ?thesis
  proof (cases "a \<in># N")
    case True
    then have "t' = t\<lparr>t_releases := t_releases t + 1\<rparr>" "h' = h(a := (h a)\<lparr>a_refs := int (count N a)\<rparr>)"
      using r f refs by (auto simp: release_def Let_def count_eq_zero_iff)
    then show ?thesis
      using claims_invD [OF inv] True M by (intro claims_invI) (auto simp: insert_absorb)
  next
    case False
    then have e: "t' = t\<lparr>t_releases := t_releases t + 1, t_sets := remove1 a (t_sets t)\<rparr>"
      "h' = h(a := (unmark_interned (h a))\<lparr>a_refs := 0\<rparr>)"
      using r f refs by (auto simp: release_def Let_def not_in_iff)
    then show ?thesis
      using claims_invD [OF inv] False M by (intro claims_invI) (auto simp: set_remove1_eq not_in_iff)
  qed
qed

lemma tracked_inv: "all_final h0 \<Longrightarrow> table_inv h0 c \<Longrightarrow> table_inv h0 (tracked_step c e)"
proof -
  assume fin: "all_final h0" and inv: "table_inv h0 c"
  obtain t h M where c: "c = ((t, h), M)" by (metis surj_pair)
  show ?thesis
  proof (cases e)
    case (Intern a)
    obtain b t' h' where i: "intern a (t, h) = (b, t', h')" by (metis surj_pair)
    show ?thesis
      using intern_inv [OF fin inv [unfolded c] i] Intern i c
      by (simp add: tracked_step_def table_step_def claim_step_def)
  next
    case (Release arg)
    show ?thesis
    proof (cases arg)
      case None
      then show ?thesis
        using inv Release c by (simp add: tracked_step_def table_step_def claim_step_def release_def)
    next
      case (Some a)
      obtain n t' h' where r: "release (Some a) (t, h) = (n, t', h')" by (metis surj_pair)
      show ?thesis
        using release_inv [OF fin inv [unfolded c] r] Release Some r c
        by (simp add: tracked_step_def table_step_def claim_step_def)
    qed
  qed
qed


text \<open>A store before anything is interned: every set finalised, unclaimed and not shared.\<close>

definition fresh_store :: "aheap \<Rightarrow> bool" where
  "fresh_store h \<longleftrightarrow> all_final h \<and> (\<forall>a. a_refs (h a) = 0 \<and> \<not> interned (h a))"

definition tracked_run :: "aheap \<Rightarrow> claim_event list \<Rightarrow> claim_state" where
  "tracked_run h0 es = foldl tracked_step ((new_attr_table, h0), {#}) es"

text \<open>A tracked state on a store of finalised sets. The store is the machine's parameter: the
  invariant compares every later store with it.\<close>

interpretation claims: invariant_machine tracked_step "\<lambda>c. all_final h0 \<and> table_inv h0 c" for h0
  by unfold_locales (simp add: tracked_inv)

lemma tracked_run_inv: "fresh_store h0 \<Longrightarrow> table_inv h0 (tracked_run h0 es)"
proof -
  assume fresh: "fresh_store h0"
  have "table_inv h0 ((new_attr_table, h0), {#})"
    using fresh by (intro claims_invI) (simp_all add: fresh_store_def new_attr_table_def untouched_def)
  then show ?thesis
    using claims.run_inv [of h0 _ es] fresh unfolding tracked_run_def fresh_store_def by blast
qed

lemma table_references_sum:
  assumes "table_inv h0 ((t, h), M)"
  shows "table_references h t = int (size M)"
proof -
  have "table_references h t = (\<Sum>a\<in>set_mset M. int (count M a))"
    using claims_invD [OF assms] by (simp add: table_references_def sum_list_distinct_conv_sum_set)
  then show ?thesis by (simp add: size_multiset_overloaded_eq)
qed

section \<open>Properties\<close>

text \<open>
  C24. Whatever runs of interning and releasing came before, the table holds exactly the
  attribute sets with an outstanding claim, each marked as shared with a reference count that
  is the number of its claims, never two of the same meaning; the references it reports are
  all outstanding claims, and hits and misses balance releases and claims.
\<close>

theorem table_counts_claims:
  assumes "fresh_store h0" and "tracked_run h0 es = ((t, h), M)"
  shows "set (t_sets t) = set_mset M \<and> table_count t = card (set_mset M)
    \<and> (\<forall>a. a_refs (h a) = int (count M a) \<and> interned (h a) = (a \<in># M) \<and> same_meaning (h a) (h0 a))
    \<and> (\<forall>a\<in>#M. \<forall>b\<in>#M. attrs_cmp (h a) (h b) = 0 \<longrightarrow> a = b)
    \<and> table_references h t = int (size M) \<and> size M + t_releases t = t_hits t + t_misses t"
proof -
  have inv: "table_inv h0 ((t, h), M)" using tracked_run_inv [OF assms(1), of es] assms(2) by simp
  note D = claims_invD [OF inv]
  have mean: "same_meaning (h a) (h0 a)" for a using D(5) by (simp add: untouched_def)
  have "a = b" if "a \<in># M" "b \<in># M" "attrs_cmp (h a) (h b) = 0" for a b
  proof -
    have "same_meaning (h a) (h b)" using that(3) by (simp add: attrs_cmp_zero)
    then have "same_meaning (h0 a) (h0 b)"
      using mean same_meaning_left same_meaning_sym by blast
    then show ?thesis using D(6) that by blast
  qed
  moreover have "table_count t = card (set_mset M)"
    using D(1,2) by (metis distinct_card table_count_def)
  ultimately show ?thesis
    using D(2,3,4,7) mean table_references_sum [OF inv] by auto
qed

text \<open>
  Interning returns a shared set of the same meaning, and from then until it is released
  every set of that meaning is interned as the same object.
\<close>

theorem intern_shares:
  assumes "fresh_store h0" and "tracked_run h0 es = ((t, h), M)" and "intern a (t, h) = (b, s)"
  shows "same_meaning (h0 b) (h0 a) \<and> b \<in> set (t_sets (fst s))
    \<and> (\<forall>c. same_meaning (h0 c) (h0 a) \<longrightarrow> fst (intern c s) = b)"
proof -
  have fin: "all_final h0" using assms(1) by (simp add: fresh_store_def)
  have inv: "table_inv h0 ((t, h), M)" using tracked_run_inv [OF assms(1), of es] assms(2) by simp
  obtain t' h' where s: "s = (t', h')" by (cases s)
  have inv': "table_inv h0 ((t', h'), add_mset b M)"
    using intern_inv [OF fin inv] assms(3) s by simp
  have same: "same_meaning (h0 b) (h0 a)"
  proof (cases "find_set h t a")
    case None
    then have "b = a" using assms(3) by (auto simp: intern_def)
    then show ?thesis by simp
  next
    case (Some k)
    then have "k = b" using assms(3) by (auto simp: intern_def)
    with find_set_Some(2) [OF fin inv Some] show ?thesis by simp
  qed
  have "fst (intern c s) = b" if "same_meaning (h0 c) (h0 a)" for c
  proof -
    have "same_meaning (h0 b) (h0 c)" using same that same_meaning_sym same_meaning_trans by blast
    then have "find_set h' t' c = Some b" by (intro find_set_member [OF fin inv']) simp_all
    then show ?thesis unfolding s by (simp add: intern_def)
  qed
  with same show ?thesis using claims_invD(2) [OF inv'] s by auto
qed

definition sample_store :: aheap where
  "sample_store a = attrs_finalize (attrs_blank\<lparr>a_med := of_nat a\<rparr>)"

lemma sample_store_fresh: "fresh_store sample_store"
  by (simp add: fresh_store_def all_final_def sample_store_def attrs_finalize_final finalize_fields
      interned_def has_flag_def attrs_blank_def)

definition sample_run :: claim_state where
  "sample_run = ((\<lparr>t_sets = [1], t_hits = 0, t_misses = 1, t_releases = 0\<rparr>,
      sample_store(1 := (mark_interned (sample_store 1))\<lparr>a_refs := 1\<rparr>)), {#1#})"

lemma sample_run_eq: "tracked_run sample_store [Intern 1] = sample_run"
  by (simp add: tracked_run_def tracked_step_def table_step_def claim_step_def intern_def find_set_def
      new_attr_table_def sample_run_def)

lemma table_counts_claims_witness: "a_refs (snd (fst sample_run) 1) = 1 \<and> interned (snd (fst sample_run) 1)"
  using table_counts_claims [OF sample_store_fresh sample_run_eq [unfolded sample_run_def]]
  unfolding sample_run_def by (metis (no_types) One_nat_def count_single fst_conv of_nat_1 snd_conv union_single_eq_member)

lemma intern_shares_witness:
  "fst (intern 3 (snd (intern 2 (fst sample_run)))) = fst (intern 2 (fst sample_run))"
proof -
  obtain b s where i: "intern 2 (fst sample_run) = (b, s)" by (metis surj_pair)
  have "same_meaning (sample_store 3) (sample_store 2)"
    by (simp add: same_meaning_def sample_store_def finalize_fields presence_def attrs_blank_def
        has_med_def has_flag_def)
  then show ?thesis
    using intern_shares [OF sample_store_fresh sample_run_eq [unfolded sample_run_def]] i
    unfolding sample_run_def by simp
qed

end
