(* ===== verification/BestPath.thy ===== *)
theory BestPath
  imports Attrs PrefixTrie
begin

text \<open>
  The BGP decision process (\<open>plugins/bgp/bestpath.pyx\<close>, \<open>bestpath.pxd\<close>): the pairwise comparison
  with the step that decided, the selection with its grouping by neighbouring AS, the reason
  it reports, the multipath set, the per-prefix container and the explanation. Paths are
  objects of a store (\<open>pheap\<close>): selection marks them in place and tells them apart by
  identity. A \<open>PeerRef\<close> is immutable; its identity is the field \<open>pr_obj\<close>. Times are rationals
  where the code has doubles.
\<close>

section \<open>Constants\<close>

abbreviation (input) "PATH_SRC_LOCAL \<equiv> 0 :: byte"
abbreviation (input) "PATH_SRC_AGGREGATE \<equiv> 1 :: byte"
abbreviation (input) "PATH_SRC_REDIST \<equiv> 2 :: byte"
abbreviation (input) "PATH_SRC_PEER \<equiv> 3 :: byte"

datatype cmp_step =
    STEP_NONE | STEP_RESOLVED | STEP_WEIGHT | STEP_LOCAL_PREF | STEP_ORIGINATED | STEP_AS_PATH
  | STEP_ORIGIN | STEP_MED | STEP_EXTERNAL | STEP_IGP_METRIC | STEP_AGE | STEP_ROUTER_ID
  | STEP_CLUSTER_LIST | STEP_PEER_ADDR

primrec step_code :: "cmp_step \<Rightarrow> nat" where
  "step_code STEP_NONE = 0"
| "step_code STEP_RESOLVED = 1"
| "step_code STEP_WEIGHT = 2"
| "step_code STEP_LOCAL_PREF = 3"
| "step_code STEP_ORIGINATED = 4"
| "step_code STEP_AS_PATH = 5"
| "step_code STEP_ORIGIN = 6"
| "step_code STEP_MED = 7"
| "step_code STEP_EXTERNAL = 8"
| "step_code STEP_IGP_METRIC = 9"
| "step_code STEP_AGE = 10"
| "step_code STEP_ROUTER_ID = 11"
| "step_code STEP_CLUSTER_LIST = 12"
| "step_code STEP_PEER_ADDR = 13"

lemma step_code_inject: "step_code a = step_code b \<Longrightarrow> a = b"
  by (cases a; cases b) simp_all

instantiation cmp_step :: linorder
begin

definition less_eq_cmp_step :: "cmp_step \<Rightarrow> cmp_step \<Rightarrow> bool" where
  "less_eq_cmp_step a b \<longleftrightarrow> step_code a \<le> step_code b"

definition less_cmp_step :: "cmp_step \<Rightarrow> cmp_step \<Rightarrow> bool" where
  "less_cmp_step a b \<longleftrightarrow> step_code a < step_code b"

instance
  by standard (auto simp: less_eq_cmp_step_def less_cmp_step_def step_code_inject)

end

abbreviation (input) "MULTIPATH_BOUNDARY \<equiv> STEP_IGP_METRIC"

primrec STEP_REASONS :: "cmp_step \<Rightarrow> string" where
  "STEP_REASONS STEP_NONE = ''no distinguishing criterion''"
| "STEP_REASONS STEP_RESOLVED = ''only resolvable next hop''"
| "STEP_REASONS STEP_WEIGHT = ''higher weight''"
| "STEP_REASONS STEP_LOCAL_PREF = ''higher local preference''"
| "STEP_REASONS STEP_ORIGINATED = ''locally originated''"
| "STEP_REASONS STEP_AS_PATH = ''shorter AS path''"
| "STEP_REASONS STEP_ORIGIN = ''lower origin''"
| "STEP_REASONS STEP_MED = ''lower MED''"
| "STEP_REASONS STEP_EXTERNAL = ''external peer''"
| "STEP_REASONS STEP_IGP_METRIC = ''lower IGP metric to next hop''"
| "STEP_REASONS STEP_AGE = ''older path''"
| "STEP_REASONS STEP_ROUTER_ID = ''lower router ID''"
| "STEP_REASONS STEP_CLUSTER_LIST = ''shorter cluster list''"
| "STEP_REASONS STEP_PEER_ADDR = ''lower neighbour address''"

abbreviation (input) "MED_WORST \<equiv> 0xffffffff :: u32"

section \<open>Peers, paths, configuration\<close>

record peer_ref =
  pr_obj :: nat
  pr_peer_as :: u32
  pr_local_as :: u32
  pr_router_id :: u32
  pr_addr :: bytestr
  pr_is_ebgp :: bool

definition LOCAL_PEER :: peer_ref where
  "LOCAL_PEER = \<lparr>pr_obj = 0, pr_peer_as = 0, pr_local_as = 0, pr_router_id = 0, pr_addr = [], pr_is_ebgp = False\<rparr>"

record bgp_path =
  p_attrs :: attr_set
  p_peer :: peer_ref
  p_path_id :: u32
  p_weight :: u32
  p_source :: byte
  p_igp_metric :: u32
  p_recv_time :: time
  p_resolved :: bool
  p_best :: bool
  p_multipath :: bool
  p_version :: nat

definition new_bgp_path ::
  "attr_set \<Rightarrow> peer_ref option \<Rightarrow> u32 \<Rightarrow> u32 \<Rightarrow> byte \<Rightarrow> u32 \<Rightarrow> time \<Rightarrow> bool \<Rightarrow> bgp_path" where
  "new_bgp_path attrs peer path_id weight source igp_metric recv_time resolved =
    \<lparr>p_attrs = attrs, p_peer = get_default peer LOCAL_PEER, p_path_id = path_id, p_weight = weight,
     p_source = source, p_igp_metric = igp_metric, p_recv_time = recv_time, p_resolved = resolved,
     p_best = False, p_multipath = False, p_version = 0\<rparr>"

record bestpath_config =
  c_local_as :: u32
  c_router_id :: u32
  c_always_compare_med :: bool
  c_deterministic_med :: bool
  c_med_missing_as_worst :: bool
  c_compare_router_id :: bool
  c_as_path_ignore :: bool
  c_as_path_multipath_relax :: bool
  c_maximum_paths :: byte
  c_maximum_paths_ibgp :: byte
  c_default_local_pref :: u32

text \<open>The constructor stores its arguments, a multipath limit of 0 as 1.\<close>

definition new_bestpath_config :: "bestpath_config \<Rightarrow> bestpath_config" where
  "new_bestpath_config args =
    args\<lparr>c_maximum_paths := (if c_maximum_paths args \<noteq> 0 then c_maximum_paths args else 1),
         c_maximum_paths_ibgp := (if c_maximum_paths_ibgp args \<noteq> 0 then c_maximum_paths_ibgp args else 1)\<rparr>"

definition default_config :: bestpath_config where
  "default_config = new_bestpath_config
    \<lparr>c_local_as = 0, c_router_id = 0, c_always_compare_med = False, c_deterministic_med = True,
     c_med_missing_as_worst = False, c_compare_router_id = False, c_as_path_ignore = False,
     c_as_path_multipath_relax = False, c_maximum_paths = 1, c_maximum_paths_ibgp = 1,
     c_default_local_pref = 100\<rparr>"

section \<open>The comparison\<close>

definition med_of :: "attr_set \<Rightarrow> bestpath_config \<Rightarrow> u32" where
  "med_of a cfg = (if has_flag ATTRF_MED a then a_med a else if c_med_missing_as_worst cfg then MED_WORST else 0)"

definition router_id_of :: "bgp_path \<Rightarrow> u32" where
  "router_id_of p =
    (if has_flag ATTRF_ORIGINATOR_ID (p_attrs p) then a_originator_id (p_attrs p) else pr_router_id (p_peer p))"

definition cmp_addr :: "bytestr \<Rightarrow> bytestr \<Rightarrow> int" where
  "cmp_addr x y =
    (if length x \<noteq> length y then if length x < length y then -1 else 1
     else if length x = 0 then 0
     else let c = memcmp x y in if c \<noteq> 0 then if c < 0 then -1 else 1 else 0)"

definition path_cmp :: "bgp_path \<Rightarrow> bgp_path \<Rightarrow> bestpath_config \<Rightarrow> int \<times> cmp_step" where
  "path_cmp a b cfg =
    (if p_resolved a \<noteq> p_resolved b then (if p_resolved a then -1 else 1, STEP_RESOLVED)
     else if p_weight a \<noteq> p_weight b then (if p_weight a > p_weight b then -1 else 1, STEP_WEIGHT)
     else let ma = (if has_flag ATTRF_LOCAL_PREF (p_attrs a) then a_local_pref (p_attrs a) else c_default_local_pref cfg);
              mb = (if has_flag ATTRF_LOCAL_PREF (p_attrs b) then a_local_pref (p_attrs b) else c_default_local_pref cfg)
     in if ma \<noteq> mb then (if ma > mb then -1 else 1, STEP_LOCAL_PREF)
     else if p_source a \<noteq> p_source b then (if p_source a < p_source b then -1 else 1, STEP_ORIGINATED)
     else if \<not> c_as_path_ignore cfg \<and> a_as_path_len (p_attrs a) \<noteq> a_as_path_len (p_attrs b)
       then (if a_as_path_len (p_attrs a) < a_as_path_len (p_attrs b) then -1 else 1, STEP_AS_PATH)
     else if a_origin (p_attrs a) \<noteq> a_origin (p_attrs b)
       then (if a_origin (p_attrs a) < a_origin (p_attrs b) then -1 else 1, STEP_ORIGIN)
     else if (c_always_compare_med cfg \<or> a_neighbor_as (p_attrs a) = a_neighbor_as (p_attrs b))
          \<and> med_of (p_attrs a) cfg \<noteq> med_of (p_attrs b) cfg
       then (if med_of (p_attrs a) cfg < med_of (p_attrs b) cfg then -1 else 1, STEP_MED)
     else if pr_is_ebgp (p_peer a) \<noteq> pr_is_ebgp (p_peer b)
       then (if pr_is_ebgp (p_peer a) then -1 else 1, STEP_EXTERNAL)
     else if p_igp_metric a \<noteq> p_igp_metric b
       then (if p_igp_metric a < p_igp_metric b then -1 else 1, STEP_IGP_METRIC)
     else if \<not> c_compare_router_id cfg \<and> pr_is_ebgp (p_peer a) \<and> pr_is_ebgp (p_peer b)
          \<and> p_recv_time a \<noteq> p_recv_time b
       then (if p_recv_time a < p_recv_time b then -1 else 1, STEP_AGE)
     else if router_id_of a \<noteq> router_id_of b
       then (if router_id_of a < router_id_of b then -1 else 1, STEP_ROUTER_ID)
     else if a_cluster_len (p_attrs a) \<noteq> a_cluster_len (p_attrs b)
       then (if a_cluster_len (p_attrs a) < a_cluster_len (p_attrs b) then -1 else 1, STEP_CLUSTER_LIST)
     else let c = cmp_addr (pr_addr (p_peer a)) (pr_addr (p_peer b))
     in if c \<noteq> 0 then (c, STEP_PEER_ADDR) else (0, STEP_NONE))"

definition compare :: "bgp_path \<Rightarrow> bgp_path \<Rightarrow> bestpath_config \<Rightarrow> int \<times> cmp_step \<times> string" where
  "compare a b cfg = (case path_cmp a b cfg of (c, st) \<Rightarrow> (c, st, STEP_REASONS st))"

section \<open>Selection\<close>

type_synonym pheap = "nat \<Rightarrow> bgp_path"

record bestpath_result =
  r_best :: "nat option"
  r_multipath :: "nat list"
  r_reason :: cmp_step
  r_considered :: nat
  r_comparisons :: nat

text \<open>The groups: a dictionary from neighbouring AS to the best path seen of it.\<close>

fun group_loop ::
  "pheap \<Rightarrow> bestpath_config \<Rightarrow> nat list \<Rightarrow> (u32, nat) pydict \<Rightarrow> nat \<Rightarrow> (u32, nat) pydict \<times> nat" where
  "group_loop h cfg [] grps n = (grps, n)"
| "group_loop h cfg (p # ps) grps n =
    (let k = a_neighbor_as (p_attrs (h p)) in
     case dict_get grps k of
       None \<Rightarrow> group_loop h cfg ps (dict_set k p grps) n
     | Some cur \<Rightarrow>
         group_loop h cfg ps (if fst (path_cmp (h cur) (h p) cfg) > 0 then dict_set k p grps else grps) (n + 1))"

definition med_group_winners :: "pheap \<Rightarrow> bestpath_config \<Rightarrow> nat list \<Rightarrow> nat list \<times> nat" where
  "med_group_winners h cfg eligible =
    (case group_loop h cfg eligible [] 0 of
      (grps, n) \<Rightarrow> (map (\<lambda>k. the (dict_get grps k)) (sort (map fst grps)), n))"

definition cmp_at :: "pheap \<Rightarrow> bestpath_config \<Rightarrow> nat \<Rightarrow> nat \<Rightarrow> int" where
  "cmp_at h cfg p q = fst (path_cmp (h p) (h q) cfg)"

fun reason_loop :: "pheap \<Rightarrow> bestpath_config \<Rightarrow> nat \<Rightarrow> nat list \<Rightarrow> cmp_step \<Rightarrow> cmp_step" where
  "reason_loop h cfg best [] latest = latest"
| "reason_loop h cfg best (p # ps) latest =
    (if p = best then reason_loop h cfg best ps latest
     else let st = snd (path_cmp (h best) (h p) cfg) in
       reason_loop h cfg best ps (if st > latest then st else latest))"

definition decisive_reason :: "pheap \<Rightarrow> bestpath_config \<Rightarrow> nat list \<Rightarrow> nat \<Rightarrow> cmp_step" where
  "decisive_reason h cfg eligible best = reason_loop h cfg best eligible STEP_NONE"

definition set_multipath :: "nat \<Rightarrow> bool \<Rightarrow> pheap \<Rightarrow> pheap" where
  "set_multipath p v h = h(p := (h p)\<lparr>p_multipath := v\<rparr>)"

definition set_best :: "nat \<Rightarrow> bool \<Rightarrow> pheap \<Rightarrow> pheap" where
  "set_best p v h = h(p := (h p)\<lparr>p_best := v\<rparr>)"

text \<open>May \<open>p\<close> join the set of \<open>best\<close>?\<close>

definition joins :: "bestpath_config \<Rightarrow> bgp_path \<Rightarrow> bgp_path \<Rightarrow> bool" where
  "joins cfg best p \<longleftrightarrow>
    pr_is_ebgp (p_peer p) = pr_is_ebgp (p_peer best)
    \<and> (c_as_path_multipath_relax cfg \<or> a_as_path (p_attrs p) = a_as_path (p_attrs best))
    \<and> (let st = snd (path_cmp best p cfg) in st > MULTIPATH_BOUNDARY \<or> st = STEP_NONE)"

fun multipath_loop ::
  "bestpath_config \<Rightarrow> nat \<Rightarrow> nat \<Rightarrow> nat list \<Rightarrow> nat list \<Rightarrow> pheap \<Rightarrow> nat list \<times> pheap" where
  "multipath_loop cfg best limit [] out h = (out, h)"
| "multipath_loop cfg best limit (p # ps) out h =
    (if p = best then multipath_loop cfg best limit ps out h
     else if length out \<ge> limit then (out, h)
     else if joins cfg (h best) (h p)
     then multipath_loop cfg best limit ps (out @ [p]) (set_multipath p True h)
     else multipath_loop cfg best limit ps out h)"

definition fill_multipath :: "bestpath_config \<Rightarrow> nat list \<Rightarrow> nat \<Rightarrow> pheap \<Rightarrow> nat list \<times> pheap" where
  "fill_multipath cfg eligible best h =
    (let limit = unat (if pr_is_ebgp (p_peer (h best)) then c_maximum_paths cfg else c_maximum_paths_ibgp cfg) in
     if limit \<le> 1 then ([], h)
     else let (out, h) = multipath_loop cfg best limit eligible [best] h in
       if length out > 1 then (out, set_multipath best True h) else ([], h))"

definition clear_marks :: "nat list \<Rightarrow> pheap \<Rightarrow> pheap" where
  "clear_marks paths h = fold (\<lambda>p h. h(p := (h p)\<lparr>p_best := False, p_multipath := False\<rparr>)) paths h"

definition select_paths :: "nat list \<Rightarrow> bestpath_config \<Rightarrow> pheap \<Rightarrow> bestpath_result \<times> pheap" where
  "select_paths paths cfg h =
    (let h = clear_marks paths h;
         eligible = filter (\<lambda>p. p_resolved (h p)) paths;
         res = \<lparr>r_best = None, r_multipath = [], r_reason = STEP_NONE, r_considered = length paths, r_comparisons = 0\<rparr>
     in case eligible of
       [] \<Rightarrow> (res, h)
     | [best] \<Rightarrow>
         (res\<lparr>r_best := Some best, r_reason := (if length paths > 1 then STEP_RESOLVED else STEP_NONE)\<rparr>,
          set_best best True h)
     | _ \<Rightarrow>
         let (winners, n) = (if c_deterministic_med cfg then med_group_winners h cfg eligible else (eligible, 0));
             best = scan_best (cmp_at h cfg) (hd winners) (tl winners);
             n = n + (length winners - 1);
             h = set_best best True h;
             reason = decisive_reason h cfg eligible best;
             (multi, h) = fill_multipath cfg eligible best h
         in (res\<lparr>r_best := Some best, r_reason := reason,
                 r_comparisons := n + length eligible - 1, r_multipath := multi\<rparr>, h))"

section \<open>Destinations\<close>

record bgp_dest =
  d_prefix :: prefix
  d_paths :: "nat list"
  d_best :: "nat option"
  d_multipath :: "nat list"
  d_reason :: cmp_step
  d_version :: nat
  d_queued :: bool

definition new_bgp_dest :: "prefix \<Rightarrow> bgp_dest" where
  "new_bgp_dest p = \<lparr>d_prefix = p, d_paths = [], d_best = None, d_multipath = [], d_reason = STEP_NONE,
    d_version = 0, d_queued = False\<rparr>"

text \<open>A path is named by the identity of its peer and its path id.\<close>

definition is_path :: "pheap \<Rightarrow> nat \<Rightarrow> u32 \<Rightarrow> nat \<Rightarrow> bool" where
  "is_path h peer path_id p \<longleftrightarrow> pr_obj (p_peer (h p)) = peer \<and> p_path_id (h p) = path_id"

definition dest_find :: "pheap \<Rightarrow> nat \<Rightarrow> u32 \<Rightarrow> bgp_dest \<Rightarrow> nat option" where
  "dest_find h peer path_id d = find (is_path h peer path_id) (d_paths d)"

fun replace_first :: "('a \<Rightarrow> bool) \<Rightarrow> 'a \<Rightarrow> 'a list \<Rightarrow> 'a option \<times> 'a list" where
  "replace_first Q x [] = (None, [x])"
| "replace_first Q x (y # ys) =
    (if Q y then (Some y, x # ys) else let (old, zs) = replace_first Q x ys in (old, y # zs))"

definition dest_add :: "pheap \<Rightarrow> nat \<Rightarrow> bgp_dest \<Rightarrow> nat option \<times> bgp_dest" where
  "dest_add h path d =
    (let (old, paths) =
       replace_first (is_path h (pr_obj (p_peer (h path))) (p_path_id (h path))) path (d_paths d)
     in (old, d\<lparr>d_paths := paths\<rparr>))"

fun delete_first :: "('a \<Rightarrow> bool) \<Rightarrow> 'a list \<Rightarrow> 'a option \<times> 'a list" where
  "delete_first Q [] = (None, [])"
| "delete_first Q (y # ys) =
    (if Q y then (Some y, ys) else let (old, zs) = delete_first Q ys in (old, y # zs))"

definition dest_remove :: "pheap \<Rightarrow> nat \<Rightarrow> u32 \<Rightarrow> bgp_dest \<Rightarrow> nat option \<times> bgp_dest" where
  "dest_remove h peer path_id d =
    (let (old, paths) = delete_first (is_path h peer path_id) (d_paths d) in (old, d\<lparr>d_paths := paths\<rparr>))"

definition dest_remove_peer :: "pheap \<Rightarrow> nat \<Rightarrow> bgp_dest \<Rightarrow> nat \<times> bgp_dest" where
  "dest_remove_peer h peer d =
    (let keep = filter (\<lambda>p. pr_obj (p_peer (h p)) \<noteq> peer) (d_paths d);
         removed = length (filter (\<lambda>p. pr_obj (p_peer (h p)) = peer) (d_paths d))
     in (removed, if removed \<noteq> 0 then d\<lparr>d_paths := keep\<rparr> else d))"

definition dest_reselect :: "bestpath_config \<Rightarrow> bgp_dest \<Rightarrow> pheap \<Rightarrow> bestpath_result \<times> bgp_dest \<times> pheap" where
  "dest_reselect cfg d h =
    (let (res, h) = select_paths (d_paths d) cfg h
     in (res, d\<lparr>d_best := r_best res, d_multipath := r_multipath res, d_reason := r_reason res\<rparr>, h))"

section \<open>Explanation\<close>

datatype verdict_row =
    RowBest nat
  | RowUnresolved nat
  | RowLost nat bool cmp_step  \<comment> \<open>path, whether it is in the multipath set, the step it lost on\<close>

definition explain_row :: "pheap \<Rightarrow> bestpath_config \<Rightarrow> nat \<Rightarrow> nat \<Rightarrow> verdict_row" where
  "explain_row h cfg best p =
    (if p = best then RowBest p
     else if \<not> p_resolved (h p) then RowUnresolved p
     else RowLost p (p_multipath (h p)) (snd (path_cmp (h best) (h p) cfg)))"

record explanation =
  x_best :: "nat option"
  x_reason :: string
  x_multipath :: "nat option"
  x_rows :: "verdict_row list"

definition explain_marked :: "nat list \<Rightarrow> bestpath_config \<Rightarrow> pheap \<Rightarrow> explanation \<times> pheap" where
  "explain_marked paths cfg h =
    (let (res, h) = select_paths paths cfg h in
     case r_best res of
       None \<Rightarrow> (\<lparr>x_best = None, x_reason = ''no resolvable path'', x_multipath = None, x_rows = map RowUnresolved paths\<rparr>, h)
     | Some best \<Rightarrow>
         (\<lparr>x_best = Some best, x_reason = STEP_REASONS (r_reason res), x_multipath = Some (length (r_multipath res)),
           x_rows = map (explain_row h cfg best) paths\<rparr>, h))"

definition explain :: "nat list \<Rightarrow> bestpath_config \<Rightarrow> pheap \<Rightarrow> explanation \<times> pheap" where
  "explain paths cfg h =
    (let saved = map (\<lambda>p. (p, p_best (h p), p_multipath (h p))) paths;
         (out, h) = explain_marked paths cfg h
     in (out, fold (\<lambda>(p, b, m) h. h(p := (h p)\<lparr>p_best := b, p_multipath := m\<rparr>)) saved h))"

end
