(* ===== verification/BestPathOrder.thy ===== *)
theory BestPathOrder
  imports BestPath AttrsProps
begin

text \<open>
  The comparison of two paths as a chain of keys. Among paths of one neighbouring AS, among
  paths of pairwise different ones, and among all of them where MED is always compared, it is
  a total preorder; over a mixed set it is not. From this, what grouping by neighbouring AS
  makes of a list of paths.
\<close>

section \<open>The comparison as a chain of keys\<close>

definition lpref :: "bestpath_config \<Rightarrow> bgp_path \<Rightarrow> u32" where
  "lpref cfg p = (if has_flag ATTRF_LOCAL_PREF (p_attrs p) then a_local_pref (p_attrs p) else c_default_local_pref cfg)"

definition hops_key :: "bestpath_config \<Rightarrow> bgp_path \<Rightarrow> u32" where
  "hops_key cfg p = (if c_as_path_ignore cfg then 0 else a_as_path_len (p_attrs p))"

definition age_key :: "bestpath_config \<Rightarrow> bgp_path \<Rightarrow> time" where
  "age_key cfg p = (if \<not> c_compare_router_id cfg \<and> pr_is_ebgp (p_peer p) then p_recv_time p else 0)"

definition med_key :: "bestpath_config \<Rightarrow> bgp_path \<Rightarrow> u32" where
  "med_key cfg p = med_of (p_attrs p) cfg"

definition neighbor :: "bgp_path \<Rightarrow> u32" where
  "neighbor p = a_neighbor_as (p_attrs p)"

definition tie_chain :: "bestpath_config \<Rightarrow> bgp_path \<Rightarrow> bgp_path \<Rightarrow> int" where
  "tie_chain cfg =
    by_key (\<lambda>p. \<not> pr_is_ebgp (p_peer p)) (by_key p_igp_metric (by_key (age_key cfg) (by_key router_id_of
      (by_key (\<lambda>p. a_cluster_len (p_attrs p)) (by_key (\<lambda>p. bytes_key (pr_addr (p_peer p))) (\<lambda>_ _. 0))))))"

definition path_chain :: "bestpath_config \<Rightarrow> (bgp_path \<Rightarrow> u32) \<Rightarrow> bgp_path \<Rightarrow> bgp_path \<Rightarrow> int" where
  "path_chain cfg med =
    by_key (\<lambda>p. \<not> p_resolved p) (by_key (\<lambda>p. - uint (p_weight p)) (by_key (\<lambda>p. - uint (lpref cfg p))
      (by_key p_source (by_key (hops_key cfg) (by_key (\<lambda>p. a_origin (p_attrs p)) (by_key med (tie_chain cfg)))))))"

lemma cmp_addr_eq: "cmp_addr = cmp_bytes"
  by (intro ext) (simp add: cmp_addr_def cmp_bytes_def)

definition tie_part :: "bgp_path \<Rightarrow> bgp_path \<Rightarrow> bestpath_config \<Rightarrow> int \<times> cmp_step" where
  "tie_part a b cfg =
    (if pr_is_ebgp (p_peer a) \<noteq> pr_is_ebgp (p_peer b)
       then (if pr_is_ebgp (p_peer a) then -1 else 1, STEP_EXTERNAL)
     else if p_igp_metric a \<noteq> p_igp_metric b
       then (if p_igp_metric a < p_igp_metric b then -1 else 1, STEP_IGP_METRIC)
     else if \<not> c_compare_router_id cfg \<and> pr_is_ebgp (p_peer a) \<and> pr_is_ebgp (p_peer b)
          \<and> p_recv_time a \<noteq> p_recv_time b
       then (if p_recv_time a < p_recv_time b then -1 else 1, STEP_AGE)
     else if router_id_of a \<noteq> router_id_of b
       then (if router_id_of a < router_id_of b then -1 else 1, STEP_ROUTER_ID)
     else if a_cluster_len (p_attrs a) \<noteq> a_cluster_len (p_attrs b)
       then (if a_cluster_len (p_attrs a) < a_cluster_len (p_attrs b) then -1 else 1, STEP_CLUSTER_LIST)
     else let c = cmp_addr (pr_addr (p_peer a)) (pr_addr (p_peer b))
     in if c \<noteq> 0 then (c, STEP_PEER_ADDR) else (0, STEP_NONE))"

lemma path_cmp_split:
  "path_cmp a b cfg =
    (if p_resolved a \<noteq> p_resolved b then (if p_resolved a then -1 else 1, STEP_RESOLVED)
     else if p_weight a \<noteq> p_weight b then (if p_weight a > p_weight b then -1 else 1, STEP_WEIGHT)
     else if lpref cfg a \<noteq> lpref cfg b then (if lpref cfg a > lpref cfg b then -1 else 1, STEP_LOCAL_PREF)
     else if p_source a \<noteq> p_source b then (if p_source a < p_source b then -1 else 1, STEP_ORIGINATED)
     else if hops_key cfg a \<noteq> hops_key cfg b then (if hops_key cfg a < hops_key cfg b then -1 else 1, STEP_AS_PATH)
     else if a_origin (p_attrs a) \<noteq> a_origin (p_attrs b)
       then (if a_origin (p_attrs a) < a_origin (p_attrs b) then -1 else 1, STEP_ORIGIN)
     else if (c_always_compare_med cfg \<or> neighbor a = neighbor b) \<and> med_key cfg a \<noteq> med_key cfg b
       then (if med_key cfg a < med_key cfg b then -1 else 1, STEP_MED)
     else tie_part a b cfg)"
  unfolding path_cmp_def tie_part_def lpref_def [symmetric] neighbor_def [symmetric] med_key_def [symmetric] Let_def
  by (simp add: hops_key_def)

lemma tie_part_chain: "fst (tie_part a b cfg) = tie_chain cfg a b"
proof (cases "pr_is_ebgp (p_peer a) = pr_is_ebgp (p_peer b)")
  case True
  have addr: "by_key (\<lambda>p. bytes_key (pr_addr (p_peer p))) (\<lambda>_ _. 0) a b = cmp_bytes (pr_addr (p_peer a)) (pr_addr (p_peer b))"
    by (simp add: by_key_def cmp_bytes_cases)
  have age: "age_key cfg a = age_key cfg b \<longleftrightarrow>
      \<not> (\<not> c_compare_router_id cfg \<and> pr_is_ebgp (p_peer a) \<and> pr_is_ebgp (p_peer b) \<and> p_recv_time a \<noteq> p_recv_time b)"
    "age_key cfg a \<noteq> age_key cfg b \<Longrightarrow> age_key cfg a < age_key cfg b \<longleftrightarrow> p_recv_time a < p_recv_time b"
    using True by (auto simp: age_key_def)
  show ?thesis
    unfolding tie_part_def tie_chain_def cmp_addr_eq
    using True age
    by (simp add: by_key_def [of "\<lambda>p. \<not> pr_is_ebgp (p_peer p)"] by_key_def [of p_igp_metric] by_key_def [of "age_key cfg"]
        by_key_def [of router_id_of] by_key_def [of "\<lambda>p. a_cluster_len (p_attrs p)"] addr Let_def)
next
  case False
  then show ?thesis
    by (auto simp: tie_part_def tie_chain_def by_key_def)
qed

lemma by_key_flag:
  "by_key (\<lambda>p. \<not> f p) r a b = (if f a \<noteq> f b then if f a then -1 else 1 else r a b)"
  by (auto simp: by_key_def)

lemma by_key_high:
  "by_key (\<lambda>p. - uint (f p)) r a b = (if f a \<noteq> f b then if f a > f b then -1 else 1 else r a b)"
  by (simp add: by_key_def word_less_def word_uint_eq_iff)

lemma fst_if: "fst (if c then (x, s) else r) = (if c then x else fst r)"
  by simp

lemma path_cmp_chain:
  "fst (path_cmp a b cfg) =
    path_chain cfg (if c_always_compare_med cfg \<or> neighbor a = neighbor b then med_key cfg else (\<lambda>_. 0)) a b"
proof (cases "c_always_compare_med cfg \<or> neighbor a = neighbor b")
  case True
  then show ?thesis
    unfolding path_cmp_split path_chain_def by_key_flag by_key_high
    by (simp only: by_key_def fst_if tie_part_chain simp_thms if_True)
next
  case False
  then show ?thesis
    unfolding path_cmp_split path_chain_def by_key_flag by_key_high
    by (simp only: by_key_def fst_if tie_part_chain simp_thms if_False)
qed

lemma path_chain_comparator: "comparator_on (path_chain cfg med) S"
  unfolding path_chain_def tie_chain_def by (intro comparator_by_keys comparator_zero)

lemma step_none_iff: "snd (path_cmp a b cfg) = STEP_NONE \<longleftrightarrow> fst (path_cmp a b cfg) = 0"
  by (simp add: path_cmp_split tie_part_def cmp_addr_eq Let_def)


section \<open>Where the comparison is an order\<close>

text \<open>MED is compared between all of them, or they have one neighbouring AS.\<close>

definition comparable :: "bestpath_config \<Rightarrow> bgp_path set \<Rightarrow> bool" where
  "comparable cfg S \<longleftrightarrow> c_always_compare_med cfg \<or> (\<forall>a\<in>S. \<forall>b\<in>S. neighbor a = neighbor b)"

lemma comparable_order: "comparable cfg S \<Longrightarrow> comparator_on (\<lambda>a b. fst (path_cmp a b cfg)) S"
  by (rule comparator_on_cong [OF path_chain_comparator [where med = "med_key cfg"]])
    (auto simp: comparable_def path_cmp_chain)

lemma one_group_order:
  "comparator_on (cmp_at h cfg) {p. neighbor (h p) = k}"
proof -
  have "comparator_on (\<lambda>a b. fst (path_cmp a b cfg)) {a. neighbor a = k}"
    by (rule comparable_order) (simp add: comparable_def)
  then have "comparator_on (\<lambda>p q. fst (path_cmp (h p) (h q) cfg)) {p. neighbor (h p) = k}"
    by (rule comparator_on_image) auto
  then show ?thesis by (rule comparator_on_cong) (auto simp: cmp_at_def)
qed

interpretation one_as: comparator_on "cmp_at h cfg" "{p. neighbor (h p) = k}" for h cfg k
  by (rule one_group_order)

text \<open>Between paths of different neighbouring ASes MED plays no part.\<close>

lemma across_groups_order:
  assumes "inj_on (\<lambda>p. neighbor (h p)) S"
  shows "comparator_on (cmp_at h cfg) S"
proof (cases "c_always_compare_med cfg")
  case True
  then have "comparator_on (\<lambda>a b. fst (path_cmp a b cfg)) UNIV"
    by (intro comparable_order) (simp add: comparable_def)
  then have "comparator_on (\<lambda>p q. fst (path_cmp (h p) (h q) cfg)) S"
    by (rule comparator_on_image) auto
  then show ?thesis by (rule comparator_on_cong) (auto simp: cmp_at_def)
next
  case False
  have "comparator_on (\<lambda>p q. path_chain cfg (\<lambda>_. 0) (h p) (h q)) S"
    using path_chain_comparator by (rule comparator_on_image) auto
  moreover have "cmp_at h cfg p q = path_chain cfg (\<lambda>_. 0) (h p) (h q)" if "p \<in> S" "q \<in> S" for p q
  proof (cases "p = q")
    case True
    then show ?thesis
      using comparator_on.self [OF path_chain_comparator, of "h q" UNIV] by (simp add: cmp_at_def path_cmp_chain)
  next
    case ne: False
    then have "neighbor (h p) \<noteq> neighbor (h q)" using assms that by (auto simp: inj_on_def)
    with False show ?thesis by (simp add: cmp_at_def path_cmp_chain)
  qed
  ultimately show ?thesis by (rule comparator_on_cong [OF _ subset_refl])
qed

section \<open>Groups\<close>

definition group_of :: "pheap \<Rightarrow> u32 \<Rightarrow> nat list \<Rightarrow> nat list" where
  "group_of h k ps = filter (\<lambda>p. neighbor (h p) = k) ps"

definition scan_list :: "('a \<Rightarrow> 'a \<Rightarrow> int) \<Rightarrow> 'a list \<Rightarrow> 'a" where
  "scan_list cmp ps = scan_best cmp (hd ps) (tl ps)"

lemma group_loop_get:
  "dict_get (fst (group_loop h cfg ps grps n)) k =
    (case dict_get grps k of
      Some c \<Rightarrow> Some (scan_best (cmp_at h cfg) c (group_of h k ps))
    | None \<Rightarrow> (if group_of h k ps = [] then None else Some (scan_list (cmp_at h cfg) (group_of h k ps))))"
proof (induction ps arbitrary: grps n)
  case Nil
  then show ?case by (simp add: group_of_def split: option.split)
next
  case (Cons p ps)
  let ?k = "neighbor (h p)"
  have key: "a_neighbor_as (p_attrs (h p)) = ?k" by (simp add: neighbor_def)
  have grp: "group_of h k (p # ps) = (if ?k = k then p # group_of h k ps else group_of h k ps)" for k
    by (simp add: group_of_def)
  show ?case
  proof (cases "dict_get grps ?k")
    case None
    then show ?thesis
      by (auto simp: Let_def key grp Cons dict_get_set scan_list_def split: option.splits)
  next
    case (Some cur)
    then show ?thesis
      by (auto simp: Let_def key grp Cons dict_get_set cmp_at_def split: option.splits)
  qed
qed

lemma group_loop_distinct: "distinct (map fst grps) \<Longrightarrow> distinct (map fst (fst (group_loop h cfg ps grps n)))"
  by (induction ps arbitrary: grps n) (simp_all add: Let_def split: option.split)

definition group_keys :: "pheap \<Rightarrow> nat list \<Rightarrow> u32 list" where
  "group_keys h ps = sorted_list_of_set (neighbor ` h ` set ps)"

lemma med_group_winners_eq:
  "fst (med_group_winners h cfg ps) = map (\<lambda>k. scan_list (cmp_at h cfg) (group_of h k ps)) (group_keys h ps)"
proof -
  let ?g = "fst (group_loop h cfg ps [] 0)"
  have get: "dict_get ?g k = (if group_of h k ps = [] then None else Some (scan_list (cmp_at h cfg) (group_of h k ps)))" for k
    by (simp add: group_loop_get)
  have keys: "dict_keys ?g = neighbor ` h ` set ps"
  proof (intro set_eqI)
    fix k
    have "k \<in> dict_keys ?g \<longleftrightarrow> group_of h k ps \<noteq> []"
      using dict_get_None_iff [of ?g k] by (auto simp: get split: if_splits)
    then show "k \<in> dict_keys ?g \<longleftrightarrow> k \<in> neighbor ` h ` set ps"
      by (auto simp: group_of_def filter_empty_conv)
  qed
  have "sort (map fst ?g) = group_keys h ps"
    unfolding group_keys_def keys [symmetric]
    by (simp add: sorted_list_of_set_sort_remdups distinct_remdups_id group_loop_distinct flip: set_map)
  moreover have "the (dict_get ?g k) = scan_list (cmp_at h cfg) (group_of h k ps)" if "k \<in> set (group_keys h ps)" for k
    using that by (auto simp: get group_keys_def group_of_def filter_empty_conv)
  ultimately show ?thesis
    by (cases "group_loop h cfg ps [] 0") (simp add: med_group_winners_def)
qed

lemma scan_list_in: "ps \<noteq> [] \<Longrightarrow> scan_list cmp ps \<in> set ps"
  using scan_best_in [of cmp "hd ps" "tl ps"] by (cases ps) (simp_all add: scan_list_def)

lemma scan_list_le:
  assumes "comparator_on cmp S" "set ps \<subseteq> S" "q \<in> set ps"
  shows "cmp (scan_list cmp ps) q \<le> 0"
  using comparator_on.scan_best_le [OF assms(1), of "hd ps" "tl ps" q] assms(2,3)
  by (cases ps) (simp_all add: scan_list_def)

lemma scan_list_order:
  assumes "comparator_on cmp S" "set ps \<subseteq> S" "set qs = set ps" "ps \<noteq> []"
    and "\<And>x y. x \<in> set ps \<Longrightarrow> y \<in> set ps \<Longrightarrow> x \<noteq> y \<Longrightarrow> cmp x y \<noteq> 0"
  shows "scan_list cmp ps = scan_list cmp qs"
proof -
  have qs: "qs \<noteq> []" using assms(3,4) by auto
  have e: "insert (hd ps) (set (tl ps)) = set ps" "insert (hd qs) (set (tl qs)) = set ps"
    using assms(3,4) qs by (metis list.exhaust_sel list.simps(15))+
  show ?thesis
    unfolding scan_list_def
    by (rule comparator_on.scan_best_order [OF assms(1)]) (use assms e in auto)
qed

lemma group_of_members: "q \<in> set (group_of h k ps) \<longleftrightarrow> q \<in> set ps \<and> neighbor (h q) = k"
  by (auto simp: group_of_def)

text \<open>The winner of the AS of a path, and its place among the winners.\<close>

definition group_winner :: "pheap \<Rightarrow> bestpath_config \<Rightarrow> nat list \<Rightarrow> u32 \<Rightarrow> nat" where
  "group_winner h cfg ps k = scan_list (cmp_at h cfg) (group_of h k ps)"

lemma group_winner_props:
  assumes "q \<in> set ps"
  shows "group_winner h cfg ps (neighbor (h q)) \<in> set ps"
    "neighbor (h (group_winner h cfg ps (neighbor (h q)))) = neighbor (h q)"
    "cmp_at h cfg (group_winner h cfg ps (neighbor (h q))) q \<le> 0"
proof -
  let ?g = "group_of h (neighbor (h q)) ps"
  have q: "q \<in> set ?g" using assms by (simp add: group_of_members)
  then have "scan_list (cmp_at h cfg) ?g \<in> set ?g" by (intro scan_list_in) auto
  then show "group_winner h cfg ps (neighbor (h q)) \<in> set ps"
    "neighbor (h (group_winner h cfg ps (neighbor (h q)))) = neighbor (h q)"
    by (simp_all add: group_winner_def group_of_members)
  show "cmp_at h cfg (group_winner h cfg ps (neighbor (h q))) q \<le> 0"
    unfolding group_winner_def
    by (rule scan_list_le [OF one_group_order _ q]) (auto simp: group_of_members)
qed

lemma winners_order:
  "comparator_on (cmp_at h cfg) (group_winner h cfg ps ` neighbor ` h ` set ps)"
proof (rule across_groups_order)
  show "inj_on (\<lambda>p. neighbor (h p)) (group_winner h cfg ps ` neighbor ` h ` set ps)"
    by (rule inj_onI) (auto simp: group_winner_props(2))
qed

end
