(* ===== verification/BestPathProps.thy ===== *)
theory BestPathProps
  imports BestPathOrder
begin

text \<open>
  Selection as functions of the paths: the winner, the reason as the latest step over the other
  candidates, the multipath set; the store has only its marks changed.
\<close>

section \<open>Selection\<close>

lemma clear_marks_eq:
  "clear_marks ps h = (\<lambda>p. if p \<in> set ps then (h p)\<lparr>p_best := False, p_multipath := False\<rparr> else h p)"
  unfolding clear_marks_def by (induction ps arbitrary: h) (auto simp: fun_eq_iff)

text \<open>Marks play no part in the comparison.\<close>

lemma router_id_marks [simp]:
  "router_id_of (p\<lparr>p_best := b\<rparr>) = router_id_of p"
  "router_id_of (p\<lparr>p_multipath := m\<rparr>) = router_id_of p"
  by (simp_all add: router_id_of_def)

lemma path_cmp_marks [simp]:
  "path_cmp (p\<lparr>p_best := b\<rparr>) q cfg = path_cmp p q cfg"
  "path_cmp p (q\<lparr>p_best := b\<rparr>) cfg = path_cmp p q cfg"
  "path_cmp (p\<lparr>p_multipath := b\<rparr>) q cfg = path_cmp p q cfg"
  "path_cmp p (q\<lparr>p_multipath := b\<rparr>) cfg = path_cmp p q cfg"
  unfolding path_cmp_def router_id_of_def by (cases p; cases q; simp only: bgp_path.simps)+

lemma neighbor_marks [simp]:
  "neighbor (p\<lparr>p_best := b\<rparr>) = neighbor p"
  "neighbor (p\<lparr>p_multipath := b\<rparr>) = neighbor p"
  by (simp_all add: neighbor_def)

text \<open>Two stores that differ in the marks alone.\<close>

definition same_but_marks :: "pheap \<Rightarrow> pheap \<Rightarrow> bool" where
  "same_but_marks h h' \<longleftrightarrow>
    (\<forall>p. (h p)\<lparr>p_best := False, p_multipath := False\<rparr> = (h' p)\<lparr>p_best := False, p_multipath := False\<rparr>)"

lemma same_marksD:
  assumes "same_but_marks h h'"
  shows "path_cmp (h p) (h q) cfg = path_cmp (h' p) (h' q) cfg" "p_resolved (h p) = p_resolved (h' p)"
    "neighbor (h p) = neighbor (h' p)" "joins cfg (h p) (h q) = joins cfg (h' p) (h' q)"
proof -
  let ?u = "\<lambda>p. p\<lparr>p_best := False, p_multipath := False\<rparr>"
  have e: "?u (h x) = ?u (h' x)" for x using assms by (simp add: same_but_marks_def)
  have "path_cmp (?u (h p)) (?u (h q)) cfg = path_cmp (?u (h' p)) (?u (h' q)) cfg" by (simp only: e)
  then show c: "path_cmp (h p) (h q) cfg = path_cmp (h' p) (h' q) cfg" by simp
  have "p_resolved (?u (h p)) = p_resolved (?u (h' p))" by (simp only: e)
  then show "p_resolved (h p) = p_resolved (h' p)" by simp
  have "neighbor (?u (h p)) = neighbor (?u (h' p))" by (simp only: e)
  then show "neighbor (h p) = neighbor (h' p)" by simp
  have "p_peer (?u (h x)) = p_peer (?u (h' x))" "p_attrs (?u (h x)) = p_attrs (?u (h' x))" for x
    by (simp_all only: e)
  then show "joins cfg (h p) (h q) = joins cfg (h' p) (h' q)" by (simp add: joins_def c)
qed

lemma same_marks_cmp: "same_but_marks h h' \<Longrightarrow> cmp_at h cfg = cmp_at h' cfg"
  by (intro ext) (simp add: cmp_at_def same_marksD)

lemma same_marks_refl [simp]: "same_but_marks h h"
  by (simp add: same_but_marks_def)

lemma same_marks_trans: "same_but_marks h h' \<Longrightarrow> same_but_marks h' h'' \<Longrightarrow> same_but_marks h h''"
  by (simp add: same_but_marks_def)

lemma same_marks_clear: "same_but_marks h (clear_marks ps h)"
  by (simp add: same_but_marks_def clear_marks_eq)

lemma same_marks_set [simp]:
  "same_but_marks h (set_best p b h') = same_but_marks h h'"
  "same_but_marks h (set_multipath p b h') = same_but_marks h h'"
  by (auto simp: same_but_marks_def set_best_def set_multipath_def)

definition eligible_of :: "pheap \<Rightarrow> nat list \<Rightarrow> nat list" where
  "eligible_of h ps = filter (\<lambda>p. p_resolved (h p)) ps"

definition winners_of :: "pheap \<Rightarrow> bestpath_config \<Rightarrow> nat list \<Rightarrow> nat list" where
  "winners_of h cfg es = (if c_deterministic_med cfg then fst (med_group_winners h cfg es) else es)"

lemma eligible_marks: "same_but_marks h h' \<Longrightarrow> eligible_of h ps = eligible_of h' ps"
  by (simp add: eligible_of_def same_marksD)

lemma group_marks: "same_but_marks h h' \<Longrightarrow> group_of h k ps = group_of h' k ps"
  by (simp add: group_of_def same_marksD)

lemma winners_marks: "same_but_marks h h' \<Longrightarrow> winners_of h cfg es = winners_of h' cfg es"
  by (simp add: winners_of_def med_group_winners_eq group_keys_def group_marks same_marks_cmp same_marksD image_image)

text \<open>The winner, and the reason, as functions of the paths; the store only has its marks
  changed.\<close>

definition chosen :: "pheap \<Rightarrow> bestpath_config \<Rightarrow> nat list \<Rightarrow> nat option" where
  "chosen h cfg ps =
    (if eligible_of h ps = [] then None else Some (scan_list (cmp_at h cfg) (winners_of h cfg (eligible_of h ps))))"

lemma winners_single: "winners_of h cfg [p] = [p]"
  by (simp add: winners_of_def med_group_winners_eq group_keys_def group_of_def scan_list_def)

lemma decisive_reason_marks:
  "same_but_marks h h' \<Longrightarrow> decisive_reason h cfg es b = decisive_reason h' cfg es b"
proof -
  assume s: "same_but_marks h h'"
  have "reason_loop h cfg b es l = reason_loop h' cfg b es l" for l
    by (induction es arbitrary: l) (simp_all add: same_marksD [OF s] Let_def)
  then show ?thesis by (simp add: decisive_reason_def)
qed

lemma select_paths_eq:
  fixes h cfg ps
  defines "es \<equiv> eligible_of h ps"
  defines "h1 \<equiv> clear_marks ps h"
  shows "\<exists>n. select_paths ps cfg h =
    (case chosen h cfg ps of
      None \<Rightarrow> (\<lparr>r_best = None, r_multipath = [], r_reason = STEP_NONE, r_considered = length ps, r_comparisons = 0\<rparr>, h1)
    | Some b \<Rightarrow>
        if length es = 1
        then (\<lparr>r_best = Some b, r_multipath = [], r_reason = (if length ps > 1 then STEP_RESOLVED else STEP_NONE),
               r_considered = length ps, r_comparisons = 0\<rparr>, set_best b True h1)
        else (let (multi, h2) = fill_multipath cfg es b (set_best b True h1) in
              (\<lparr>r_best = Some b, r_multipath = multi, r_reason = decisive_reason h cfg es b,
                r_considered = length ps, r_comparisons = n\<rparr>, h2)))"
proof -
  have m: "same_but_marks h h1" unfolding h1_def by (rule same_marks_clear)
  have es: "filter (\<lambda>p. p_resolved (h1 p)) ps = es"
    using eligible_marks [OF m, of ps] by (simp add: es_def eligible_of_def)
  show ?thesis
  proof (cases es)
    case Nil
    then show ?thesis
      unfolding select_paths_def h1_def [symmetric] Let_def es by (simp add: chosen_def es_def [symmetric])
  next
    case (Cons p qs)
    show ?thesis
    proof (cases qs)
      case Nil
      have "winners_of h cfg es = [p]" using Cons Nil winners_single by simp
      then have "chosen h cfg ps = Some p"
        using Cons by (simp add: chosen_def es_def [symmetric] scan_list_def)
      then show ?thesis
        unfolding select_paths_def h1_def [symmetric] Let_def es using Cons Nil by simp
    next
      case (Cons q rs)
      have long: "es = p # q # rs" using \<open>es = p # qs\<close> Cons by simp
      define b where "b = scan_list (cmp_at h cfg) (winners_of h cfg es)"
      have c: "chosen h cfg ps = Some b"
        using long by (simp add: chosen_def es_def [symmetric] b_def)
      obtain ws n where w: "(if c_deterministic_med cfg then med_group_winners h1 cfg es else (es, 0)) = (ws, n)"
        by (metis surj_pair)
      have "ws = winners_of h1 cfg es" using w by (auto simp: winners_of_def split: if_splits)
      then have ws: "ws = winners_of h cfg es" using winners_marks [OF m] by simp
      have b: "scan_best (cmp_at h1 cfg) (hd ws) (tl ws) = b"
        unfolding b_def scan_list_def ws same_marks_cmp [OF m] ..
      have r: "decisive_reason (set_best b True h1) cfg es b = decisive_reason h cfg es b"
        by (rule decisive_reason_marks [symmetric]) (simp add: m)
      have sel: "select_paths ps cfg h =
        (let (multi, h2) = fill_multipath cfg es b (set_best b True h1) in
          (\<lparr>r_best = Some b, r_multipath = multi, r_reason = decisive_reason h cfg es b,
            r_considered = length ps, r_comparisons = n + (length ws - 1) + length es - 1\<rparr>, h2))"
        unfolding select_paths_def h1_def [symmetric] Let_def es
        using long w b r by (simp add: Let_def split: prod.split)
      show ?thesis
        using long by (cases "fill_multipath cfg es b (set_best b True h1)") (auto simp: c sel)
    qed
  qed
qed


section \<open>The reported reason\<close>

lemma Max_insert_max: "finite A \<Longrightarrow> Max (insert (max l x) A) = Max (insert l (insert x A))"
  by (cases "A = {}") (simp_all add: max.assoc)

lemma reason_loop_eq:
  "reason_loop h cfg b es l = Max (insert l ((\<lambda>p. snd (path_cmp (h b) (h p) cfg)) ` (set es - {b})))"
proof (induction es arbitrary: l)
  case (Cons p es)
  let ?f = "\<lambda>p. snd (path_cmp (h b) (h p) cfg)"
  show ?case
  proof (cases "p = b")
    case True
    then show ?thesis using Cons by simp
  next
    case False
    have "reason_loop h cfg b (p # es) l = Max (insert (max l (?f p)) (?f ` (set es - {b})))"
      using False Cons by (simp add: Let_def max_def not_less)
    also have "\<dots> = Max (insert l (insert (?f p) (?f ` (set es - {b}))))"
      by (rule Max_insert_max) simp
    also have "insert (?f p) (?f ` (set es - {b})) = ?f ` (set (p # es) - {b})"
      using False by auto
    finally show ?thesis .
  qed
qed simp

lemma decisive_reason_set: "set es = set es' \<Longrightarrow> decisive_reason h cfg es b = decisive_reason h cfg es' b"
  by (simp add: decisive_reason_def reason_loop_eq)

lemma select_best: "r_best (fst (select_paths ps cfg h)) = chosen h cfg ps"
  using select_paths_eq [of ps cfg h] by (auto simp: Let_def split: option.split prod.split)

lemma select_reason:
  "r_reason (fst (select_paths ps cfg h)) =
    (case chosen h cfg ps of None \<Rightarrow> STEP_NONE
     | Some b \<Rightarrow> if length (eligible_of h ps) = 1 then (if length ps > 1 then STEP_RESOLVED else STEP_NONE)
                 else decisive_reason h cfg (eligible_of h ps) b)"
  using select_paths_eq [of ps cfg h] by (auto simp: Let_def split: option.split prod.split)

section \<open>What is chosen\<close>

lemma winners_det:
  "c_deterministic_med cfg \<Longrightarrow> winners_of h cfg es = map (group_winner h cfg es) (group_keys h es)"
  by (simp add: winners_of_def med_group_winners_eq group_winner_def [abs_def])

lemma set_winners_det:
  "c_deterministic_med cfg \<Longrightarrow> set (winners_of h cfg es) = group_winner h cfg es ` neighbor ` h ` set es"
  by (simp add: winners_det group_keys_def)

lemma chosen_beats_winners:
  assumes "c_deterministic_med cfg" "chosen h cfg ps = Some b" "q \<in> set (eligible_of h ps)"
  shows "b \<in> set (eligible_of h ps)"
    "cmp_at h cfg b (group_winner h cfg (eligible_of h ps) (neighbor (h q))) \<le> 0"
proof -
  let ?es = "eligible_of h ps"
  let ?ws = "winners_of h cfg ?es"
  have b: "b = scan_list (cmp_at h cfg) ?ws" using assms(2) by (simp add: chosen_def split: if_splits)
  have ws: "set ?ws = group_winner h cfg ?es ` neighbor ` h ` set ?es"
    by (rule set_winners_det [OF assms(1)])
  then have "?ws \<noteq> []" using assms(3) by auto
  then have "b \<in> set ?ws" unfolding b by (rule scan_list_in)
  then show "b \<in> set ?es" using group_winner_props(1) ws by auto
  show "cmp_at h cfg b (group_winner h cfg ?es (neighbor (h q))) \<le> 0"
    unfolding b
    by (rule scan_list_le [OF winners_order [of h cfg ?es]]) (use ws assms(3) in auto)
qed

section \<open>Multipath\<close>

definition equal_cost :: "bestpath_config \<Rightarrow> bgp_path \<Rightarrow> bgp_path \<Rightarrow> bool" where
  "equal_cost cfg a b \<longleftrightarrow>
    p_resolved a = p_resolved b \<and> p_weight a = p_weight b \<and> lpref cfg a = lpref cfg b
    \<and> p_source a = p_source b \<and> hops_key cfg a = hops_key cfg b
    \<and> a_origin (p_attrs a) = a_origin (p_attrs b)
    \<and> (c_always_compare_med cfg \<or> neighbor a = neighbor b \<longrightarrow> med_key cfg a = med_key cfg b)
    \<and> pr_is_ebgp (p_peer a) = pr_is_ebgp (p_peer b) \<and> p_igp_metric a = p_igp_metric b"

definition past_boundary :: "cmp_step \<Rightarrow> bool" where
  "past_boundary st \<longleftrightarrow> st > MULTIPATH_BOUNDARY \<or> st = STEP_NONE"

lemma past_boundary_simps [simp]:
  "past_boundary STEP_NONE" "\<not> past_boundary STEP_RESOLVED" "\<not> past_boundary STEP_WEIGHT"
  "\<not> past_boundary STEP_LOCAL_PREF" "\<not> past_boundary STEP_ORIGINATED" "\<not> past_boundary STEP_AS_PATH"
  "\<not> past_boundary STEP_ORIGIN" "\<not> past_boundary STEP_MED" "\<not> past_boundary STEP_EXTERNAL"
  "\<not> past_boundary STEP_IGP_METRIC" "past_boundary STEP_AGE" "past_boundary STEP_ROUTER_ID"
  "past_boundary STEP_CLUSTER_LIST" "past_boundary STEP_PEER_ADDR"
  by (simp_all add: past_boundary_def less_cmp_step_def)

lemma tie_part_boundary:
  "past_boundary (snd (tie_part a b cfg)) \<longleftrightarrow>
    pr_is_ebgp (p_peer a) = pr_is_ebgp (p_peer b) \<and> p_igp_metric a = p_igp_metric b"
  by (simp add: tie_part_def Let_def)

lemma boundary_if: "past_boundary (snd (if c then (x, s) else r)) = (if c then past_boundary s else past_boundary (snd r))"
  by simp

lemma path_cmp_boundary: "past_boundary (snd (path_cmp a b cfg)) \<longleftrightarrow> equal_cost cfg a b"
  unfolding path_cmp_split boundary_if tie_part_boundary equal_cost_def by (simp, blast)

lemma joins_iff:
  "joins cfg a b \<longleftrightarrow> equal_cost cfg a b \<and> (c_as_path_multipath_relax cfg \<or> a_as_path (p_attrs a) = a_as_path (p_attrs b))"
  using path_cmp_boundary [of a b cfg] by (auto simp: joins_def Let_def past_boundary_def equal_cost_def)

lemma multipath_loop_eq:
  "multipath_loop cfg b limit es out h =
    (let m = take (limit - length out) (filter (\<lambda>p. p \<noteq> b \<and> joins cfg (h b) (h p)) es)
     in (out @ m, fold (\<lambda>p. set_multipath p True) m h))"
proof (induction es arbitrary: out h)
  case (Cons p es)
  have m: "joins cfg (set_multipath p True h b) (set_multipath p True h q) = joins cfg (h b) (h q)" for q
    by (rule same_marksD) (simp add: same_but_marks_def set_multipath_def)
  show ?case
  proof (cases "p \<noteq> b \<and> \<not> limit \<le> length out \<and> joins cfg (h b) (h p)")
    case True
    then obtain k where "limit - length out = Suc k" by (metis Suc_diff_Suc not_le)
    moreover have "limit - Suc (length out) = k" using calculation by simp
    ultimately show ?thesis using True by (simp add: Cons m Let_def)
  next
    case False
    then show ?thesis by (auto simp: Cons Let_def)
  qed
qed simp

definition multipath_limit :: "bestpath_config \<Rightarrow> bgp_path \<Rightarrow> nat" where
  "multipath_limit cfg p = unat (if pr_is_ebgp (p_peer p) then c_maximum_paths cfg else c_maximum_paths_ibgp cfg)"

definition equal_paths :: "pheap \<Rightarrow> bestpath_config \<Rightarrow> nat \<Rightarrow> nat list \<Rightarrow> nat list" where
  "equal_paths h cfg b es =
    filter (\<lambda>p. p \<noteq> b \<and> equal_cost cfg (h b) (h p)
      \<and> (c_as_path_multipath_relax cfg \<or> a_as_path (p_attrs (h b)) = a_as_path (p_attrs (h p)))) es"

definition multipath_of :: "pheap \<Rightarrow> bestpath_config \<Rightarrow> nat \<Rightarrow> nat list \<Rightarrow> nat list" where
  "multipath_of h cfg b es =
    (let m = take (multipath_limit cfg (h b) - 1) (equal_paths h cfg b es) in if m = [] then [] else b # m)"

lemma fold_set_multipath:
  "fold (\<lambda>p. set_multipath p True) m h = (\<lambda>p. if p \<in> set m then (h p)\<lparr>p_multipath := True\<rparr> else h p)"
  by (induction m arbitrary: h) (auto simp: fun_eq_iff set_multipath_def)

lemma equal_paths_joins: "filter (\<lambda>p. p \<noteq> b \<and> joins cfg (h b) (h p)) es = equal_paths h cfg b es"
  by (simp add: equal_paths_def joins_iff)

lemma fill_multipath_eq:
  "fill_multipath cfg es b h =
    (multipath_of h cfg b es,
     (\<lambda>p. if p \<in> set (multipath_of h cfg b es) then (h p)\<lparr>p_multipath := True\<rparr> else h p))"
proof -
  define lim where "lim = multipath_limit cfg (h b)"
  define m where "m = take (lim - Suc 0) (equal_paths h cfg b es)"
  have of: "multipath_of h cfg b es = (if m = [] then [] else b # m)"
    by (simp add: multipath_of_def m_def lim_def Let_def)
  have fill: "fill_multipath cfg es b h =
    (if lim \<le> 1 then ([], h)
     else if m \<noteq> [] then (b # m, set_multipath b True (fold (\<lambda>p. set_multipath p True) m h)) else ([], h))"
    unfolding fill_multipath_def multipath_limit_def [symmetric] lim_def [symmetric] Let_def
    by (auto simp: multipath_loop_eq equal_paths_joins Let_def) (auto simp: m_def)
  show ?thesis
  proof (cases "m = []")
    case True
    then show ?thesis unfolding fill of by (simp add: fun_eq_iff)
  next
    case False
    then have "\<not> lim \<le> 1" by (auto simp: m_def)
    with False show ?thesis
      unfolding fill of fold_set_multipath by (auto simp: fun_eq_iff set_multipath_def)
  qed
qed

end
