(* ===== verification/BestPathResults.thy ===== *)
theory BestPathResults
  imports BestPathProps
begin

text \<open>
  The results for the decision process: order independence under grouping and its failure
  without, what the winner beats, the reason that is reported, the multipath set, the paths of
  a prefix, the explanation.
\<close>

section \<open>Properties of selection\<close>

text \<open>
  C20. With grouping by neighbouring AS the winner and the reported reason do not depend on the
  order of the paths, provided no two resolved paths of one neighbouring AS are
  indistinguishable.
\<close>

theorem deterministic_med_order_free:
  assumes det: "c_deterministic_med cfg"
    and perm: "mset qs = mset ps"
    and strict: "\<forall>p\<in>set (eligible_of h ps). \<forall>q\<in>set (eligible_of h ps).
      p \<noteq> q \<longrightarrow> neighbor (h p) = neighbor (h q) \<longrightarrow> fst (path_cmp (h p) (h q) cfg) \<noteq> 0"
  shows "r_best (fst (select_paths qs cfg h)) = r_best (fst (select_paths ps cfg h))
    \<and> r_reason (fst (select_paths qs cfg h)) = r_reason (fst (select_paths ps cfg h))"
proof -
  let ?ep = "eligible_of h ps" and ?eq = "eligible_of h qs"
  have "mset ?eq = mset ?ep" using perm by (simp add: eligible_of_def mset_filter)
  then have set: "set ?eq = set ?ep" and len: "length ?eq = length ?ep"
    by (auto dest: mset_eq_setD mset_eq_length)
  have "group_winner h cfg ?ep k = group_winner h cfg ?eq k" if "k \<in> set (group_keys h ?ep)" for k
    unfolding group_winner_def
  proof (rule scan_list_order [OF one_group_order [of h cfg k]])
    show "set (group_of h k ?ep) \<subseteq> {p. neighbor (h p) = k}" by (auto simp: group_of_members)
    show "set (group_of h k ?eq) = set (group_of h k ?ep)" by (auto simp: group_of_members set)
    show "group_of h k ?ep \<noteq> []"
      using that by (auto simp: group_keys_def group_of_def filter_empty_conv)
    show "cmp_at h cfg x y \<noteq> 0" if "x \<in> set (group_of h k ?ep)" "y \<in> set (group_of h k ?ep)" "x \<noteq> y" for x y
      using strict that by (simp add: group_of_members cmp_at_def)
  qed
  moreover have "group_keys h ?eq = group_keys h ?ep" by (simp add: group_keys_def set)
  ultimately have "winners_of h cfg ?eq = winners_of h cfg ?ep"
    by (simp add: winners_det [OF det])
  moreover have "?eq = [] \<longleftrightarrow> ?ep = []" using len by (metis length_0_conv)
  ultimately have c: "chosen h cfg qs = chosen h cfg ps" by (simp add: chosen_def)
  have "length qs = length ps" using perm by (rule mset_eq_length)
  then show ?thesis
    using c len decisive_reason_set [OF set] by (simp add: select_best select_reason split: option.split)
qed

text \<open>
  C21. With grouping, nothing is chosen exactly when no path is resolved; otherwise the winner
  is a resolved path of the list that does not lose to the best path of any neighbouring AS,
  and that path loses to none of its AS.
\<close>

theorem winner_beats_every_group:
  assumes det: "c_deterministic_med cfg"
  shows "case r_best (fst (select_paths ps cfg h)) of
      None \<Rightarrow> \<forall>q\<in>set ps. \<not> p_resolved (h q)
    | Some b \<Rightarrow> b \<in> set ps \<and> p_resolved (h b)
        \<and> (\<forall>q\<in>set ps. p_resolved (h q) \<longrightarrow>
            (\<exists>w\<in>set ps. p_resolved (h w) \<and> neighbor (h w) = neighbor (h q)
              \<and> fst (path_cmp (h b) (h w) cfg) \<le> 0 \<and> fst (path_cmp (h w) (h q) cfg) \<le> 0))"
proof (cases "chosen h cfg ps")
  case None
  then have "eligible_of h ps = []" by (simp add: chosen_def split: if_splits)
  with None show ?thesis by (auto simp: select_best eligible_of_def filter_empty_conv)
next
  case (Some b)
  let ?es = "eligible_of h ps"
  have e: "q \<in> set ?es \<longleftrightarrow> q \<in> set ps \<and> p_resolved (h q)" for q by (auto simp: eligible_of_def)
  have "?es \<noteq> []" using Some by (auto simp: chosen_def)
  then obtain p where p: "p \<in> set ?es" by (cases ?es) auto
  note b = chosen_beats_winners [OF det Some]
  have "\<exists>w\<in>set ps. p_resolved (h w) \<and> neighbor (h w) = neighbor (h q)
      \<and> fst (path_cmp (h b) (h w) cfg) \<le> 0 \<and> fst (path_cmp (h w) (h q) cfg) \<le> 0"
    if "q \<in> set ps" "p_resolved (h q)" for q
  proof -
    have q: "q \<in> set ?es" using that e by simp
    note w = group_winner_props [OF q, of h cfg]
    show ?thesis
      using b(2) [OF q] w e by (intro bexI [of _ "group_winner h cfg ?es (neighbor (h q))"]) (simp_all add: cmp_at_def)
  qed
  then show ?thesis using b(1) [OF p] Some e by (simp add: select_best)
qed

text \<open>Samples: paths of external peers that differ in neighbouring AS, MED, IGP metric and age.\<close>

definition sample_bgp_path :: "u32 \<Rightarrow> u32 \<Rightarrow> u32 \<Rightarrow> time \<Rightarrow> bgp_path" where
  "sample_bgp_path asn med igp t =
    new_bgp_path (attrs_blank\<lparr>a_neighbor_as := asn, a_flags := ATTRF_MED, a_med := med, a_as_path_len := 1\<rparr>)
      (Some \<lparr>pr_obj = nat (uint asn), pr_peer_as = asn, pr_local_as = 65000, pr_router_id = asn, pr_addr = [10, 0, 0, 1],
        pr_is_ebgp = True\<rparr>) 0 0 PATH_SRC_PEER igp t True"

definition med_sample :: pheap where
  "med_sample p = (if p = 0 then sample_bgp_path 1 10 0 1 else if p = 1 then sample_bgp_path 1 5 0 3
    else sample_bgp_path 2 0 0 2)"

definition free_med :: bestpath_config where
  "free_med = default_config\<lparr>c_deterministic_med := False\<rparr>"

text \<open>
  Without the grouping the winner does depend on the order: three paths, no two of them
  indistinguishable, of which one order chooses the third and the reverse the first.
\<close>

theorem ungrouped_med_order_dependent:
  "r_best (fst (select_paths [0, 1, 2] free_med med_sample)) = Some 2
   \<and> r_best (fst (select_paths [2, 1, 0] free_med med_sample)) = Some 0
   \<and> fst (path_cmp (med_sample 0) (med_sample 1) free_med) = 1
   \<and> fst (path_cmp (med_sample 1) (med_sample 2) free_med) = 1
   \<and> fst (path_cmp (med_sample 2) (med_sample 0) free_med) = 1"
  by code_simp

lemma deterministic_med_order_free_witness:
  "r_best (fst (select_paths [2, 1, 0] default_config med_sample)) = r_best (fst (select_paths [0, 1, 2] default_config med_sample))"
proof (rule deterministic_med_order_free [THEN conjunct1])
  show "c_deterministic_med default_config" by code_simp
  show "mset [2, 1, 0] = mset [0, 1, 2 :: nat]" by simp
  have e: "eligible_of med_sample [0, 1, 2] = [0, 1, 2]" by code_simp
  have c: "fst (path_cmp (med_sample 0) (med_sample 1) default_config) \<noteq> 0"
    "fst (path_cmp (med_sample 1) (med_sample 0) default_config) \<noteq> 0"
    "fst (path_cmp (med_sample 0) (med_sample 2) default_config) \<noteq> 0"
    "fst (path_cmp (med_sample 2) (med_sample 0) default_config) \<noteq> 0"
    "fst (path_cmp (med_sample 1) (med_sample 2) default_config) \<noteq> 0"
    "fst (path_cmp (med_sample 2) (med_sample 1) default_config) \<noteq> 0"
    by code_simp+
  show "\<forall>p\<in>set (eligible_of med_sample [0, 1, 2]). \<forall>q\<in>set (eligible_of med_sample [0, 1, 2]).
      p \<noteq> q \<longrightarrow> neighbor (med_sample p) = neighbor (med_sample q) \<longrightarrow>
      fst (path_cmp (med_sample p) (med_sample q) default_config) \<noteq> 0"
    unfolding e using c by auto
qed

lemma winner_beats_every_group_witness:
  "\<exists>w\<in>{0, 1, 2}. neighbor (med_sample w) = neighbor (med_sample 0) \<and> fst (path_cmp (med_sample w) (med_sample 0) default_config) \<le> 0"
proof -
  have d: "c_deterministic_med default_config" by code_simp
  have b: "r_best (fst (select_paths [0, 1, 2] default_config med_sample)) = Some 2" by code_simp
  have "p_resolved (med_sample 0)" by code_simp
  then show ?thesis
    using winner_beats_every_group [OF d, of "[0, 1, 2]" med_sample] unfolding b by auto
qed

definition reason_sample :: pheap where
  "reason_sample p = (if p = 0 then sample_bgp_path 1 10 10 1 else if p = 1 then sample_bgp_path 1 5 20 3
    else sample_bgp_path 2 0 10 2)"

text \<open>
  The reported reason can be a step that the winner lost. With the default settings the
  third of these paths is chosen, for the lower IGP metric by which it beats the winner of the
  other neighbouring AS; the reason given is its age, although the one path it is separated
  from by age is older.
\<close>

theorem reason_step_lost:
  "r_best (fst (select_paths [0, 1, 2] default_config reason_sample)) = Some 2
   \<and> r_reason (fst (select_paths [0, 1, 2] default_config reason_sample)) = STEP_AGE
   \<and> path_cmp (reason_sample 2) (reason_sample 0) default_config = (1, STEP_AGE)
   \<and> path_cmp (reason_sample 2) (reason_sample 1) default_config = (-1, STEP_IGP_METRIC)
   \<and> x_rows (fst (explain [0, 1, 2] default_config reason_sample))
      = [RowLost 0 False STEP_AGE, RowLost 1 False STEP_IGP_METRIC, RowBest 2]"
  by code_simp

lemma select_marks:
  assumes "select_paths ps cfg h = (res, h')" and "r_best res = Some b"
  shows "r_multipath res = multipath_of h cfg b (eligible_of h ps)
    \<and> (\<forall>p\<in>set ps. p_best (h' p) = (p = b) \<and> p_multipath (h' p) = (p \<in> set (r_multipath res)))
    \<and> same_but_marks h h'"
proof -
  let ?es = "eligible_of h ps"
  define h1 where "h1 = clear_marks ps h"
  define h2 where "h2 = set_best b True h1"
  have c: "chosen h cfg ps = Some b" using assms select_best [of ps cfg h] by simp
  have m: "same_but_marks h h2" unfolding h2_def h1_def by (simp add: same_marks_clear)
  have of: "multipath_of h2 cfg b ?es = multipath_of h cfg b ?es"
  proof -
    let ?u = "\<lambda>p. p\<lparr>p_best := False, p_multipath := False\<rparr>"
    have "?u (h2 x) = ?u (h x)" for x using m by (simp add: same_but_marks_def)
    then have "p_peer (?u (h2 x)) = p_peer (?u (h x))" for x by (simp only:)
    then have "multipath_limit cfg (h2 b) = multipath_limit cfg (h b)" by (simp add: multipath_limit_def)
    moreover have "equal_paths h2 cfg b ?es = equal_paths h cfg b ?es"
      unfolding equal_paths_joins [symmetric] by (simp add: same_marksD(4) [OF m])
    ultimately show ?thesis by (simp add: multipath_of_def)
  qed
  have single: "multipath_of h cfg b ?es = []" if one: "length ?es = 1"
  proof -
    obtain p where p: "?es = [p]" using one by (cases ?es) auto
    then have "b = p" using c winners_single by (simp add: chosen_def scan_list_def)
    then show ?thesis by (simp add: p multipath_of_def equal_paths_def)
  qed
  have res: "r_multipath res = multipath_of h cfg b ?es"
    and h': "h' = (\<lambda>p. if p \<in> set (multipath_of h cfg b ?es) then (h2 p)\<lparr>p_multipath := True\<rparr> else h2 p)"
    using select_paths_eq [of ps cfg h] assms(1) single
    by (auto simp: c h1_def [symmetric] h2_def [symmetric] fill_multipath_eq of fun_eq_iff
        split: if_splits)
  show ?thesis
    using m unfolding res h'
    by (auto simp: h2_def h1_def set_best_def clear_marks_eq same_but_marks_def)
qed

text \<open>
  C22. The multipath set: the winner and, up to the limit of its kind of peer, the other
  resolved paths that agree with it on every criterion up to the IGP metric, with its AS path
  unless that is relaxed, in the order of the list; nothing where there is no other. After
  selection a path of the list is marked best when it is the winner, and multipath when it is
  in the set, and nothing else of any path has changed.
\<close>

theorem multipath_set_exact:
  assumes "select_paths ps cfg h = (res, h')" and "r_best res = Some b"
  shows "r_multipath res = multipath_of h cfg b (eligible_of h ps)
    \<and> (\<forall>p\<in>set ps. p_best (h' p) = (p = b) \<and> p_multipath (h' p) = (p \<in> set (r_multipath res)))
    \<and> same_but_marks h h'"
  using assms by (rule select_marks)

definition equal_sample :: pheap where
  "equal_sample p = sample_bgp_path 1 5 10 (of_nat p)"

definition multi_config :: bestpath_config where
  "multi_config = default_config\<lparr>c_maximum_paths := 2\<rparr>"

lemma multipath_set_exact_witness:
  "r_multipath (fst (select_paths [0, 1, 2] multi_config equal_sample)) = multipath_of equal_sample multi_config 0 [0, 1, 2]
    \<and> multipath_of equal_sample multi_config 0 [0, 1, 2] = [0, 1]"
proof -
  have e: "eligible_of equal_sample [0, 1, 2] = [0, 1, 2]" by code_simp
  have b: "r_best (fst (select_paths [0, 1, 2] multi_config equal_sample)) = Some 0" by code_simp
  have "multipath_of equal_sample multi_config 0 [0, 1, 2] = [0, 1]" by code_simp
  then show ?thesis
    using multipath_set_exact [OF surjective_pairing b] unfolding e by simp
qed

section \<open>Explaining\<close>

lemma chosen_eligible: "chosen h cfg ps = Some b \<Longrightarrow> b \<in> set (eligible_of h ps)"
proof -
  assume c: "chosen h cfg ps = Some b"
  then have "eligible_of h ps \<noteq> []" by (auto simp: chosen_def)
  then obtain p where p: "p \<in> set (eligible_of h ps)" by (cases "eligible_of h ps") auto
  show ?thesis
  proof (cases "c_deterministic_med cfg")
    case True
    from p show ?thesis by (rule chosen_beats_winners(1) [OF True c])
  next
    case False
    then show ?thesis using c by (auto simp: chosen_def winners_of_def intro: scan_list_in split: if_splits)
  qed
qed

lemma chosen_in: "chosen h cfg ps = Some b \<Longrightarrow> b \<in> set ps"
  using chosen_eligible [of h cfg ps b] by (auto simp: eligible_of_def)

lemma chosen_resolved: "chosen h cfg ps = Some b \<Longrightarrow> p_resolved (h b)"
  using chosen_eligible [of h cfg ps b] by (auto simp: eligible_of_def)

text \<open>Selection writes to the marks of the paths it is given and to nothing else.\<close>

lemma select_paths_frame:
  "same_but_marks h (snd (select_paths ps cfg h)) \<and> (p \<notin> set ps \<longrightarrow> snd (select_paths ps cfg h) p = h p)"
proof (cases "chosen h cfg ps")
  case None
  then show ?thesis
    using same_marks_clear [of h ps] select_paths_eq [of ps cfg h] by (auto simp: clear_marks_eq)
next
  case (Some b)
  have b: "b \<in> set ps" by (rule chosen_in [OF Some])
  obtain res h' where s: "select_paths ps cfg h = (res, h')" by (metis surj_pair)
  have "r_best res = Some b" using Some select_best [of ps cfg h] s by simp
  note m = select_marks [OF s this]
  have "h' p = h p" if "p \<notin> set ps" for p
  proof -
    have "p \<notin> set (multipath_of (set_best b True (clear_marks ps h)) cfg b (eligible_of h ps))"
      using b that by (auto simp: multipath_of_def equal_paths_def eligible_of_def Let_def dest: in_set_takeD split: if_splits)
    then show ?thesis
      using select_paths_eq [of ps cfg h] s b that
      by (auto simp: Some fill_multipath_eq set_best_def clear_marks_eq split: if_splits)
  qed
  then show ?thesis using m s by simp
qed

lemma restore_marks:
  "fold (\<lambda>(p, b, m) h. h(p := (h p)\<lparr>p_best := b, p_multipath := m\<rparr>)) (map (\<lambda>p. (p, p_best (h0 p), p_multipath (h0 p))) ps) h
    = (\<lambda>p. if p \<in> set ps then (h p)\<lparr>p_best := p_best (h0 p), p_multipath := p_multipath (h0 p)\<rparr> else h p)"
  by (induction ps arbitrary: h) (auto simp: fun_eq_iff)

lemma marks_restored:
  assumes "same_but_marks h h'"
  shows "(h' p)\<lparr>p_best := p_best (h p), p_multipath := p_multipath (h p)\<rparr> = h p"
  using assms unfolding same_but_marks_def
  by (elim allE [of _ p]) (cases "h p"; cases "h' p"; simp)

lemma explain_marked_eq:
  "snd (explain_marked ps cfg h) = snd (select_paths ps cfg h)"
  "x_best (fst (explain_marked ps cfg h)) = r_best (fst (select_paths ps cfg h))"
  by (simp_all add: explain_marked_def split: prod.split option.split)

text \<open>
  Explaining changes no path, whatever the paths and their marks were, and names the path
  that selection would choose.
\<close>

theorem explain_read_only:
  "snd (explain ps cfg h) = h \<and> x_best (fst (explain ps cfg h)) = r_best (fst (select_paths ps cfg h))"
proof -
  let ?h = "snd (select_paths ps cfg h)"
  obtain out h' where x: "explain_marked ps cfg h = (out, h')" by (metis surj_pair)
  note X = explain_marked_eq [of ps cfg h, unfolded x fst_conv snd_conv]
  have "snd (explain ps cfg h) = (\<lambda>p. if p \<in> set ps
      then (?h p)\<lparr>p_best := p_best (h p), p_multipath := p_multipath (h p)\<rparr> else ?h p)"
    by (simp add: explain_def x Let_def restore_marks X(1))
  also have "\<dots> = h"
    using select_paths_frame [of h ps cfg] marks_restored [of h ?h] by (auto simp: fun_eq_iff)
  finally show ?thesis
    by (simp add: explain_def x X(2))
qed

section \<open>The paths of a prefix\<close>

definition path_key :: "pheap \<Rightarrow> nat \<Rightarrow> nat \<times> u32" where
  "path_key h p = (pr_obj (p_peer (h p)), p_path_id (h p))"

definition paths_map :: "pheap \<Rightarrow> nat list \<Rightarrow> nat \<times> u32 \<Rightarrow> nat option" where
  "paths_map h ps k = find (\<lambda>p. path_key h p = k) ps"

lemma is_path_key: "is_path h peer i = (\<lambda>p. path_key h p = (peer, i))"
  by (simp add: is_path_def path_key_def fun_eq_iff)

lemma dest_find_map: "dest_find h peer i d = paths_map h (d_paths d) (peer, i)"
  by (simp add: dest_find_def paths_map_def is_path_key)

lemma paths_map_simps [simp]:
  "paths_map h [] = Map.empty"
  "paths_map h (p # ps) = (paths_map h ps)(path_key h p \<mapsto> p)"
  by (simp_all add: paths_map_def fun_eq_iff)

lemma dom_paths_map: "dom (paths_map h ps) = path_key h ` set ps"
proof -
  have "paths_map h ps k = None \<longleftrightarrow> k \<notin> path_key h ` set ps" for k
    by (auto simp: paths_map_def find_None_iff)
  then show ?thesis by (auto simp: dom_def)
qed

lemma replace_first_map:
  "replace_first (\<lambda>q. path_key h q = path_key h p) p ps = (old, qs) \<Longrightarrow>
    old = paths_map h ps (path_key h p) \<and> paths_map h qs = (paths_map h ps)(path_key h p \<mapsto> p)
    \<and> map (path_key h) qs = map (path_key h) ps @ (if old = None then [path_key h p] else [])"
  by (induction ps arbitrary: old qs) (auto simp: fun_upd_twist split: if_splits prod.splits)

lemma delete_first_map:
  "delete_first (\<lambda>q. path_key h q = k) ps = (old, qs) \<Longrightarrow> distinct (map (path_key h) ps) \<Longrightarrow>
    old = paths_map h ps k \<and> paths_map h qs = (paths_map h ps)(k := None)
    \<and> distinct (map (path_key h) qs) \<and> set qs \<subseteq> set ps"
proof (induction ps arbitrary: old qs)
  case (Cons p ps)
  show ?case
  proof (cases "path_key h p = k")
    case True
    then have "k \<notin> dom (paths_map h ps)" using Cons.prems(2) by (simp add: dom_paths_map)
    then show ?thesis using True Cons.prems by (auto simp: fun_eq_iff domIff)
  next
    case False
    obtain rs where rs: "delete_first (\<lambda>q. path_key h q = k) ps = (old, rs)" "qs = p # rs"
      using Cons.prems(1) False by (auto split: prod.splits)
    have "distinct (map (path_key h) ps)" using Cons.prems(2) by simp
    note IH = Cons.IH [OF rs(1) this]
    show ?thesis using IH False Cons.prems(2) rs(2) by (auto simp: fun_upd_twist)
  qed
qed simp

lemma filter_paths_map:
  "distinct (map (path_key h) ps) \<Longrightarrow>
    paths_map h (filter (\<lambda>p. pr_obj (p_peer (h p)) \<noteq> peer) ps) = (\<lambda>k. if fst k = peer then None else paths_map h ps k)"
  by (induction ps) (auto simp: fun_eq_iff path_key_def)

datatype dest_op = DestAdd nat | DestRemove nat u32 | DestRemovePeer nat

definition dest_step :: "pheap \<Rightarrow> bgp_dest \<Rightarrow> dest_op \<Rightarrow> bgp_dest" where
  "dest_step h d e =
    (case e of DestAdd p \<Rightarrow> snd (dest_add h p d)
     | DestRemove peer i \<Rightarrow> snd (dest_remove h peer i d)
     | DestRemovePeer peer \<Rightarrow> snd (dest_remove_peer h peer d))"

definition dest_map_step :: "pheap \<Rightarrow> (nat \<times> u32 \<Rightarrow> nat option) \<Rightarrow> dest_op \<Rightarrow> (nat \<times> u32 \<Rightarrow> nat option)" where
  "dest_map_step h m e =
    (case e of DestAdd p \<Rightarrow> m(path_key h p \<mapsto> p)
     | DestRemove peer i \<Rightarrow> m((peer, i) := None)
     | DestRemovePeer peer \<Rightarrow> (\<lambda>k. if fst k = peer then None else m k))"

lemma dest_step_map:
  assumes "distinct (map (path_key h) (d_paths d))"
  shows "paths_map h (d_paths (dest_step h d e)) = dest_map_step h (paths_map h (d_paths d)) e
    \<and> distinct (map (path_key h) (d_paths (dest_step h d e)))"
proof (cases e)
  case (DestAdd p)
  obtain old qs where r: "replace_first (\<lambda>q. path_key h q = path_key h p) p (d_paths d) = (old, qs)" by (metis surj_pair)
  note R = replace_first_map [OF r]
  have "old = None \<Longrightarrow> path_key h p \<notin> path_key h ` set (d_paths d)"
    using R dom_paths_map [of h "d_paths d"] by (auto simp: domIff)
  moreover have "dest_step h d e = d\<lparr>d_paths := qs\<rparr>"
    using r DestAdd by (simp add: dest_step_def dest_add_def is_path_key path_key_def [symmetric])
  ultimately show ?thesis using R assms DestAdd by (auto simp: dest_map_step_def)
next
  case (DestRemove peer i)
  obtain old qs where r: "delete_first (\<lambda>q. path_key h q = (peer, i)) (d_paths d) = (old, qs)" by (metis surj_pair)
  show ?thesis
    using delete_first_map [OF r assms] r DestRemove
    by (simp add: dest_step_def dest_remove_def is_path_key dest_map_step_def)
next
  case (DestRemovePeer peer)
  let ?keep = "filter (\<lambda>p. pr_obj (p_peer (h p)) \<noteq> peer) (d_paths d)"
  have "d_paths (dest_step h d e) = ?keep"
  proof (cases "filter (\<lambda>p. pr_obj (p_peer (h p)) = peer) (d_paths d) = []")
    case True
    then have "?keep = d_paths d" by (auto simp: filter_empty_conv intro: filter_True)
    then show ?thesis using True DestRemovePeer by (simp add: dest_step_def dest_remove_peer_def)
  next
    case False
    then show ?thesis using DestRemovePeer by (simp add: dest_step_def dest_remove_peer_def)
  qed
  then show ?thesis
    using filter_paths_map [OF assms] assms DestRemovePeer
    by (simp add: dest_map_step_def distinct_map_filter)
qed

text \<open>
  C23. The paths of a prefix are a map from peer and path id: whatever was added, withdrawn and
  torn down, a lookup finds the path last added under its key and not withdrawn since, every
  key once, and adding returns the path it replaces.
\<close>

theorem dest_refines_map:
  "dest_find h peer i (foldl (dest_step h) (new_bgp_dest pfx) es) = foldl (dest_map_step h) Map.empty es (peer, i)
   \<and> distinct (map (path_key h) (d_paths (foldl (dest_step h) (new_bgp_dest pfx) es)))
   \<and> fst (dest_add h p (foldl (dest_step h) (new_bgp_dest pfx) es)) = foldl (dest_map_step h) Map.empty es (path_key h p)"
proof -
  let ?d = "foldl (dest_step h) (new_bgp_dest pfx) es"
  have "paths_map h (d_paths ?d) = foldl (dest_map_step h) Map.empty es \<and> distinct (map (path_key h) (d_paths ?d))"
  proof (induction es rule: rev_induct)
    case Nil
    show ?case by (simp add: new_bgp_dest_def)
  next
    case (snoc e es)
    then show ?case using dest_step_map by simp
  qed
  moreover obtain old qs where r: "replace_first (\<lambda>q. path_key h q = path_key h p) p (d_paths ?d) = (old, qs)"
    by (metis surj_pair)
  ultimately show ?thesis
    using replace_first_map [OF r] r by (simp add: dest_find_map dest_add_def is_path_key path_key_def [symmetric])
qed

end
