(* ===== verification/Octets.thy ===== *)
theory Octets
  imports AttrsPath
begin

text \<open>
  Network-order fields: the readers and writers of \<open>core/inetpkt.pxd\<close> that the BGP codec
  uses, beside the four-octet ones of \<open>Attrs\<close>. A writer is given an integer and stores its
  low bits, as the C casts in front of every \<open>w_u8\<close>, \<open>w_u16\<close> and \<open>w_u32\<close> do; a reader
  takes the octets from the front of a byte string. The lemmas show that a reader gives back
  what the writer stored.
\<close>

type_synonym u16 = "16 word"

section \<open>Fields\<close>

definition rd16 :: "bytestr \<Rightarrow> u16" where
  "rd16 p = push_bit 8 (ucast (p ! 0)) OR ucast (p ! 1)"

definition be8 :: "int \<Rightarrow> bytestr" where
  "be8 v = [word_of_int v]"

definition be16 :: "int \<Rightarrow> bytestr" where
  "be16 v = [word_of_int (drop_bit 8 v), word_of_int v]"

definition u16_of :: "bytestr \<Rightarrow> int" where
  "u16_of p = uint (rd16 p)"

definition u32_of :: "bytestr \<Rightarrow> int" where
  "u32_of p = uint (rd32 p)"

text \<open>\<open>0 <= v <= 0xff\<close> and so on: the value fits a field of so many bits.\<close>

definition fits :: "nat \<Rightarrow> int \<Rightarrow> bool" where
  "fits n v \<longleftrightarrow> 0 \<le> v \<and> v < 2 ^ n"

section \<open>Reading back what was written\<close>

lemma length_be8 [simp]: "length (be8 v) = 1"
  by (simp add: be8_def)

lemma length_be16 [simp]: "length (be16 v) = 2"
  by (simp add: be16_def)

lemma be_not_Nil [simp]: "be8 v \<noteq> []" "be16 v \<noteq> []" "be32 v \<noteq> []"
  by (simp_all add: be8_def be16_def be32_def)

lemma be8_nth [simp]: "(be8 v @ r) ! 0 = word_of_int v" "be8 v ! 0 = word_of_int v"
  by (simp_all add: be8_def)

lemma rd16_be16 [simp]: "rd16 (be16 v @ r) = word_of_int v"
proof (rule bit_word_eqI)
  fix n assume "n < LENGTH(16)"
  then consider "n < 8" | "8 \<le> n" "n < 16" by fastforce
  then show "bit (rd16 (be16 v @ r)) n = bit (word_of_int v :: u16) n"
    by cases (auto simp: rd16_def be16_def bit_simps)
qed

lemma rd16_be16_Nil [simp]: "rd16 (be16 v) = word_of_int v"
  using rd16_be16 [of v "[]"] by simp

lemma rd32_be32_Nil [simp]: "rd32 (be32 v) = word_of_int v"
  using rd32_be32 [of v "[]"] by simp

lemma uint_word_of_int_fits: "fits LENGTH('a) v \<Longrightarrow> uint (word_of_int v :: 'a::len word) = v"
  by (simp add: fits_def unsigned_of_int take_bit_int_eq_self)

lemma unat_word_of_int_fits: "fits LENGTH('a) v \<Longrightarrow> unat (word_of_int v :: 'a::len word) = nat v"
  by (simp add: fits_def unsigned_of_int take_bit_int_eq_self flip: nat_uint_eq)

lemma u16_of_be16 [simp]: "fits 16 v \<Longrightarrow> u16_of (be16 v @ r) = v"
  by (simp add: u16_of_def uint_word_of_int_fits)

lemma u32_of_be32 [simp]: "fits 32 v \<Longrightarrow> u32_of (be32 v @ r) = v"
  by (simp add: u32_of_def uint_word_of_int_fits)

lemma u16_of_be16_Nil [simp]: "fits 16 v \<Longrightarrow> u16_of (be16 v) = v"
  using u16_of_be16 [of v "[]"] by simp

lemma u32_of_be32_Nil [simp]: "fits 32 v \<Longrightarrow> u32_of (be32 v) = v"
  using u32_of_be32 [of v "[]"] by simp

lemma fits_u16_of [simp]: "fits 16 (u16_of p)"
  using uint_bounded [of "rd16 p"] by (simp add: fits_def u16_of_def)

lemma fits_u32_of [simp]: "fits 32 (u32_of p)"
  using uint_bounded [of "rd32 p"] by (simp add: fits_def u32_of_def)

lemma fits_uint8 [simp]: "fits 8 (uint (b :: byte))"
  using uint_bounded [of b] by (simp add: fits_def)

lemma be_of_words [simp]:
  "rd16 (be16 (uint (w :: u16)) @ r) = w" "rd32 (be32 (uint (v :: u32)) @ r) = v"
  by simp_all

end
