(* ===== verification/Capabilities.thy ===== *)
theory Capabilities
  imports Octets "HOL-Library.FSet"
begin

text \<open>
  RFC 5492 capability negotiation (\<open>plugins/bgp/capabilities.py\<close>): the value encoders, which
  validate their input and fail, the value decoders, which accept anything, what one side of
  a session advertises, and \<open>negotiate\<close>, the only place where both sides are combined. A
  capability is a pair of its code and its value octets; a Python set of families is a finite
  set. Family, AS and direction numbers are Python integers.
\<close>

section \<open>Codes, families and names\<close>

abbreviation (input) "CAP_MP_EXT \<equiv> 1 :: int"
abbreviation (input) "CAP_ROUTE_REFRESH \<equiv> 2 :: int"
abbreviation (input) "CAP_EXT_NEXTHOP \<equiv> 5 :: int"
abbreviation (input) "CAP_EXTENDED_MESSAGE \<equiv> 6 :: int"
abbreviation (input) "CAP_GRACEFUL_RESTART \<equiv> 64 :: int"
abbreviation (input) "CAP_AS4 \<equiv> 65 :: int"
abbreviation (input) "CAP_ADD_PATH \<equiv> 69 :: int"
abbreviation (input) "CAP_ENHANCED_ROUTE_REFRESH \<equiv> 70 :: int"
abbreviation (input) "CAP_ROUTE_REFRESH_CISCO \<equiv> 128 :: int"

type_synonym family = "int \<times> int"

type_synonym tlv = "int \<times> bytestr"

definition CAP_NAMES :: "(int, string) pydict" where
  "CAP_NAMES =
    [(CAP_MP_EXT, ''Multiprotocol Extensions''), (CAP_ROUTE_REFRESH, ''Route Refresh''),
     (CAP_EXT_NEXTHOP, ''Extended Next Hop Encoding''), (CAP_EXTENDED_MESSAGE, ''Extended Message''),
     (CAP_GRACEFUL_RESTART, ''Graceful Restart''), (CAP_AS4, ''4-octet AS Number''),
     (CAP_ADD_PATH, ''ADD-PATH''), (CAP_ENHANCED_ROUTE_REFRESH, ''Enhanced Route Refresh''),
     (CAP_ROUTE_REFRESH_CISCO, ''Route Refresh (pre-standard)'')]"

definition capability_name :: "int \<Rightarrow> string" where
  "capability_name code =
    (case dict_get CAP_NAMES code of None \<Rightarrow> ''Capability '' @ int_str code | Some name \<Rightarrow> name)"

definition afi_safi_name :: "family \<Rightarrow> string" where
  "afi_safi_name f =
    (case f of (afi, safi) \<Rightarrow>
      get_default (dict_get [(1, ''IPv4''), (2, ''IPv6'')] afi) (''AFI '' @ int_str afi) @ '' '' @
      get_default (dict_get [(1, ''Unicast'')] safi) (''SAFI '' @ int_str safi))"

abbreviation (input) "ADD_PATH_RECEIVE \<equiv> 1 :: int"
abbreviation (input) "ADD_PATH_SEND \<equiv> 2 :: int"
abbreviation (input) "ADD_PATH_BOTH \<equiv> 3 :: int"

definition IPV4_UNICAST :: family where
  "IPV4_UNICAST = (1, 1)"

section \<open>Value encoders\<close>

definition out_of_range :: "string \<Rightarrow> int \<Rightarrow> py_error" where
  "out_of_range what v = ValueError (what @ '' '' @ int_str v @ '' out of range'')"

definition encode_mp_ext :: "int \<Rightarrow> int \<Rightarrow> bytestr result" where
  "encode_mp_ext afi safi =
    (if \<not> fits 16 afi then Inl (out_of_range ''afi'' afi)
     else if \<not> fits 8 safi then Inl (out_of_range ''safi'' safi)
     else Inr (be16 afi @ be8 0 @ be8 safi))"

definition encode_as4 :: "int \<Rightarrow> bytestr result" where
  "encode_as4 asn = (if \<not> fits 32 asn then Inl (out_of_range ''asn'' asn) else Inr (be32 asn))"

fun encode_add_path :: "(int \<times> int \<times> int) list \<Rightarrow> bytestr result" where
  "encode_add_path [] = Inr []"
| "encode_add_path ((afi, safi, direction) # pairs) =
    (if \<not> fits 16 afi then Inl (out_of_range ''afi'' afi)
     else if \<not> fits 8 safi then Inl (out_of_range ''safi'' safi)
     else if direction \<notin> {1, 2, 3}
     then Inl (ValueError (''add-path direction '' @ int_str direction @ '' is not one of 1, 2, 3''))
     else bind_res (encode_add_path pairs) (\<lambda>rest. Inr (be16 afi @ be8 safi @ be8 direction @ rest)))"

definition encode_graceful_restart :: "int \<Rightarrow> int \<Rightarrow> bytestr result" where
  "encode_graceful_restart restart_time flags =
    (if \<not> fits 12 restart_time
     then Inl (ValueError (''restart_time '' @ int_str restart_time @ '' out of range (0-4095)''))
     else if \<not> fits 4 flags
     then Inl (ValueError (''flags '' @ int_str flags @ '' out of range (0-15)''))
     else Inr (be16 (push_bit 12 flags OR restart_time)))"

section \<open>Value decoders\<close>

definition decode_mp_ext :: "bytestr \<Rightarrow> family option" where
  "decode_mp_ext v = (if length v < 4 then None else Some (u16_of v, uint (v ! 3)))"

definition decode_as4 :: "bytestr \<Rightarrow> int option" where
  "decode_as4 v = (if length v < 4 then None else Some (u32_of v))"

function decode_add_path :: "bytestr \<Rightarrow> (int \<times> int \<times> int) list" where
  "decode_add_path v =
    (if length v < 4 then []
     else let direction = uint (v ! 3); rest = decode_add_path (drop 4 v) in
       if direction \<in> {1, 2, 3} then (u16_of v, uint (v ! 2), direction) # rest else rest)"
  by auto
termination
  by (relation "measure length") auto

declare decode_add_path.simps [simp del]

section \<open>One side's advertisement\<close>

text \<open>The restart field: not advertised, advertised with a time of zero, or a time in
  seconds. An integer zero there counts as not advertised.\<close>

datatype restart = NoRestart | RestartTrue | RestartTime int

definition restart_set :: "restart \<Rightarrow> bool" where
  "restart_set r \<longleftrightarrow> r \<noteq> NoRestart \<and> r \<noteq> RestartTime 0"

record capabilities =
  k_asn :: "int option"
  k_afi_safi :: "family fset"
  k_as4 :: bool
  k_route_refresh :: bool
  k_enhanced_route_refresh :: bool
  k_extended_message :: bool
  k_add_path :: "(family, int) pydict"
  k_graceful_restart :: restart
  k_unknown :: "tlv list"

definition new_capabilities :: "int option \<Rightarrow> capabilities" where
  "new_capabilities asn = \<lparr>k_asn = asn, k_afi_safi = {||}, k_as4 = False, k_route_refresh = False,
    k_enhanced_route_refresh = False, k_extended_message = False, k_add_path = [],
    k_graceful_restart = NoRestart, k_unknown = []\<rparr>"

fun map_res :: "('a \<Rightarrow> 'b result) \<Rightarrow> 'a list \<Rightarrow> 'b list result" where
  "map_res f [] = Inr []"
| "map_res f (x # xs) = bind_res (f x) (\<lambda>y. bind_res (map_res f xs) (\<lambda>ys. Inr (y # ys)))"

definition tlv_of :: "int \<Rightarrow> bytestr result \<Rightarrow> tlv list result" where
  "tlv_of code r = bind_res r (\<lambda>v. Inr [(code, v)])"

definition when_res :: "bool \<Rightarrow> 'a list result \<Rightarrow> 'a list result" where
  "when_res b r = (if b then r else Inr [])"

definition append_res :: "'a list result \<Rightarrow> 'a list result \<Rightarrow> 'a list result" where
  "append_res r s = bind_res r (\<lambda>xs. bind_res s (\<lambda>ys. Inr (xs @ ys)))"

definition restart_secs :: "restart \<Rightarrow> int" where
  "restart_secs r = (case r of RestartTime n \<Rightarrow> n | _ \<Rightarrow> 0)"

definition sorted_keys :: "('k::linorder, 'v) pydict \<Rightarrow> 'k list" where
  "sorted_keys d = sort (remdups (map fst d))"

definition add_path_pairs :: "(family, int) pydict \<Rightarrow> (int \<times> int \<times> int) list" where
  "add_path_pairs d = map (\<lambda>f. (fst f, snd f, the (dict_get d f))) (sorted_keys d)"

definition as_tlvs :: "capabilities \<Rightarrow> tlv list result" where
  "as_tlvs c =
    append_res (map_res (\<lambda>f. bind_res (encode_mp_ext (fst f) (snd f)) (\<lambda>v. Inr (CAP_MP_EXT, v)))
      (sorted_list_of_fset (k_afi_safi c)))
    (append_res (when_res (k_route_refresh c) (Inr [(CAP_ROUTE_REFRESH, [])]))
    (append_res (when_res (k_extended_message c) (Inr [(CAP_EXTENDED_MESSAGE, [])]))
    (append_res (when_res (restart_set (k_graceful_restart c))
      (tlv_of CAP_GRACEFUL_RESTART (encode_graceful_restart (restart_secs (k_graceful_restart c)) 0)))
    (append_res (when_res (k_as4 c)
      (case k_asn c of
        None \<Rightarrow> Inl (ValueError ''as4 advertised without an asn'')
      | Some asn \<Rightarrow> tlv_of CAP_AS4 (encode_as4 asn)))
    (append_res (when_res (k_add_path c \<noteq> []) (tlv_of CAP_ADD_PATH (encode_add_path (add_path_pairs (k_add_path c)))))
    (when_res (k_enhanced_route_refresh c) (Inr [(CAP_ENHANCED_ROUTE_REFRESH, [])])))))))"

definition store_add_path :: "(int \<times> int \<times> int) list \<Rightarrow> (family, int) pydict \<Rightarrow> (family, int) pydict" where
  "store_add_path ts d = fold (\<lambda>(afi, safi, direction). dict_set (afi, safi) direction) ts d"

definition take_tlv :: "tlv \<Rightarrow> capabilities \<Rightarrow> capabilities" where
  "take_tlv t c =
    (case t of (code, v) \<Rightarrow>
      if code = CAP_MP_EXT then
        (case decode_mp_ext v of None \<Rightarrow> c | Some f \<Rightarrow> c\<lparr>k_afi_safi := finsert f (k_afi_safi c)\<rparr>)
      else if code = CAP_ROUTE_REFRESH then c\<lparr>k_route_refresh := True\<rparr>
      else if code = CAP_ROUTE_REFRESH_CISCO then
        c\<lparr>k_route_refresh := True, k_unknown := k_unknown c @ [(code, v)]\<rparr>
      else if code = CAP_ENHANCED_ROUTE_REFRESH then c\<lparr>k_enhanced_route_refresh := True\<rparr>
      else if code = CAP_EXTENDED_MESSAGE then c\<lparr>k_extended_message := True\<rparr>
      else if code = CAP_AS4 then
        (case decode_as4 v of None \<Rightarrow> c | Some asn \<Rightarrow> c\<lparr>k_as4 := True, k_asn := Some asn\<rparr>)
      else if code = CAP_ADD_PATH then
        c\<lparr>k_add_path := store_add_path (decode_add_path v) (k_add_path c)\<rparr>
      else if code = CAP_GRACEFUL_RESTART then
        (if 2 \<le> length v
         then let secs = u16_of v AND 0xfff in
              c\<lparr>k_graceful_restart := if secs \<noteq> 0 then RestartTime secs else RestartTrue\<rparr>
         else c)
      else c\<lparr>k_unknown := k_unknown c @ [(code, v)]\<rparr>)"

definition from_tlvs :: "tlv list \<Rightarrow> int option \<Rightarrow> capabilities" where
  "from_tlvs ts asn = fold take_tlv ts (new_capabilities asn)"

section \<open>Negotiation\<close>

record negotiated =
  g_afi_safi :: "family fset"
  g_as4 :: bool
  g_route_refresh :: bool
  g_enhanced_route_refresh :: bool
  g_extended_message :: bool
  g_add_path_recv :: "family fset"
  g_add_path_send :: "family fset"
  g_max_message_size :: int
  g_peer_asn :: "int option"
  g_peer_as4 :: bool

definition negotiated_families :: "capabilities \<Rightarrow> capabilities \<Rightarrow> family fset" where
  "negotiated_families local_caps remote =
    (let families = k_afi_safi local_caps |\<inter>| k_afi_safi remote in
     if families = {||} \<and> k_afi_safi remote = {||} \<and> IPV4_UNICAST |\<in>| k_afi_safi local_caps
     then {|IPV4_UNICAST|} else families)"

definition direction_of :: "capabilities \<Rightarrow> family \<Rightarrow> int" where
  "direction_of c f = get_default (dict_get (k_add_path c) f) 0"

definition may_receive :: "capabilities \<Rightarrow> capabilities \<Rightarrow> family \<Rightarrow> bool" where
  "may_receive local_caps remote f \<longleftrightarrow>
    direction_of remote f AND ADD_PATH_SEND \<noteq> 0 \<and> direction_of local_caps f AND ADD_PATH_RECEIVE \<noteq> 0"

definition negotiate_caps :: "capabilities \<Rightarrow> capabilities \<Rightarrow> negotiated" where
  "negotiate_caps local_caps remote =
    (let families = negotiated_families local_caps remote;
         extended = (k_extended_message local_caps \<and> k_extended_message remote) in
     \<lparr>g_afi_safi = families,
      g_as4 = (k_as4 local_caps \<and> k_as4 remote),
      g_route_refresh = (k_route_refresh local_caps \<and> k_route_refresh remote),
      g_enhanced_route_refresh = (k_enhanced_route_refresh local_caps \<and> k_enhanced_route_refresh remote),
      g_extended_message = extended,
      g_add_path_recv = ffilter (may_receive local_caps remote) families,
      g_add_path_send = {||},
      g_max_message_size = (if extended then 65535 else 4096),
      g_peer_asn = k_asn remote,
      g_peer_as4 = k_as4 remote\<rparr>)"

definition missing_required :: "capabilities \<Rightarrow> negotiated \<Rightarrow> string list" where
  "missing_required local_caps n =
    map (\<lambda>f. ''peer does not support '' @ afi_safi_name f)
      (filter (\<lambda>f. f |\<notin>| g_afi_safi n) (sorted_list_of_fset (k_afi_safi local_caps)))"

end
