(* ===== verification/CapabilitiesProps.thy ===== *)
theory CapabilitiesProps
  imports Capabilities
begin

text \<open>
  What \<open>Capabilities\<close> promises: a peer that decodes an advertisement gets it back; what two
  ends negotiate is the same at both, and path identifiers are expected exactly where the
  peer said it sends them.
\<close>

section \<open>Values\<close>

lemma mp_ext_round_trip: "encode_mp_ext afi safi = Inr v \<Longrightarrow> decode_mp_ext (v @ r) = Some (afi, safi)"
  by (auto simp: encode_mp_ext_def decode_mp_ext_def be8_def uint_word_of_int_fits nth_append split: if_splits)

lemma as4_round_trip: "encode_as4 asn = Inr v \<Longrightarrow> decode_as4 (v @ r) = Some asn"
  by (auto simp: encode_as4_def decode_as4_def split: if_splits)

lemma add_path_round_trip: "encode_add_path ts = Inr v \<Longrightarrow> decode_add_path v = ts"
proof (induction ts arbitrary: v)
  case Nil
  then show ?case by (simp add: decode_add_path.simps)
next
  case (Cons t ts)
  obtain afi safi direction where t: "t = (afi, safi, direction)" by (cases t)
  from Cons.prems obtain r where r: "encode_add_path ts = Inr r"
    and v: "v = be16 afi @ be8 safi @ be8 direction @ r"
    and f: "fits 16 afi" "fits 8 safi" "direction \<in> {1, 2, 3}"
    by (auto simp: t bind_res_Inr_iff split: if_splits)
  have "fits 8 direction" using f(3) by (auto simp: fits_def)
  then have "u16_of v = afi" "uint (v ! 2) = safi" "uint (v ! 3) = direction" "drop 4 v = r" "4 \<le> length v"
    using f by (simp_all add: v be8_def nth_append uint_word_of_int_fits)
  with Cons.IH [OF r] f show ?case
    by (subst decode_add_path.simps) (simp add: t)
qed

lemma restart_round_trip:
  assumes "encode_graceful_restart secs 0 = Inr v"
  shows "2 \<le> length v \<and> u16_of v AND 0xfff = secs"
proof -
  from assms have "fits 12 secs" and v: "v = be16 secs"
    by (auto simp: encode_graceful_restart_def split: if_splits)
  then have "fits 16 secs" and "take_bit 12 secs = secs"
    by (auto simp: fits_def take_bit_int_eq_self)
  moreover have "secs AND 0xfff = take_bit 12 secs" by (simp add: take_bit_eq_mask mask_eq_exp_minus_1)
  ultimately show ?thesis by (simp add: v)
qed

section \<open>Advertisements\<close>

lemma append_res_Inr_iff:
  "append_res r s = Inr zs \<longleftrightarrow> (\<exists>xs ys. r = Inr xs \<and> s = Inr ys \<and> zs = xs @ ys)"
  by (auto simp: append_res_def bind_res_Inr_iff)

lemma when_res_Inr_iff: "when_res b r = Inr zs \<longleftrightarrow> (if b then r = Inr zs else zs = [])"
  by (auto simp: when_res_def)

lemma tlv_of_Inr_iff: "tlv_of code r = Inr zs \<longleftrightarrow> (\<exists>v. r = Inr v \<and> zs = [(code, v)])"
  by (auto simp: tlv_of_def bind_res_Inr_iff)

lemma take_tlv_simps:
  "take_tlv (CAP_MP_EXT, v) c =
    (case decode_mp_ext v of None \<Rightarrow> c | Some f \<Rightarrow> c\<lparr>k_afi_safi := finsert f (k_afi_safi c)\<rparr>)"
  "take_tlv (CAP_ROUTE_REFRESH, v) c = c\<lparr>k_route_refresh := True\<rparr>"
  "take_tlv (CAP_ENHANCED_ROUTE_REFRESH, v) c = c\<lparr>k_enhanced_route_refresh := True\<rparr>"
  "take_tlv (CAP_EXTENDED_MESSAGE, v) c = c\<lparr>k_extended_message := True\<rparr>"
  "take_tlv (CAP_AS4, v) c =
    (case decode_as4 v of None \<Rightarrow> c | Some asn \<Rightarrow> c\<lparr>k_as4 := True, k_asn := Some asn\<rparr>)"
  "take_tlv (CAP_ADD_PATH, v) c = c\<lparr>k_add_path := store_add_path (decode_add_path v) (k_add_path c)\<rparr>"
  by (simp_all add: take_tlv_def)

lemma take_families:
  assumes "map_res (\<lambda>f. bind_res (encode_mp_ext (fst f) (snd f)) (\<lambda>v. Inr (CAP_MP_EXT, v))) fs = Inr ts"
  shows "fold take_tlv ts c = c\<lparr>k_afi_safi := fset_of_list fs |\<union>| k_afi_safi c\<rparr>"
  using assms
proof (induction fs arbitrary: ts c)
  case (Cons f fs)
  then obtain v us where v: "encode_mp_ext (fst f) (snd f) = Inr v" and ts: "ts = (CAP_MP_EXT, v) # us"
    and us: "map_res (\<lambda>f. bind_res (encode_mp_ext (fst f) (snd f)) (\<lambda>v. Inr (CAP_MP_EXT, v))) fs = Inr us"
    by (auto simp: bind_res_Inr_iff)
  have "decode_mp_ext v = Some f" using mp_ext_round_trip [OF v, of "[]"] by simp
  then show ?case
    by (simp add: ts take_tlv_simps Cons.IH [OF us])
qed simp

lemma store_sorted:
  assumes "distinct fs" and "\<And>f. f \<in> set fs \<Longrightarrow> f \<notin> dict_keys d"
  shows "store_add_path (map (\<lambda>f. (fst f, snd f, g f)) fs) d = d @ map (\<lambda>f. (f, g f)) fs"
  using assms
proof (induction fs arbitrary: d)
  case (Cons f fs)
  have new: "dict_set f (g f) d = d @ [(f, g f)]"
    using Cons.prems(2) [of f] by (induction d) auto
  have "store_add_path (map (\<lambda>f. (fst f, snd f, g f)) (f # fs)) d
    = store_add_path (map (\<lambda>f. (fst f, snd f, g f)) fs) (d @ [(f, g f)])"
    by (simp add: store_add_path_def new)
  also have "\<dots> = (d @ [(f, g f)]) @ map (\<lambda>f. (f, g f)) fs"
    by (rule Cons.IH) (use Cons.prems in auto)
  finally show ?case by simp
qed (simp add: store_add_path_def)

definition sorted_dict :: "('k::linorder, 'v) pydict \<Rightarrow> ('k, 'v) pydict" where
  "sorted_dict d = map (\<lambda>k. (k, the (dict_get d k))) (sorted_keys d)"

definition plain_restart :: "restart \<Rightarrow> restart" where
  "plain_restart r = (if restart_set r then if restart_secs r = 0 then RestartTrue else r else NoRestart)"

text \<open>What a peer learns of an advertisement: the AS is the capability's when it is sent, and
  else the one of the OPEN's header.\<close>

definition advertised :: "capabilities \<Rightarrow> int option \<Rightarrow> capabilities" where
  "advertised c asn = c\<lparr>k_asn := if k_as4 c then k_asn c else asn,
    k_add_path := sorted_dict (k_add_path c),
    k_graceful_restart := plain_restart (k_graceful_restart c), k_unknown := []\<rparr>"

lemma store_add_path_pairs: "store_add_path (add_path_pairs d) [] = sorted_dict d"
  using store_sorted [of "sorted_keys d" "[]" "\<lambda>f. the (dict_get d f)"]
  by (simp add: add_path_pairs_def sorted_dict_def sorted_keys_def)

lemma sorted_dict_Nil_iff [simp]: "sorted_dict [] = []"
  by (simp add: sorted_dict_def sorted_keys_def)

lemma take_restart:
  assumes "restart_set r" and "encode_graceful_restart (restart_secs r) 0 = Inr v"
  shows "take_tlv (CAP_GRACEFUL_RESTART, v) c = c\<lparr>k_graceful_restart := plain_restart r\<rparr>"
  using restart_round_trip [OF assms(2)] assms(1)
  by (cases r) (simp_all add: take_tlv_def plain_restart_def restart_secs_def Let_def restart_set_def)

text \<open>
  C36. What a peer decodes is what was advertised: the families, every flag, the ADD-PATH
  directions, a restart time (zero as such), the AS of the 4-octet capability; nothing else.
\<close>

theorem capabilities_round_trip:
  assumes "as_tlvs c = Inr ts"
  shows "from_tlvs ts asn = advertised c asn"
proof -
  obtain t1 t2 t3 t4 t5 t6 t7 where ts: "ts = t1 @ t2 @ t3 @ t4 @ t5 @ t6 @ t7"
    and t1: "map_res (\<lambda>f. bind_res (encode_mp_ext (fst f) (snd f)) (\<lambda>v. Inr (CAP_MP_EXT, v)))
      (sorted_list_of_fset (k_afi_safi c)) = Inr t1"
    and t2: "when_res (k_route_refresh c) (Inr [(CAP_ROUTE_REFRESH, [])]) = Inr t2"
    and t3: "when_res (k_extended_message c) (Inr [(CAP_EXTENDED_MESSAGE, [])]) = Inr t3"
    and t4: "when_res (restart_set (k_graceful_restart c))
      (tlv_of CAP_GRACEFUL_RESTART (encode_graceful_restart (restart_secs (k_graceful_restart c)) 0)) = Inr t4"
    and t5: "when_res (k_as4 c) (case k_asn c of None \<Rightarrow> Inl (ValueError ''as4 advertised without an asn'')
      | Some asn \<Rightarrow> tlv_of CAP_AS4 (encode_as4 asn)) = Inr t5"
    and t6: "when_res (k_add_path c \<noteq> []) (tlv_of CAP_ADD_PATH (encode_add_path (add_path_pairs (k_add_path c)))) = Inr t6"
    and t7: "when_res (k_enhanced_route_refresh c) (Inr [(CAP_ENHANCED_ROUTE_REFRESH, [])]) = Inr t7"
    using assms unfolding as_tlvs_def append_res_Inr_iff by blast
  have f2: "fold take_tlv t2 c' = c'\<lparr>k_route_refresh := k_route_refresh c \<or> k_route_refresh c'\<rparr>" for c'
    using t2 by (auto simp: when_res_Inr_iff take_tlv_simps split: if_splits)
  have f3: "fold take_tlv t3 c' = c'\<lparr>k_extended_message := k_extended_message c \<or> k_extended_message c'\<rparr>" for c'
    using t3 by (auto simp: when_res_Inr_iff take_tlv_simps split: if_splits)
  have f7: "fold take_tlv t7 c' = c'\<lparr>k_enhanced_route_refresh := k_enhanced_route_refresh c \<or> k_enhanced_route_refresh c'\<rparr>" for c'
    using t7 by (auto simp: when_res_Inr_iff take_tlv_simps split: if_splits)
  have f4: "fold take_tlv t4 c' = c'\<lparr>k_graceful_restart := plain_restart (k_graceful_restart c)\<rparr>"
    if "k_graceful_restart c' = NoRestart" for c'
    using t4 that by (auto simp: when_res_Inr_iff tlv_of_Inr_iff take_restart plain_restart_def split: if_splits)
  have f5: "fold take_tlv t5 c' = c'\<lparr>k_as4 := k_as4 c \<or> k_as4 c', k_asn := if k_as4 c then k_asn c else k_asn c'\<rparr>" for c'
    using t5 as4_round_trip [of _ _ "[]"]
    by (auto simp: when_res_Inr_iff tlv_of_Inr_iff take_tlv_simps split: if_splits option.splits)
  have f6: "fold take_tlv t6 c' = c'\<lparr>k_add_path := sorted_dict (k_add_path c)\<rparr>" if "k_add_path c' = []" for c'
    using t6 that add_path_round_trip
    by (auto simp: when_res_Inr_iff tlv_of_Inr_iff take_tlv_simps store_add_path_pairs split: if_splits)
  show ?thesis
    by (simp add: from_tlvs_def ts take_families [OF t1] f2 f3 f4 f5 f6 f7 new_capabilities_def advertised_def)
qed

definition sample_caps :: capabilities where
  "sample_caps = (new_capabilities (Some 70000))\<lparr>k_afi_safi := {|(2, 1), (1, 1)|}, k_as4 := True,
    k_route_refresh := True, k_add_path := [((2, 1), 3), ((1, 1), 1)], k_graceful_restart := RestartTrue\<rparr>"

definition sample_tlvs :: "tlv list" where
  "sample_tlvs = [(1, [0, 1, 0, 1]), (1, [0, 2, 0, 1]), (2, []), (64, [0, 0]), (65, [0, 1, 0x11, 0x70]),
    (69, [0, 1, 1, 1, 0, 2, 1, 3])]"

lemma capabilities_round_trip_witness:
  "from_tlvs sample_tlvs (Some 23456) = advertised sample_caps (Some 23456)"
proof (rule capabilities_round_trip)
  show "as_tlvs sample_caps = Inr sample_tlvs" by code_simp
qed


section \<open>Any peer\<close>

text \<open>The fields of an advertisement fit the wire format.\<close>

definition restart_ok :: "restart \<Rightarrow> bool" where
  "restart_ok r \<longleftrightarrow> (case r of RestartTime n \<Rightarrow> fits 12 n | _ \<Rightarrow> True)"

definition family_ok :: "family \<Rightarrow> bool" where
  "family_ok f \<longleftrightarrow> fits 16 (fst f) \<and> fits 8 (snd f)"

definition dirs_ok :: "(family, int) pydict \<Rightarrow> bool" where
  "dirs_ok d \<longleftrightarrow> (\<forall>f x. dict_get d f = Some x \<longrightarrow> family_ok f \<and> x \<in> {1, 2, 3})"

definition caps_ok :: "capabilities \<Rightarrow> bool" where
  "caps_ok c \<longleftrightarrow>
    fBall (k_afi_safi c) family_ok
    \<and> (k_as4 c \<longrightarrow> (\<exists>asn. k_asn c = Some asn \<and> fits 32 asn))
    \<and> dirs_ok (k_add_path c)
    \<and> restart_ok (k_graceful_restart c)"

lemma decode_mp_ext_ok: "decode_mp_ext v = Some f \<Longrightarrow> family_ok f"
  by (auto simp: decode_mp_ext_def family_ok_def split: if_splits)

lemma decode_add_path_ok: "(afi, safi, d) \<in> set (decode_add_path v) \<Longrightarrow> family_ok (afi, safi) \<and> d \<in> {1, 2, 3}"
proof (induction v rule: decode_add_path.induct)
  case (1 v)
  then show ?case
    by (subst (asm) (2) decode_add_path.simps) (auto simp: Let_def family_ok_def split: if_splits)
qed

lemma store_add_path_get:
  "dict_get (store_add_path ts d) f = Some x \<Longrightarrow> dict_get d f = Some x \<or> (fst f, snd f, x) \<in> set ts"
  by (induction ts arbitrary: d) (fastforce simp: store_add_path_def dict_get_set split: if_splits)+

lemma dirs_ok_all: "list_all (\<lambda>(f, x). family_ok f \<and> x \<in> {1, 2, 3}) d \<Longrightarrow> dirs_ok d"
  unfolding dirs_ok_def list_all_iff by (auto dest!: map_of_SomeD)

lemma dirs_ok_store: "dirs_ok d \<Longrightarrow> dirs_ok (store_add_path (decode_add_path v) d)"
  unfolding dirs_ok_def using store_add_path_get decode_add_path_ok by (metis prod.collapse)

lemma and_0xfff: "fits 12 (n AND 0xfff)"
  using take_bit_nonnegative [of 12 n] take_bit_int_less_exp [of 12 n]
  by (simp add: fits_def take_bit_eq_mask mask_eq_exp_minus_1)

lemma restart_ok_and: "restart_ok (RestartTime (n AND 0xfff))"
  using and_0xfff by (simp add: restart_ok_def)

lemma take_tlv_ok: "caps_ok c \<Longrightarrow> caps_ok (take_tlv t c)"
proof -
  assume ok: "caps_ok c"
  obtain code v where t: "t = (code, v)" by (cases t)
  have "decode_as4 v = Some asn \<Longrightarrow> fits 32 asn" for asn
    by (auto simp: decode_as4_def split: if_splits)
  then show ?thesis
    using ok decode_mp_ext_ok [of v] dirs_ok_store restart_ok_and [of "u16_of v"]
    unfolding t take_tlv_def prod.case Let_def
    by (auto simp: caps_ok_def restart_ok_def split: option.splits)
qed

text \<open>
  C37. Whatever capabilities a peer sends, known or not, short or long, repeated or in any
  order, decoding ends in an advertisement whose every field is in the range of its type: families of 16 and 8
  bits, directions of 1 to 3, a restart time of 12 bits, and an AS of 32 bits wherever the
  4-octet capability is set.
\<close>

theorem decoded_capabilities_in_range: "caps_ok (from_tlvs ts asn)"
proof -
  have "caps_ok c \<Longrightarrow> caps_ok (fold take_tlv ts c)" for c
    by (induction ts arbitrary: c) (simp_all add: take_tlv_ok)
  moreover have "caps_ok (new_capabilities asn)"
    by (simp add: caps_ok_def new_capabilities_def restart_ok_def dirs_ok_def)
  ultimately show ?thesis by (simp add: from_tlvs_def)
qed

section \<open>Encoding succeeds exactly in range\<close>

lemma encode_mp_ext_ok: "(\<exists>v. encode_mp_ext (fst f) (snd f) = Inr v) \<longleftrightarrow> family_ok f"
  by (auto simp: encode_mp_ext_def family_ok_def)

lemma map_res_ok: "(\<exists>ys. map_res g xs = Inr ys) \<longleftrightarrow> (\<forall>x\<in>set xs. \<exists>y. g x = Inr y)"
  by (induction xs) (auto simp: bind_res_Inr_iff)

lemma encode_add_path_ok:
  "(\<exists>v. encode_add_path ts = Inr v) \<longleftrightarrow> (\<forall>(afi, safi, d)\<in>set ts. family_ok (afi, safi) \<and> d \<in> {1, 2, 3})"
proof (induction ts)
  case (Cons t ts)
  obtain afi safi d where t: "t = (afi, safi, d)" by (cases t)
  have "(\<exists>v. encode_add_path (t # ts) = Inr v)
      \<longleftrightarrow> family_ok (afi, safi) \<and> d \<in> {1, 2, 3} \<and> (\<exists>v. encode_add_path ts = Inr v)"
    by (simp add: t family_ok_def bind_res_Inr_iff)
  with Cons show ?case by (simp add: t)
qed simp

lemma sorted_keys_set: "set (sorted_keys d) = dict_keys d"
  by (simp add: sorted_keys_def)

lemma add_path_pairs_ok:
  "(\<exists>v. encode_add_path (add_path_pairs d) = Inr v)
    \<longleftrightarrow> dirs_ok d"
proof -
  have get: "f \<in> dict_keys d \<longleftrightarrow> (\<exists>x. dict_get d f = Some x)" for f
    using dict_get_None_iff [of d f] by (cases "dict_get d f") simp_all
  have "(\<exists>v. encode_add_path (add_path_pairs d) = Inr v)
      \<longleftrightarrow> (\<forall>f\<in>dict_keys d. family_ok f \<and> the (dict_get d f) \<in> {1, 2, 3})"
    unfolding encode_add_path_ok add_path_pairs_def set_map sorted_keys_set by simp
  then show ?thesis using get unfolding dirs_ok_def by (metis option.sel)
qed

text \<open>
  An advertisement is encoded exactly when every field that goes out is in range and the
  4-octet AS capability has an AS to carry; otherwise the encoder raises and nothing is sent.
\<close>

theorem advertisement_encodes_iff:
  "(\<exists>ts. as_tlvs c = Inr ts) \<longleftrightarrow> caps_ok c"
proof -
  have "(\<exists>zs. append_res r s = Inr zs) \<longleftrightarrow> (\<exists>xs. r = Inr xs) \<and> (\<exists>ys. s = Inr ys)" for r s :: "tlv list result"
    by (auto simp: append_res_Inr_iff)
  moreover have "(\<exists>zs. when_res b r = Inr zs) \<longleftrightarrow> (b \<longrightarrow> (\<exists>zs. r = Inr zs))" for b and r :: "tlv list result"
    by (auto simp: when_res_Inr_iff)
  moreover have "(\<exists>zs. tlv_of code r = Inr zs) \<longleftrightarrow> (\<exists>v. r = Inr v)" for code r
    by (auto simp: tlv_of_Inr_iff)
  moreover have "(\<exists>v. bind_res (encode_mp_ext (fst f) (snd f)) (\<lambda>v. Inr (CAP_MP_EXT, v)) = Inr v) \<longleftrightarrow> family_ok f" for f
    using encode_mp_ext_ok [of f] by (simp add: bind_res_Inr_iff)
  moreover have "(\<exists>v. encode_graceful_restart (restart_secs r) 0 = Inr v) \<longleftrightarrow> restart_ok r" if "restart_set r" for r
    using that by (cases r) (auto simp: encode_graceful_restart_def restart_secs_def restart_ok_def fits_def)
  moreover have "\<not> restart_set r \<Longrightarrow> restart_ok r" for r
    by (auto simp: restart_set_def restart_ok_def fits_def)
  moreover have "(\<exists>v. encode_as4 n = Inr v) \<longleftrightarrow> fits 32 n" for n
    by (simp add: encode_as4_def)
  moreover have "dirs_ok []" by (simp add: dirs_ok_def)
  ultimately show ?thesis
    unfolding as_tlvs_def caps_ok_def add_path_pairs_ok
    by (auto split: option.splits simp: map_res_ok add_path_pairs_ok)
qed

section \<open>Both ends\<close>

lemma dirs_and:
  assumes "dirs_ok (k_add_path c)"
  shows "direction_of c f AND ADD_PATH_SEND \<noteq> 0 \<longleftrightarrow> dict_get (k_add_path c) f \<in> {Some 2, Some 3}"
    and "direction_of c f AND ADD_PATH_RECEIVE \<noteq> 0 \<longleftrightarrow> dict_get (k_add_path c) f \<in> {Some 1, Some 3}"
proof -
  consider "dict_get (k_add_path c) f = None" | "dict_get (k_add_path c) f = Some 1"
    | "dict_get (k_add_path c) f = Some 2" | "dict_get (k_add_path c) f = Some 3"
    using assms unfolding dirs_ok_def by (cases "dict_get (k_add_path c) f") blast+
  then show "direction_of c f AND ADD_PATH_SEND \<noteq> 0 \<longleftrightarrow> dict_get (k_add_path c) f \<in> {Some 2, Some 3}"
    "direction_of c f AND ADD_PATH_RECEIVE \<noteq> 0 \<longleftrightarrow> dict_get (k_add_path c) f \<in> {Some 1, Some 3}"
    by (cases; simp add: direction_of_def)+
qed

text \<open>
  Path identifiers are expected in a family exactly when the family is in use, the peer
  said that it sends them and we said that we take them; so when both ends run this code, an
  end that expects them faces one that declared to send them, for that very family.
\<close>

theorem path_ids_expected_iff:
  assumes "caps_ok local_caps" and "caps_ok remote"
  shows "f |\<in>| g_add_path_recv (negotiate_caps local_caps remote) \<longleftrightarrow>
    f |\<in>| g_afi_safi (negotiate_caps local_caps remote)
    \<and> dict_get (k_add_path remote) f \<in> {Some ADD_PATH_SEND, Some ADD_PATH_BOTH}
    \<and> dict_get (k_add_path local_caps) f \<in> {Some ADD_PATH_RECEIVE, Some ADD_PATH_BOTH}"
  using dirs_and(1) [of remote f] dirs_and(2) [of local_caps f] assms
  by (auto simp: caps_ok_def negotiate_caps_def Let_def may_receive_def)

text \<open>
  C38. Two ends that each advertise some family agree on the session: the families, 4-octet AS
  numbers, both kinds of route refresh and the message ceiling come out the same whichever end
  computes them. Path identifiers an end expects in just those common families in which the
  other declared to send them and it declared itself to receive them; none are sent.
\<close>

theorem negotiation_is_mutual:
  assumes "k_afi_safi a \<noteq> {||}" and "k_afi_safi b \<noteq> {||}" and "caps_ok a" and "caps_ok b"
  shows "negotiate_caps a b = (negotiate_caps b a)
    \<lparr>g_add_path_recv := ffilter (\<lambda>f. dict_get (k_add_path b) f \<in> {Some ADD_PATH_SEND, Some ADD_PATH_BOTH}
        \<and> dict_get (k_add_path a) f \<in> {Some ADD_PATH_RECEIVE, Some ADD_PATH_BOTH}) (g_afi_safi (negotiate_caps b a)),
     g_add_path_send := {||}, g_peer_asn := k_asn b, g_peer_as4 := k_as4 b\<rparr>"
proof -
  have f: "negotiated_families a b = negotiated_families b a"
    using assms(1,2) by (auto simp: negotiated_families_def Let_def inf_commute)
  have "g_add_path_recv (negotiate_caps a b) = ffilter (\<lambda>f. dict_get (k_add_path b) f \<in> {Some 2, Some 3}
      \<and> dict_get (k_add_path a) f \<in> {Some 1, Some 3}) (g_afi_safi (negotiate_caps a b))"
    using path_ids_expected_iff [OF assms(3,4)] by (intro fset_eqI) auto
  then show ?thesis using f by (simp add: negotiate_caps_def Let_def conj_commute)
qed

definition receiving_caps :: capabilities where
  "receiving_caps = (new_capabilities (Some 7))\<lparr>k_afi_safi := {|(1, 1), (2, 1)|}, k_add_path := [((2, 1), 1), ((1, 1), 3)]\<rparr>"

lemma sample_caps_ok: "caps_ok sample_caps" "caps_ok receiving_caps"
proof -
  have "dirs_ok (k_add_path sample_caps)" "dirs_ok (k_add_path receiving_caps)"
    by (rule dirs_ok_all, code_simp)+
  moreover have "fBall (k_afi_safi sample_caps) family_ok" "fBall (k_afi_safi receiving_caps) family_ok" by code_simp+
  moreover have "restart_ok (k_graceful_restart sample_caps)" "restart_ok (k_graceful_restart receiving_caps)" by code_simp+
  moreover have "k_asn sample_caps = Some 70000" "fits 32 70000" "k_asn receiving_caps = Some 7" "fits 32 7" by code_simp+
  ultimately show "caps_ok sample_caps" "caps_ok receiving_caps" unfolding caps_ok_def by auto
qed

lemma negotiation_is_mutual_witness:
  "g_afi_safi (negotiate_caps sample_caps receiving_caps) = g_afi_safi (negotiate_caps receiving_caps sample_caps)"
  using negotiation_is_mutual [OF _ _ sample_caps_ok] by (simp add: sample_caps_def receiving_caps_def)

text \<open>
  The session has all it was configured for exactly when the peer advertised every
  configured family, or advertised none at all and only IPv4 unicast was asked of it.
\<close>

theorem nothing_missing_iff:
  "missing_required local_caps (negotiate_caps local_caps remote) = [] \<longleftrightarrow>
    k_afi_safi local_caps |\<subseteq>| k_afi_safi remote
    \<or> k_afi_safi remote = {||} \<and> k_afi_safi local_caps = {|IPV4_UNICAST|}"
  by (auto simp: missing_required_def negotiate_caps_def negotiated_families_def Let_def
      filter_empty_conv fset_eq_iff IPV4_UNICAST_def split: if_splits)

end
