(* ===== verification/Framer.thy ===== *)
theory Framer
  imports Octets
begin

text \<open>
  Framing (\<open>Framer\<close> of \<open>plugins/bgp/wire.pyx\<close> with \<open>_bgp_msg_header\<close> of
  \<open>core/inetpkt.pyx\<close>): splitting the octets a TCP connection delivers into whole BGP messages.
  The buffer is a byte string with a moving start; a stretch of a parse buffer
  \<open>[s, e)\<close> is given to the primitives as the list of its octets. A length field is the
  integer it stands for.

  A \<open>bytearray\<close> cannot be resized while a memoryview of it is alive: the deletion in \<open>_compact\<close>
  then raises \<open>BufferError\<close> and changes nothing. \<open>next_message\<close> holds such a view from the moment
  it has a whole header in front of it until it returns, so its calls of \<open>_compact\<close> after that
  point can raise. An operation that may raise gives the exception or the result, with the state it leaves.
\<close>

section \<open>Constants\<close>

abbreviation (input) "BGP_HEADER_LEN \<equiv> 19 :: nat"
abbreviation (input) "BGP_MAX_MSG \<equiv> 4096 :: int"
abbreviation (input) "BGP_MAX_MSG_EXT \<equiv> 65535 :: int"
abbreviation (input) "BGP_MIN_OPEN \<equiv> 29 :: int"
abbreviation (input) "BGP_MIN_UPDATE \<equiv> 23 :: int"
abbreviation (input) "BGP_VERSION \<equiv> 4 :: byte"

abbreviation (input) "MSG_OPEN \<equiv> 1 :: byte"
abbreviation (input) "MSG_UPDATE \<equiv> 2 :: byte"
abbreviation (input) "MSG_NOTIFICATION \<equiv> 3 :: byte"
abbreviation (input) "MSG_KEEPALIVE \<equiv> 4 :: byte"
abbreviation (input) "MSG_ROUTE_REFRESH \<equiv> 5 :: byte"

definition MSG_NAMES :: "(byte, string) pydict" where
  "MSG_NAMES = [(MSG_OPEN, ''OPEN''), (MSG_UPDATE, ''UPDATE''), (MSG_NOTIFICATION, ''NOTIFICATION''),
    (MSG_KEEPALIVE, ''KEEPALIVE''), (MSG_ROUTE_REFRESH, ''ROUTE-REFRESH'')]"

definition MARKER :: bytestr where
  "MARKER = replicate 16 0xff"

section \<open>The message header\<close>

definition bgp_msg_header :: "bytestr \<Rightarrow> (int \<times> byte) option" where
  "bgp_msg_header p = (if length p < BGP_HEADER_LEN then None else Some (u16_of (drop 16 p), p ! 18))"

definition length_fits_type :: "byte \<Rightarrow> int \<Rightarrow> bool" where
  "length_fits_type mtype mlen =
    (if mtype = MSG_KEEPALIVE then mlen = 19
     else if mtype = MSG_OPEN then BGP_MIN_OPEN \<le> mlen \<and> mlen \<le> BGP_MAX_MSG
     else if mtype = MSG_UPDATE then BGP_MIN_UPDATE \<le> mlen
     else if mtype = MSG_NOTIFICATION then 19 + 2 \<le> mlen
     else if mtype = MSG_ROUTE_REFRESH then 19 + 4 \<le> mlen
     else True)"

section \<open>The framer\<close>

record framer =
  f_buf :: bytestr
  f_start :: nat
  f_max_msg :: int
  f_messages :: nat
  f_bytes_in :: nat
  f_error_code :: int
  f_error_subcode :: int
  f_error_detail :: "string option"
  f_error_data :: "bytestr option"

definition new_framer :: "int \<Rightarrow> framer" where
  "new_framer max_msg = \<lparr>f_buf = [], f_start = 0, f_max_msg = max_msg, f_messages = 0, f_bytes_in = 0,
    f_error_code = 0, f_error_subcode = 0, f_error_detail = None, f_error_data = None\<rparr>"

definition framer_fault :: "int \<Rightarrow> int \<Rightarrow> string \<Rightarrow> bytestr option \<Rightarrow> framer \<Rightarrow> framer" where
  "framer_fault code subcode detail dat f =
    (if f_error_code f = 0
     then f\<lparr>f_error_code := code, f_error_subcode := subcode, f_error_detail := Some detail, f_error_data := dat\<rparr>
     else f)"

definition framer_failed :: "framer \<Rightarrow> bool" where
  "framer_failed f \<longleftrightarrow> f_error_code f \<noteq> 0"

definition framer_pending :: "framer \<Rightarrow> nat" where
  "framer_pending f = length (f_buf f) - f_start f"

definition set_max_msg :: "int \<Rightarrow> framer \<Rightarrow> framer" where
  "set_max_msg max_msg f = f\<lparr>f_max_msg := max_msg\<rparr>"

definition feed :: "bytestr \<Rightarrow> framer \<Rightarrow> nat \<times> framer" where
  "feed dat f =
    (if dat = [] then (0, f)
     else (length dat, f\<lparr>f_buf := f_buf f @ dat, f_bytes_in := f_bytes_in f + length dat\<rparr>))"

definition resize_error :: py_error where
  "resize_error = BufferError ''Existing exports of data: object cannot be re-sized''"

definition framer_compact :: "bool \<Rightarrow> framer \<Rightarrow> unit result \<times> framer" where
  \<comment> \<open>\<open>viewed\<close>: a memoryview of the buffer is alive\<close>
  "framer_compact viewed f =
    (if f_start f \<noteq> 0 \<and> (65536 \<le> f_start f \<or> length (f_buf f) \<le> f_start f * 2)
     then if viewed then (Inl resize_error, f)
       else (Inr (), f\<lparr>f_buf := drop (f_start f) (f_buf f), f_start := 0\<rparr>)
     else (Inr (), f))"

definition compact_none :: "bool \<Rightarrow> framer \<Rightarrow> 'a option result \<times> framer" where
  \<comment> \<open>\<open>self._compact(); return None\<close>\<close>
  "compact_none viewed f =
    (case framer_compact viewed f of (Inl e, g) \<Rightarrow> (Inl e, g) | (Inr _, g) \<Rightarrow> (Inr None, g))"

definition framer_reset :: "framer \<Rightarrow> framer" where
  "framer_reset f = f\<lparr>f_buf := [], f_start := 0, f_error_code := 0, f_error_subcode := 0,
    f_error_detail := None, f_error_data := None\<rparr>"

definition hex_digit :: "nat \<Rightarrow> char" where
  "hex_digit n = ''0123456789abcdef'' ! n"

definition hex02 :: "byte \<Rightarrow> string" where
  \<comment> \<open>\<open>%02x\<close>\<close>
  "hex02 b = [hex_digit (unat b div 16), hex_digit (unat b mod 16)]"

definition bad_marker :: "bytestr \<Rightarrow> nat option" where
  "bad_marker p = find (\<lambda>i. p ! i \<noteq> 0xff) [0..<16]"

definition next_message :: "framer \<Rightarrow> (byte \<times> bytestr) option result \<times> framer" where
  "next_message f =
    (if f_error_code f \<noteq> 0 then (Inr None, f)
     else let p = drop (f_start f) (f_buf f); avail = length (f_buf f) - f_start f in
     if avail < BGP_HEADER_LEN then compact_none False f
     else case bad_marker p of
       Some i \<Rightarrow> (Inr None, framer_fault 1 1 (''connection not synchronised: marker byte '' @ nat_str i @ '' is 0x'' @ hex02 (p ! i)) None f)
     | None \<Rightarrow>
       (case bgp_msg_header p of
         None \<Rightarrow> compact_none True f
       | Some (mlen, mtype) \<Rightarrow>
         if mlen < 19 \<or> f_max_msg f < mlen
         then (Inr None, framer_fault 1 2 (''bad message length '' @ int_str mlen @ '' (allowed 19..'' @ int_str (f_max_msg f) @ '')'')
                (Some (be16 mlen)) f)
         else if mtype < MSG_OPEN \<or> MSG_ROUTE_REFRESH < mtype
         then (Inr None, framer_fault 1 3 (''bad message type '' @ nat_str (unat mtype)) (Some [mtype]) f)
         else if \<not> length_fits_type mtype mlen
         then (Inr None, framer_fault 1 2 (''bad message length '' @ int_str mlen @ '' for ''
                @ get_default (dict_get MSG_NAMES mtype) (nat_str (unat mtype))) (Some (be16 mlen)) f)
         else if int avail < mlen then compact_none True f
         else (Inr (Some (mtype, take (nat mlen) p)),
               f\<lparr>f_start := f_start f + nat mlen, f_messages := f_messages f + 1\<rparr>)))"

lemma compact_none_no_message: "compact_none viewed f \<noteq> (Inr (Some m), g)"
  by (simp add: compact_none_def framer_compact_def)

lemma next_message_shorter: "next_message f = (Inr (Some m), f') \<Longrightarrow> framer_pending f' < framer_pending f"
  by (auto simp: next_message_def framer_pending_def Let_def compact_none_no_message split: if_splits option.splits)

text \<open>The list of the messages taken so far is local to the loop: an exception loses it.\<close>

function messages_available :: "framer \<Rightarrow> (byte \<times> bytestr) list result \<times> framer" where
  "messages_available f =
    (case next_message f of
      (Inl e, f') \<Rightarrow> (Inl e, f')
    | (Inr None, f') \<Rightarrow> (Inr [], f')
    | (Inr (Some m), f') \<Rightarrow>
       (case messages_available f' of (Inl e, g) \<Rightarrow> (Inl e, g) | (Inr ms, g) \<Rightarrow> (Inr (m # ms), g)))"
  by auto
termination
  by (relation "measure framer_pending") (auto dest!: next_message_shorter [OF sym])

declare messages_available.simps [simp del]

end
