(* ===== verification/WireDecode.thy ===== *)
theory WireDecode
  imports Framer Capabilities AddrText BgpErrors
begin

text \<open>
  Decoding BGP messages (the decoders of \<open>plugins/bgp/wire.pyx\<close> and the primitives of
  \<open>core/inetpkt.pyx\<close> they step with). A primitive is given the octets of its window and
  returns the fields it read with the octets they leave, or nothing where the source returns
  \<open>-1\<close>; a claimed length is returned beside them, because the callers compare it with what is
  there. A fault is the attribute type and the reason that the RFC 7606 matrix judges; its
  text is left out. An UPDATE is decoded without touching a table: the result is a record.
\<close>

section \<open>Stepping primitives\<close>

definition bgp_open_fixed :: "bool \<Rightarrow> bytestr \<Rightarrow> (byte \<times> int \<times> int \<times> u32 \<times> bool \<times> nat) option" where
  \<comment> \<open>version, AS, hold time, identifier, whether the extended form was found, claimed length\<close>
  "bgp_open_fixed allow_ext p =
    (if length p < 10 then None
     else let olen = unat (p ! 9);
              ext = (allow_ext \<and> olen \<noteq> 0 \<and> 3 \<le> length (drop 10 p) \<and> p ! 10 = 255) in
       Some (p ! 0, u16_of (drop 1 p), u16_of (drop 3 p), rd32 (drop 5 p), ext,
             if ext then unat (rd16 (drop 11 p)) else olen))"

definition bgp_cap_next :: "bytestr \<Rightarrow> (byte \<times> nat) option" where
  \<comment> \<open>code and claimed length; the value begins after two octets\<close>
  "bgp_cap_next p = (if length p < 2 then None else Some (p ! 0, unat (p ! 1)))"

definition bgp_attr_next :: "bytestr \<Rightarrow> (byte \<times> byte \<times> nat \<times> nat) option" where
  \<comment> \<open>flags, type, octets of the header, claimed length\<close>
  "bgp_attr_next p =
    (if length p < 2 then None
     else if p ! 0 AND 0x10 \<noteq> 0
     then if length p < 4 then None else Some (p ! 0, p ! 1, 4, unat (rd16 (drop 2 p)))
     else if length p < 3 then None else Some (p ! 0, p ! 1, 3, unat (p ! 2)))"

definition nlri_addr_bytes :: "byte \<Rightarrow> nat" where
  "nlri_addr_bytes len = (unat len + 7) div 8"

definition bgp_nlri_next :: "bool \<Rightarrow> nat \<Rightarrow> bytestr \<Rightarrow> (u32 \<times> byte \<times> bytestr \<times> bytestr) option" where
  \<comment> \<open>path identifier, prefix length, address octets, what follows\<close>
  "bgp_nlri_next add_path max_addr_bytes p =
    (if p = [] then None
     else if add_path \<and> length p < 4 then None
     else let path_id = (if add_path then rd32 p else 0);
              q = (if add_path then drop 4 p else p) in
       if length q < 1 then None
       else let nbytes = nlri_addr_bytes (q ! 0) in
         if max_addr_bytes < nbytes \<or> length (drop 1 q) < nbytes then None
         else Some (path_id, q ! 0, take nbytes (drop 1 q), drop nbytes (drop 1 q)))"

definition bgp_mp_reach_hdr :: "bytestr \<Rightarrow> (int \<times> int \<times> (bytestr \<times> bytestr) option) option" where
  \<comment> \<open>family, and the next hop with the octets after the reserved one where it is all there\<close>
  "bgp_mp_reach_hdr p =
    (if length p < 3 then None
     else Some (u16_of p, uint (p ! 2),
       if length p < 4 then None
       else let nhlen = unat (p ! 3) in
         if length (drop 4 p) < nhlen then None
         else Some (take nhlen (drop 4 p), drop (nhlen + 1) (drop 4 p))))"

definition bgp_mp_unreach_hdr :: "bytestr \<Rightarrow> (int \<times> int \<times> bytestr) option" where
  "bgp_mp_unreach_hdr p = (if length p < 3 then None else Some (u16_of p, uint (p ! 2), drop 3 p))"

definition bgp_aspath_seg_next :: "bytestr \<Rightarrow> (byte \<times> byte) option" where
  \<comment> \<open>segment type and the number of AS numbers it claims\<close>
  "bgp_aspath_seg_next p = (if length p < 2 then None else Some (p ! 0, p ! 1))"

section \<open>NLRI\<close>

type_synonym nlri = "prefix \<times> u32"

definition pfx_new :: "nat \<Rightarrow> nat \<Rightarrow> bytestr \<Rightarrow> prefix" where
  "pfx_new afi len addr = \<lparr>pafi = afi, pbits = take len (bytes_bits addr)\<rparr>"

definition host_bits_set :: "byte \<Rightarrow> bytestr \<Rightarrow> bool" where
  "host_bits_set len addr \<longleftrightarrow>
    len AND 7 \<noteq> 0 \<and> (addr ! (nlri_addr_bytes len - 1)) AND drop_bit (unat (len AND 7)) 0xff \<noteq> 0"

lemma nlri_next_shorter: "bgp_nlri_next ap mx p = Some (i, l, a, r) \<Longrightarrow> length r < length p"
  by (auto simp: bgp_nlri_next_def Let_def split: if_splits)

text \<open>The prefixes read, how many had host bits set, and whether the run was well formed; the
  prefixes before a bad entry stay in the list.\<close>

function nlri_run :: "bool \<Rightarrow> nat \<Rightarrow> bytestr \<Rightarrow> nlri list \<times> nat \<times> bool" where
  "nlri_run add_path afi p =
    (if p = [] then ([], 0, True)
     else case bgp_nlri_next add_path (addr_len afi) p of
       None \<Rightarrow> ([], 0, False)
     | Some (path_id, len, addr, rest) \<Rightarrow>
         if addr_bits afi < unat len then ([], 0, False)
         else (case nlri_run add_path afi rest of (out, host_bits, ok) \<Rightarrow>
           ((pfx_new afi (unat len) addr, path_id) # out,
            (if host_bits_set len addr then 1 else 0) + host_bits, ok)))"
  by auto
termination
  by (relation "measure (\<lambda>(_, _, p). length p)") (auto dest: nlri_next_shorter)

declare nlri_run.simps [simp del]

definition read_nlri :: "bool \<Rightarrow> nat \<Rightarrow> bytestr \<Rightarrow> nlri list \<times> nat \<times> bool" where
  "read_nlri add_path afi p = (if addr_len afi = 0 then ([], 0, False) else nlri_run add_path afi p)"

section \<open>The AS_PATH\<close>

definition asn_width :: "bool \<Rightarrow> nat" where
  "asn_width as4 = (if as4 then 4 else 2)"

function canon_segments :: "bool \<Rightarrow> bytestr \<Rightarrow> bytestr option" where
  "canon_segments as4 p =
    (if p = [] then Some []
     else case bgp_aspath_seg_next p of
       None \<Rightarrow> None
     | Some (seg_type, count) \<Rightarrow>
         if seg_type \<noteq> AS_SEQUENCE \<and> seg_type \<noteq> AS_SET \<and> seg_type \<noteq> AS_CONFED_SEQUENCE \<and> seg_type \<noteq> AS_CONFED_SET
         then None
         else if count = 0 then None
         else if length (drop 2 p) < unat count * asn_width as4 then None
         else map_option (\<lambda>rest.
           seg_type # count # concat (map (\<lambda>i. 0 # 0 # be16 (u16_of (drop (i * 2) (drop 2 p)))) [0..<unat count]) @ rest)
           (canon_segments as4 (drop (unat count * asn_width as4) (drop 2 p))))"
  by auto
termination
  by (relation "measure (\<lambda>(_, p). length p)") (auto simp: bgp_aspath_seg_next_def split: if_splits)

declare canon_segments.simps [simp del]

text \<open>On a four-octet session the walk only checks, and the value is copied whole.\<close>

definition canon_as_path :: "bool \<Rightarrow> bytestr \<Rightarrow> bytestr option" where
  "canon_as_path as4 p = map_option (\<lambda>out. if as4 then p else out) (canon_segments as4 p)"

type_synonym segment = "byte \<times> u32 list"

definition split_segments :: "bytestr \<Rightarrow> segment list" where
  "split_segments path = as_segments path"

definition join_segment :: "segment \<Rightarrow> bytestr" where
  "join_segment s =
    (if snd s = [] then []
     else concat (map (\<lambda>chunk. seg_bytes (uint (fst s)) (map uint chunk)) (chunks255 (snd s))))"

definition join_segments :: "segment list \<Rightarrow> bytestr" where
  "join_segments segs = concat (map join_segment segs)"

fun count_asns :: "segment list \<Rightarrow> nat" where
  "count_asns [] = 0"
| "count_asns ((seg_type, asns) # segs) =
    (if seg_type = AS_SEQUENCE then length asns else if seg_type = AS_SET then 1 else 0) + count_asns segs"

fun merge_head :: "nat \<Rightarrow> nat \<Rightarrow> segment list \<Rightarrow> segment list" where
  "merge_head keep taken [] = []"
| "merge_head keep taken ((seg_type, asns) # segs) =
    (if seg_type = AS_CONFED_SEQUENCE \<or> seg_type = AS_CONFED_SET
     then (seg_type, asns) # merge_head keep taken segs
     else if keep \<le> taken then []
     else if seg_type = AS_SET then (seg_type, asns) # merge_head keep (taken + 1) segs
     else if length asns \<le> keep - taken then (seg_type, asns) # merge_head keep (taken + length asns) segs
     else (seg_type, take (keep - taken) asns) # merge_head keep keep segs)"

definition merge_as4 :: "bytestr \<Rightarrow> bytestr \<Rightarrow> bytestr" where
  "merge_as4 as_path as4_path =
    (let segs = split_segments as_path; segs4 = split_segments as4_path;
         n = count_asns segs; n4 = count_asns segs4 in
     if segs4 = [] then as_path
     else if n < n4 then as_path
     else join_segments (merge_head (n - n4) 0 segs @ segs4))"

section \<open>The session's settings\<close>

record decode_ctx =
  ctx_as4 :: bool
  ctx_is_ebgp :: bool
  ctx_local_as :: u32
  ctx_peer_as :: u32
  ctx_add_path :: "family fset"
  ctx_max_msg :: int
  ctx_families :: "family fset"

definition add_path_for :: "decode_ctx \<Rightarrow> int \<Rightarrow> int \<Rightarrow> bool" where
  "add_path_for ctx afi safi = (if ctx_add_path ctx = {||} then False else (afi, safi) |\<in>| ctx_add_path ctx)"

definition wire_family_ok :: "decode_ctx \<Rightarrow> int \<Rightarrow> int \<Rightarrow> bool" where
  "wire_family_ok ctx afi safi =
    (if afi \<noteq> 1 \<and> afi \<noteq> 2 \<or> safi \<noteq> 1 then False
     else if ctx_families ctx \<noteq> {||} \<and> (afi, safi) |\<notin>| ctx_families ctx then False
     else True)"

section \<open>OPEN\<close>

type_synonym fault = "int \<times> reason"

record open_msg =
  om_version :: byte
  om_my_as :: int
  om_my_as_wire :: int
  om_hold_time :: int
  om_bgp_id :: u32
  om_capabilities :: "tlv list"
  om_unsupported_params :: "tlv list"
  om_errors :: "fault list"

definition blank_open :: open_msg where
  "blank_open = \<lparr>om_version = 0, om_my_as = 0, om_my_as_wire = 0, om_hold_time = 0, om_bgp_id = 0,
    om_capabilities = [], om_unsupported_params = [], om_errors = []\<rparr>"

definition open_fault :: "reason \<Rightarrow> open_msg \<Rightarrow> open_msg" where
  "open_fault r m = m\<lparr>om_errors := om_errors m @ [(ATTR_LIST, r)]\<rparr>"

function read_capabilities :: "bytestr \<Rightarrow> open_msg \<Rightarrow> open_msg" where
  "read_capabilities p m =
    (if p = [] then m
     else case bgp_cap_next p of
       None \<Rightarrow> open_fault REASON_UNPARSEABLE m
     | Some (code, len) \<Rightarrow>
         if length (drop 2 p) < len then open_fault REASON_LENGTH m
         else let v = take len (drop 2 p);
                  m = (if code = 65 \<and> len = 4 then m\<lparr>om_my_as := u32_of v\<rparr> else m);
                  m = m\<lparr>om_capabilities := om_capabilities m @ [(uint code, v)]\<rparr> in
           read_capabilities (drop len (drop 2 p)) m)"
  by auto
termination
  by (relation "measure (\<lambda>(p, _). length p)") auto

declare read_capabilities.simps [simp del]

text \<open>One parameter: its type, the octets of its header and its claimed length. In the
  extended format a parameter that overruns the block is not stepped over at all.\<close>

definition param_next :: "bool \<Rightarrow> bytestr \<Rightarrow> (byte \<times> nat \<times> nat) option" where
  "param_next extended p =
    (if extended
     then if length p < 3 then None
          else let len = unat (rd16 (drop 1 p)) in
            if length (drop 3 p) < len then None else Some (p ! 0, 3, len)
     else map_option (\<lambda>(ptype, len). (ptype, 2, len)) (bgp_cap_next p))"

lemma param_next_hdr: "param_next x p = Some (t, h, len) \<Longrightarrow> 2 \<le> h \<and> h \<le> length p"
  by (auto simp: param_next_def bgp_cap_next_def Let_def split: if_splits)

function read_params :: "bool \<Rightarrow> bytestr \<Rightarrow> open_msg \<Rightarrow> open_msg" where
  "read_params extended p m =
    (if p = [] then m
     else case param_next extended p of
       None \<Rightarrow> open_fault REASON_UNPARSEABLE m
     | Some (ptype, hdr, len) \<Rightarrow>
         if length (drop hdr p) < len then open_fault REASON_LENGTH m
         else let v = take len (drop hdr p);
                  m = (if ptype = 2 then read_capabilities v m
                       else m\<lparr>om_unsupported_params := om_unsupported_params m @ [(uint ptype, v)]\<rparr>) in
           read_params extended (drop len (drop hdr p)) m)"
  by auto
termination
  by (relation "measure (\<lambda>(_, p, _). length p)") (auto dest!: param_next_hdr)

declare read_params.simps [simp del]

definition decode_open :: "bytestr \<Rightarrow> open_msg" where
  "decode_open msg =
    (if int (length msg) < BGP_MIN_OPEN then open_fault REASON_LENGTH blank_open
     else case bgp_open_fixed True (drop 19 msg) of
       None \<Rightarrow> open_fault REASON_LENGTH blank_open
     | Some (ver, my_as, hold, bgp_id, extended, olen) \<Rightarrow>
         let m = blank_open\<lparr>om_version := ver, om_my_as := my_as, om_my_as_wire := my_as,
                   om_hold_time := hold, om_bgp_id := bgp_id\<rparr>;
             p = drop (if extended then 13 else 10) (drop 19 msg);
             m = (if length p < olen then open_fault REASON_LENGTH m else m) in
         read_params extended (take olen p) m)"

section \<open>NOTIFICATION and ROUTE-REFRESH\<close>

record notification_msg =
  nm_code :: byte
  nm_subcode :: byte
  nm_data :: bytestr

definition decode_notification :: "bytestr \<Rightarrow> notification_msg" where
  "decode_notification msg =
    \<lparr>nm_code = (if 20 \<le> length msg then msg ! 19 else 0),
     nm_subcode = (if 21 \<le> length msg then msg ! 20 else 0),
     nm_data = (if 21 < length msg then drop 21 msg else [])\<rparr>"

record route_refresh_msg =
  rr_afi :: int
  rr_safi :: byte
  rr_subtype :: byte

definition decode_route_refresh :: "bytestr \<Rightarrow> route_refresh_msg option" where
  "decode_route_refresh msg =
    (if length msg < 23 then None
     else Some \<lparr>rr_afi = u16_of (drop 19 msg), rr_safi = msg ! 22, rr_subtype = msg ! 21\<rparr>)"

end
