(* ===== verification/WireUpdate.thy ===== *)
theory WireUpdate
  imports WireDecode
begin

text \<open>
  Decoding an UPDATE (\<open>decode_update\<close> of \<open>plugins/bgp/wire.pyx\<close>, with \<open>_decode_attr\<close>,
  \<open>_decode_mp_reach\<close>, \<open>_decode_mp_unreach\<close>, \<open>_check_mandatory\<close> and \<open>_is_end_of_rib\<close>). The
  state of a decode is the message under construction extended by the decoder's own
  variables: the attribute set, the types seen, the two AS4 values carried to the end, and
  which mandatory attributes were there.
\<close>

section \<open>Constants\<close>

abbreviation (input) "ATTR_ORIGIN \<equiv> 1 :: byte"
abbreviation (input) "ATTR_AS_PATH \<equiv> 2 :: byte"
abbreviation (input) "ATTR_NEXT_HOP \<equiv> 3 :: byte"
abbreviation (input) "ATTR_MED \<equiv> 4 :: byte"
abbreviation (input) "ATTR_LOCAL_PREF \<equiv> 5 :: byte"
abbreviation (input) "ATTR_ATOMIC_AGGREGATE \<equiv> 6 :: byte"
abbreviation (input) "ATTR_AGGREGATOR \<equiv> 7 :: byte"
abbreviation (input) "ATTR_COMMUNITIES \<equiv> 8 :: byte"
abbreviation (input) "ATTR_ORIGINATOR_ID \<equiv> 9 :: byte"
abbreviation (input) "ATTR_CLUSTER_LIST \<equiv> 10 :: byte"
abbreviation (input) "ATTR_MP_REACH \<equiv> 14 :: byte"
abbreviation (input) "ATTR_MP_UNREACH \<equiv> 15 :: byte"
abbreviation (input) "ATTR_EXT_COMMUNITIES \<equiv> 16 :: byte"
abbreviation (input) "ATTR_AS4_PATH \<equiv> 17 :: byte"
abbreviation (input) "ATTR_AS4_AGGREGATOR \<equiv> 18 :: byte"
abbreviation (input) "ATTR_LARGE_COMMUNITY \<equiv> 32 :: byte"

abbreviation (input) "AFLAG_OPTIONAL \<equiv> 0x80 :: byte"
abbreviation (input) "AFLAG_TRANSITIVE \<equiv> 0x40 :: byte"
abbreviation (input) "AFLAG_PARTIAL \<equiv> 0x20 :: byte"
abbreviation (input) "AFLAG_EXT_LEN \<equiv> 0x10 :: byte"

abbreviation (input) "ORIGIN_INCOMPLETE \<equiv> 2 :: byte"

definition AGGREGATOR_AS_TRANS :: bytestr where
  "AGGREGATOR_AS_TRANS = [0, 0, 0x5b, 0xa0]"

section \<open>The message and the decoder's state\<close>

type_synonym mp_reach = "int \<times> int \<times> bytestr \<times> bytestr \<times> nlri list"
type_synonym mp_unreach = "int \<times> int \<times> nlri list"

record update_msg =
  u_withdrawn :: "nlri list"
  u_nlri :: "nlri list"
  u_attrs :: "attr_set option"
  u_has_attrs :: bool
  u_mp_reach :: "mp_reach option"
  u_mp_unreach :: "mp_unreach option"
  u_errors :: "fault list"
  u_end_of_rib :: bool
  u_host_bits :: nat

record dec_state = update_msg +
  v_attrs :: attr_set
  v_seen :: "byte list"
  v_as4_path :: "bytestr option"
  v_as4_aggregator :: "bytestr option"
  v_saw_origin :: bool
  v_saw_as_path :: bool
  v_saw_nexthop :: bool

definition dec_start :: dec_state where
  "dec_start = \<lparr>u_withdrawn = [], u_nlri = [], u_attrs = None, u_has_attrs = False, u_mp_reach = None,
    u_mp_unreach = None, u_errors = [], u_end_of_rib = False, u_host_bits = 0, v_attrs = attrs_blank,
    v_seen = [], v_as4_path = None, v_as4_aggregator = None, v_saw_origin = False,
    v_saw_as_path = False, v_saw_nexthop = False\<rparr>"

definition add_fault :: "int \<Rightarrow> reason \<Rightarrow> dec_state \<Rightarrow> dec_state" where
  "add_fault t r st = st\<lparr>u_errors := u_errors st @ [(t, r)]\<rparr>"

definition attr_fault :: "byte \<Rightarrow> reason \<Rightarrow> dec_state \<Rightarrow> dec_state" where
  "attr_fault t r st = add_fault (uint t) r st"

definition upd_attrs :: "(attr_set \<Rightarrow> attr_set) \<Rightarrow> dec_state \<Rightarrow> dec_state" where
  "upd_attrs g st = st\<lparr>v_attrs := g (v_attrs st)\<rparr>"

section \<open>One attribute\<close>

definition is_optional :: "byte \<Rightarrow> bool" where
  "is_optional flags \<longleftrightarrow> flags AND AFLAG_OPTIONAL \<noteq> 0"

definition is_transitive :: "byte \<Rightarrow> bool" where
  "is_transitive flags \<longleftrightarrow> flags AND AFLAG_TRANSITIVE \<noteq> 0"

definition bad_well_known :: "byte \<Rightarrow> bool" where
  "bad_well_known flags \<longleftrightarrow> is_optional flags \<or> \<not> is_transitive flags \<or> flags AND AFLAG_PARTIAL \<noteq> 0"

text \<open>The shape every branch has: the flags, the length, then the value.\<close>

definition checked :: "byte \<Rightarrow> bool \<Rightarrow> bool \<Rightarrow> (dec_state \<Rightarrow> dec_state) \<Rightarrow> dec_state \<Rightarrow> dec_state" where
  "checked t bad_flags bad_length g st =
    (if bad_flags then attr_fault t REASON_FLAGS st
     else if bad_length then attr_fault t REASON_LENGTH st
     else g st)"

definition reencode_attr :: "byte \<Rightarrow> byte \<Rightarrow> bytestr \<Rightarrow> bytestr" where
  "reencode_attr flags atype v =
    (let flags = (if 255 < length v then flags OR AFLAG_EXT_LEN else flags AND NOT AFLAG_EXT_LEN) in
     [flags, atype]
     @ (if flags AND AFLAG_EXT_LEN \<noteq> 0 then be16 (int (length v)) else be8 (int (length v)))
     @ v)"

definition mp_nexthop :: "int \<Rightarrow> bytestr \<Rightarrow> (bytestr \<times> bytestr) option" where
  "mp_nexthop afi nh =
    (if afi = 1 \<and> length nh = 4 then Some (nh, [])
     else if afi = 2 \<and> length nh = 16 then Some (nh, [])
     else if afi = 2 \<and> length nh = 32 then Some (take 16 nh, drop 16 nh)
     else None)"

definition decode_mp_reach :: "decode_ctx \<Rightarrow> bytestr \<Rightarrow> dec_state \<Rightarrow> dec_state" where
  "decode_mp_reach ctx v st =
    (case bgp_mp_reach_hdr v of
      None \<Rightarrow> attr_fault ATTR_MP_REACH REASON_LENGTH st
    | Some (afi, safi, None) \<Rightarrow> attr_fault ATTR_MP_REACH REASON_LENGTH st
    | Some (afi, safi, Some (nh, run)) \<Rightarrow>
        if \<not> wire_family_ok ctx afi safi then attr_fault ATTR_MP_REACH REASON_UNNEGOTIATED st
        else case mp_nexthop afi nh of
          None \<Rightarrow> attr_fault ATTR_MP_REACH REASON_LENGTH st
        | Some (nexthop, nexthop_local) \<Rightarrow>
          (case read_nlri (add_path_for ctx afi safi) (nat afi) run of (pfxs, host_bits, ok) \<Rightarrow>
            let st = st\<lparr>u_host_bits := u_host_bits st + host_bits\<rparr> in
            if \<not> ok then attr_fault ATTR_MP_REACH REASON_UNPARSEABLE st
            else (upd_attrs (\<lambda>a. a\<lparr>a_nexthop := nexthop, a_nexthop_local := nexthop_local\<rparr>) st)
              \<lparr>u_mp_reach := Some (afi, safi, nexthop, nexthop_local, pfxs)\<rparr>))"

definition decode_mp_unreach :: "decode_ctx \<Rightarrow> bytestr \<Rightarrow> dec_state \<Rightarrow> dec_state" where
  "decode_mp_unreach ctx v st =
    (case bgp_mp_unreach_hdr v of
      None \<Rightarrow> attr_fault ATTR_MP_UNREACH REASON_LENGTH st
    | Some (afi, safi, run) \<Rightarrow>
        if \<not> wire_family_ok ctx afi safi then attr_fault ATTR_MP_UNREACH REASON_UNNEGOTIATED st
        else (case read_nlri (add_path_for ctx afi safi) (nat afi) run of (pfxs, host_bits, ok) \<Rightarrow>
          let st = st\<lparr>u_host_bits := u_host_bits st + host_bits\<rparr> in
          if \<not> ok then attr_fault ATTR_MP_UNREACH REASON_UNPARSEABLE st
          else st\<lparr>u_mp_unreach := Some (afi, safi, pfxs)\<rparr>))"

definition decode_attr :: "decode_ctx \<Rightarrow> byte \<Rightarrow> byte \<Rightarrow> bytestr \<Rightarrow> dec_state \<Rightarrow> dec_state" where
  "decode_attr ctx flags t v st =
    (let opt = is_optional flags; trans = is_transitive flags; well_known = bad_well_known flags;
         n = length v in
     if t = ATTR_ORIGIN then
       checked t well_known (n \<noteq> 1)
         (\<lambda>st. if ORIGIN_INCOMPLETE < v ! 0 then attr_fault t REASON_VALUE st
               else upd_attrs (\<lambda>a. a\<lparr>a_origin := v ! 0\<rparr>) st)
         (st\<lparr>v_saw_origin := True\<rparr>)
     else if t = ATTR_AS_PATH then
       checked t well_known False
         (\<lambda>st. case canon_as_path (ctx_as4 ctx) v of
             None \<Rightarrow> attr_fault t REASON_VALUE st
           | Some canon \<Rightarrow> upd_attrs (\<lambda>a. a\<lparr>a_as_path := canon\<rparr>) st)
         (st\<lparr>v_saw_as_path := True\<rparr>)
     else if t = ATTR_NEXT_HOP then
       checked t well_known (n \<noteq> 4) (upd_attrs (\<lambda>a. a\<lparr>a_nexthop := v\<rparr>)) (st\<lparr>v_saw_nexthop := True\<rparr>)
     else if t = ATTR_MED then
       checked t (\<not> opt \<or> trans) (n \<noteq> 4)
         (upd_attrs (\<lambda>a. a\<lparr>a_med := rd32 v, a_flags := a_flags a OR ATTRF_MED\<rparr>)) st
     else if t = ATTR_LOCAL_PREF then
       checked t well_known (n \<noteq> 4)
         (\<lambda>st. if ctx_is_ebgp ctx then attr_fault t REASON_VALUE st
               else upd_attrs (\<lambda>a. a\<lparr>a_local_pref := rd32 v, a_flags := a_flags a OR ATTRF_LOCAL_PREF\<rparr>) st) st
     else if t = ATTR_ATOMIC_AGGREGATE then
       checked t well_known (n \<noteq> 0)
         (upd_attrs (\<lambda>a. a\<lparr>a_flags := a_flags a OR ATTRF_ATOMIC_AGGREGATE\<rparr>)) st
     else if t = ATTR_AGGREGATOR then
       checked t (\<not> opt \<or> \<not> trans) (n \<noteq> (if ctx_as4 ctx then 8 else 6))
         (upd_attrs (\<lambda>a. a\<lparr>a_aggregator := if ctx_as4 ctx then v else [0, 0] @ take 2 v @ drop 2 v\<rparr>)) st
     else if t = ATTR_COMMUNITIES then
       checked t (\<not> opt \<or> \<not> trans) (n mod 4 \<noteq> 0) (upd_attrs (\<lambda>a. a\<lparr>a_communities := v\<rparr>)) st
     else if t = ATTR_ORIGINATOR_ID then
       checked t (\<not> opt \<or> trans) (n \<noteq> 4)
         (\<lambda>st. if ctx_is_ebgp ctx then attr_fault t REASON_VALUE st
               else upd_attrs (\<lambda>a. a\<lparr>a_originator_id := rd32 v, a_flags := a_flags a OR ATTRF_ORIGINATOR_ID\<rparr>) st) st
     else if t = ATTR_CLUSTER_LIST then
       checked t (\<not> opt \<or> trans) (n mod 4 \<noteq> 0)
         (\<lambda>st. if ctx_is_ebgp ctx then attr_fault t REASON_VALUE st
               else upd_attrs (\<lambda>a. a\<lparr>a_cluster_list := v\<rparr>) st) st
     else if t = ATTR_EXT_COMMUNITIES then
       checked t (\<not> opt \<or> \<not> trans) (n mod 8 \<noteq> 0) (upd_attrs (\<lambda>a. a\<lparr>a_ext_communities := v\<rparr>)) st
     else if t = ATTR_LARGE_COMMUNITY then
       checked t (\<not> opt \<or> \<not> trans) (n mod 12 \<noteq> 0) (upd_attrs (\<lambda>a. a\<lparr>a_large_communities := v\<rparr>)) st
     else if t = ATTR_AS4_PATH then
       checked t (\<not> opt \<or> \<not> trans) False
         (\<lambda>st. case canon_as_path True v of
             None \<Rightarrow> attr_fault t REASON_VALUE st
           | Some canon \<Rightarrow> if ctx_as4 ctx then st else st\<lparr>v_as4_path := Some canon\<rparr>) st
     else if t = ATTR_AS4_AGGREGATOR then
       checked t (\<not> opt \<or> \<not> trans) (n \<noteq> 8)
         (\<lambda>st. if ctx_as4 ctx then st else st\<lparr>v_as4_aggregator := Some v\<rparr>) st
     else if t = ATTR_MP_REACH then checked t (\<not> opt \<or> trans) False (decode_mp_reach ctx v) st
     else if t = ATTR_MP_UNREACH then checked t (\<not> opt \<or> trans) False (decode_mp_unreach ctx v) st
     else if \<not> opt then attr_fault t REASON_VALUE st
     else if trans then upd_attrs (\<lambda>a. a\<lparr>a_unknown := a_unknown a @ reencode_attr (flags OR AFLAG_PARTIAL) t v\<rparr>) st
     else st)"

section \<open>The attribute list\<close>

lemma attr_next_hdr: "bgp_attr_next p = Some (fl, t, h, n) \<Longrightarrow> 3 \<le> h \<and> h \<le> length p"
  by (auto simp: bgp_attr_next_def split: if_splits)

function read_attrs :: "decode_ctx \<Rightarrow> bytestr \<Rightarrow> dec_state \<Rightarrow> dec_state" where
  "read_attrs ctx p st =
    (if p = [] then st
     else case bgp_attr_next p of
       None \<Rightarrow> add_fault ATTR_LIST REASON_UNPARSEABLE st
     | Some (flags, t, hdr, len) \<Rightarrow>
         let body = drop hdr p;
             st = (if length body < len then attr_fault t REASON_LENGTH st
                   else if t \<in> set (v_seen st) then attr_fault t REASON_DUPLICATE st
                   else decode_attr ctx flags t (take len body) (st\<lparr>v_seen := t # v_seen st\<rparr>)) in
         read_attrs ctx (drop len body) st)"
  by auto
termination
  by (relation "measure (\<lambda>(_, p, _). length p)") (auto dest!: attr_next_hdr)

declare read_attrs.simps [simp del]

section \<open>The whole message\<close>

definition check_mandatory :: "dec_state \<Rightarrow> dec_state" where
  "check_mandatory st =
    (let mp_announces = (case u_mp_reach st of None \<Rightarrow> False | Some (_, _, _, _, pfxs) \<Rightarrow> pfxs \<noteq> []) in
     if u_nlri st = [] \<and> \<not> mp_announces then st
     else let st = (if \<not> v_saw_origin st then attr_fault ATTR_ORIGIN REASON_MISSING st else st);
              st = (if \<not> v_saw_as_path st then attr_fault ATTR_AS_PATH REASON_MISSING st else st) in
       if u_nlri st \<noteq> [] \<and> \<not> v_saw_nexthop st then attr_fault ATTR_NEXT_HOP REASON_MISSING st else st)"

definition is_end_of_rib :: "dec_state \<Rightarrow> nat \<Rightarrow> bool" where
  "is_end_of_rib st tpalen =
    (if u_nlri st \<noteq> [] \<or> u_withdrawn st \<noteq> [] then False
     else if u_mp_reach st \<noteq> None then False
     else case u_mp_unreach st of
       Some (_, _, pfxs) \<Rightarrow> pfxs = []
     | None \<Rightarrow> tpalen = 0)"

text \<open>RFC 6793: a real AS in AGGREGATOR makes both carried AS4 values stale.\<close>

definition stale_as4 :: "dec_state \<Rightarrow> bool" where
  "stale_as4 st \<longleftrightarrow> v_as4_aggregator st \<noteq> None \<and> a_aggregator (v_attrs st) \<noteq> []
    \<and> take 4 (a_aggregator (v_attrs st)) \<noteq> AGGREGATOR_AS_TRANS"

definition apply_as4 :: "dec_state \<Rightarrow> dec_state" where
  "apply_as4 st =
    (let st = (if stale_as4 st then st\<lparr>v_as4_path := None, v_as4_aggregator := None\<rparr> else st);
         st = (case v_as4_path st of
                 None \<Rightarrow> st
               | Some p4 \<Rightarrow> upd_attrs (\<lambda>a. a\<lparr>a_as_path := merge_as4 (a_as_path a) p4\<rparr>) st) in
     case v_as4_aggregator st of None \<Rightarrow> st | Some g \<Rightarrow> upd_attrs (\<lambda>a. a\<lparr>a_aggregator := g\<rparr>) st)"

definition finish_update :: "nat \<Rightarrow> dec_state \<Rightarrow> dec_state" where
  "finish_update tpalen st =
    (let st = check_mandatory (apply_as4 st);
         st = st\<lparr>u_attrs := Some (attrs_finalize (v_attrs st))\<rparr> in
     st\<lparr>u_end_of_rib := is_end_of_rib st tpalen\<rparr>)"

definition decode_body :: "decode_ctx \<Rightarrow> bytestr \<Rightarrow> dec_state" where
  "decode_body ctx body =
    (let add_path_v4 = add_path_for ctx 1 1; wlen = unat (rd16 body); after_len = drop 2 body in
     if length after_len < wlen then add_fault ATTR_LIST REASON_LENGTH dec_start
     else case read_nlri add_path_v4 AFI_IP (take wlen after_len) of (withdrawn, wbits, ok) \<Rightarrow>
       let st = dec_start\<lparr>u_withdrawn := withdrawn\<rparr>; rest = drop wlen after_len in
       if \<not> ok then add_fault ATTR_LIST REASON_UNPARSEABLE st
       else if length rest < 2 then add_fault ATTR_LIST REASON_LENGTH st
       else let tpalen = unat (rd16 rest); rest = drop 2 rest in
       if length rest < tpalen then add_fault ATTR_LIST REASON_LENGTH st
       else let st = (read_attrs ctx (take tpalen rest) st)\<lparr>u_has_attrs := 0 < tpalen\<rparr> in
       case read_nlri add_path_v4 AFI_IP (drop tpalen rest) of (nlri, nbits, ok) \<Rightarrow>
         let st = st\<lparr>u_nlri := nlri, u_host_bits := u_host_bits st + (wbits + nbits)\<rparr> in
         if \<not> ok then add_fault ATTR_LIST REASON_UNPARSEABLE st
         else finish_update tpalen st)"

definition decode_update :: "bytestr \<Rightarrow> decode_ctx \<Rightarrow> update_msg" where
  "decode_update msg ctx =
    update_msg.truncate
      (if int (length msg) < BGP_MIN_UPDATE then add_fault ATTR_LIST REASON_LENGTH dec_start
       else decode_body ctx (drop 19 msg))"

definition announce_count :: "update_msg \<Rightarrow> nat \<times> nat" where
  \<comment> \<open>\<open>counts\<close>: announced and withdrawn\<close>
  "announce_count m =
    (length (u_nlri m) + (case u_mp_reach m of None \<Rightarrow> 0 | Some (_, _, _, _, ps) \<Rightarrow> length ps),
     length (u_withdrawn m) + (case u_mp_unreach m of None \<Rightarrow> 0 | Some (_, _, ps) \<Rightarrow> length ps))"

end
