(* ===== verification/WireEncode.thy ===== *)
theory WireEncode
  imports WireUpdate
begin

text \<open>
  Encoding BGP messages (the encoders of \<open>plugins/bgp/wire.pyx\<close> over the \<open>PktWriter\<close> of
  \<open>core/inetpkt.pxd\<close>). The writer is the list of octets written so far: every \<open>w_u8\<close>,
  \<open>w_u16\<close>, \<open>w_u32\<close> and \<open>w_bytes\<close> appends, and \<open>w_set_u16\<close> stores into a field written
  before. A raised \<open>ValueError\<close> is the left value of a sum.
\<close>

section \<open>The writer\<close>

definition w_set_u16 :: "nat \<Rightarrow> int \<Rightarrow> bytestr \<Rightarrow> bytestr" where
  "w_set_u16 off v w = take off w @ be16 v @ drop (off + 2) w"

definition w_header :: "byte \<Rightarrow> bytestr" where
  "w_header mtype = replicate 16 0xff @ be16 0 @ [mtype]"

definition w_finish :: "bytestr \<Rightarrow> bytestr" where
  "w_finish w = w_set_u16 16 (int (length w)) w"

section \<open>The small messages\<close>

definition encode_keepalive :: bytestr where
  "encode_keepalive = w_finish (w_header MSG_KEEPALIVE)"

definition encode_notification :: "int \<Rightarrow> int \<Rightarrow> bytestr \<Rightarrow> bytestr" where
  "encode_notification code subcode dat =
    (let room = 4096 - BGP_HEADER_LEN - 2;
         dat = (if room < length dat then take room dat else dat) in
     w_finish (w_header MSG_NOTIFICATION @ be8 code @ be8 subcode @ dat))"

definition encode_route_refresh :: "int \<Rightarrow> int \<Rightarrow> int \<Rightarrow> bytestr" where
  "encode_route_refresh afi safi subtype =
    w_finish (w_header MSG_ROUTE_REFRESH @ be16 afi @ be8 subtype @ be8 safi)"

definition encode_end_of_rib :: "int \<Rightarrow> int \<Rightarrow> bytestr" where
  "encode_end_of_rib afi safi =
    w_finish (w_header MSG_UPDATE @ be16 0
      @ (if afi = 1 \<and> safi = 1 then be16 0
         else be16 6 @ [AFLAG_OPTIONAL, ATTR_MP_UNREACH, 3] @ be16 afi @ be8 safi))"

section \<open>OPEN\<close>

definition cap_tlv :: "tlv \<Rightarrow> bytestr" where
  "cap_tlv c = be8 (fst c) @ be8 (int (length (snd c))) @ snd c"

fun caps_tlvs :: "tlv list \<Rightarrow> bytestr list result" where
  "caps_tlvs [] = Inr []"
| "caps_tlvs ((code, v) # cs) =
    (if 255 < length v
     then Inl (ValueError (''capability '' @ int_str code @ '' is '' @ nat_str (length v)
       @ '' bytes; a capability value has a one-octet length''
       @ (if code = CAP_ADD_PATH then '' and RFC 7911 keeps ADD-PATH in one instance'' else '''')))
     else bind_res (caps_tlvs cs) (\<lambda>rest. Inr (cap_tlv (code, v) # rest)))"

definition classic_params :: "bytestr list \<Rightarrow> bytestr" where
  "classic_params caps = concat (map (\<lambda>cap. [2] @ be8 (int (length cap)) @ cap) caps)"

definition extended_params :: "bytestr list \<Rightarrow> bytestr" where
  "extended_params caps = concat (map (\<lambda>cap. [2] @ be16 (int (length cap)) @ cap) caps)"

text \<open>A router identifier is a number, the four numbers of a dotted quad, or four octets.
  Converting a Python integer to a C one of fixed width raises \<open>OverflowError\<close> when it does
  not fit.\<close>

datatype router_arg = Router_int int | Router_quad "int list" | Router_bytes bytestr

definition as_u32 :: "int \<Rightarrow> int result" where
  "as_u32 v = (if fits 32 v then Inr v else Inl OverflowError)"

definition as_u16 :: "int \<Rightarrow> int result" where
  "as_u16 v = (if fits 16 v then Inr v else Inl OverflowError)"

definition router_id :: "router_arg \<Rightarrow> int result" where
  "router_id value =
    (case value of
      Router_quad parts \<Rightarrow>
        if length parts \<noteq> 4 then Inl (ValueError ''router id is not a dotted quad'')
        else as_u32 (push_bit 24 (parts ! 0) OR push_bit 16 (parts ! 1) OR push_bit 8 (parts ! 2) OR parts ! 3)
    | Router_bytes bs \<Rightarrow> if length bs = 4 then Inr (u32_of bs) else Inl TypeError
    | Router_int v \<Rightarrow> as_u32 v)"

definition open_fixed_part :: "int \<Rightarrow> int \<Rightarrow> router_arg \<Rightarrow> bytestr result" where
  "open_fixed_part my_as hold_time bgp_id =
    bind_res (as_u16 (if my_as \<le> 0xffff then my_as else uint AS_TRANS)) (\<lambda>asn.
    bind_res (as_u16 hold_time) (\<lambda>hold.
    bind_res (router_id bgp_id) (\<lambda>rid. Inr (BGP_VERSION # be16 asn @ be16 hold @ be32 rid))))"

definition open_params :: "bytestr list \<Rightarrow> bool \<Rightarrow> (bool \<times> bytestr) result" where
  \<comment> \<open>whether the extended format is used, and the parameters\<close>
  "open_params caps extended =
    (let classic = classic_params caps;
         use_ext = (list_ex (\<lambda>cap. 255 < length cap) caps \<or> 255 < length classic) in
     if use_ext then
       if \<not> extended
       then Inl (ValueError (''the optional parameters need '' @ nat_str (length classic)
         @ '' bytes; more than 255 needs RFC 9072 extended parameters, which a peer that does not support them misreads''))
       else Inr (True, extended_params caps)
     else Inr (False, classic))"

definition encode_open :: "int \<Rightarrow> int \<Rightarrow> router_arg \<Rightarrow> tlv list \<Rightarrow> bool \<Rightarrow> bytestr result" where
  "encode_open my_as hold_time bgp_id capabilities extended =
    bind_res (caps_tlvs capabilities) (\<lambda>caps.
    bind_res (open_params caps extended) (\<lambda>(use_ext, params).
    bind_res (open_fixed_part my_as hold_time bgp_id) (\<lambda>fixed.
      if use_ext \<and> 65535 < length params
      then Inl (ValueError (''optional parameters of '' @ nat_str (length params) @ '' bytes do not fit even the extended format''))
      else let out = w_finish (w_header MSG_OPEN @ fixed
             @ (if use_ext then [255, 255] @ be16 (int (length params)) else be8 (int (length params))) @ params) in
      if 4096 < length out
      then Inl (ValueError (''OPEN would be '' @ nat_str (length out) @ '' bytes; RFC 8654 caps it at 4096 regardless of Extended Message''))
      else Inr out)))"

section \<open>Path attributes\<close>

definition w_attr_hdr :: "byte \<Rightarrow> byte \<Rightarrow> nat \<Rightarrow> bytestr" where
  "w_attr_hdr flags atype vlen =
    (let flags = (if 255 < vlen then flags OR AFLAG_EXT_LEN else flags) in
     [flags, atype] @ (if flags AND AFLAG_EXT_LEN \<noteq> 0 then be16 (int vlen) else be8 (int vlen)))"

text \<open>Consecutive chunks of at most 255 AS numbers; an AS that two octets cannot hold becomes
  AS_TRANS and asks for AS4_PATH.\<close>

definition asn16 :: "u32 \<Rightarrow> int" where
  "asn16 asn = (if 0xffff < asn then uint AS_TRANS else uint asn)"

definition downgrade_segment :: "segment \<Rightarrow> bytestr" where
  "downgrade_segment s =
    (if snd s = [] then []
     else concat (map (\<lambda>chunk. be8 (uint (fst s)) @ be8 (int (length chunk)) @ concat (map (\<lambda>n. be16 (asn16 n)) chunk))
       (chunks255 (snd s))))"

definition downgrade_as_path :: "bytestr \<Rightarrow> bytestr \<times> bool" where
  "downgrade_as_path as_path =
    (let segs = split_segments as_path in
     (concat (map downgrade_segment segs), list_ex (\<lambda>s. list_ex (\<lambda>n. 0xffff < n) (snd s)) segs))"

function split_tlvs :: "bytestr \<Rightarrow> (byte \<times> bytestr) list" where
  "split_tlvs blob =
    (if length blob < 3 then []
     else if blob ! 0 AND AFLAG_EXT_LEN \<noteq> 0
     then if length blob < 4 then []
          else let n = 4 + (unat (blob ! 2) * 256 + unat (blob ! 3)) in
            (blob ! 1, take n blob) # split_tlvs (drop n blob)
     else let n = 3 + unat (blob ! 2) in (blob ! 1, take n blob) # split_tlvs (drop n blob))"
  by auto
termination
  by (relation "measure length") auto

declare split_tlvs.simps [simp del]

definition split_unknown :: "bytestr \<Rightarrow> (byte \<times> bytestr) list" where
  "split_unknown blob = sort_key fst (split_tlvs blob)"

text \<open>The sorted unknown attributes below a type, and those that stay for later.\<close>

definition w_unknown_below :: "(byte \<times> bytestr) list \<Rightarrow> int \<Rightarrow> bytestr \<times> (byte \<times> bytestr) list" where
  "w_unknown_below unknown below =
    (concat (map snd (takeWhile (\<lambda>u. uint (fst u) < below) unknown)),
     dropWhile (\<lambda>u. uint (fst u) < below) unknown)"

definition as_trans_needed :: "bytestr \<Rightarrow> bool" where
  "as_trans_needed agg \<longleftrightarrow> agg ! 0 \<noteq> 0 \<or> agg ! 1 \<noteq> 0"

definition w_aggregator :: "attr_set \<Rightarrow> bool \<Rightarrow> bytestr" where
  "w_aggregator a as4 =
    (if length (a_aggregator a) \<noteq> 8 then []
     else if as4 then w_attr_hdr (AFLAG_OPTIONAL OR AFLAG_TRANSITIVE) ATTR_AGGREGATOR 8 @ a_aggregator a
     else w_attr_hdr (AFLAG_OPTIONAL OR AFLAG_TRANSITIVE) ATTR_AGGREGATOR 6
       @ (if as_trans_needed (a_aggregator a) then be16 (uint AS_TRANS) else take 2 (drop 2 (a_aggregator a)))
       @ take 4 (drop 4 (a_aggregator a)))"

definition w_as4 :: "attr_set \<Rightarrow> bytestr" where
  "w_as4 a =
    w_attr_hdr (AFLAG_OPTIONAL OR AFLAG_TRANSITIVE) ATTR_AS4_PATH (length (a_as_path a)) @ a_as_path a
    @ (if length (a_aggregator a) = 8 \<and> as_trans_needed (a_aggregator a)
       then w_attr_hdr (AFLAG_OPTIONAL OR AFLAG_TRANSITIVE) ATTR_AS4_AGGREGATOR 8 @ a_aggregator a else [])"

definition w_attrs :: "attr_set \<Rightarrow> bool \<Rightarrow> bool \<Rightarrow> bool \<Rightarrow> bytestr" where
  "w_attrs a as4 with_nexthop is_ebgp =
    (let unknown = (if a_unknown a \<noteq> [] then split_unknown (a_unknown a) else []);
         (u1, unknown) = w_unknown_below unknown 1;
         (u2, unknown) = w_unknown_below unknown 16;
         (u3, unknown) = w_unknown_below unknown 32;
         (u4, _) = w_unknown_below unknown 256;
         (path, big) = (if as4 then (a_as_path a, False) else downgrade_as_path (a_as_path a));
         needs_as4 = (big \<or> \<not> as4 \<and> length (a_aggregator a) = 8 \<and> as_trans_needed (a_aggregator a)) in
     u1
     @ [AFLAG_TRANSITIVE, ATTR_ORIGIN, 1, a_origin a]
     @ w_attr_hdr AFLAG_TRANSITIVE ATTR_AS_PATH (length path) @ path
     @ (if with_nexthop \<and> length (a_nexthop a) = 4 then [AFLAG_TRANSITIVE, ATTR_NEXT_HOP, 4] @ a_nexthop a else [])
     @ (if has_med a then [AFLAG_OPTIONAL, ATTR_MED, 4] @ be32 (uint (a_med a)) else [])
     @ (if has_local_pref a \<and> \<not> is_ebgp then [AFLAG_TRANSITIVE, ATTR_LOCAL_PREF, 4] @ be32 (uint (a_local_pref a)) else [])
     @ (if atomic_aggregate a then [AFLAG_TRANSITIVE, ATTR_ATOMIC_AGGREGATE, 0] else [])
     @ w_aggregator a as4
     @ (if a_communities a \<noteq> []
        then w_attr_hdr (AFLAG_OPTIONAL OR AFLAG_TRANSITIVE) ATTR_COMMUNITIES (length (a_communities a)) @ a_communities a else [])
     @ (if has_originator_id a \<and> \<not> is_ebgp then [AFLAG_OPTIONAL, ATTR_ORIGINATOR_ID, 4] @ be32 (uint (a_originator_id a)) else [])
     @ (if a_cluster_list a \<noteq> [] \<and> \<not> is_ebgp
        then w_attr_hdr AFLAG_OPTIONAL ATTR_CLUSTER_LIST (length (a_cluster_list a)) @ a_cluster_list a else [])
     @ u2
     @ (if a_ext_communities a \<noteq> []
        then w_attr_hdr (AFLAG_OPTIONAL OR AFLAG_TRANSITIVE) ATTR_EXT_COMMUNITIES (length (a_ext_communities a)) @ a_ext_communities a else [])
     @ (if needs_as4 then w_as4 a else [])
     @ u3
     @ (if a_large_communities a \<noteq> []
        then w_attr_hdr (AFLAG_OPTIONAL OR AFLAG_TRANSITIVE) ATTR_LARGE_COMMUNITY (length (a_large_communities a)) @ a_large_communities a else [])
     @ u4)"

section \<open>Prefixes\<close>

datatype nlri_item = Bare_prefix prefix | Path_prefix prefix u32

definition as_pair :: "nlri_item \<Rightarrow> nlri" where
  \<comment> \<open>a bare prefix has path identifier 0\<close>
  "as_pair item = (case item of Bare_prefix p \<Rightarrow> (p, 0) | Path_prefix p pid \<Rightarrow> (p, pid))"

definition plen_bytes :: "prefix \<Rightarrow> nat" where
  "plen_bytes p = nlri_addr_bytes (of_nat (plen p))"

definition w_prefix :: "bool \<Rightarrow> nlri \<Rightarrow> bytestr" where
  "w_prefix add_path x =
    (if add_path then be32 (uint (snd x)) else []) @ be8 (int (plen (fst x))) @ take (plen_bytes (fst x)) (packed (fst x))"

definition prefix_wire_len :: "bool \<Rightarrow> prefix \<Rightarrow> nat" where
  "prefix_wire_len add_path p = 1 + plen_bytes p + (if add_path then 4 else 0)"

text \<open>The inner loop: prefixes are written while they fit the budget.\<close>

fun fill :: "bool \<Rightarrow> int \<Rightarrow> nat \<Rightarrow> nlri list \<Rightarrow> bytestr \<times> nlri list" where
  "fill add_path budget used [] = ([], [])"
| "fill add_path budget used (x # xs) =
    (if budget < int (used + prefix_wire_len add_path (fst x)) then ([], x # xs)
     else case fill add_path budget (used + prefix_wire_len add_path (fst x)) xs of
       (w, rest) \<Rightarrow> (w_prefix add_path x @ w, rest))"

lemma fill_rest: "length (snd (fill ap budget used xs)) \<le> length xs"
  by (induction xs arbitrary: used) (auto simp: case_prod_unfold intro: le_SucI)

lemma fill_progress: "fill ap budget 0 (x # xs) = (w, rest) \<Longrightarrow> w \<noteq> [] \<Longrightarrow> length rest < length (x # xs)"
  using fill_rest [of ap budget "prefix_wire_len ap (fst x)" xs]
  by (auto simp: case_prod_unfold split: if_splits)

section \<open>Withdrawals and announcements\<close>

definition withdraw_v4 :: "bytestr \<Rightarrow> bytestr" where
  "withdraw_v4 run =
    (let w = w_header MSG_UPDATE @ be16 0 @ run in
     w_finish (w_set_u16 19 (int (length run)) w @ be16 0))"

definition withdraw_mp :: "int \<Rightarrow> int \<Rightarrow> bytestr \<Rightarrow> bytestr" where
  "withdraw_mp afi safi run =
    (let w = w_header MSG_UPDATE @ be16 0 @ be16 0 @ [AFLAG_OPTIONAL OR AFLAG_EXT_LEN, ATTR_MP_UNREACH]
           @ be16 0 @ be16 afi @ be8 safi @ run;
         w = w_set_u16 25 (int (length run) + 3) w;
         w = w_set_u16 21 (int (length run) + 3 + 4) w in
     w_finish w)"

function withdraw_loop :: "int \<Rightarrow> int \<Rightarrow> int \<Rightarrow> bool \<Rightarrow> nlri list \<Rightarrow> bytestr list result" where
  "withdraw_loop afi safi max_size add_path items =
    (if items = [] then Inr []
     else let v4 = (afi = 1 \<and> safi = 1);
              budget = max_size - 19 - 4 - (if v4 then 0 else 4 + 3) in
       case fill add_path budget 0 items of (run, rest) \<Rightarrow>
         if run = []
         then Inl (ValueError (''a single withdrawal does not fit in the '' @ int_str max_size @ ''-byte message limit''))
         else bind_res (withdraw_loop afi safi max_size add_path rest)
           (\<lambda>out. Inr ((if v4 then withdraw_v4 run else withdraw_mp afi safi run) # out)))"
  by auto
termination
proof (relation "measure (\<lambda>(_, _, _, _, items). length items)")
  fix afi safi max_size add_path items x y x1 y1
  assume "items \<noteq> []" and "(x1, y1) = fill add_path y 0 items" and "x1 \<noteq> ([] :: bytestr)"
  then show "((afi :: int, safi :: int, max_size :: int, add_path, y1), afi, safi, max_size, add_path, items)
    \<in> measure (\<lambda>(_, _, _, _, items). length items)"
    using fill_progress [of add_path y "hd items" "tl items" x1 y1] by (cases items) (simp_all del: fill.simps)
qed auto

declare withdraw_loop.simps [simp del]

definition encode_withdraw :: "nlri_item list \<Rightarrow> int \<Rightarrow> int \<Rightarrow> int \<Rightarrow> bool \<Rightarrow> bytestr list result" where
  "encode_withdraw items afi safi max_size add_path =
    withdraw_loop afi safi max_size add_path (map as_pair items)"

definition mp_reach_open :: "int \<Rightarrow> int \<Rightarrow> bytestr \<Rightarrow> bytestr" where
  \<comment> \<open>the attribute up to the reserved octet, its length still zero\<close>
  "mp_reach_open afi safi nh =
    [AFLAG_OPTIONAL OR AFLAG_EXT_LEN, ATTR_MP_REACH] @ be16 0 @ be16 afi @ be8 safi @ be8 (int (length nh)) @ nh @ [0]"

text \<open>One message: the header, the attributes and, once the run is written, the lengths. The
  length field of \<open>MP_REACH_NLRI\<close> lies two octets into the attribute.\<close>

definition announce_head :: "bytestr \<Rightarrow> bytestr" where
  "announce_head attrs = w_header MSG_UPDATE @ be16 0 @ be16 0 @ attrs"

definition announce_v4 :: "bytestr \<Rightarrow> bytestr \<Rightarrow> bytestr" where
  "announce_v4 attrs run = w_finish (w_set_u16 21 (int (length attrs)) (announce_head attrs @ run))"

definition announce_mp :: "int \<Rightarrow> int \<Rightarrow> bytestr \<Rightarrow> bytestr \<Rightarrow> bytestr \<Rightarrow> bytestr" where
  "announce_mp afi safi nh attrs run =
    (let w = announce_head (attrs @ mp_reach_open afi safi nh) @ run;
         mpstart = length (announce_head attrs) + 2;
         w = w_set_u16 mpstart (int (length w) - int mpstart - 2) w;
         w = w_set_u16 21 (int (length w) - 23) w in
     w_finish w)"

function announce_loop :: "int \<Rightarrow> int \<Rightarrow> int \<Rightarrow> bool \<Rightarrow> bytestr \<Rightarrow> bytestr \<Rightarrow> nlri list \<Rightarrow> bytestr list result" where
  "announce_loop afi safi max_size add_path nh attrs items =
    (if items = [] then Inr []
     else let mp = (\<not> (afi = 1 \<and> safi = 1));
              block = attrs @ (if mp then mp_reach_open afi safi nh else []);
              budget = max_size - int (length (announce_head block)) in
       if budget \<le> 0
       then Inl (ValueError (''path attributes alone are '' @ nat_str (length block) @ '' bytes, over the ''
         @ int_str max_size @ ''-byte message limit''))
       else case fill add_path budget 0 items of (run, rest) \<Rightarrow>
         if run = []
         then Inl (ValueError (''no prefix fits alongside '' @ nat_str (length block) @ '' bytes of path attributes in a ''
           @ int_str max_size @ ''-byte message''))
         else bind_res (announce_loop afi safi max_size add_path nh attrs rest)
           (\<lambda>out. Inr ((if mp then announce_mp afi safi nh attrs run else announce_v4 attrs run) # out)))"
  by auto
termination
proof (relation "measure (\<lambda>(_, _, _, _, _, _, items). length items)")
  fix afi safi max_size add_path nh attrs items x xa y x1 y1
  assume "items \<noteq> []" and "(x1, y1) = fill add_path y 0 items" and "x1 \<noteq> ([] :: bytestr)"
  then show "((afi :: int, safi :: int, max_size :: int, add_path, nh :: bytestr, attrs :: bytestr, y1),
      afi, safi, max_size, add_path, nh, attrs, items)
    \<in> measure (\<lambda>(_, _, _, _, _, _, items). length items)"
    using fill_progress [of add_path y "hd items" "tl items" x1 y1] by (cases items) (simp_all del: fill.simps)
qed auto

declare announce_loop.simps [simp del]

definition encode_announce ::
  "nlri_item list \<Rightarrow> attr_set \<Rightarrow> int \<Rightarrow> int \<Rightarrow> int \<Rightarrow> bool \<Rightarrow> bool \<Rightarrow> bool \<Rightarrow> bytestr option \<Rightarrow> bytestr list result" where
  "encode_announce items a afi safi max_size as4 add_path is_ebgp nexthop =
    (let mp = (\<not> (afi = 1 \<and> safi = 1)); nh = get_default nexthop (a_nexthop a) in
     if items = [] then Inr []
     else if mp \<and> nh = [] then Inl (ValueError (''MP_REACH_NLRI needs a next hop for AFI '' @ int_str afi))
     else if mp \<and> list_all (\<lambda>b. b = 0) nh
     then Inl (ValueError (''MP_REACH_NLRI next hop for AFI '' @ int_str afi @ '' is the unspecified address''))
     else announce_loop afi safi max_size add_path nh (w_attrs a as4 (\<not> mp) is_ebgp) (map as_pair items))"

end
