(* ===== verification/NlriProps.thy ===== *)
theory NlriProps
  imports WireEncode
begin

text \<open>
  Prefixes on the wire: packing a prefix and reading it back, one entry of an NLRI run, and
  the split of a list of prefixes over messages.
\<close>

section \<open>Packed prefixes\<close>

lemma byte_of_bits:
  assumes "length bs = 8"
  shows "byte_bits (word_of_int (horner_sum of_bool 2 (rev bs))) = bs"
proof -
  have "bit (word_of_int (horner_sum of_bool 2 (rev bs)) :: byte) n = bs ! (7 - n)" if "n < 8" for n
    using that assms by (simp add: bit_simps bit_horner_sum_bit_iff rev_nth)
  then have "byte_bits (word_of_int (horner_sum of_bool 2 (rev bs))) = map (\<lambda>n. bs ! (7 - n)) [7, 6, 5, 4, 3, 2, 1, 0]"
    by (simp add: byte_bits_def)
  also have "\<dots> = map (nth bs) [0..<length bs]"
    using assms by (simp add: upt_rec eval_nat_numeral)
  finally show ?thesis by (simp add: map_nth)
qed

lemma length_bits_bytes [simp]: "length (bits_bytes n bs) = n"
  by (induction n arbitrary: bs) simp_all

lemma take_bits_bytes: "take k (bits_bytes n bs) = bits_bytes (min k n) bs"
proof (induction n arbitrary: bs k)
  case (Suc n)
  then show ?case by (cases k) simp_all
qed simp

lemma bytes_bits_simps [simp]:
  "bytes_bits [] = []" "bytes_bits (b # bs) = byte_bits b @ bytes_bits bs"
  by (simp_all add: bytes_bits_def)

lemma length_byte_bits [simp]: "length (byte_bits b) = 8"
  by (simp add: byte_bits_def)

lemma length_bytes_bits [simp]: "length (bytes_bits bs) = 8 * length bs"
  by (induction bs) simp_all

lemma bytes_bits_bytes: "8 * n \<le> length bs \<Longrightarrow> bytes_bits (bits_bytes n bs) = take (8 * n) bs"
proof (induction n arbitrary: bs)
  case (Suc n)
  have "bytes_bits (bits_bytes (Suc n) bs) = take 8 bs @ take (8 * n) (drop 8 bs)"
    using Suc by (simp add: byte_of_bits)
  also have "\<dots> = take (8 + 8 * n) bs" by (simp only: take_add)
  finally show ?case by simp
qed simp

text \<open>A prefix that \<open>Prefix\<close> can hold.\<close>

definition prefix_ok :: "prefix \<Rightarrow> bool" where
  "prefix_ok p \<longleftrightarrow> pafi p \<in> {AFI_IP, AFI_IP6} \<and> plen p \<le> addr_bits (pafi p)"

lemma addr_bits_len: "addr_bits afi = 8 * addr_len afi"
  by (simp add: addr_bits_def addr_len_def)

lemma length_packed_bits: "prefix_ok p \<Longrightarrow> length (packed_bits p) = 8 * addr_len (pafi p)"
  by (simp add: packed_bits_def prefix_ok_def addr_bits_len plen_def)

lemma plen_byte: "prefix_ok p \<Longrightarrow> unat (of_nat (plen p) :: byte) = plen p"
  by (auto simp: prefix_ok_def addr_bits_def unsigned_of_nat take_bit_nat_eq_self split: if_splits)

lemma plen_bytes_eq: "prefix_ok p \<Longrightarrow> plen_bytes p = (plen p + 7) div 8"
  by (simp add: plen_bytes_def nlri_addr_bytes_def plen_byte)

lemma plen_bytes_le: "prefix_ok p \<Longrightarrow> plen_bytes p \<le> addr_len (pafi p)"
proof -
  assume ok: "prefix_ok p"
  then have "plen p \<le> 8 * addr_len (pafi p)" by (simp add: prefix_ok_def addr_bits_len)
  then have "(plen p + 7) div 8 \<le> addr_len (pafi p)" by presburger
  then show ?thesis by (simp add: plen_bytes_eq [OF ok])
qed

lemma length_packed [simp]: "length (packed p) = addr_len (pafi p)"
  by (simp add: packed_def)

lemma bits_of_packed:
  assumes "prefix_ok p"
  shows "bytes_bits (take (plen_bytes p) (packed p)) = take (8 * plen_bytes p) (packed_bits p)"
  unfolding packed_def take_bits_bytes
  using plen_bytes_le [OF assms] length_packed_bits [OF assms]
  by (simp add: min_absorb1 bytes_bits_bytes)

lemma pfx_new_packed:
  assumes "prefix_ok p"
  shows "pfx_new (pafi p) (plen p) (take (plen_bytes p) (packed p)) = p"
proof -
  have "plen p \<le> 8 * plen_bytes p" using plen_bytes_eq [OF assms] by simp
  then have "take (plen p) (take (8 * plen_bytes p) (packed_bits p)) = pbits p"
    by (simp add: packed_bits_def plen_def min_absorb1)
  then show ?thesis by (simp add: pfx_new_def bits_of_packed [OF assms])
qed

lemma nth_bytes_bits: "i < length bs \<Longrightarrow> j < 8 \<Longrightarrow> bytes_bits bs ! (8 * i + j) = bit (bs ! i) (7 - j)"
proof (induction bs arbitrary: i)
  case (Cons b bs)
  show ?case
  proof (cases i)
    case 0
    with Cons.prems have "j \<in> {0, 1, 2, 3, 4, 5, 6, 7}" by auto
    then show ?thesis using 0 by (auto simp: nth_append byte_bits_def)
  next
    case (Suc k)
    with Cons show ?thesis by (simp add: nth_append)
  qed
qed simp

lemma ceil8: "0 < r \<Longrightarrow> r < 8 \<Longrightarrow> (8 * q + r + 7) div 8 = Suc q" for q r :: nat
  by (rule div_nat_eqI; simp)

lemma bit_of_nonzero: "(w :: byte) \<noteq> 0 \<Longrightarrow> \<exists>n. bit w n"
  by (auto simp: bit_eq_iff)

lemma host_bits_clear:
  assumes ok: "prefix_ok p"
  shows "\<not> host_bits_set (of_nat (plen p)) (take (plen_bytes p) (packed p))"
proof
  let ?addr = "take (plen_bytes p) (packed p)" and ?r = "plen p mod 8" and ?len = "of_nat (plen p) :: byte"
  assume set: "host_bits_set ?len ?addr"
  have and7: "unat (?len AND 7) = ?r"
  proof -
    have "?len AND 7 = take_bit 3 ?len" by (simp only: take_bit_eq_mask mask_eq_exp_minus_1) simp
    also have "unat (take_bit 3 ?len) = take_bit 3 (unat ?len)" by (rule unsigned_take_bit_eq)
    finally show ?thesis by (simp only: plen_byte [OF ok] take_bit_eq_mod) simp
  qed
  from set have ne: "?len AND 7 \<noteq> 0" and last: "?addr ! (plen_bytes p - 1) AND drop_bit ?r 0xff \<noteq> 0"
    by (simp_all add: host_bits_set_def plen_bytes_def [symmetric] and7)
  have r: "?r \<noteq> 0" using ne unfolding and7 [symmetric] unsigned_eq_0_iff .
  define nb where "nb = plen_bytes p - 1"
  have r0: "0 < ?r" using r by (rule neq0_conv [THEN iffD1])
  have div: "(m + 7) div 8 = Suc (m div 8)" if "0 < m mod 8" for m :: nat
    using ceil8 [OF that, of "m div 8"] by simp
  have nb: "plen_bytes p = Suc nb" "8 * nb + ?r = plen p"
    unfolding nb_def plen_bytes_eq [OF ok] div [OF r0] by simp_all
  obtain n where n: "bit (?addr ! nb) n" "bit (drop_bit ?r (0xff :: byte)) n"
    using bit_of_nonzero [OF last] unfolding nb_def by (auto simp: bit_and_iff)
  have "bit (0xff :: byte) m \<longleftrightarrow> m < 8" for m
  proof -
    have "(0xff :: byte) = mask 8" by (simp add: mask_eq_exp_minus_1)
    then show ?thesis by (simp only: bit_mask_iff possible_bit_word) auto
  qed
  with n(2) have lt: "n < 8 - ?r" by (auto simp: bit_simps)
  have len: "length ?addr = Suc nb" using nb(1) plen_bytes_le [OF ok] by simp
  have "7 - (7 - n) = n" using lt by simp
  moreover have "nb < length ?addr" unfolding len by (rule lessI)
  then have "bytes_bits ?addr ! (8 * nb + (7 - n)) = bit (?addr ! nb) (7 - (7 - n))"
    by (rule nth_bytes_bits) simp
  ultimately have "bit (?addr ! nb) n = bytes_bits ?addr ! (8 * nb + (7 - n))" by simp
  also have "\<dots> = packed_bits p ! (8 * nb + (7 - n))"
    unfolding bits_of_packed [OF ok] using lt nb by simp
  also have "\<dots> = False"
  proof -
    have "plen p \<le> 8 * nb + (7 - n)" using nb(2) lt by linarith
    moreover have "8 * nb + (7 - n) < addr_bits (pafi p)"
      using plen_bytes_le [OF ok] nb(1) by (simp add: addr_bits_len)
    ultimately show ?thesis by (simp add: packed_bits_def nth_append plen_def)
  qed
  finally show False using n(1) by simp
qed

section \<open>One entry and a run\<close>

definition nlri_ok :: "bool \<Rightarrow> nat \<Rightarrow> nlri \<Rightarrow> bool" where
  "nlri_ok add_path afi x \<longleftrightarrow> prefix_ok (fst x) \<and> pafi (fst x) = afi \<and> (add_path \<or> snd x = 0)"

lemma length_w_prefix: "prefix_ok (fst x) \<Longrightarrow> length (w_prefix ap x) = prefix_wire_len ap (fst x)"
  using plen_bytes_le [of "fst x"] by (simp add: w_prefix_def prefix_wire_len_def)

lemma nlri_next_w_prefix:
  assumes "nlri_ok ap afi x"
  shows "bgp_nlri_next ap (addr_len afi) (w_prefix ap x @ r) =
    Some (snd x, of_nat (plen (fst x)), take (plen_bytes (fst x)) (packed (fst x)), r)"
proof -
  obtain p pid where x: "x = (p, pid)" by (cases x)
  with assms have ok: "prefix_ok p" "pafi p = afi" "ap \<or> pid = 0" by (simp_all add: nlri_ok_def)
  have nb: "nlri_addr_bytes (of_nat (plen p)) = plen_bytes p" by (simp add: plen_bytes_def)
  have le: "plen_bytes p \<le> addr_len afi" using plen_bytes_le [OF ok(1)] ok(2) by simp
  show ?thesis
    using ok le
    by (cases ap) (simp_all add: x w_prefix_def bgp_nlri_next_def be8_def nb)
qed

lemma w_prefix_not_Nil [simp]: "w_prefix ap x \<noteq> []"
  by (simp add: w_prefix_def be8_def)

definition run_of :: "bool \<Rightarrow> nlri list \<Rightarrow> bytestr" where
  "run_of ap xs = concat (map (w_prefix ap) xs)"

lemma run_of_simps [simp]: "run_of ap [] = []" "run_of ap (x # xs) = w_prefix ap x @ run_of ap xs"
  by (simp_all add: run_of_def)

lemma run_of_Nil_iff [simp]: "run_of ap xs = [] \<longleftrightarrow> xs = []"
  by (cases xs) simp_all

lemma nlri_run_of: "list_all (nlri_ok ap afi) xs \<Longrightarrow> nlri_run ap afi (run_of ap xs) = (xs, 0, True)"
proof (induction xs)
  case Nil
  then show ?case by (simp add: nlri_run.simps)
next
  case (Cons x xs)
  then have x: "nlri_ok ap afi x" and ok: "prefix_ok (fst x)" "pafi (fst x) = afi" by (simp_all add: nlri_ok_def)
  have "\<not> addr_bits afi < plen (fst x)" using ok by (simp add: prefix_ok_def)
  then show ?case
    using Cons nlri_next_w_prefix [OF x, of "run_of ap xs"] pfx_new_packed [OF ok(1)] host_bits_clear [OF ok(1)]
    by (subst nlri_run.simps) (simp add: plen_byte [OF ok(1)] ok(2))
qed

lemma read_nlri_run_of:
  "list_all (nlri_ok ap afi) xs \<Longrightarrow> afi \<in> {AFI_IP, AFI_IP6} \<Longrightarrow> read_nlri ap afi (run_of ap xs) = (xs, 0, True)"
  by (auto simp: read_nlri_def addr_len_def nlri_run_of)

section \<open>Filling a message\<close>

lemma fill_split:
  assumes "fill ap budget used xs = (w, rest)"
  shows "\<exists>ys. xs = ys @ rest \<and> w = run_of ap ys"
  using assms
proof (induction xs arbitrary: used w)
  case (Cons x xs)
  show ?case
  proof (cases "budget < int (used + prefix_wire_len ap (fst x))")
    case True
    then show ?thesis using Cons.prems by (auto intro: exI [of _ "[]"])
  next
    case False
    with Cons.prems obtain v where v: "fill ap budget (used + prefix_wire_len ap (fst x)) xs = (v, rest)"
      and w: "w = w_prefix ap x @ v" by (cases "fill ap budget (used + prefix_wire_len ap (fst x)) xs") auto
    from Cons.IH [OF v] obtain ys where "xs = ys @ rest" "v = run_of ap ys" by blast
    then show ?thesis using w by (intro exI [of _ "x # ys"]) simp
  qed
qed simp

lemma fill_budget:
  assumes "fill ap budget used xs = (w, rest)" and "list_all (\<lambda>x. prefix_ok (fst x)) xs" and "int used \<le> budget"
  shows "int (used + length w) \<le> budget"
  using assms
proof (induction xs arbitrary: used w)
  case (Cons x xs)
  show ?case
  proof (cases "budget < int (used + prefix_wire_len ap (fst x))")
    case True
    then show ?thesis using Cons.prems by auto
  next
    case False
    with Cons.prems obtain v where v: "fill ap budget (used + prefix_wire_len ap (fst x)) xs = (v, rest)"
      and w: "w = w_prefix ap x @ v" by (cases "fill ap budget (used + prefix_wire_len ap (fst x)) xs") auto
    have "int (used + prefix_wire_len ap (fst x) + length v) \<le> budget"
      using Cons.IH [OF v] Cons.prems(2) False by simp
    moreover have "length (w_prefix ap x) = prefix_wire_len ap (fst x)"
      using Cons.prems(2) by (simp add: length_w_prefix)
    ultimately show ?thesis by (simp add: w)
  qed
qed simp

end
