(* ===== verification/WirePath.thy ===== *)
theory WirePath
  imports WireEncode
begin

text \<open>
  The AS_PATH on the wire: what the decoder accepts as canonical is exactly a run of whole
  segments; a path sent on a 2-octet session is widened back by the receiver, and the RFC 6793
  merge restores it from AS4_PATH.
\<close>

section \<open>Words and their octets\<close>

lemma byte_of_word:
  "(word_of_int (drop_bit n (uint w)) :: byte) = ucast (drop_bit n (w :: 'a::len word))"
  by (rule bit_word_eqI) (simp add: bit_simps)

lemma rd32_bytes:
  "(ucast (drop_bit 24 (rd32 (a # b # c # d # r))) :: byte) = a"
  "(ucast (drop_bit 16 (rd32 (a # b # c # d # r))) :: byte) = b"
  "(ucast (drop_bit 8 (rd32 (a # b # c # d # r))) :: byte) = c"
  "(ucast (rd32 (a # b # c # d # r)) :: byte) = d"
  by (rule bit_word_eqI, auto simp: rd32_def bit_simps dest: bit_imp_le_length)+

lemma be32_rd32:
  assumes "4 \<le> length p"
  shows "be32 (uint (rd32 p)) = take 4 p"
proof -
  obtain a b c d r where p: "p = a # b # c # d # r"
    using assms by (auto simp: Suc_le_length_iff eval_nat_numeral)
  show ?thesis
    unfolding p be32_def byte_of_word rd32_bytes by (simp add: rd32_bytes)
qed

lemma words_back:
  "n * 4 \<le> length p \<Longrightarrow> concat (map (\<lambda>i. be32 (uint (rd32 (drop (i * 4) p)))) [0..<n]) = take (n * 4) p"
proof (induction n)
  case (Suc n)
  have "concat (map (\<lambda>i. be32 (uint (rd32 (drop (i * 4) p)))) [0..<Suc n]) = take (n * 4) p @ take 4 (drop (n * 4) p)"
    using Suc by (simp add: be32_rd32)
  also have "\<dots> = take (n * 4 + 4) p" by (simp only: take_add)
  finally show ?case by (simp add: add.commute)
qed simp

section \<open>Canonical paths\<close>

definition seg_ok :: "segment \<Rightarrow> bool" where
  "seg_ok s \<longleftrightarrow> fst s \<in> {AS_SET, AS_SEQUENCE, AS_CONFED_SEQUENCE, AS_CONFED_SET}
    \<and> snd s \<noteq> [] \<and> length (snd s) \<le> 255"

definition seg_octets :: "segment \<Rightarrow> bytestr" where
  "seg_octets s = seg_bytes (uint (fst s)) (map uint (snd s))"

lemma join_segment_ok: "seg_ok s \<Longrightarrow> join_segment s = seg_octets s"
  by (simp add: join_segment_def seg_ok_def seg_octets_def chunks255.simps)

lemma join_segments_ok: "list_all seg_ok segs \<Longrightarrow> join_segments segs = concat (map seg_octets segs)"
  unfolding join_segments_def by (induction segs) (simp_all add: join_segment_ok)

lemma split_seg_octets:
  "seg_ok s \<Longrightarrow> split_segments (seg_octets s @ r) = s # split_segments r"
  by (cases s) (simp add: split_segments_def seg_octets_def as_segments_seg_bytes seg_ok_def comp_def)

lemma split_segments_Nil [simp]: "split_segments [] = []"
  by (simp add: split_segments_def as_segments.simps)

lemma split_join: "list_all seg_ok segs \<Longrightarrow> split_segments (concat (map seg_octets segs)) = segs"
  by (induction segs) (simp_all add: split_seg_octets)

text \<open>Accepting a path on a 4-octet session means that its segments give it back.\<close>

lemma canon_split:
  "canon_segments True p \<noteq> None \<Longrightarrow>
    list_all seg_ok (split_segments p) \<and> concat (map seg_octets (split_segments p)) = p"
proof (induction True p rule: canon_segments.induct)
  case (1 p)
  show ?case
  proof (cases "p = []")
    case False
    obtain t c where hdr: "bgp_aspath_seg_next p = Some (t, c)"
      and ok: "t = 2 \<or> t = 1 \<or> t = 3 \<or> t = 4" "c \<noteq> 0" "\<not> length (drop 2 p) < unat c * 4"
      and rest: "canon_segments True (drop (unat c * 4) (drop 2 p)) \<noteq> None"
      using "1.prems" False
      by (subst (asm) canon_segments.simps) (auto simp: asn_width_def split: if_splits option.splits)
    have p2: "2 \<le> length p" "t = p ! 0" "c = p ! 1" using hdr by (auto simp: bgp_aspath_seg_next_def split: if_splits)
    let ?words = "map (\<lambda>i. rd32 (drop (i * 4) (drop 2 p))) [0..<unat c]"
    have split: "split_segments p = (t, ?words) # split_segments (drop (unat c * 4) (drop 2 p))"
      unfolding split_segments_def using as_segments_step [of p] p2 ok(3) by simp
    have "unat c < 2 ^ LENGTH(8)" by (rule unsigned_less)
    then have c255: "unat c \<le> 255" by simp
    have c0: "unat c \<noteq> 0" using ok(2) by (simp add: unsigned_eq_0_iff)
    have "seg_ok (t, ?words)" using ok(1) c255 c0 by (auto simp: seg_ok_def)
    moreover have "seg_octets (t, ?words) = t # c # take (unat c * 4) (drop 2 p)"
      using words_back [of "unat c" "drop 2 p"] ok(3)
      by (simp add: seg_octets_def seg_bytes_def comp_def)
    moreover have "t # c # take (unat c * 4) (drop 2 p) @ drop (unat c * 4) (drop 2 p) = p"
      unfolding append_take_drop_id p2(2,3) using p2(1)
      by (cases p; cases "tl p") simp_all
    ultimately show ?thesis
      using "1.hyps" [OF False hdr] ok rest by (simp add: split asn_width_def)
  qed simp
qed

lemma canon_step:
  assumes "bgp_aspath_seg_next p = Some (t, c)" and "t \<in> {AS_SET, AS_SEQUENCE, AS_CONFED_SEQUENCE, AS_CONFED_SET}"
    and "c \<noteq> 0" and "drop 2 p = body @ r" and "length body = unat c * asn_width as4"
  shows "canon_segments as4 p = map_option (\<lambda>rest.
    t # c # concat (map (\<lambda>i. 0 # 0 # be16 (u16_of (drop (i * 2) (body @ r)))) [0..<unat c]) @ rest)
    (canon_segments as4 r)"
proof -
  have "p \<noteq> []" using assms(1) by (auto simp: bgp_aspath_seg_next_def)
  moreover have "\<not> (t \<noteq> AS_SEQUENCE \<and> t \<noteq> AS_SET \<and> t \<noteq> AS_CONFED_SEQUENCE \<and> t \<noteq> AS_CONFED_SET)"
    using assms(2) by auto
  moreover have "\<not> length (body @ r) < unat c * asn_width as4" using assms(5) by simp
  moreover have "drop (unat c * asn_width as4) (body @ r) = r" using assms(5) by simp
  ultimately show ?thesis
    by (subst canon_segments.simps) (simp only: assms(1,3,4) if_False option.case prod.case)
qed

lemma canon_seg_octets:
  assumes "seg_ok s"
  shows "canon_segments True (seg_octets s @ r) \<noteq> None \<longleftrightarrow> canon_segments True r \<noteq> None"
proof -
  let ?p = "seg_octets s @ r" and ?c = "of_nat (length (snd s)) :: byte"
  have c: "unat ?c = length (snd s)" using assms by (simp add: seg_ok_def unsigned_of_nat take_bit_nat_eq_self)
  then have "?c \<noteq> 0" using assms by (auto simp: seg_ok_def)
  moreover have "bgp_aspath_seg_next ?p = Some (fst s, ?c)" "drop 2 ?p = concat (map be32 (map uint (snd s))) @ r"
    by (simp_all add: seg_octets_def seg_bytes_def bgp_aspath_seg_next_def)
  moreover have "length (concat (map be32 (map uint (snd s)))) = unat ?c * asn_width True"
    by (simp add: c asn_width_def del: map_map)
  ultimately show ?thesis
    using canon_step [of ?p "fst s" ?c] assms by (simp add: seg_ok_def)
qed

lemma canon_octets: "list_all seg_ok segs \<Longrightarrow> canon_segments True (concat (map seg_octets segs)) \<noteq> None"
  by (induction segs) (simp add: canon_segments.simps, simp add: canon_seg_octets del: not_None_eq)

text \<open>
  A value is accepted as the AS_PATH of a 4-octet session, and kept as it is, exactly when
  it is a run of whole segments of known types with 1 to 255 AS numbers each; splitting it and
  joining the segments gives the value back.
\<close>

theorem canonical_path_iff:
  "canon_as_path True p = Some p \<longleftrightarrow>
    list_all seg_ok (split_segments p) \<and> join_segments (split_segments p) = p"
  using canon_split [of p] canon_octets [of "split_segments p"]
  by (auto simp: canon_as_path_def join_segments_ok)

section \<open>Two-octet sessions\<close>

definition narrow :: "segment \<Rightarrow> segment" where
  "narrow s = (fst s, map (\<lambda>n. if 0xffff < n then AS_TRANS else n) (snd s))"

lemma seg_ok_narrow [simp]: "seg_ok (narrow s) = seg_ok s"
  by (simp add: seg_ok_def narrow_def)

lemma asn16_range: "0 \<le> asn16 n \<and> asn16 n < 65536"
  by (simp add: asn16_def word_less_def)

lemma u16_words:
  "map (\<lambda>i. 0 # 0 # be16 (u16_of (drop (i * 2) (concat (map (\<lambda>n. be16 (asn16 n)) xs) @ r)))) [0..<length xs]
   = map (\<lambda>n. 0 # 0 # be16 (asn16 n)) xs"
proof (induction xs)
  case (Cons x xs)
  let ?t = "concat (map (\<lambda>n. be16 (asn16 n)) xs) @ r"
  have "fits 16 (asn16 x)" using asn16_range by (simp add: fits_def)
  then have "u16_of (be16 (asn16 x) @ ?t) = asn16 x" by (rule u16_of_be16)
  moreover have "drop (Suc i * 2) (be16 (asn16 x) @ ?t) = drop (i * 2) ?t" for i by simp
  ultimately show ?case
    using Cons by (simp add: upt_conv_Cons map_Suc_upt [symmetric] comp_def del: upt_Suc)
qed simp

lemma be32_asn16: "0 # 0 # be16 (asn16 n) = be32 (uint (if 0xffff < n then AS_TRANS else n))"
proof (cases "0xffff < n")
  case True
  then show ?thesis by (simp add: be16_def be32_def asn16_def)
next
  case False
  then have "asn16 n = uint n" by (simp add: asn16_def)
  with asn16_range [of n] have "0 \<le> uint n" "uint n < 65536" by simp_all
  then have "drop_bit 16 (uint n) = 0" "drop_bit 24 (uint n) = 0" by (simp_all add: drop_bit_eq_div)
  with False show ?thesis by (simp add: be16_def be32_def asn16_def)
qed

lemma downgrade_segment_ok:
  "seg_ok s \<Longrightarrow> downgrade_segment s = fst s # of_nat (length (snd s)) # concat (map (\<lambda>n. be16 (asn16 n)) (snd s))"
  by (simp add: downgrade_segment_def seg_ok_def chunks255.simps be8_def)

lemma length_concat_be16 [simp]: "length (concat (map (\<lambda>n. be16 (f n)) xs)) = 2 * length xs"
  by (induction xs) simp_all

lemma canon_downgrade_segment:
  assumes ok: "seg_ok s" and r: "canon_segments False r = Some q"
  shows "canon_segments False (downgrade_segment s @ r) = Some (seg_octets (narrow s) @ q)"
proof -
  let ?p = "downgrade_segment s @ r" and ?c = "of_nat (length (snd s)) :: byte"
  let ?body = "concat (map (\<lambda>n. be16 (asn16 n)) (snd s))"
  have c: "unat ?c = length (snd s)" using ok by (simp add: seg_ok_def unsigned_of_nat take_bit_nat_eq_self)
  then have c0: "?c \<noteq> 0" using ok by (auto simp: seg_ok_def)
  have p: "bgp_aspath_seg_next ?p = Some (fst s, ?c)" "drop 2 ?p = ?body @ r"
    by (simp_all add: downgrade_segment_ok [OF ok] bgp_aspath_seg_next_def)
  have t: "fst s \<in> {AS_SET, AS_SEQUENCE, AS_CONFED_SEQUENCE, AS_CONFED_SET}" using ok by (simp add: seg_ok_def)
  have len: "length ?body = unat ?c * asn_width False" by (simp add: c asn_width_def)
  have words: "concat (map (\<lambda>i. 0 # 0 # be16 (u16_of (drop (i * 2) (?body @ r)))) [0..<unat ?c])
      = concat (map be32 (map uint (snd (narrow s))))"
    unfolding c u16_words be32_asn16 by (simp add: narrow_def comp_def)
  have "seg_octets (narrow s) = fst s # ?c # concat (map be32 (map uint (snd (narrow s))))"
    by (simp add: seg_octets_def seg_bytes_def narrow_def)
  then show ?thesis
    unfolding canon_step [OF p(1) t c0 p(2) len] words r by simp
qed

lemma canon_downgrade:
  "list_all seg_ok segs \<Longrightarrow>
    canon_segments False (concat (map downgrade_segment segs)) = Some (concat (map seg_octets (map narrow segs)))"
  by (induction segs) (simp add: canon_segments.simps, simp add: canon_downgrade_segment)

lemma count_narrow [simp]: "count_asns (map narrow segs) = count_asns segs"
  by (induction segs rule: count_asns.induct) (simp_all add: narrow_def)

definition confed :: "segment \<Rightarrow> bool" where
  "confed s \<longleftrightarrow> fst s = AS_CONFED_SEQUENCE \<or> fst s = AS_CONFED_SET"

lemma merge_head_0: "merge_head 0 0 segs = takeWhile confed segs"
  by (induction segs) (auto simp: confed_def)

lemma narrow_id: "\<not> list_ex (\<lambda>s. list_ex (\<lambda>n. 0xffff < n) (snd s)) segs \<Longrightarrow> map narrow segs = segs"
  by (induction segs) (auto simp: narrow_def list_ex_iff intro!: map_idI)

lemma canon_narrowed:
  assumes "canon_as_path True p = Some p"
  shows "canon_as_path False (fst (downgrade_as_path p)) = Some (join_segments (map narrow (split_segments p)))"
proof -
  have ok: "list_all seg_ok (split_segments p)" using canon_split [of p] assms by (auto simp: canon_as_path_def)
  then have "list_all seg_ok (map narrow (split_segments p))" by (simp add: list_all_iff)
  then show ?thesis
    using canon_downgrade [OF ok] by (simp add: canon_as_path_def downgrade_as_path_def Let_def join_segments_ok)
qed

lemma merge_narrowed:
  assumes "canon_as_path True p = Some p"
  shows "merge_as4 (join_segments (map narrow (split_segments p))) p
    = join_segments (takeWhile confed (map narrow (split_segments p)) @ split_segments p)"
proof -
  let ?segs = "split_segments p"
  from assms have ok: "list_all seg_ok ?segs" using canon_split [of p] by (auto simp: canon_as_path_def)
  then have ok': "list_all seg_ok (map narrow ?segs)" by (simp add: list_all_iff)
  have "split_segments (join_segments (map narrow ?segs)) = map narrow ?segs"
    by (simp only: join_segments_ok [OF ok'] split_join [OF ok'])
  moreover have "join_segments (map narrow []) = join_segments (takeWhile confed (map narrow []) @ [])"
    by (simp add: join_segments_def)
  ultimately show ?thesis
    by (cases ?segs) (simp_all add: merge_as4_def merge_head_0 Let_def del: list.map)
qed

text \<open>
  C35. A canonical path sent on a 2-octet session is read back, before any merge, with AS_TRANS
  for every AS above 65535 and otherwise as it was; it needs AS4_PATH exactly when there is
  such an AS; and merged with AS4_PATH it is the original, behind a copy of the confederation
  segments it begins with.
\<close>

theorem two_octet_path:
  assumes "canon_as_path True p = Some p"
  shows "canon_as_path False (fst (downgrade_as_path p)) = Some (join_segments (map narrow (split_segments p)))
    \<and> (snd (downgrade_as_path p) \<longleftrightarrow> (\<exists>s\<in>set (split_segments p). \<exists>n\<in>set (snd s). 0xffff < n))
    \<and> merge_as4 (join_segments (map narrow (split_segments p))) p
      = join_segments (takeWhile confed (map narrow (split_segments p)) @ split_segments p)"
  using canon_narrowed [OF assms] merge_narrowed [OF assms]
  by (simp add: downgrade_as_path_def Let_def list_ex_iff)

definition big_path :: bytestr where
  "big_path = [2, 2, 0, 1, 0x11, 0x70, 0, 0, 0xfd, 0xe9]"

lemma two_octet_path_witness:
  "canon_as_path False (fst (downgrade_as_path big_path)) = Some (join_segments (map narrow (split_segments big_path)))
    \<and> (snd (downgrade_as_path big_path) \<longleftrightarrow> (\<exists>s\<in>set (split_segments big_path). \<exists>n\<in>set (snd s). 0xffff < n))
    \<and> merge_as4 (join_segments (map narrow (split_segments big_path))) big_path
      = join_segments (takeWhile confed (map narrow (split_segments big_path)) @ split_segments big_path)"
  by (rule two_octet_path) code_simp

text \<open>A path that begins with a confederation segment comes back with it twice.\<close>

definition confed_path :: bytestr where
  "confed_path = [3, 1, 0, 0, 0xfd, 0xe9, 2, 1, 0, 1, 0x11, 0x70]"

lemma confed_segment_doubled:
  "map_option (\<lambda>w. split_segments (merge_as4 w confed_path)) (canon_as_path False (fst (downgrade_as_path confed_path)))
    = Some [(3, [65001]), (3, [65001]), (2, [70000])]"
  by code_simp

end
