(* ===== verification/WireAttrs.thy ===== *)
theory WireAttrs
  imports NlriProps WirePath
begin

text \<open>
  Path attributes on the wire, one at a time: the octets of an attribute, the step of the
  decoder over them, and the effect that each attribute an encoder writes has on the decoder's
  state.
\<close>

section \<open>An attribute and its octets\<close>

type_synonym wire_attr = "byte \<times> byte \<times> bytestr"

definition sent_flags :: "byte \<Rightarrow> nat \<Rightarrow> byte" where
  "sent_flags f n = (if 255 < n then f OR AFLAG_EXT_LEN else f)"

definition attr_bytes :: "wire_attr \<Rightarrow> bytestr" where
  "attr_bytes x = (case x of (f, t, v) \<Rightarrow> w_attr_hdr f t (length v) @ v)"

definition wire_attr_ok :: "wire_attr \<Rightarrow> bool" where
  "wire_attr_ok x \<longleftrightarrow> (case x of (f, t, v) \<Rightarrow> f AND AFLAG_EXT_LEN = 0 \<and> length v < 65536)"

lemma or_ext_len: "(f OR AFLAG_EXT_LEN) AND AFLAG_EXT_LEN = AFLAG_EXT_LEN"
  by (simp add: bit.conj_disj_distrib2)

lemma sent_flags_bits:
  "is_optional (sent_flags f n) = is_optional f"
  "is_transitive (sent_flags f n) = is_transitive f"
  "bad_well_known (sent_flags f n) = bad_well_known f"
  "sent_flags f n AND AFLAG_PARTIAL = f AND AFLAG_PARTIAL"
  by (simp_all add: sent_flags_def is_optional_def is_transitive_def bad_well_known_def bit.conj_disj_distrib2)

lemma attr_bytes_eq:
  "wire_attr_ok (f, t, v) \<Longrightarrow>
    attr_bytes (f, t, v) = [sent_flags f (length v), t]
      @ (if 255 < length v then be16 (int (length v)) else be8 (int (length v))) @ v"
  by (simp add: attr_bytes_def w_attr_hdr_def wire_attr_ok_def sent_flags_def or_ext_len)

lemma unat_be8: "n < 256 \<Longrightarrow> unat (word_of_nat n :: byte) = n"
  by (simp add: unsigned_of_nat take_bit_nat_eq_self)

lemma unat_rd16_be16: "n < 65536 \<Longrightarrow> unat (rd16 (be16 (int n) @ r)) = n"
  by (simp add: unsigned_of_nat take_bit_nat_eq_self)

lemma attr_next_bytes:
  assumes "wire_attr_ok (f, t, v)"
  shows "\<exists>h. bgp_attr_next (attr_bytes (f, t, v) @ r) = Some (sent_flags f (length v), t, h, length v)
    \<and> drop h (attr_bytes (f, t, v) @ r) = v @ r"
proof (cases "255 < length v")
  case True
  then have "sent_flags f (length v) AND AFLAG_EXT_LEN \<noteq> 0"
    by (simp add: sent_flags_def or_ext_len)
  then show ?thesis
    using True assms unat_rd16_be16 [of "length v" "v @ r"]
    by (intro exI [of _ 4]) (simp add: attr_bytes_eq bgp_attr_next_def wire_attr_ok_def)
next
  case False
  then have "sent_flags f (length v) AND AFLAG_EXT_LEN = 0"
    using assms by (simp add: sent_flags_def wire_attr_ok_def)
  then show ?thesis
    using False assms unat_be8 [of "length v"]
    by (intro exI [of _ 3]) (simp add: attr_bytes_eq bgp_attr_next_def be8_def)
qed

lemma attr_bytes_not_Nil [simp]: "attr_bytes x \<noteq> []"
  by (cases x) (simp add: attr_bytes_def w_attr_hdr_def Let_def)

section \<open>The decoder's walk\<close>

definition dec_one :: "decode_ctx \<Rightarrow> wire_attr \<Rightarrow> dec_state \<Rightarrow> dec_state" where
  "dec_one ctx x st = (case x of (f, t, v) \<Rightarrow> decode_attr ctx (sent_flags f (length v)) t v st)"

lemma read_attrs_Nil [simp]: "read_attrs ctx [] st = st"
  by (simp add: read_attrs.simps)

lemma read_attrs_step:
  assumes "bgp_attr_next p = Some (fl, t, h, length v)" and "drop h p = v @ r" and "t \<notin> set (v_seen st)"
  shows "read_attrs ctx p st = read_attrs ctx r (decode_attr ctx fl t v (st\<lparr>v_seen := t # v_seen st\<rparr>))"
proof -
  have "p \<noteq> []" using assms(1) by (auto simp: bgp_attr_next_def)
  then show ?thesis
    using assms(3) by (subst read_attrs.simps) (simp add: assms(1,2) del: length_drop drop_drop)
qed

lemma read_attrs_cons:
  assumes "wire_attr_ok (f, t, v)" and "t \<notin> set (v_seen st)"
  shows "read_attrs ctx (attr_bytes (f, t, v) @ r) st
    = read_attrs ctx r (dec_one ctx (f, t, v) (st\<lparr>v_seen := t # v_seen st\<rparr>))"
proof -
  obtain h where "bgp_attr_next (attr_bytes (f, t, v) @ r) = Some (sent_flags f (length v), t, h, length v)"
    "drop h (attr_bytes (f, t, v) @ r) = v @ r"
    using attr_next_bytes [OF assms(1)] by blast
  from read_attrs_step [OF this assms(2)] show ?thesis by (simp add: dec_one_def)
qed

text \<open>The types seen matter to the walk only, never to an attribute.\<close>

lemma seen_simps [simp]:
  "add_fault t r (st\<lparr>v_seen := s\<rparr>) = (add_fault t r st)\<lparr>v_seen := s\<rparr>"
  "attr_fault a r (st\<lparr>v_seen := s\<rparr>) = (attr_fault a r st)\<lparr>v_seen := s\<rparr>"
  "upd_attrs g (st\<lparr>v_seen := s\<rparr>) = (upd_attrs g st)\<lparr>v_seen := s\<rparr>"
  by (simp_all add: add_fault_def attr_fault_def upd_attrs_def)

lemma checked_seen:
  "(\<And>st. g (st\<lparr>v_seen := s\<rparr>) = (g st)\<lparr>v_seen := s\<rparr>) \<Longrightarrow>
    checked t b c g (st\<lparr>v_seen := s\<rparr>) = (checked t b c g st)\<lparr>v_seen := s\<rparr>"
  by (simp add: checked_def)

lemma decode_mp_seen:
  "decode_mp_reach ctx v (st\<lparr>v_seen := s\<rparr>) = (decode_mp_reach ctx v st)\<lparr>v_seen := s\<rparr>"
  "decode_mp_unreach ctx v (st\<lparr>v_seen := s\<rparr>) = (decode_mp_unreach ctx v st)\<lparr>v_seen := s\<rparr>"
proof -
  have swap: "st\<lparr>v_seen := s, u_host_bits := n\<rparr> = st\<lparr>u_host_bits := n, v_seen := s\<rparr>" for st :: dec_state and n by simp
  show "decode_mp_reach ctx v (st\<lparr>v_seen := s\<rparr>) = (decode_mp_reach ctx v st)\<lparr>v_seen := s\<rparr>"
    by (auto simp: decode_mp_reach_def Let_def swap split: option.split prod.split)
  show "decode_mp_unreach ctx v (st\<lparr>v_seen := s\<rparr>) = (decode_mp_unreach ctx v st)\<lparr>v_seen := s\<rparr>"
    by (auto simp: decode_mp_unreach_def Let_def swap split: option.split prod.split)
qed

lemma saw_swap:
  "st\<lparr>v_seen := s, v_saw_origin := b\<rparr> = st\<lparr>v_saw_origin := b, v_seen := s\<rparr>"
  "st\<lparr>v_seen := s, v_saw_as_path := b\<rparr> = st\<lparr>v_saw_as_path := b, v_seen := s\<rparr>"
  "st\<lparr>v_seen := s, v_saw_nexthop := b\<rparr> = st\<lparr>v_saw_nexthop := b, v_seen := s\<rparr>" for st :: dec_state
  by simp_all

lemma decode_attr_seen: "decode_attr ctx f t v (st\<lparr>v_seen := s\<rparr>) = (decode_attr ctx f t v st)\<lparr>v_seen := s\<rparr>"
  unfolding decode_attr_def Let_def saw_swap
  unfolding if_distrib [where f = "\<lambda>x. x\<lparr>v_seen := s\<rparr>"]
  by (intro if_cong refl checked_seen; simp add: decode_mp_seen saw_swap checked_seen split: option.split)

lemma dec_one_seen: "dec_one ctx x (st\<lparr>v_seen := s\<rparr>) = (dec_one ctx x st)\<lparr>v_seen := s\<rparr>"
  by (simp add: dec_one_def decode_attr_seen split: prod.split)

definition wire_types :: "wire_attr list \<Rightarrow> byte list" where
  "wire_types l = map (\<lambda>x. fst (snd x)) l"

lemma dec_one_keeps_seen [simp]: "v_seen (dec_one ctx x st) = v_seen st"
  using arg_cong [OF dec_one_seen [of ctx x "v_seen st" st], of v_seen] by simp

lemma fold_dec_seen: "fold (dec_one ctx) l (st\<lparr>v_seen := s\<rparr>) = (fold (dec_one ctx) l st)\<lparr>v_seen := s\<rparr>"
  by (induction l arbitrary: st) (simp_all add: dec_one_seen)

lemma read_attrs_fold:
  assumes "list_all wire_attr_ok l" and "distinct (wire_types l)" and "set (wire_types l) \<inter> set (v_seen st) = {}"
  shows "read_attrs ctx (concat (map attr_bytes l) @ r) st
    = read_attrs ctx r ((fold (dec_one ctx) l st)\<lparr>v_seen := rev (wire_types l) @ v_seen st\<rparr>)"
  using assms
proof (induction l arbitrary: st)
  case Nil
  then show ?case by (simp add: wire_types_def)
next
  case (Cons x l)
  obtain f t v where x: "x = (f, t, v)" by (cases x)
  let ?st = "dec_one ctx x (st\<lparr>v_seen := t # v_seen st\<rparr>)"
  have "read_attrs ctx (concat (map attr_bytes (x # l)) @ r) st = read_attrs ctx (concat (map attr_bytes l) @ r) ?st"
    using Cons.prems by (simp add: x read_attrs_cons wire_types_def)
  also have "\<dots> = read_attrs ctx r ((fold (dec_one ctx) l ?st)\<lparr>v_seen := rev (wire_types l) @ v_seen ?st\<rparr>)"
    using Cons.prems by (intro Cons.IH) (auto simp: x wire_types_def)
  finally show ?case
    by (simp add: x wire_types_def dec_one_seen fold_dec_seen)
qed

section \<open>The effect of each attribute\<close>

lemma upd_attrs_upd [simp]: "upd_attrs g (upd_attrs h st) = upd_attrs (\<lambda>a. g (h a)) st"
  by (simp add: upd_attrs_def)

lemma flag_consts:
  "is_optional AFLAG_TRANSITIVE = False" "is_transitive AFLAG_TRANSITIVE = True" "bad_well_known AFLAG_TRANSITIVE = False"
  "is_optional AFLAG_OPTIONAL = True" "is_transitive AFLAG_OPTIONAL = False"
  "is_optional 0xC0 = True" "is_transitive 0xC0 = True"
  by (simp_all add: is_optional_def is_transitive_def bad_well_known_def)

lemmas dec_defs = dec_one_def decode_attr_def checked_def sent_flags_bits flag_consts

lemma dec_origin:
  "x \<le> ORIGIN_INCOMPLETE \<Longrightarrow> dec_one ctx (0x40, 1, [x]) st = upd_attrs (\<lambda>a. a\<lparr>a_origin := x\<rparr>) (st\<lparr>v_saw_origin := True\<rparr>)"
  by (simp add: dec_defs linorder_not_less)

lemma dec_as_path:
  "canon_as_path (ctx_as4 ctx) v = Some c \<Longrightarrow>
    dec_one ctx (0x40, 2, v) st = upd_attrs (\<lambda>a. a\<lparr>a_as_path := c\<rparr>) (st\<lparr>v_saw_as_path := True\<rparr>)"
  by (simp add: dec_defs)

lemma dec_nexthop:
  "length v = 4 \<Longrightarrow> dec_one ctx (0x40, 3, v) st = upd_attrs (\<lambda>a. a\<lparr>a_nexthop := v\<rparr>) (st\<lparr>v_saw_nexthop := True\<rparr>)"
  by (simp add: dec_defs)

lemma dec_med:
  "dec_one ctx (0x80, 4, be32 (uint w)) st = upd_attrs (\<lambda>a. a\<lparr>a_med := w, a_flags := a_flags a OR ATTRF_MED\<rparr>) st"
  by (simp add: dec_defs)

lemma dec_local_pref:
  "\<not> ctx_is_ebgp ctx \<Longrightarrow> dec_one ctx (0x40, 5, be32 (uint w)) st
    = upd_attrs (\<lambda>a. a\<lparr>a_local_pref := w, a_flags := a_flags a OR ATTRF_LOCAL_PREF\<rparr>) st"
  by (simp add: dec_defs)

lemma dec_atomic:
  "dec_one ctx (0x40, 6, []) st = upd_attrs (\<lambda>a. a\<lparr>a_flags := a_flags a OR ATTRF_ATOMIC_AGGREGATE\<rparr>) st"
  by (simp add: dec_defs)

lemma dec_aggregator:
  "length v = (if ctx_as4 ctx then 8 else 6) \<Longrightarrow> dec_one ctx (0xC0, 7, v) st
    = upd_attrs (\<lambda>a. a\<lparr>a_aggregator := (if ctx_as4 ctx then v else [0, 0] @ v)\<rparr>) st"
  by (simp add: dec_defs)

lemma dec_communities:
  "length v mod 4 = 0 \<Longrightarrow> dec_one ctx (0xC0, 8, v) st = upd_attrs (\<lambda>a. a\<lparr>a_communities := v\<rparr>) st"
  by (simp add: dec_defs)

lemma dec_originator:
  "\<not> ctx_is_ebgp ctx \<Longrightarrow> dec_one ctx (0x80, 9, be32 (uint w)) st
    = upd_attrs (\<lambda>a. a\<lparr>a_originator_id := w, a_flags := a_flags a OR ATTRF_ORIGINATOR_ID\<rparr>) st"
  by (simp add: dec_defs)

lemma dec_cluster:
  "\<not> ctx_is_ebgp ctx \<Longrightarrow> length v mod 4 = 0 \<Longrightarrow>
    dec_one ctx (0x80, 10, v) st = upd_attrs (\<lambda>a. a\<lparr>a_cluster_list := v\<rparr>) st"
  by (simp add: dec_defs)

lemma dec_ext:
  "length v mod 8 = 0 \<Longrightarrow> dec_one ctx (0xC0, 16, v) st = upd_attrs (\<lambda>a. a\<lparr>a_ext_communities := v\<rparr>) st"
  by (simp add: dec_defs)

lemma dec_large:
  "length v mod 12 = 0 \<Longrightarrow> dec_one ctx (0xC0, 32, v) st = upd_attrs (\<lambda>a. a\<lparr>a_large_communities := v\<rparr>) st"
  by (simp add: dec_defs)

lemma dec_as4_path:
  "canon_as_path True v = Some c \<Longrightarrow> dec_one ctx (0xC0, 17, v) st = (if ctx_as4 ctx then st else st\<lparr>v_as4_path := Some c\<rparr>)"
  by (simp add: dec_defs)

lemma dec_as4_aggregator:
  "length v = 8 \<Longrightarrow> dec_one ctx (0xC0, 18, v) st = (if ctx_as4 ctx then st else st\<lparr>v_as4_aggregator := Some v\<rparr>)"
  by (simp add: dec_defs)

section \<open>Attributes passed on unread\<close>

definition KNOWN_TYPES :: "byte list" where
  "KNOWN_TYPES = [1, 2, 3, 4, 5, 6, 7, 8, 9, 10, 14, 15, 16, 17, 18, 32]"

text \<open>Optional, transitive and already marked partial, as the decoder stores them.\<close>

definition unknown_ok :: "wire_attr \<Rightarrow> bool" where
  "unknown_ok x \<longleftrightarrow> wire_attr_ok x \<and> fst (snd x) \<notin> set KNOWN_TYPES
    \<and> is_optional (fst x) \<and> is_transitive (fst x) \<and> fst x AND AFLAG_PARTIAL = AFLAG_PARTIAL"

lemma or_absorb: "f AND p = p \<Longrightarrow> f OR p = f" for f p :: byte
proof (rule bit_word_eqI)
  fix n assume a: "f AND p = p"
  have "bit (f AND p) n = bit p n" by (simp only: a)
  then show "bit (f OR p) n = bit f n" by (auto simp: bit_simps)
qed

lemma and_not_absorb: "f AND e = 0 \<Longrightarrow> f AND NOT e = f" for f e :: byte
proof (rule bit_word_eqI)
  fix n assume a: "f AND e = 0" and n: "n < LENGTH(8)"
  have "bit (f AND e) n = False" by (simp only: a bit_0_eq bot_apply bot_bool_def)
  then show "bit (f AND NOT e) n = bit f n" using n by (auto simp: bit_simps)
qed

lemma sent_flags_or: "f AND AFLAG_PARTIAL = AFLAG_PARTIAL \<Longrightarrow> sent_flags f n OR AFLAG_PARTIAL = sent_flags f n"
proof -
  assume "f AND AFLAG_PARTIAL = AFLAG_PARTIAL"
  then have a: "f OR AFLAG_PARTIAL = f" by (rule or_absorb)
  have "(f OR AFLAG_EXT_LEN) OR AFLAG_PARTIAL = (f OR AFLAG_PARTIAL) OR AFLAG_EXT_LEN" by (simp only: ac_simps)
  with a show ?thesis by (simp add: sent_flags_def)
qed

lemma reencode_sent:
  assumes "unknown_ok (f, t, v)"
  shows "reencode_attr (sent_flags f (length v) OR AFLAG_PARTIAL) t v = attr_bytes (f, t, v)"
proof -
  have ok: "wire_attr_ok (f, t, v)" and p: "f AND AFLAG_PARTIAL = AFLAG_PARTIAL" using assms by (simp_all add: unknown_ok_def)
  have e: "f AND AFLAG_EXT_LEN = 0" using ok by (simp add: wire_attr_ok_def)
  have off: "f AND NOT AFLAG_EXT_LEN = f" by (rule and_not_absorb [OF e])
  show ?thesis
    unfolding sent_flags_or [OF p] attr_bytes_eq [OF ok] reencode_attr_def Let_def
    by (simp add: sent_flags_def or_ext_len off [simplified] e)
qed

lemma dec_unknown:
  assumes "unknown_ok x"
  shows "dec_one ctx x st = upd_attrs (\<lambda>a. a\<lparr>a_unknown := a_unknown a @ attr_bytes x\<rparr>) st"
proof -
  obtain f t v where x: "x = (f, t, v)" by (cases x)
  have t: "t \<notin> set KNOWN_TYPES" using assms by (simp add: x unknown_ok_def)
  have "is_optional (sent_flags f (length v))" "is_transitive (sent_flags f (length v))"
    using assms by (simp_all add: x unknown_ok_def sent_flags_bits)
  with t reencode_sent [of f t v] assms show ?thesis
    by (simp add: x dec_one_def decode_attr_def KNOWN_TYPES_def)
qed

lemma fold_unknown:
  "list_all unknown_ok us \<Longrightarrow>
    fold (dec_one ctx) us st = upd_attrs (\<lambda>a. a\<lparr>a_unknown := a_unknown a @ concat (map attr_bytes us)\<rparr>) st"
  by (induction us arbitrary: st) (simp_all add: dec_unknown, simp add: upd_attrs_def)

end
