(* ===== verification/WireAttrList.thy ===== *)
theory WireAttrList
  imports WireAttrs AttrsProps
begin

text \<open>
  The attribute block of an announcement: the octets that \<open>_w_attrs\<close> writes are those of a
  list of attributes of distinct types, and decoding that list gives the attribute set a
  receiver is meant to have.
\<close>

section \<open>Attributes kept unread, in order of type\<close>

definition unknown_tlv :: "wire_attr \<Rightarrow> byte \<times> bytestr" where
  "unknown_tlv x = (fst (snd x), attr_bytes x)"

lemma be16_split: "n < 65536 \<Longrightarrow>
  unat (word_of_int (drop_bit 8 (int n)) :: byte) * 256 + unat (word_of_nat n :: byte) = n"
proof -
  assume n: "n < 65536"
  have "drop_bit 8 (int n) = int (n div 256)" by (simp add: drop_bit_eq_div zdiv_int)
  moreover have "unat (word_of_nat (n div 256) :: byte) = n div 256"
    using n by (simp add: unsigned_of_nat take_bit_nat_eq_self less_mult_imp_div_less)
  moreover have "unat (word_of_nat n :: byte) = n mod 256" by (simp add: unsigned_of_nat take_bit_eq_mod)
  ultimately show ?thesis by (simp only: of_int_of_nat_eq div_mult_mod_eq)
qed

lemma take_drop_4:
  "take (4 + n) (a # b # c # d # v) = a # b # c # d # take n v"
  "drop (4 + n) (a # b # c # d # v) = drop n v"
  "take (3 + n) (a # b # c # v) = a # b # c # take n v"
  "drop (3 + n) (a # b # c # v) = drop n v"
  by (simp_all add: numeral_eq_Suc)

lemma split_tlvs_bytes:
  assumes "wire_attr_ok x"
  shows "split_tlvs (attr_bytes x @ r) = unknown_tlv x # split_tlvs r"
proof -
  obtain f t v where x: "x = (f, t, v)" by (cases x)
  have len: "length v < 65536" using assms by (simp add: x wire_attr_ok_def)
  show ?thesis
  proof (cases "255 < length v")
    case True
    then have e: "sent_flags f (length v) AND AFLAG_EXT_LEN \<noteq> 0" by (simp add: sent_flags_def or_ext_len)
    have b: "attr_bytes x @ r = sent_flags f (length v) # t # word_of_int (drop_bit 8 (int (length v))) # word_of_nat (length v) # v @ r"
      using assms True by (simp add: x attr_bytes_eq be16_def)
    show ?thesis
      using e True be16_split [OF len]
      by (subst split_tlvs.simps) (simp add: unknown_tlv_def b, simp add: Let_def x attr_bytes_eq [OF assms [unfolded x]] be16_def take_drop_4)
  next
    case False
    then have e: "sent_flags f (length v) AND AFLAG_EXT_LEN = 0" using assms by (simp add: x sent_flags_def wire_attr_ok_def)
    have b: "attr_bytes x @ r = sent_flags f (length v) # t # word_of_nat (length v) # v @ r"
      using assms False by (simp add: x attr_bytes_eq be8_def)
    show ?thesis
      using e False unat_be8 [of "length v"]
      by (subst split_tlvs.simps) (simp add: unknown_tlv_def b, simp add: Let_def x attr_bytes_eq [OF assms [unfolded x]] be8_def take_drop_4)
  qed
qed

lemma split_tlvs_concat: "list_all wire_attr_ok us \<Longrightarrow> split_tlvs (concat (map attr_bytes us)) = map unknown_tlv us"
  by (induction us) (simp add: split_tlvs.simps, simp add: split_tlvs_bytes)

definition by_type :: "wire_attr list \<Rightarrow> bool" where
  "by_type us \<longleftrightarrow> sorted_wrt (<) (wire_types us)"

lemma split_unknown_concat:
  assumes "list_all wire_attr_ok us" and "by_type us"
  shows "split_unknown (concat (map attr_bytes us)) = map unknown_tlv us"
proof -
  have "sorted (map fst (map unknown_tlv us))"
    using strict_sorted_imp_sorted [of "wire_types us"] assms(2) by (simp add: by_type_def wire_types_def unknown_tlv_def comp_def)
  then show ?thesis
    unfolding split_unknown_def split_tlvs_concat [OF assms(1)] by (rule sort_key_id_if_sorted)
qed

definition below :: "int \<Rightarrow> wire_attr \<Rightarrow> bool" where
  "below k x \<longleftrightarrow> uint (fst (snd x)) < k"

lemma w_unknown_below_map:
  "w_unknown_below (map unknown_tlv us) k =
    (concat (map attr_bytes (takeWhile (below k) us)), map unknown_tlv (dropWhile (below k) us))"
proof -
  have "(\<lambda>u. uint (fst u) < k) \<circ> unknown_tlv = below k" "snd \<circ> unknown_tlv = attr_bytes"
    by (simp_all add: fun_eq_iff below_def unknown_tlv_def)
  then show ?thesis
    by (simp add: w_unknown_below_def takeWhile_map dropWhile_map)
qed

section \<open>The list that is written\<close>

definition when_list :: "bool \<Rightarrow> 'a \<Rightarrow> 'a list" where
  "when_list b x = (if b then [x] else [])"

definition agg_value :: "attr_set \<Rightarrow> bool \<Rightarrow> bytestr" where
  "agg_value a as4 =
    (if as4 then a_aggregator a
     else (if as_trans_needed (a_aggregator a) then be16 (uint AS_TRANS) else take 2 (drop 2 (a_aggregator a)))
       @ take 4 (drop 4 (a_aggregator a)))"

definition path_value :: "attr_set \<Rightarrow> bool \<Rightarrow> bytestr" where
  "path_value a as4 = (if as4 then a_as_path a else fst (downgrade_as_path (a_as_path a)))"

definition big_aggregator :: "attr_set \<Rightarrow> bool" where
  "big_aggregator a \<longleftrightarrow> length (a_aggregator a) = 8 \<and> as_trans_needed (a_aggregator a)"

definition needs_as4 :: "attr_set \<Rightarrow> bool \<Rightarrow> bool" where
  "needs_as4 a as4 \<longleftrightarrow> \<not> as4 \<and> (snd (downgrade_as_path (a_as_path a)) \<or> big_aggregator a)"

definition low_attrs :: "attr_set \<Rightarrow> bool \<Rightarrow> bool \<Rightarrow> bool \<Rightarrow> wire_attr list" where
  "low_attrs a as4 with_nexthop is_ebgp =
    [(0x40, 1, [a_origin a]), (0x40, 2, path_value a as4)]
    @ when_list (with_nexthop \<and> length (a_nexthop a) = 4) (0x40, 3, a_nexthop a)
    @ when_list (has_med a) (0x80, 4, be32 (uint (a_med a)))
    @ when_list (has_local_pref a \<and> \<not> is_ebgp) (0x40, 5, be32 (uint (a_local_pref a)))
    @ when_list (atomic_aggregate a) (0x40, 6, [])
    @ when_list (length (a_aggregator a) = 8) (0xC0, 7, agg_value a as4)
    @ when_list (a_communities a \<noteq> []) (0xC0, 8, a_communities a)
    @ when_list (has_originator_id a \<and> \<not> is_ebgp) (0x80, 9, be32 (uint (a_originator_id a)))
    @ when_list (a_cluster_list a \<noteq> [] \<and> \<not> is_ebgp) (0x80, 10, a_cluster_list a)"

definition mid_attrs :: "attr_set \<Rightarrow> bool \<Rightarrow> wire_attr list" where
  "mid_attrs a as4 =
    when_list (a_ext_communities a \<noteq> []) (0xC0, 16, a_ext_communities a)
    @ when_list (needs_as4 a as4) (0xC0, 17, a_as_path a)
    @ when_list (needs_as4 a as4 \<and> big_aggregator a) (0xC0, 18, a_aggregator a)"

definition high_attrs :: "attr_set \<Rightarrow> wire_attr list" where
  "high_attrs a = when_list (a_large_communities a \<noteq> []) (0xC0, 32, a_large_communities a)"

definition sent_attrs :: "attr_set \<Rightarrow> wire_attr list \<Rightarrow> bool \<Rightarrow> bool \<Rightarrow> bool \<Rightarrow> wire_attr list" where
  "sent_attrs a us as4 with_nexthop is_ebgp =
    (let after1 = dropWhile (below 1) us; after16 = dropWhile (below 16) after1; after32 = dropWhile (below 32) after16 in
     takeWhile (below 1) us @ low_attrs a as4 with_nexthop is_ebgp
     @ takeWhile (below 16) after1 @ mid_attrs a as4
     @ takeWhile (below 32) after16 @ high_attrs a @ takeWhile (below 256) after32)"

lemma hdr_small:
  "f AND AFLAG_EXT_LEN = 0 \<Longrightarrow> w_attr_hdr f t 0 = [f, t, 0]"
  "f AND AFLAG_EXT_LEN = 0 \<Longrightarrow> w_attr_hdr f t (Suc 0) = [f, t, 1]"
  "f AND AFLAG_EXT_LEN = 0 \<Longrightarrow> w_attr_hdr f t 4 = [f, t, 4]"
  by (simp_all add: w_attr_hdr_def be8_def)

lemma bytes_when: "concat (map attr_bytes (when_list b x)) = (if b then attr_bytes x else [])"
  by (simp add: when_list_def)

lemma attr_bytes_triple: "attr_bytes (f, t, v) = w_attr_hdr f t (length v) @ v"
  by (simp add: attr_bytes_def)

lemma length_agg_value: "length (a_aggregator a) = 8 \<Longrightarrow> length (agg_value a as4) = (if as4 then 8 else 6)"
  by (simp add: agg_value_def)

lemma w_attrs_sent:
  assumes "list_all wire_attr_ok us" and "by_type us" and "a_unknown a = concat (map attr_bytes us)"
  shows "w_attrs a as4 nh ebgp = concat (map attr_bytes (sent_attrs a us as4 nh ebgp))"
proof -
  have unk: "(if a_unknown a \<noteq> [] then split_unknown (a_unknown a) else []) = map unknown_tlv us"
    using split_unknown_concat [OF assms(1,2)] by (cases us) (simp_all add: assms(3))
  have agg: "w_aggregator a as4 = (if length (a_aggregator a) = 8 then attr_bytes (0xC0, 7, agg_value a as4) else [])"
    using length_agg_value [of a as4]
    by (cases as4) (simp_all add: w_aggregator_def attr_bytes_triple agg_value_def)
  have as4': "(if needs_as4 a as4 then w_as4 a else [])
      = (if needs_as4 a as4 then attr_bytes (0xC0, 17, a_as_path a) else [])
        @ (if needs_as4 a as4 \<and> big_aggregator a then attr_bytes (0xC0, 18, a_aggregator a) else [])"
    by (simp add: w_as4_def attr_bytes_triple big_aggregator_def)
  have pv: "(if as4 then (a_as_path a, False) else downgrade_as_path (a_as_path a)) = (path_value a as4,
      \<not> as4 \<and> snd (downgrade_as_path (a_as_path a)))"
    by (simp add: path_value_def)
  have na: "(\<not> as4 \<and> snd (downgrade_as_path (a_as_path a)) \<or> \<not> as4 \<and> length (a_aggregator a) = 8 \<and> as_trans_needed (a_aggregator a))
      = needs_as4 a as4"
    by (auto simp: needs_as4_def big_aggregator_def)
  show ?thesis
    unfolding w_attrs_def unk pv Let_def w_unknown_below_map prod.case na as4' agg
    by (simp add: sent_attrs_def low_attrs_def mid_attrs_def high_attrs_def Let_def bytes_when attr_bytes_triple hdr_small)
qed

section \<open>Types are distinct\<close>

lemma wire_types_append [simp]: "wire_types (xs @ ys) = wire_types xs @ wire_types ys"
  by (simp add: wire_types_def)

lemma wire_types_when [simp]: "wire_types (when_list b (f, t, v)) = (if b then [t] else [])"
  by (simp add: when_list_def wire_types_def)

lemma in_opt: "x \<in> set (if b then [t] else []) \<longleftrightarrow> b \<and> x = t"
  by auto

lemma distinct_opt:
  "distinct ((if b then [t] else []) @ l) \<longleftrightarrow> (b \<longrightarrow> t \<notin> set l) \<and> distinct l"
  "distinct (if b then [t] else [])"
  by auto

lemma low_types: "set (wire_types (low_attrs a as4 nh e)) \<subseteq> {1, 2, 3, 4, 5, 6, 7, 8, 9, 10} \<and> distinct (wire_types (low_attrs a as4 nh e))"
proof -
  have two: "wire_types ((0x40, 1, [a_origin a]) # (0x40, 2, path_value a as4) # l) = 1 # 2 # wire_types l" for l
    by (simp add: wire_types_def)
  have "x \<in> set (wire_types (low_attrs a as4 nh e)) \<Longrightarrow> x \<in> {1, 2, 3, 4, 5, 6, 7, 8, 9, 10}" for x
    unfolding low_attrs_def append_Cons append_Nil two wire_types_append wire_types_when
      set_append Un_iff in_opt list.set insert_iff by blast
  moreover have "distinct (wire_types (low_attrs a as4 nh e))"
    unfolding low_attrs_def append_Cons append_Nil two wire_types_append wire_types_when
    by (simp add: distinct_opt in_opt del: distinct_append split del: if_split)
  ultimately show ?thesis by blast
qed

lemma mid_types: "set (wire_types (mid_attrs a as4)) \<subseteq> {16, 17, 18} \<and> distinct (wire_types (mid_attrs a as4))"
  by (simp add: mid_attrs_def)

lemma high_types: "set (wire_types (high_attrs a)) \<subseteq> {32} \<and> distinct (wire_types (high_attrs a))"
  by (simp add: high_attrs_def)

lemma unknown_parts: "takeWhile P us @ takeWhile Q (dropWhile P us) @ takeWhile R (dropWhile Q (dropWhile P us))
    @ dropWhile R (dropWhile Q (dropWhile P us)) = us"
  by simp

lemma below_256: "dropWhile (below 256) us = []" "takeWhile (below 256) us = us"
proof -
  have "below 256 x" for x :: wire_attr
    using uint_bounded [of "fst (snd x)"] by (simp add: below_def)
  then show "dropWhile (below 256) us = []" "takeWhile (below 256) us = us" by (simp_all add: takeWhile_eq_all_conv)
qed

lemma unknown_split:
  "takeWhile (below 1) us @ takeWhile (below 16) (dropWhile (below 1) us)
   @ takeWhile (below 32) (dropWhile (below 16) (dropWhile (below 1) us))
   @ takeWhile (below 256) (dropWhile (below 32) (dropWhile (below 16) (dropWhile (below 1) us))) = us"
  by (simp add: below_256)

lemma distinct_interleave:
  assumes "distinct (u1 @ u2 @ u3 @ u4)" and "set (u1 @ u2 @ u3 @ u4) \<inter> K = {}"
    and "distinct l" "distinct m" "distinct h" and "set l \<subseteq> A" "set m \<subseteq> B" "set h \<subseteq> C"
    and "A \<inter> B = {}" "A \<inter> C = {}" "B \<inter> C = {}" and "A \<union> B \<union> C \<subseteq> K"
  shows "distinct (u1 @ l @ u2 @ m @ u3 @ h @ u4)"
proof -
  have "distinct (l @ m @ h)" using assms(3-11) unfolding distinct_append set_append by blast
  moreover have "set (l @ m @ h) \<subseteq> K" using assms(6-8,12) by auto
  then have "set (u1 @ u2 @ u3 @ u4) \<inter> set (l @ m @ h) = {}" using assms(2) by blast
  ultimately have "distinct ((u1 @ u2 @ u3 @ u4) @ (l @ m @ h))" using assms(1) by (subst distinct_append) blast
  moreover have "mset (u1 @ l @ u2 @ m @ u3 @ h @ u4) = mset ((u1 @ u2 @ u3 @ u4) @ (l @ m @ h))" by simp
  ultimately show ?thesis using mset_eq_imp_distinct_iff by blast
qed

lemma by_type_distinct: "by_type us \<Longrightarrow> distinct (wire_types us)"
  by (simp add: by_type_def strict_sorted_iff)

lemma sent_types_distinct:
  assumes "list_all unknown_ok us" and "by_type us"
  shows "distinct (wire_types (sent_attrs a us as4 nh e))"
proof -
  let ?u1 = "takeWhile (below 1) us" and ?r1 = "dropWhile (below 1) us"
  let ?u2 = "takeWhile (below 16) ?r1" and ?r2 = "dropWhile (below 16) ?r1"
  let ?u3 = "takeWhile (below 32) ?r2" and ?u4 = "takeWhile (below 256) (dropWhile (below 32) ?r2)"
  have us: "wire_types ?u1 @ wire_types ?u2 @ wire_types ?u3 @ wire_types ?u4 = wire_types us"
    by (simp only: wire_types_append [symmetric] unknown_split)
  have "set (wire_types us) \<inter> set KNOWN_TYPES = {}"
    using assms(1) by (auto simp: wire_types_def list_all_iff unknown_ok_def)
  then have "distinct (wire_types ?u1 @ wire_types (low_attrs a as4 nh e) @ wire_types ?u2 @ wire_types (mid_attrs a as4)
      @ wire_types ?u3 @ wire_types (high_attrs a) @ wire_types ?u4)"
    using low_types [of a as4 nh e] mid_types [of a as4] high_types [of a] by_type_distinct [OF assms(2)]
    by (intro distinct_interleave [where K = "set KNOWN_TYPES" and A = "{1, 2, 3, 4, 5, 6, 7, 8, 9, 10}" and B = "{16, 17, 18}" and C = "{32}"])
       (simp_all only: us, simp_all add: KNOWN_TYPES_def)
  then show ?thesis by (simp only: sent_attrs_def Let_def wire_types_append)
qed

section \<open>What the receiver makes of them\<close>

text \<open>The fields a set must have for its octets to be read back.\<close>

definition sendable :: "attr_set \<Rightarrow> wire_attr list \<Rightarrow> bool" where
  "sendable a us \<longleftrightarrow>
    a_origin a \<le> ORIGIN_INCOMPLETE \<and> canon_as_path True (a_as_path a) = Some (a_as_path a)
    \<and> length (a_communities a) mod 4 = 0 \<and> length (a_ext_communities a) mod 8 = 0
    \<and> length (a_large_communities a) mod 12 = 0 \<and> length (a_cluster_list a) mod 4 = 0
    \<and> (a_aggregator a = [] \<or> length (a_aggregator a) = 8)
    \<and> list_all unknown_ok us \<and> by_type us \<and> a_unknown a = concat (map attr_bytes us)"

definition seen_path :: "attr_set \<Rightarrow> bool \<Rightarrow> bytestr" where
  "seen_path a as4 = (if as4 then a_as_path a else join_segments (map narrow (split_segments (a_as_path a))))"

definition seen_agg :: "attr_set \<Rightarrow> bool \<Rightarrow> bytestr" where
  "seen_agg a as4 = (if length (a_aggregator a) \<noteq> 8 then [] else if as4 then agg_value a as4 else [0, 0] @ agg_value a as4)"

definition seen_low :: "attr_set \<Rightarrow> bool \<Rightarrow> bool \<Rightarrow> bool \<Rightarrow> attr_set \<Rightarrow> attr_set" where
  "seen_low a as4 nh e b = b\<lparr>a_origin := a_origin a, a_as_path := seen_path a as4,
    a_nexthop := if nh \<and> length (a_nexthop a) = 4 then a_nexthop a else a_nexthop b,
    a_med := if has_med a then a_med a else a_med b,
    a_local_pref := if has_local_pref a \<and> \<not> e then a_local_pref a else a_local_pref b,
    a_originator_id := if has_originator_id a \<and> \<not> e then a_originator_id a else a_originator_id b,
    a_aggregator := if length (a_aggregator a) = 8 then seen_agg a as4 else a_aggregator b,
    a_communities := if a_communities a \<noteq> [] then a_communities a else a_communities b,
    a_cluster_list := if a_cluster_list a \<noteq> [] \<and> \<not> e then a_cluster_list a else a_cluster_list b,
    a_flags := (((a_flags b OR (if has_med a then ATTRF_MED else 0))
      OR (if has_local_pref a \<and> \<not> e then ATTRF_LOCAL_PREF else 0))
      OR (if atomic_aggregate a then ATTRF_ATOMIC_AGGREGATE else 0))
      OR (if has_originator_id a \<and> \<not> e then ATTRF_ORIGINATOR_ID else 0)\<rparr>"

lemma fold_when: "fold g (when_list b x) st = (if b then g x st else st)"
  by (simp add: when_list_def)

lemma seen_path_canon:
  assumes "sendable a us"
  shows "canon_as_path as4 (path_value a as4) = Some (seen_path a as4)"
proof (cases as4)
  case True
  then show ?thesis using assms by (simp add: sendable_def path_value_def seen_path_def)
next
  case False
  have "canon_as_path True (a_as_path a) = Some (a_as_path a)" using assms by (simp add: sendable_def)
  from canon_narrowed [OF this] show ?thesis
    by (simp add: False path_value_def seen_path_def)
qed

lemma part_nexthop:
  "(if C \<and> length v = 4 then dec_one ctx (0x40, 3, v) st else st)
    = upd_attrs (\<lambda>b. b\<lparr>a_nexthop := if C \<and> length v = 4 then v else a_nexthop b\<rparr>)
      (st\<lparr>v_saw_nexthop := v_saw_nexthop st \<or> C \<and> length v = 4\<rparr>)"
proof (cases "C \<and> length v = 4")
  case True
  then show ?thesis by (simp add: dec_nexthop)
next
  case False
  then have "(C \<and> length v = 4) = False" by simp
  then show ?thesis by (simp only: if_False upd_attrs_def simp_thms) simp
qed

lemma part_med:
  "(if C then dec_one ctx (0x80, 4, be32 (uint w)) st else st)
    = upd_attrs (\<lambda>b. b\<lparr>a_med := if C then w else a_med b, a_flags := a_flags b OR (if C then ATTRF_MED else 0)\<rparr>) st"
  by (cases C) (simp_all add: dec_med upd_attrs_def)

lemma part_local_pref:
  "C \<longrightarrow> \<not> ctx_is_ebgp ctx \<Longrightarrow> (if C then dec_one ctx (0x40, 5, be32 (uint w)) st else st)
    = upd_attrs (\<lambda>b. b\<lparr>a_local_pref := if C then w else a_local_pref b,
        a_flags := a_flags b OR (if C then ATTRF_LOCAL_PREF else 0)\<rparr>) st"
  by (cases C) (simp_all add: dec_local_pref upd_attrs_def)

lemma part_atomic:
  "(if C then dec_one ctx (0x40, 6, []) st else st)
    = upd_attrs (\<lambda>b. b\<lparr>a_flags := a_flags b OR (if C then ATTRF_ATOMIC_AGGREGATE else 0)\<rparr>) st"
  by (cases C) (simp_all add: dec_atomic upd_attrs_def)

lemma part_aggregator:
  "C \<longrightarrow> length v = (if ctx_as4 ctx then 8 else 6) \<Longrightarrow> (if C then dec_one ctx (0xC0, 7, v) st else st)
    = upd_attrs (\<lambda>b. b\<lparr>a_aggregator := if C then (if ctx_as4 ctx then v else [0, 0] @ v) else a_aggregator b\<rparr>) st"
  by (cases C) (simp_all add: dec_aggregator, simp_all add: upd_attrs_def)

lemma part_communities:
  "length v mod 4 = 0 \<Longrightarrow> (if C then dec_one ctx (0xC0, 8, v) st else st)
    = upd_attrs (\<lambda>b. b\<lparr>a_communities := if C then v else a_communities b\<rparr>) st"
  by (cases C) (simp_all only: dec_communities if_True if_False, simp_all add: upd_attrs_def)

lemma part_originator:
  "C \<longrightarrow> \<not> ctx_is_ebgp ctx \<Longrightarrow> (if C then dec_one ctx (0x80, 9, be32 (uint w)) st else st)
    = upd_attrs (\<lambda>b. b\<lparr>a_originator_id := if C then w else a_originator_id b,
        a_flags := a_flags b OR (if C then ATTRF_ORIGINATOR_ID else 0)\<rparr>) st"
  by (cases C) (simp_all add: dec_originator upd_attrs_def)

lemma part_cluster:
  "C \<longrightarrow> \<not> ctx_is_ebgp ctx \<Longrightarrow> length v mod 4 = 0 \<Longrightarrow> (if C then dec_one ctx (0x80, 10, v) st else st)
    = upd_attrs (\<lambda>b. b\<lparr>a_cluster_list := if C then v else a_cluster_list b\<rparr>) st"
  by (cases C) (simp_all only: dec_cluster if_True if_False simp_thms, simp_all add: upd_attrs_def)

lemma part_ext:
  "length v mod 8 = 0 \<Longrightarrow> (if C then dec_one ctx (0xC0, 16, v) st else st)
    = upd_attrs (\<lambda>b. b\<lparr>a_ext_communities := if C then v else a_ext_communities b\<rparr>) st"
  by (cases C) (simp_all only: dec_ext if_True if_False, simp_all add: upd_attrs_def)

lemma part_large:
  "length v mod 12 = 0 \<Longrightarrow> (if C then dec_one ctx (0xC0, 32, v) st else st)
    = upd_attrs (\<lambda>b. b\<lparr>a_large_communities := if C then v else a_large_communities b\<rparr>) st"
  by (cases C) (simp_all only: dec_large if_True if_False, simp_all add: upd_attrs_def)

lemma upd_saw:
  "(upd_attrs g st)\<lparr>v_saw_nexthop := x\<rparr> = upd_attrs g (st\<lparr>v_saw_nexthop := x\<rparr>)"
  "(upd_attrs g st)\<lparr>v_saw_as_path := x\<rparr> = upd_attrs g (st\<lparr>v_saw_as_path := x\<rparr>)"
  "v_saw_nexthop (upd_attrs g st) = v_saw_nexthop st"
  by (simp_all add: upd_attrs_def)

lemma fold_low:
  assumes "sendable a us" and "ctx_as4 ctx = as4" and "ctx_is_ebgp ctx = e"
  shows "fold (dec_one ctx) (low_attrs a as4 nh e) st =
    upd_attrs (seen_low a as4 nh e) (st\<lparr>v_saw_origin := True, v_saw_as_path := True,
      v_saw_nexthop := v_saw_nexthop st \<or> nh \<and> length (a_nexthop a) = 4\<rparr>)"
proof -
  have ok: "a_origin a \<le> ORIGIN_INCOMPLETE" "length (a_communities a) mod 4 = 0" "length (a_cluster_list a) mod 4 = 0"
    using assms(1) unfolding sendable_def by blast+
  have path: "canon_as_path (ctx_as4 ctx) (path_value a as4) = Some (seen_path a as4)"
    using seen_path_canon [OF assms(1)] assms(2) by simp
  have agg: "length (a_aggregator a) = 8 \<longrightarrow> length (agg_value a as4) = (if ctx_as4 ctx then 8 else 6)"
    using length_agg_value assms(2) by simp
  have lp: "has_local_pref a \<and> \<not> e \<longrightarrow> \<not> ctx_is_ebgp ctx" and og: "has_originator_id a \<and> \<not> e \<longrightarrow> \<not> ctx_is_ebgp ctx"
    and cl: "a_cluster_list a \<noteq> [] \<and> \<not> e \<longrightarrow> \<not> ctx_is_ebgp ctx"
    using assms(3) by simp_all
  have sa: "(if length (a_aggregator a) = 8 then (if ctx_as4 ctx then agg_value a as4 else [0, 0] @ agg_value a as4) else x)
    = (if length (a_aggregator a) = 8 then seen_agg a as4 else x)" for x
    using assms(2) by (simp add: seen_agg_def)
  show ?thesis
    unfolding low_attrs_def fold_append fold_when comp_apply part_nexthop part_med part_local_pref [OF lp] part_atomic
      part_aggregator [OF agg] part_communities [OF ok(2)] part_originator [OF og] part_cluster [OF cl ok(3)] sa
    by (simp add: dec_origin [OF ok(1)] dec_as_path [OF path] upd_saw split del: if_split)
      (rule arg_cong [where f = "\<lambda>g. upd_attrs g _"], simp add: seen_low_def fun_eq_iff split del: if_split cong: if_cong)
qed

end
