(* ===== verification/FramerProps.thy ===== *)
theory FramerProps
  imports Framer "HOL-Library.Sublist"
begin

text \<open>
  What the framer promises: as long as no read raises, the messages it delivers, and the
  fault it latches, are a function of the octets received, whatever the sizes of the reads they
  came in; the messages of a well-formed stream come out as they were sent. The reference is
  \<open>frames\<close>, which splits a whole stream at once and knows no buffer, no start index and no
  compaction. Which reads raise is told by \<open>reads_ok\<close>, in terms of the stream: those that
  leave an incomplete message whose header has arrived behind a consumed prefix large enough
  to be reclaimed.
\<close>

section \<open>The head of a stream\<close>

datatype head = More | Bad int int string "bytestr option" | Frame byte nat

definition head_of :: "int \<Rightarrow> bytestr \<Rightarrow> head" where
  "head_of max_msg p =
    (if length p < 19 then More
     else case bad_marker p of
       Some i \<Rightarrow> Bad 1 1 (''connection not synchronised: marker byte '' @ nat_str i @ '' is 0x'' @ hex02 (p ! i)) None
     | None \<Rightarrow>
       let mlen = u16_of (drop 16 p); mtype = p ! 18 in
       if mlen < 19 \<or> max_msg < mlen
       then Bad 1 2 (''bad message length '' @ int_str mlen @ '' (allowed 19..'' @ int_str max_msg @ '')'') (Some (be16 mlen))
       else if mtype < MSG_OPEN \<or> MSG_ROUTE_REFRESH < mtype
       then Bad 1 3 (''bad message type '' @ nat_str (unat mtype)) (Some [mtype])
       else if \<not> length_fits_type mtype mlen
       then Bad 1 2 (''bad message length '' @ int_str mlen @ '' for ''
              @ get_default (dict_get MSG_NAMES mtype) (nat_str (unat mtype))) (Some (be16 mlen))
       else if int (length p) < mlen then More
       else Frame mtype (nat mlen))"

lemma head_of_Frame: "head_of mx p = Frame t n \<Longrightarrow> 19 \<le> n \<and> n \<le> length p"
  by (auto simp: head_of_def Let_def split: if_splits option.splits)

lemma u16_of_append: "2 \<le> length p \<Longrightarrow> u16_of (p @ q) = u16_of p"
  by (cases p) (auto simp: u16_of_def rd16_def nth_append)

lemma bad_marker_append: "16 \<le> length p \<Longrightarrow> bad_marker (p @ q) = bad_marker p"
  by (auto simp: bad_marker_def nth_append intro!: find_cong)

lemma bad_marker_Some: "bad_marker p = Some i \<Longrightarrow> i < 16"
  unfolding bad_marker_def by (auto simp: find_Some_iff)

text \<open>More octets never change a verdict; they only turn waiting into one.\<close>

lemma head_of_append: "head_of mx p \<noteq> More \<Longrightarrow> head_of mx (p @ q) = head_of mx p"
proof -
  assume a: "head_of mx p \<noteq> More"
  then have len: "19 \<le> length p" by (auto simp: head_of_def split: if_splits)
  have "bad_marker (p @ q) = bad_marker p" using len by (simp add: bad_marker_append)
  moreover have "(p @ q) ! i = p ! i" if "i < 19" for i using len that by (simp add: nth_append)
  moreover have "drop 16 (p @ q) = drop 16 p @ q" using len by simp
  moreover have "u16_of (drop 16 p @ q) = u16_of (drop 16 p)" using len by (simp add: u16_of_append)
  ultimately show ?thesis
    using a len bad_marker_Some [of p] unfolding head_of_def Let_def
    by (auto split: if_splits option.splits)
qed

section \<open>A whole stream\<close>

datatype ending = Pending bytestr | Fault int int string "bytestr option"

function frames :: "int \<Rightarrow> bytestr \<Rightarrow> (byte \<times> bytestr) list \<times> ending" where
  "frames mx p =
    (case head_of mx p of
      More \<Rightarrow> ([], Pending p)
    | Bad c s d x \<Rightarrow> ([], Fault c s d x)
    | Frame t n \<Rightarrow> (case frames mx (drop n p) of (ms, e) \<Rightarrow> ((t, take n p) # ms, e)))"
  by auto
termination
  by (relation "measure (\<lambda>(_, p). length p)") (auto dest!: head_of_Frame)

declare frames.simps [simp del]

lemma frames_cases:
  "head_of mx p = More \<Longrightarrow> frames mx p = ([], Pending p)"
  "head_of mx p = Bad c s d x \<Longrightarrow> frames mx p = ([], Fault c s d x)"
  "head_of mx p = Frame t n \<Longrightarrow> frames mx p =
    ((t, take n p) # fst (frames mx (drop n p)), snd (frames mx (drop n p)))"
  by (subst frames.simps; simp add: case_prod_unfold)+

text \<open>What the caller does: one \<open>feed\<close> and one drain for each read.\<close>

definition then_more :: "int \<Rightarrow> (byte \<times> bytestr) list \<times> ending \<Rightarrow> bytestr \<Rightarrow> (byte \<times> bytestr) list \<times> ending" where
  "then_more mx r q =
    (case snd r of
      Fault c s d x \<Rightarrow> r
    | Pending rest \<Rightarrow> (fst r @ fst (frames mx (rest @ q)), snd (frames mx (rest @ q))))"

lemma frames_append: "frames mx (p @ q) = then_more mx (frames mx p) q"
proof (induction mx p rule: frames.induct)
  case (1 mx p)
  show ?case
  proof (cases "head_of mx p")
    case More
    then show ?thesis by (simp add: frames_cases then_more_def)
  next
    case (Bad c s d x)
    then have "head_of mx (p @ q) = Bad c s d x" by (simp add: head_of_append)
    then show ?thesis using Bad by (simp add: frames_cases then_more_def)
  next
    case (Frame t n)
    then have "head_of mx (p @ q) = Frame t n" by (simp add: head_of_append)
    moreover have "n \<le> length p" using head_of_Frame [OF Frame] by simp
    ultimately show ?thesis
      using "1.IH" [OF Frame] Frame by (simp add: frames_cases then_more_def split: ending.splits)
  qed
qed

section \<open>The framer and the stream\<close>

definition framer_ok :: "framer \<Rightarrow> bool" where
  "framer_ok f \<longleftrightarrow> f_start f \<le> length (f_buf f)"

definition rest_of :: "framer \<Rightarrow> bytestr" where
  "rest_of f = drop (f_start f) (f_buf f)"

definition ending_of :: "framer \<Rightarrow> ending" where
  "ending_of f = (if f_error_code f = 0 then Pending (rest_of f)
    else Fault (f_error_code f) (f_error_subcode f) (get_default (f_error_detail f) []) (f_error_data f))"

lemma framer_compact_cases:
  "framer_compact viewed f =
    (if f_start f \<noteq> 0 \<and> (65536 \<le> f_start f \<or> length (f_buf f) \<le> f_start f * 2)
     then if viewed then (Inl resize_error, f) else (Inr (), f\<lparr>f_buf := rest_of f, f_start := 0\<rparr>)
     else (Inr (), f))"
  by (simp add: framer_compact_def rest_of_def)

lemma next_message_head:
  assumes ok: "framer_ok f" and "f_error_code f = 0"
  shows "next_message f =
    (case head_of (f_max_msg f) (rest_of f) of
      More \<Rightarrow> compact_none (19 \<le> length (rest_of f)) f
    | Bad c s d x \<Rightarrow> (Inr None, framer_fault c s d x f)
    | Frame t n \<Rightarrow> (Inr (Some (t, take n (rest_of f))), f\<lparr>f_start := f_start f + n, f_messages := f_messages f + 1\<rparr>))"
proof -
  have "length (rest_of f) = length (f_buf f) - f_start f" by (simp add: rest_of_def)
  then show ?thesis
    using assms(2)
    unfolding next_message_def head_of_def bgp_msg_header_def Let_def rest_of_def [symmetric]
    by (auto split: option.split)
qed

text \<open>
  Where the buffer starts after a drain that leaves \<open>rest\<close> behind \<open>start\<close> consumed octets: at the
  front when the prefix was reclaimed, and nowhere when reclaiming it raised.
\<close>

definition settle :: "nat \<Rightarrow> bytestr \<Rightarrow> nat option" where
  "settle start rest =
    (if start \<noteq> 0 \<and> (65536 \<le> start \<or> length rest \<le> start)
     then if length rest < 19 then Some 0 else None
     else Some start)"

lemma compact_settle:
  assumes "framer_ok f"
  shows "compact_none (19 \<le> length (rest_of f)) f =
    (case settle (f_start f) (rest_of f) of
      None \<Rightarrow> (Inl resize_error, f)
    | Some 0 \<Rightarrow> (Inr None, if f_start f = 0 then f else f\<lparr>f_buf := rest_of f, f_start := 0\<rparr>)
    | Some _ \<Rightarrow> (Inr None, f))"
proof -
  have "length (f_buf f) \<le> f_start f * 2 \<longleftrightarrow> length (rest_of f) \<le> f_start f"
    using assms by (auto simp: rest_of_def framer_ok_def)
  then show ?thesis by (auto simp: compact_none_def framer_compact_cases settle_def split: nat.split)
qed

text \<open>What a drain does to a framer without a fault.\<close>

definition drained_as :: "int \<Rightarrow> nat \<Rightarrow> bytestr \<Rightarrow> (byte \<times> bytestr) list result \<times> framer \<Rightarrow> bool" where
  "drained_as mx start p r \<longleftrightarrow> framer_ok (snd r) \<and> f_max_msg (snd r) = mx \<and>
    (case snd (frames mx p) of
      Fault c s d x \<Rightarrow> fst r = Inr (fst (frames mx p)) \<and> c \<noteq> 0 \<and> ending_of (snd r) = Fault c s d x
        \<and> f_error_code (snd r) \<noteq> 0
    | Pending rest \<Rightarrow> f_error_code (snd r) = 0 \<and> rest_of (snd r) = rest
        \<and> (case settle (start + length p - length rest) rest of
             None \<Rightarrow> fst r = Inl resize_error
           | Some start' \<Rightarrow> fst r = Inr (fst (frames mx p)) \<and> f_start (snd r) = start'))"

lemma frames_rest: "snd (frames mx p) = Pending r \<Longrightarrow> length r \<le> length p"
proof (induction mx p rule: frames.induct)
  case (1 mx p)
  then show ?case
    by (cases "head_of mx p") (fastforce simp: frames_cases dest: head_of_Frame)+
qed

lemma drain_frames:
  assumes "framer_ok f" and "f_error_code f = 0"
  shows "drained_as (f_max_msg f) (f_start f) (rest_of f) (messages_available f)"
  using assms
proof (induction f rule: messages_available.induct)
  case (1 f)
  note head = next_message_head [OF "1.prems"]
  show ?case
  proof (cases "head_of (f_max_msg f) (rest_of f)")
    case More
    then have "messages_available f =
        (case settle (f_start f) (rest_of f) of
          None \<Rightarrow> (Inl resize_error, f)
        | Some 0 \<Rightarrow> (Inr [], if f_start f = 0 then f else f\<lparr>f_buf := rest_of f, f_start := 0\<rparr>)
        | Some _ \<Rightarrow> (Inr [], f))"
      by (subst messages_available.simps)
         (simp add: head compact_settle [OF "1.prems"(1)] split: option.split nat.split)
    then show ?thesis
      using "1.prems" More
      by (auto simp: drained_as_def frames_cases settle_def rest_of_def framer_ok_def split: if_splits nat.split)
  next
    case (Bad c s d x)
    then have "c \<noteq> 0" by (auto simp: head_of_def Let_def split: if_splits option.splits)
    moreover have "messages_available f = (Inr [], framer_fault c s d x f)"
      using Bad by (subst messages_available.simps) (simp add: head)
    ultimately show ?thesis
      using "1.prems" Bad by (simp add: drained_as_def frames_cases ending_of_def framer_fault_def framer_ok_def)
  next
    case (Frame t n)
    define g where "g = f\<lparr>f_start := f_start f + n, f_messages := f_messages f + 1\<rparr>"
    have next_g: "next_message f = (Inr (Some (t, take n (rest_of f))), g)"
      using Frame by (simp add: head g_def)
    have n: "n \<le> length (rest_of f)" using head_of_Frame [OF Frame] by simp
    have "framer_ok g" using n "1.prems"(1) by (auto simp: framer_ok_def g_def rest_of_def)
    moreover have "f_error_code g = 0" "f_max_msg g = f_max_msg f" "f_start g = f_start f + n"
      using "1.prems" by (simp_all add: g_def)
    moreover have rest: "rest_of g = drop n (rest_of f)" by (simp add: g_def rest_of_def add.commute)
    moreover have "messages_available f =
        (case messages_available g of (Inl e, h) \<Rightarrow> (Inl e, h) | (Inr ms, h) \<Rightarrow> (Inr ((t, take n (rest_of f)) # ms), h))"
      by (subst messages_available.simps) (simp add: next_g)
    moreover have "f_start f + n + length (drop n (rest_of f)) - k = f_start f + length (rest_of f) - k" for k
      using n by simp
    ultimately show ?thesis
      using "1.IH" [OF next_g [symmetric] refl refl] Frame
      by (auto simp: drained_as_def frames_cases split: ending.splits option.splits sum.splits prod.splits)
  qed
qed

text \<open>What the caller does: one \<open>feed\<close> and one drain for each read; an exception ends it.\<close>

definition receive_one :: "framer \<Rightarrow> bytestr \<Rightarrow> (byte \<times> bytestr) list result \<times> framer" where
  "receive_one f dat = messages_available (snd (feed dat f))"

fun receive :: "bytestr list \<Rightarrow> framer \<Rightarrow> (byte \<times> bytestr) list result \<times> framer" where
  "receive [] f = (Inr [], f)"
| "receive (dat # cs) f =
    (case receive_one f dat of
      (Inl e, g) \<Rightarrow> (Inl e, g)
    | (Inr ms, g) \<Rightarrow> (case receive cs g of (Inl e, h) \<Rightarrow> (Inl e, h) | (Inr ns, h) \<Rightarrow> (Inr (ms @ ns), h)))"

text \<open>No read raises, from a framer with \<open>start\<close> consumed octets in front of the waiting \<open>p\<close>.\<close>

fun reads_ok :: "int \<Rightarrow> nat \<Rightarrow> bytestr \<Rightarrow> bytestr list \<Rightarrow> bool" where
  "reads_ok mx start p [] = True"
| "reads_ok mx start p (dat # cs) =
    (case snd (frames mx (p @ dat)) of
      Fault c s d x \<Rightarrow> True
    | Pending rest \<Rightarrow>
       (case settle (start + length (p @ dat) - length rest) rest of
         None \<Rightarrow> False
       | Some start' \<Rightarrow> reads_ok mx start' rest cs))"

lemma feed_simps [simp]:
  "framer_ok f \<Longrightarrow> rest_of (snd (feed dat f)) = rest_of f @ dat"
  "framer_ok f \<Longrightarrow> framer_ok (snd (feed dat f))"
  "f_error_code (snd (feed dat f)) = f_error_code f"
  "f_error_subcode (snd (feed dat f)) = f_error_subcode f"
  "f_error_detail (snd (feed dat f)) = f_error_detail f"
  "f_error_data (snd (feed dat f)) = f_error_data f"
  "f_max_msg (snd (feed dat f)) = f_max_msg f"
  "f_start (snd (feed dat f)) = f_start f"
  by (simp_all add: feed_def rest_of_def framer_ok_def)

lemma frames_pending: "snd (frames mx p) = Pending r \<Longrightarrow> head_of mx r = More"
proof (induction mx p rule: frames.induct)
  case (1 mx p)
  then show ?case by (cases "head_of mx p") (auto simp: frames_cases)
qed

lemma drain_failed: "f_error_code f \<noteq> 0 \<Longrightarrow> messages_available f = (Inr [], f)"
  by (subst messages_available.simps) (simp add: next_message_def)

lemma ending_failed: "f_error_code f \<noteq> 0 \<Longrightarrow> ending_of (snd (feed dat f)) = ending_of f"
  by (simp add: ending_of_def)

lemma receive_failed:
  "f_error_code f \<noteq> 0 \<Longrightarrow> fst (receive cs f) = Inr [] \<and> ending_of (snd (receive cs f)) = ending_of f"
proof (induction cs arbitrary: f)
  case (Cons dat cs)
  have e: "f_error_code (snd (feed dat f)) \<noteq> 0" using Cons.prems by simp
  have "receive_one f dat = (Inr [], snd (feed dat f))" by (simp add: receive_one_def drain_failed [OF e])
  then show ?case
    using Cons.IH [OF e] ending_failed [OF Cons.prems] by (auto split: prod.split sum.split)
qed simp

lemma receive_eq:
  assumes "framer_ok f" and "f_error_code f = 0" and "head_of (f_max_msg f) (rest_of f) = More"
  shows "if reads_ok (f_max_msg f) (f_start f) (rest_of f) cs
    then fst (receive cs f) = Inr (fst (frames (f_max_msg f) (rest_of f @ concat cs)))
      \<and> ending_of (snd (receive cs f)) = snd (frames (f_max_msg f) (rest_of f @ concat cs))
    else fst (receive cs f) = Inl resize_error"
  using assms
proof (induction cs arbitrary: f)
  case Nil
  then show ?case by (simp add: frames_cases ending_of_def)
next
  case (Cons dat cs)
  let ?mx = "f_max_msg f" and ?p = "rest_of f @ dat"
  obtain r g where one: "receive_one f dat = (r, g)" by fastforce
  have d: "drained_as ?mx (f_start f) ?p (r, g)"
    using drain_frames [of "snd (feed dat f)"] Cons.prems one by (simp add: receive_one_def)
  have split: "frames ?mx (?p @ concat cs) = then_more ?mx (frames ?mx ?p) (concat cs)" by (rule frames_append)
  show ?case
  proof (cases "snd (frames ?mx ?p)")
    case (Fault c s x y)
    then have "r = Inr (fst (frames ?mx ?p))" "f_error_code g \<noteq> 0" "ending_of g = Fault c s x y"
      using d by (simp_all add: drained_as_def)
    then show ?thesis
      using receive_failed [of g cs] split Fault one
      by (auto simp: then_more_def split: prod.split sum.split)
  next
    case (Pending rest)
    have g: "framer_ok g" "f_error_code g = 0" "f_max_msg g = ?mx" "rest_of g = rest"
      using d Pending by (simp_all add: drained_as_def)
    have more: "head_of ?mx rest = More" by (rule frames_pending [OF Pending])
    show ?thesis
    proof (cases "settle (f_start f + length ?p - length rest) rest")
      case None
      then have "r = Inl resize_error" using d Pending by (simp add: drained_as_def)
      with None Pending one show ?thesis by simp
    next
      case (Some start')
      then have r: "r = Inr (fst (frames ?mx ?p))" and start: "f_start g = start'"
        using d Pending by (simp_all add: drained_as_def)
      from Cons.IH [of g] g more start
      have IH: "if reads_ok ?mx start' rest cs
        then fst (receive cs g) = Inr (fst (frames ?mx (rest @ concat cs)))
          \<and> ending_of (snd (receive cs g)) = snd (frames ?mx (rest @ concat cs))
        else fst (receive cs g) = Inl resize_error" by simp
      moreover have "reads_ok ?mx (f_start f) (rest_of f) (dat # cs) = reads_ok ?mx start' rest cs"
        using Pending Some by simp
      ultimately show ?thesis
        using split Pending one r by (auto simp: then_more_def split: prod.split sum.split)
    qed
  qed
qed

lemma new_framer_ok [simp]:
  "framer_ok (new_framer mx)" "f_max_msg (new_framer mx) = mx" "f_error_code (new_framer mx) = 0"
  "rest_of (new_framer mx) = []" "f_start (new_framer mx) = 0" "head_of mx [] = More"
  by (simp_all add: framer_ok_def new_framer_def rest_of_def head_of_def)

lemma receive_new:
  "if reads_ok mx 0 [] cs
   then fst (receive cs (new_framer mx)) = Inr (fst (frames mx (concat cs)))
     \<and> ending_of (snd (receive cs (new_framer mx))) = snd (frames mx (concat cs))
   else fst (receive cs (new_framer mx)) = Inl resize_error"
  using receive_eq [of "new_framer mx" cs] by simp

lemma receive_new_ok:
  "reads_ok mx 0 [] cs \<Longrightarrow> fst (receive cs (new_framer mx)) = Inr (fst (frames mx (concat cs)))"
  "reads_ok mx 0 [] cs \<Longrightarrow> ending_of (snd (receive cs (new_framer mx))) = snd (frames mx (concat cs))"
  using receive_new [of mx cs] by simp_all

text \<open>
  C30. Reading raises exactly when some read leaves an incomplete message, its header arrived,
  behind a consumed prefix that is to be reclaimed; otherwise the messages taken out of a stream
  and the way it ends, the octets that wait for more or the fault that stops the framer with its
  code, text and data, depend on the octets alone and not on how the reads cut them.
\<close>

theorem framing_independent_of_reads:
  "(fst (receive cs (new_framer mx)) = Inl resize_error \<longleftrightarrow> \<not> reads_ok mx 0 [] cs)
   \<and> (concat cs = concat ds \<and> reads_ok mx 0 [] cs \<and> reads_ok mx 0 [] ds \<longrightarrow>
      (\<exists>ms. fst (receive cs (new_framer mx)) = Inr ms \<and> fst (receive ds (new_framer mx)) = Inr ms)
      \<and> ending_of (snd (receive cs (new_framer mx))) = ending_of (snd (receive ds (new_framer mx))))"
  using receive_new [of mx cs] receive_new [of mx ds] by (auto split: if_splits)

text \<open>Octet by octet nothing is ever held behind a consumed prefix.\<close>

lemma head_of_shorter:
  assumes "head_of mx (p @ q) = Frame t n" and "n \<le> length p"
  shows "head_of mx p = Frame t n"
proof -
  from head_of_Frame [OF assms(1)] assms(2) have len: "19 \<le> length p" by simp
  have "bad_marker (p @ q) = bad_marker p" using len by (simp add: bad_marker_append)
  moreover have "(p @ q) ! i = p ! i" if "i < 19" for i using len that by (simp add: nth_append)
  moreover have "drop 16 (p @ q) = drop 16 p @ q" using len by simp
  moreover have "u16_of (drop 16 p @ q) = u16_of (drop 16 p)" using len by (simp add: u16_of_append)
  ultimately show ?thesis
    using assms len unfolding head_of_def Let_def by (auto split: if_splits option.splits)
qed

lemma reads_of_octets:
  "head_of mx p = More \<Longrightarrow> list_all (\<lambda>d. length d = 1) cs \<Longrightarrow> reads_ok mx 0 p cs"
proof (induction cs arbitrary: p)
  case (Cons d cs)
  show ?case
  proof (cases "head_of mx (p @ d)")
    case More
    then show ?thesis using Cons by (simp add: frames_cases settle_def)
  next
    case (Frame t n)
    have "\<not> n \<le> length p" using head_of_shorter [OF Frame] Cons.prems(1) by auto
    then have "n = length (p @ d)" using head_of_Frame [OF Frame] Cons.prems(2) by simp
    moreover have "head_of mx [] = More" by simp
    ultimately show ?thesis
      using Frame Cons.IH [of "[]"] Cons.prems(2) by (simp add: frames_cases settle_def)
  qed (simp add: frames_cases)
qed simp

section \<open>Well-formed streams\<close>

definition well_framed :: "int \<Rightarrow> byte \<times> bytestr \<Rightarrow> bool" where
  "well_framed mx m \<longleftrightarrow>
    (case m of (t, p) \<Rightarrow>
      19 \<le> length p \<and> take 16 p = MARKER \<and> u16_of (drop 16 p) = int (length p) \<and> p ! 18 = t
      \<and> int (length p) \<le> mx \<and> MSG_OPEN \<le> t \<and> t \<le> MSG_ROUTE_REFRESH \<and> length_fits_type t (int (length p)))"

lemma good_marker: "take 16 p = MARKER \<Longrightarrow> 16 \<le> length p \<Longrightarrow> bad_marker p = None"
proof -
  assume a: "take 16 p = MARKER" and len: "16 \<le> length p"
  have "p ! i = 0xff" if "i < 16" for i
  proof -
    have "p ! i = take 16 p ! i" using that by simp
    also have "\<dots> = 0xff" using that by (simp only: a MARKER_def nth_replicate)
    finally show ?thesis .
  qed
  then show ?thesis by (auto simp: bad_marker_def find_None_iff)
qed

lemma head_of_well_framed: "well_framed mx (t, p) \<Longrightarrow> head_of mx (p @ q) = Frame t (length p)"
proof -
  assume w: "well_framed mx (t, p)"
  then have "bad_marker p = None" by (auto simp: well_framed_def intro: good_marker)
  with w have "head_of mx p = Frame t (length p)"
    by (auto simp: head_of_def well_framed_def Let_def)
  then show ?thesis by (simp add: head_of_append)
qed

lemma frames_well_framed:
  "list_all (well_framed mx) ms \<Longrightarrow> frames mx (concat (map snd ms) @ q) = (ms @ fst (frames mx q), snd (frames mx q))"
proof (induction ms)
  case (Cons m ms)
  obtain t p where m: "m = (t, p)" by (cases m)
  with Cons show ?case
    using frames_cases(3) [OF head_of_well_framed [of mx t p "concat (map snd ms) @ q"]] by simp
qed simp

text \<open>
  Messages sent one after the other, each with the marker, its true length, a known type
  and a length that the type may have, are delivered one by one as they were sent, however
  the stream is cut; no octet is left over and no fault is reported.
\<close>

theorem framing_recovers_messages:
  assumes "list_all (well_framed mx) ms" and "concat cs = concat (map snd ms)" and "reads_ok mx 0 [] cs"
  shows "fst (receive cs (new_framer mx)) = Inr ms \<and> ending_of (snd (receive cs (new_framer mx))) = Pending []"
  using frames_well_framed [OF assms(1), of "[]"]
  by (simp add: receive_new_ok assms(2,3) frames_cases)

lemma head_of_part:
  assumes "well_framed mx (t, p)" and "k < length p"
  shows "head_of mx (take k p) = More"
proof (rule ccontr)
  assume "head_of mx (take k p) \<noteq> More"
  then have "head_of mx (take k p) = Frame t (length p)"
    using head_of_append [of mx "take k p" "drop k p"] head_of_well_framed [OF assms(1), of "[]"] by simp
  from head_of_Frame [OF this] assms(2) show False by simp
qed

lemma settle_simps [simp]:
  "settle start [] = Some 0"
  "19 \<le> length rest \<Longrightarrow> length rest \<le> start \<Longrightarrow> settle start rest = None"
  "settle 0 rest = Some 0"
  by (simp_all add: settle_def)

lemma read_boundary:
  assumes "list_all (well_framed mx) ms"
  shows "reads_ok mx 0 [] (concat (map snd ms) # cs) = reads_ok mx 0 [] cs"
  using frames_well_framed [OF assms, of "[]"] by (simp add: frames_cases)

lemma reads_whole: "snd (frames mx p) = Pending [] \<Longrightarrow> reads_ok mx 0 [] [p]"
  by simp

lemma reads_two: "head_of mx p = More \<Longrightarrow> snd (frames mx (p @ q)) = Pending [] \<Longrightarrow> reads_ok mx 0 [] [p, q]"
  by (simp add: frames_cases)

text \<open>
  C31. A read that brings whole messages and then the header of one more, but not its end, raises
  when the whole messages are as long as the part that waits: the messages are lost to the
  caller. The same octets read with one more boundary, between the messages and the part, are
  delivered.
\<close>

theorem held_header_breaks_read:
  assumes "list_all (well_framed mx) ms" and "well_framed mx (t, p)" and "19 \<le> k" and "k < length p"
    and "k \<le> length (concat (map snd ms))"
  shows "fst (receive [concat (map snd ms) @ take k p, drop k p] (new_framer mx)) = Inl resize_error
    \<and> fst (receive [concat (map snd ms), take k p, drop k p] (new_framer mx)) = Inr (ms @ [(t, p)])"
proof -
  let ?c = "concat (map snd ms)"
  have part: "frames mx (take k p) = ([], Pending (take k p))"
    by (rule frames_cases(1)) (rule head_of_part [OF assms(2,4)])
  have whole: "list_all (well_framed mx) (ms @ [(t, p)])" using assms(1,2) by simp
  have "snd (frames mx (?c @ take k p)) = Pending (take k p)"
    using frames_well_framed [OF assms(1), of "take k p"] part by simp
  then have "\<not> reads_ok mx 0 [] [?c @ take k p, drop k p]"
    using assms(3-5) by (simp del: append_assoc append_take_drop_id)
  moreover have "reads_ok mx 0 [] [take k p, drop k p]"
  proof -
    have "frames mx p = ([(t, p)], Pending [])"
      using frames_well_framed [of mx "[(t, p)]" "[]"] assms(2) by (simp add: frames_cases)
    then show ?thesis using part by simp
  qed
  then have "reads_ok mx 0 [] [?c, take k p, drop k p]" by (simp only: read_boundary [OF assms(1)])
  moreover have "concat [?c, take k p, drop k p] = concat (map snd (ms @ [(t, p)]))" by simp
  moreover have "fst (frames mx (concat (map snd (ms @ [(t, p)])))) = ms @ [(t, p)]"
    using frames_well_framed [OF whole, of "[]"] by (simp add: frames_cases)
  ultimately show ?thesis
    using receive_new [of mx "[?c @ take k p, drop k p]"] receive_new_ok(1) [of mx "[?c, take k p, drop k p]"]
    by (simp split: if_splits)
qed

lemma bad_marker_None: "bad_marker p = None \<Longrightarrow> 16 \<le> length p \<Longrightarrow> take 16 p = MARKER"
  by (rule nth_equalityI) (auto simp: bad_marker_def find_None_iff MARKER_def)

lemma byte_ge_1: "w \<noteq> 0 \<Longrightarrow> 1 \<le> (w :: byte)"
  by (metis word_less_1 linorder_not_less)

lemma head_of_Frame_well:
  assumes "head_of mx p = Frame t n"
  shows "well_framed mx (t, take n p)"
proof -
  from head_of_Frame [OF assms] have n: "19 \<le> n" "n \<le> length p" by simp_all
  from assms have h: "bad_marker p = None" "n = nat (u16_of (drop 16 p))" "t = p ! 18" "u16_of (drop 16 p) \<le> mx"
    "MSG_OPEN \<le> t" "t \<le> MSG_ROUTE_REFRESH" "length_fits_type t (u16_of (drop 16 p))" "19 \<le> u16_of (drop 16 p)"
    using byte_ge_1 by (auto simp: head_of_def Let_def split: if_splits option.splits)
  have len: "u16_of (drop 16 (take n p)) = u16_of (drop 16 p)"
  proof -
    define q where "q = drop 16 p"
    have "u16_of (take (n - 16) q @ drop (n - 16) q) = u16_of (take (n - 16) q)"
      by (rule u16_of_append) (use n in \<open>simp add: q_def\<close>)
    moreover have "take (n - 16) q @ drop (n - 16) q = q" by (rule append_take_drop_id)
    moreover have "drop 16 (take n p) = take (n - 16) q" unfolding q_def by (rule drop_take)
    ultimately show ?thesis unfolding q_def [symmetric] by argo
  qed
  have "take 16 p = MARKER" using h(1) n by (simp add: bad_marker_None)
  then have "take 16 (take n p) = MARKER" using n by (simp add: min_def)
  moreover have "u16_of (drop 16 (take n p)) = int n" unfolding len using h(2,8) by simp
  moreover have "length_fits_type t (int n)" using h(2,7,8) by simp
  moreover have "length (take n p) = n" "take n p ! 18 = t" using n h(3) by simp_all
  moreover have "int n \<le> mx" using h(2,4,8) by simp
  ultimately show ?thesis
    using h(5,6) n(1) unfolding well_framed_def prod.case by metis
qed

lemma frames_well: "list_all (well_framed mx) (fst (frames mx p)) \<and> prefix (concat (map snd (fst (frames mx p)))) p"
proof (induction mx p rule: frames.induct)
  case (1 mx p)
  show ?case
  proof (cases "head_of mx p")
    case (Frame t n)
    have "prefix (take n p @ x) (take n p @ drop n p) \<longleftrightarrow> prefix x (drop n p)" for x
      by (rule same_prefix_prefix)
    then show ?thesis
      using "1.IH" [OF Frame] head_of_Frame_well [OF Frame] Frame by (simp add: frames_cases)
  qed (simp_all add: frames_cases)
qed

text \<open>
  What is delivered is well formed and nothing is skipped or invented: every message has
  the marker, the length it claims, within the ceiling and right for its type, and the
  messages one after the other are the beginning of the stream.
\<close>

theorem framing_delivers_well_formed:
  "case fst (receive cs (new_framer mx)) of
     Inl e \<Rightarrow> e = resize_error
   | Inr ms \<Rightarrow> list_all (well_framed mx) ms \<and> prefix (concat (map snd ms)) (concat cs)"
  using receive_new [of mx cs] frames_well [of mx "concat cs"] by (auto split: if_splits)

section \<open>Samples\<close>

definition keepalive_sample :: bytestr where
  "keepalive_sample = replicate 16 0xff @ [0, 19, 4]"

definition refresh_sample :: bytestr where
  "refresh_sample = replicate 16 0xff @ [0, 23, 5, 0, 1, 0, 1]"

lemma sample_streams:
  "snd (frames 4096 keepalive_sample) = Pending []"
  "snd (frames 4096 (keepalive_sample @ [0xff, 0xfe])) = Pending [0xff, 0xfe]"
  "head_of 4096 (take 7 keepalive_sample) = More"
  "head_of 4096 [0xff] = More" "head_of 4096 [0xff, 0xfe] = More"
  by code_simp+

lemma sample_reads:
  "reads_ok 4096 0 [] [keepalive_sample, [0xff], [0xfe]]"
  "reads_ok 4096 0 [] [take 7 keepalive_sample, drop 7 keepalive_sample @ [0xff, 0xfe]]"
  "reads_ok 4096 0 [] [take 7 keepalive_sample, drop 7 keepalive_sample]"
proof -
  have cut: "take 7 keepalive_sample @ drop 7 keepalive_sample @ xs = keepalive_sample @ xs" for xs
    by (simp only: append_assoc [symmetric] append_take_drop_id)
  have "length keepalive_sample = 19" by code_simp
  then show "reads_ok 4096 0 [] [take 7 keepalive_sample, drop 7 keepalive_sample @ [0xff, 0xfe]]"
    using sample_streams by (simp add: frames_cases cut settle_def)
  show "reads_ok 4096 0 [] [keepalive_sample, [0xff], [0xfe]]"
    using sample_streams by (simp add: frames_cases)
  show "reads_ok 4096 0 [] [take 7 keepalive_sample, drop 7 keepalive_sample]"
    using sample_streams by (intro reads_two) simp_all
qed

lemma framing_independent_of_reads_witness:
  "ending_of (snd (receive [keepalive_sample, [0xff], [0xfe]] (new_framer 4096)))
   = ending_of (snd (receive [take 7 keepalive_sample, drop 7 keepalive_sample @ [0xff, 0xfe]] (new_framer 4096)))"
  using framing_independent_of_reads [of "[keepalive_sample, [0xff], [0xfe]]" 4096
      "[take 7 keepalive_sample, drop 7 keepalive_sample @ [0xff, 0xfe]]"] sample_reads
  by simp

lemma sample_messages:
  "list_all (well_framed 4096) [(4, keepalive_sample)]" "well_framed 4096 (5, refresh_sample)"
  "19 < length refresh_sample" "19 \<le> length (concat (map snd [(4 :: byte, keepalive_sample)]))"
  by code_simp+

lemma held_header_breaks_read_witness:
  "fst (receive [keepalive_sample @ take 19 refresh_sample, drop 19 refresh_sample] (new_framer 4096)) = Inl resize_error
   \<and> fst (receive [keepalive_sample, take 19 refresh_sample, drop 19 refresh_sample] (new_framer 4096))
      = Inr [(4, keepalive_sample), (5, refresh_sample)]"
  using held_header_breaks_read [OF sample_messages(1,2) order_refl sample_messages(3,4)] by simp

lemma framing_recovers_messages_witness:
  "fst (receive [take 7 keepalive_sample, drop 7 keepalive_sample] (new_framer 4096)) = Inr [(4, keepalive_sample)]
   \<and> ending_of (snd (receive [take 7 keepalive_sample, drop 7 keepalive_sample] (new_framer 4096))) = Pending []"
  by (rule framing_recovers_messages [OF sample_messages(1) _ sample_reads(3)]) simp

end
