(* ===== verification/WireAnnounce.thy ===== *)
theory WireAnnounce
  imports WireAttrList FramerProps
begin

text \<open>
  Announcements and withdrawals: what the encoder splits over several UPDATEs the decoder
  reads back without a fault, every prefix once and in order, every message within the size
  limit and well formed for the framer.
\<close>

section \<open>The whole attribute block\<close>

definition seen_all :: "attr_set \<Rightarrow> wire_attr list \<Rightarrow> bool \<Rightarrow> bool \<Rightarrow> bool \<Rightarrow> attr_set \<Rightarrow> attr_set" where
  "seen_all a us as4 nh e b = (seen_low a as4 nh e b)\<lparr>
    a_ext_communities := if a_ext_communities a \<noteq> [] then a_ext_communities a else a_ext_communities b,
    a_large_communities := if a_large_communities a \<noteq> [] then a_large_communities a else a_large_communities b,
    a_unknown := a_unknown b @ concat (map attr_bytes us)\<rparr>"

lemma upd_as4 [simp]:
  "(upd_attrs g st)\<lparr>v_as4_path := x\<rparr> = upd_attrs g (st\<lparr>v_as4_path := x\<rparr>)"
  "(upd_attrs g st)\<lparr>v_as4_aggregator := y\<rparr> = upd_attrs g (st\<lparr>v_as4_aggregator := y\<rparr>)"
  "v_as4_path (upd_attrs g st) = v_as4_path st"
  "v_as4_aggregator (upd_attrs g st) = v_as4_aggregator st"
  by (simp_all add: upd_attrs_def)

lemma upd_origin: "(upd_attrs g st)\<lparr>v_saw_origin := x\<rparr> = upd_attrs g (st\<lparr>v_saw_origin := x\<rparr>)"
  by (simp add: upd_attrs_def)

lemma part_as4_path:
  "C \<longrightarrow> \<not> ctx_as4 ctx \<Longrightarrow> canon_as_path True v = Some v \<Longrightarrow> (if C then dec_one ctx (0xC0, 17, v) st else st)
    = st\<lparr>v_as4_path := if C then Some v else v_as4_path st\<rparr>"
  by (cases C) (simp_all add: dec_as4_path)

lemma part_as4_aggregator:
  "C \<longrightarrow> \<not> ctx_as4 ctx \<and> length v = 8 \<Longrightarrow> (if C then dec_one ctx (0xC0, 18, v) st else st)
    = st\<lparr>v_as4_aggregator := if C then Some v else v_as4_aggregator st\<rparr>"
  by (cases C) (simp_all add: dec_as4_aggregator)

definition saw_all :: "bool \<Rightarrow> dec_state \<Rightarrow> dec_state" where
  "saw_all nh st = st\<lparr>v_saw_origin := True, v_saw_as_path := True, v_saw_nexthop := v_saw_nexthop st \<or> nh\<rparr>"

definition carried :: "attr_set \<Rightarrow> bool \<Rightarrow> dec_state \<Rightarrow> dec_state" where
  "carried a as4 st = st\<lparr>v_as4_path := if needs_as4 a as4 then Some (a_as_path a) else v_as4_path st,
    v_as4_aggregator := if needs_as4 a as4 \<and> big_aggregator a then Some (a_aggregator a) else v_as4_aggregator st\<rparr>"

lemma list_all_unknown_parts:
  "list_all unknown_ok us \<Longrightarrow> list_all unknown_ok (takeWhile P us) \<and> list_all unknown_ok (dropWhile P us)"
  by (induction us) simp_all

lemma fold_mid:
  assumes "sendable a us" and "ctx_as4 ctx = as4"
  shows "fold (dec_one ctx) (mid_attrs a as4) st = upd_attrs
    (\<lambda>b. b\<lparr>a_ext_communities := if a_ext_communities a \<noteq> [] then a_ext_communities a else a_ext_communities b\<rparr>) (carried a as4 st)"
proof -
  have ok: "length (a_ext_communities a) mod 8 = 0" "canon_as_path True (a_as_path a) = Some (a_as_path a)"
    using assms(1) unfolding sendable_def by blast+
  have n: "needs_as4 a as4 \<longrightarrow> \<not> ctx_as4 ctx" "needs_as4 a as4 \<and> big_aggregator a \<longrightarrow> \<not> ctx_as4 ctx \<and> length (a_aggregator a) = 8"
    using assms(2) by (auto simp: needs_as4_def big_aggregator_def)
  show ?thesis
    unfolding mid_attrs_def fold_append fold_when comp_apply part_ext [OF ok(1)] part_as4_path [OF n(1) ok(2)] part_as4_aggregator [OF n(2)]
    by (simp add: carried_def split del: if_split cong: if_cong)
qed

lemma carried_upd: "carried a as4 (upd_attrs g st) = upd_attrs g (carried a as4 st)"
  by (simp add: carried_def split del: if_split cong: if_cong)

lemma fold_sent:
  assumes "sendable a us" and "ctx_as4 ctx = as4" and "ctx_is_ebgp ctx = e"
  shows "fold (dec_one ctx) (sent_attrs a us as4 nh e) st =
    upd_attrs (seen_all a us as4 nh e) (carried a as4 (saw_all (nh \<and> length (a_nexthop a) = 4) st))"
proof -
  let ?r1 = "dropWhile (below 1) us" let ?r2 = "dropWhile (below 16) ?r1" let ?r3 = "dropWhile (below 32) ?r2"
  have us: "list_all unknown_ok us" and large: "length (a_large_communities a) mod 12 = 0"
    using assms(1) unfolding sendable_def by blast+
  then have u: "list_all unknown_ok (takeWhile (below 1) us)" "list_all unknown_ok (takeWhile (below 16) ?r1)"
    "list_all unknown_ok (takeWhile (below 32) ?r2)" "list_all unknown_ok (takeWhile (below 256) ?r3)"
    using list_all_unknown_parts by blast+
  have c: "x @ concat (map attr_bytes us) = (((x @ concat (map attr_bytes (takeWhile (below 1) us)))
      @ concat (map attr_bytes (takeWhile (below 16) ?r1))) @ concat (map attr_bytes (takeWhile (below 32) ?r2)))
      @ concat (map attr_bytes (takeWhile (below 256) ?r3))" for x
    by (simp only: append_assoc concat_append [symmetric] map_append [symmetric] unknown_split)
  show ?thesis
    unfolding sent_attrs_def high_attrs_def Let_def fold_append comp_apply fold_when
      fold_unknown [OF u(1)] fold_unknown [OF u(2)] fold_unknown [OF u(3)] fold_unknown [OF u(4)]
      fold_low [OF assms] fold_mid [OF assms(1,2)] part_large [OF large] carried_upd saw_all_def
    by (simp add: upd_saw upd_origin carried_upd split del: if_split)
      (rule arg_cong [where f = "\<lambda>g. upd_attrs g _"], simp add: seen_all_def seen_low_def c fun_eq_iff split del: if_split cong: if_cong)
qed


section \<open>The set the receiver ends with\<close>

definition sent_view :: "attr_set \<Rightarrow> bool \<Rightarrow> bytestr \<Rightarrow> attr_set" where
  "sent_view a e nh = attrs_blank\<lparr>a_origin := a_origin a,
    a_flags := flags_of (has_med a) (has_local_pref a \<and> \<not> e) (atomic_aggregate a) (has_originator_id a \<and> \<not> e),
    a_as_path := a_as_path a, a_nexthop := nh,
    a_med := if has_med a then a_med a else 0,
    a_local_pref := if has_local_pref a \<and> \<not> e then a_local_pref a else 0,
    a_originator_id := if has_originator_id a \<and> \<not> e then a_originator_id a else 0,
    a_communities := a_communities a, a_ext_communities := a_ext_communities a,
    a_large_communities := a_large_communities a, a_cluster_list := if e then [] else a_cluster_list a,
    a_aggregator := a_aggregator a, a_unknown := a_unknown a\<rparr>"

text \<open>A 2-octet session restores the path unless AS4_PATH is needed and the path begins with a
  confederation segment.\<close>

definition restores :: "attr_set \<Rightarrow> bool \<Rightarrow> bool" where
  "restores a as4 \<longleftrightarrow> (needs_as4 a as4 \<longrightarrow> takeWhile confed (split_segments (a_as_path a)) = [])"

lemma confed_narrow [simp]: "confed \<circ> narrow = confed"
  by (simp add: fun_eq_iff confed_def narrow_def)

lemma merged_path:
  assumes "sendable a us" and "restores a as4"
  shows "(if needs_as4 a as4 then merge_as4 (seen_path a as4) (a_as_path a) else seen_path a as4) = a_as_path a"
proof -
  have canon: "canon_as_path True (a_as_path a) = Some (a_as_path a)" using assms(1) unfolding sendable_def by blast
  then have ok: "list_all seg_ok (split_segments (a_as_path a))" and p: "join_segments (split_segments (a_as_path a)) = a_as_path a"
    using canon_split [of "a_as_path a"] by (auto simp: canon_as_path_def join_segments_ok)
  consider "as4" | "\<not> as4" "needs_as4 a as4" | "\<not> as4" "\<not> needs_as4 a as4" by blast
  then show ?thesis
  proof cases
    case 1
    then show ?thesis by (simp add: needs_as4_def seen_path_def)
  next
    case 2
    then have "takeWhile confed (map narrow (split_segments (a_as_path a))) = []"
      using assms(2) by (simp add: restores_def takeWhile_map)
    with 2 merge_narrowed [OF canon] show ?thesis by (simp add: seen_path_def p)
  next
    case 3
    then have "\<not> list_ex (\<lambda>s. list_ex (\<lambda>n. 0xffff < n) (snd s)) (split_segments (a_as_path a))"
      by (auto simp: needs_as4_def downgrade_as_path_def Let_def)
    with 3 show ?thesis by (simp add: seen_path_def narrow_id p)
  qed
qed

lemma agg_shape:
  assumes "length g = 8"
  shows "take 2 g @ take 2 (drop 2 g) @ take 4 (drop 4 g) = g"
proof -
  have "take 4 (drop 4 g) = drop 4 g" using assms by simp
  moreover have "take 2 (drop 2 g) @ drop 4 g = drop 2 g"
    using append_take_drop_id [of 2 "drop 2 g"] by simp
  ultimately show ?thesis by simp
qed

lemma seen_agg_cases:
  assumes "a_aggregator a = [] \<or> length (a_aggregator a) = 8"
  shows "\<not> as4 \<Longrightarrow> big_aggregator a \<Longrightarrow> take 4 (seen_agg a as4) = AGGREGATOR_AS_TRANS"
    and "as4 \<or> \<not> big_aggregator a \<Longrightarrow> seen_agg a as4 = a_aggregator a"
proof -
  show "take 4 (seen_agg a as4) = AGGREGATOR_AS_TRANS" if "\<not> as4" "big_aggregator a"
    using that by (simp add: seen_agg_def agg_value_def big_aggregator_def AGGREGATOR_AS_TRANS_def be16_def)
  show "seen_agg a as4 = a_aggregator a" if *: "as4 \<or> \<not> big_aggregator a"
  proof (cases "length (a_aggregator a) = 8 \<and> \<not> as4")
    case True
    then have "\<not> as_trans_needed (a_aggregator a)" using * by (auto simp: big_aggregator_def)
    then have "take 2 (a_aggregator a) = [0, 0]"
      using True by (cases "a_aggregator a"; cases "tl (a_aggregator a)") (auto simp: as_trans_needed_def)
    with True agg_shape [of "a_aggregator a"] \<open>\<not> as_trans_needed (a_aggregator a)\<close> show ?thesis
      by (simp add: seen_agg_def agg_value_def)
  next
    case False
    then show ?thesis using assms by (auto simp: seen_agg_def agg_value_def)
  qed
qed

lemma apply_as4_result:
  assumes ok: "sendable a us" "restores a as4"
    and "a_as_path (v_attrs st) = seen_path a as4" "a_aggregator (v_attrs st) = seen_agg a as4"
    and p: "v_as4_path st = (if needs_as4 a as4 then Some (a_as_path a) else None)"
    and g: "v_as4_aggregator st = (if needs_as4 a as4 \<and> big_aggregator a then Some (a_aggregator a) else None)"
  shows "apply_as4 st = upd_attrs (\<lambda>b. b\<lparr>a_as_path := a_as_path a, a_aggregator := a_aggregator a\<rparr>) st"
proof -
  have ag: "a_aggregator a = [] \<or> length (a_aggregator a) = 8" using ok(1) unfolding sendable_def by blast
  have na: "needs_as4 a as4 \<Longrightarrow> \<not> as4" by (simp add: needs_as4_def)
  have big: "big_aggregator a \<Longrightarrow> \<not> as4 \<Longrightarrow> needs_as4 a as4" by (simp add: needs_as4_def)
  have fresh: "\<not> stale_as4 st"
    using seen_agg_cases(1) [OF ag] na assms(4) g by (auto simp: stale_as4_def)
  have same_agg: "a_aggregator a = a_aggregator (v_attrs st)" if "\<not> (needs_as4 a as4 \<and> big_aggregator a)"
  proof -
    have "as4 \<or> \<not> big_aggregator a" using that big by blast
    then show ?thesis using seen_agg_cases(2) [OF ag] assms(4) by metis
  qed
  have same_path: "a_as_path a = a_as_path (v_attrs st)" if "\<not> needs_as4 a as4"
    using merged_path [OF ok] that assms(3) by simp
  have merged: "merge_as4 (a_as_path (v_attrs st)) (a_as_path a) = a_as_path a" if "needs_as4 a as4"
    using merged_path [OF ok] that assms(3) by simp
  consider "\<not> needs_as4 a as4" | "needs_as4 a as4" "\<not> big_aggregator a" | "needs_as4 a as4" "big_aggregator a" by blast
  then show ?thesis
  proof cases
    case 1
    then have "apply_as4 st = st" by (simp add: apply_as4_def fresh p g)
    with 1 show ?thesis by (simp add: upd_attrs_def same_agg same_path)
  next
    case 2
    then have "apply_as4 st = upd_attrs (\<lambda>b. b\<lparr>a_as_path := merge_as4 (a_as_path b) (a_as_path a)\<rparr>) st"
      by (simp add: apply_as4_def fresh p g)
    with 2 show ?thesis by (simp add: upd_attrs_def merged) (simp add: same_agg)
  next
    case 3
    then have "apply_as4 st = upd_attrs (\<lambda>b. b\<lparr>a_as_path := merge_as4 (a_as_path b) (a_as_path a), a_aggregator := a_aggregator a\<rparr>) st"
      by (simp add: apply_as4_def fresh p g)
    with 3 show ?thesis by (simp add: upd_attrs_def merged)
  qed
qed

lemma seen_all_view:
  assumes "sendable a us"
  shows "(seen_all a us as4 nh e attrs_blank)\<lparr>a_as_path := a_as_path a, a_aggregator := a_aggregator a\<rparr>
    = sent_view a e (if nh \<and> length (a_nexthop a) = 4 then a_nexthop a else [])"
proof -
  have u: "a_unknown a = concat (map attr_bytes us)" using assms unfolding sendable_def by blast
  have "(((0 OR (if m then ATTRF_MED else 0)) OR (if l then ATTRF_LOCAL_PREF else 0)) OR (if c then ATTRF_ATOMIC_AGGREGATE else 0))
      OR (if r then ATTRF_ORIGINATOR_ID else 0) = flags_of m l c r" for m l c r
    by (simp add: flags_of_def)
  then show ?thesis
    by (simp add: seen_all_def seen_low_def sent_view_def attrs_blank_def u)
qed


section \<open>The octets of a message\<close>

definition message :: "byte \<Rightarrow> bytestr \<Rightarrow> bytestr" where
  "message t body = MARKER @ be16 (19 + int (length body)) @ [t] @ body"

lemma set_u16_middle: "length pre = n \<Longrightarrow> w_set_u16 n v (pre @ be16 u @ post) = pre @ be16 v @ post"
  by (simp add: w_set_u16_def)

lemma w_finish_header: "w_finish (w_header t @ body) = message t body"
proof -
  have "w_finish (w_header t @ body) = w_set_u16 16 (int (length (w_header t @ body))) (MARKER @ be16 0 @ ([t] @ body))"
    by (simp add: w_finish_def w_header_def MARKER_def)
  also have "\<dots> = MARKER @ be16 (int (length (w_header t @ body))) @ [t] @ body"
    by (rule set_u16_middle) (simp add: MARKER_def)
  finally show ?thesis by (simp add: message_def w_header_def)
qed

lemma length_message [simp]: "length (message t body) = 19 + length body"
  by (simp add: message_def MARKER_def)

lemma drop_message [simp]: "drop 19 (message t body) = body"
  by (simp add: message_def MARKER_def)

lemma length_w_header [simp]: "length (w_header t) = 19"
  by (simp add: w_header_def)

lemma announce_v4_octets:
  "announce_v4 attrs run = message MSG_UPDATE (be16 0 @ be16 (int (length attrs)) @ attrs @ run)"
proof -
  have "w_set_u16 21 (int (length attrs)) ((w_header MSG_UPDATE @ be16 0) @ be16 0 @ (attrs @ run))
      = (w_header MSG_UPDATE @ be16 0) @ be16 (int (length attrs)) @ attrs @ run"
    by (rule set_u16_middle) simp
  then show ?thesis
    using w_finish_header [of MSG_UPDATE "be16 0 @ be16 (int (length attrs)) @ attrs @ run"]
    by (simp add: announce_v4_def announce_head_def)
qed

definition mp_reach_value :: "int \<Rightarrow> int \<Rightarrow> bytestr \<Rightarrow> bytestr \<Rightarrow> bytestr" where
  "mp_reach_value afi safi nh run = be16 afi @ be8 safi @ be8 (int (length nh)) @ nh @ [0] @ run"

lemma announce_mp_octets:
  "announce_mp afi safi nh attrs run = message MSG_UPDATE
    (let mp = [0x90, 14] @ be16 (int (length (mp_reach_value afi safi nh run))) @ mp_reach_value afi safi nh run in
     be16 0 @ be16 (int (length attrs + length mp)) @ attrs @ mp)"
proof -
  let ?pre = "w_header MSG_UPDATE @ be16 0" and ?v = "mp_reach_value afi safi nh run"
  have w: "announce_head (attrs @ mp_reach_open afi safi nh) @ run
      = (?pre @ be16 0 @ attrs @ [0x90, 14]) @ be16 0 @ ?v"
    by (simp add: announce_head_def mp_reach_open_def mp_reach_value_def)
  have start: "length (announce_head attrs) + 2 = length (?pre @ be16 0 @ attrs @ [0x90, 14 :: byte])"
    by (simp add: announce_head_def)
  have len: "int (length ((?pre @ be16 0 @ attrs @ [0x90, 14]) @ be16 0 @ ?v)) - int (length (?pre @ be16 0 @ attrs @ [0x90, 14])) - 2
      = int (length ?v)" by simp
  have "announce_mp afi safi nh attrs run = w_finish
      (w_set_u16 21 (int (length ((?pre @ be16 0 @ attrs @ [0x90, 14]) @ be16 (int (length ?v)) @ ?v)) - 23)
        ((?pre @ be16 0 @ attrs @ [0x90, 14]) @ be16 (int (length ?v)) @ ?v))"
    unfolding announce_mp_def Let_def w start len set_u16_middle [OF refl] ..
  also have "\<dots> = w_finish (?pre @ be16 (int (length attrs + (4 + length ?v))) @ attrs @ [0x90, 14] @ be16 (int (length ?v)) @ ?v)"
    using set_u16_middle [of ?pre 21 "int (length attrs + (4 + length ?v))" 0 "attrs @ [0x90, 14] @ be16 (int (length ?v)) @ ?v"]
    by (simp add: algebra_simps)
  finally show ?thesis
    using w_finish_header [of MSG_UPDATE "be16 0 @ be16 (int (length attrs + (4 + length ?v))) @ attrs @ [0x90, 14] @ be16 (int (length ?v)) @ ?v"]
    by (simp add: Let_def)
qed

lemma well_framed_update:
  assumes "4 \<le> length body" and "int (length body) + 19 \<le> mx" and "mx \<le> 65535"
  shows "well_framed mx (MSG_UPDATE, message MSG_UPDATE body)"
proof -
  have "fits 16 (19 + int (length body))" using assms by (simp add: fits_def)
  then show ?thesis
    using assms by (simp add: well_framed_def message_def MARKER_def length_fits_type_def nth_append)
qed

section \<open>Decoding a message\<close>

lemma rd16_small: "n < 65536 \<Longrightarrow> unat (rd16 (be16 (int n) @ r)) = n"
  by (rule unat_rd16_be16)

lemma decode_body_step:
  assumes "length attrs < 65536"
    and st: "st = (read_attrs ctx attrs dec_start)\<lparr>u_has_attrs := attrs \<noteq> []\<rparr>"
    and run: "read_nlri (add_path_for ctx 1 1) AFI_IP run = (xs, 0, True)"
  shows "decode_body ctx (be16 0 @ be16 (int (length attrs)) @ attrs @ run)
    = finish_update (length attrs) (st\<lparr>u_nlri := xs\<rparr>)"
proof -
  have "read_nlri (add_path_for ctx 1 1) AFI_IP [] = ([], 0, True)"
    by (simp add: read_nlri_def nlri_run.simps addr_len_def)
  moreover have "unat (rd16 (be16 0 @ r)) = 0" for r by simp
  moreover have "st\<lparr>u_host_bits := u_host_bits st\<rparr> = st" for st :: dec_state by simp
  moreover have "dec_start\<lparr>u_withdrawn := []\<rparr> = dec_start" by (simp add: dec_start_def)
  moreover have "0 < length attrs \<longleftrightarrow> attrs \<noteq> []" by simp
  ultimately show ?thesis
    using rd16_small [OF assms(1), of "attrs @ run"] run
    unfolding decode_body_def Let_def st by simp
qed

lemma finish_clean:
  assumes "v_saw_origin st" "v_saw_as_path st" "u_nlri st \<noteq> [] \<longrightarrow> v_saw_nexthop st"
    and "apply_as4 st = upd_attrs g st" and "u_nlri st \<noteq> [] \<or> u_mp_reach st \<noteq> None"
  shows "finish_update n st =
    (upd_attrs g st)\<lparr>u_attrs := Some (attrs_finalize (g (v_attrs st))), u_end_of_rib := False\<rparr>"
proof -
  have "check_mandatory (upd_attrs g st) = upd_attrs g st"
    using assms(1-3) by (auto simp: check_mandatory_def upd_attrs_def Let_def)
  then show ?thesis
    using assms(5) by (auto simp: finish_update_def assms(4) Let_def is_end_of_rib_def upd_attrs_def)
qed

section \<open>Announcing IPv4 unicast\<close>

lemma value_in_bytes: "(f, t, v) \<in> set l \<Longrightarrow> length v \<le> length (concat (map attr_bytes l))"
  by (induction l) (auto simp: attr_bytes_def)

lemma flags_when: "list_all (\<lambda>x. fst x AND AFLAG_EXT_LEN = 0) (when_list b (f, t, v)) \<longleftrightarrow> (b \<longrightarrow> f AND AFLAG_EXT_LEN = 0)"
  by (simp add: when_list_def)

lemma sent_flags_clear:
  assumes "list_all unknown_ok us"
  shows "list_all (\<lambda>x. fst x AND AFLAG_EXT_LEN = 0) (sent_attrs a us as4 nh e)"
proof -
  have "list_all (\<lambda>x. fst x AND AFLAG_EXT_LEN = 0) us"
    using assms by (auto simp: list_all_iff unknown_ok_def wire_attr_ok_def split: prod.splits)
  then have "list_all (\<lambda>x. fst x AND AFLAG_EXT_LEN = 0) (takeWhile P us) \<and> list_all (\<lambda>x. fst x AND AFLAG_EXT_LEN = 0) (dropWhile P us)"
    if "list_all (\<lambda>x. fst x AND AFLAG_EXT_LEN = 0) us" for P and us :: "wire_attr list"
    using that by (induction us) simp_all
  with \<open>list_all (\<lambda>x. fst x AND AFLAG_EXT_LEN = 0) us\<close> show ?thesis
    by (simp add: sent_attrs_def Let_def low_attrs_def mid_attrs_def high_attrs_def flags_when)
qed

lemma sent_ok:
  assumes "list_all unknown_ok us" and "length (concat (map attr_bytes (sent_attrs a us as4 nh e))) < 65536"
  shows "list_all wire_attr_ok (sent_attrs a us as4 nh e)"
  using sent_flags_clear [OF assms(1)] value_in_bytes [of _ _ _ "sent_attrs a us as4 nh e"] assms(2)
  by (fastforce simp: list_all_iff wire_attr_ok_def)

lemma no_mp_type:
  assumes "list_all unknown_ok us"
  shows "ATTR_MP_REACH \<notin> set (wire_types (sent_attrs a us as4 nh e))"
proof -
  have us: "ATTR_MP_REACH \<notin> set (wire_types us)"
    using assms by (auto simp: wire_types_def list_all_iff unknown_ok_def KNOWN_TYPES_def)
  moreover have "set (wire_types (takeWhile P xs)) \<subseteq> set (wire_types xs)" "set (wire_types (dropWhile P xs)) \<subseteq> set (wire_types xs)" for P xs
    by (auto simp: wire_types_def dest: set_takeWhileD set_dropWhileD)
  ultimately have parts: "ATTR_MP_REACH \<notin> set (wire_types (takeWhile P xs))" if "set (wire_types xs) \<subseteq> set (wire_types us)" for P xs
    using that by blast
  have sub: "set (wire_types (dropWhile P xs)) \<subseteq> set (wire_types us)" if "set (wire_types xs) \<subseteq> set (wire_types us)" for P xs
    using that by (auto simp: wire_types_def dest: set_dropWhileD)
  show ?thesis
    using low_types [of a as4 nh e] mid_types [of a as4] high_types [of a]
    by (auto simp: sent_attrs_def Let_def parts sub)
qed

lemma v_seen_start: "v_seen dec_start = []"
  by (simp add: dec_start_def)

lemma read_w_attrs:
  assumes "sendable a us" and "ctx_as4 ctx = as4" and "ctx_is_ebgp ctx = e" and "length (w_attrs a as4 nh e) < 65536"
  shows "\<exists>s. (\<forall>r. read_attrs ctx (w_attrs a as4 nh e @ r) dec_start = read_attrs ctx r
    ((upd_attrs (seen_all a us as4 nh e) (carried a as4 (saw_all (nh \<and> length (a_nexthop a) = 4) dec_start)))\<lparr>v_seen := s\<rparr>))
    \<and> ATTR_MP_REACH \<notin> set s \<and> w_attrs a as4 nh e \<noteq> []"
proof -
  have us: "list_all unknown_ok us" "by_type us" "a_unknown a = concat (map attr_bytes us)"
    using assms(1) unfolding sendable_def by blast+
  then have ok: "list_all wire_attr_ok us" by (auto simp: list_all_iff unknown_ok_def)
  note w = w_attrs_sent [OF ok us(2,3), of as4 nh e]
  have "list_all wire_attr_ok (sent_attrs a us as4 nh e)" using sent_ok [OF us(1)] assms(4) by (simp add: w)
  from read_attrs_fold [OF this sent_types_distinct [OF us(1,2)], of dec_start ctx]
  have "read_attrs ctx (w_attrs a as4 nh e @ r) dec_start = read_attrs ctx r
    ((upd_attrs (seen_all a us as4 nh e) (carried a as4 (saw_all (nh \<and> length (a_nexthop a) = 4) dec_start)))
      \<lparr>v_seen := rev (wire_types (sent_attrs a us as4 nh e))\<rparr>)" for r
    unfolding w fold_sent [OF assms(1-3)] by (simp add: v_seen_start)
  moreover have "sent_attrs a us as4 nh e \<noteq> []" by (simp add: sent_attrs_def Let_def low_attrs_def)
  then have "w_attrs a as4 nh e \<noteq> []" unfolding w by (cases "sent_attrs a us as4 nh e") simp_all
  moreover have "ATTR_MP_REACH \<notin> set (wire_types (sent_attrs a us as4 nh e))"
    by (rule no_mp_type [OF us(1)])
  ultimately show ?thesis by (intro exI [of _ "rev (wire_types (sent_attrs a us as4 nh e))"]) simp
qed

definition announced_v4 :: "attr_set \<Rightarrow> nlri list \<Rightarrow> update_msg" where
  "announced_v4 b xs = \<lparr>u_withdrawn = [], u_nlri = xs, u_attrs = Some b, u_has_attrs = True, u_mp_reach = None,
    u_mp_unreach = None, u_errors = [], u_end_of_rib = False, u_host_bits = 0\<rparr>"

lemma seen_all_fields:
  "a_as_path (seen_all a us as4 nh e b) = seen_path a as4"
  "a_aggregator (seen_all a us as4 nh e attrs_blank) = seen_agg a as4"
  by (simp_all add: seen_all_def seen_low_def attrs_blank_def seen_agg_def)

lemma decode_announce_v4:
  assumes ok: "sendable a us" "restores a as4" and c: "ctx_as4 ctx = as4" "ctx_is_ebgp ctx = e" "add_path_for ctx 1 1 = ap"
    and len: "length (w_attrs a as4 True e) < 65536" and nh: "length (a_nexthop a) = 4"
    and xs: "list_all (nlri_ok ap AFI_IP) xs" "xs \<noteq> []"
  shows "decode_update (announce_v4 (w_attrs a as4 True e) (run_of ap xs)) ctx
    = announced_v4 (attrs_finalize (sent_view a e (a_nexthop a))) xs"
proof -
  let ?attrs = "w_attrs a as4 True e" and ?g = "seen_all a us as4 True e"
  obtain s where s: "read_attrs ctx ?attrs dec_start
      = (upd_attrs ?g (carried a as4 (saw_all True dec_start)))\<lparr>v_seen := s\<rparr>" and ne: "?attrs \<noteq> []"
  proof -
    from read_w_attrs [OF ok(1) c(1,2) len] obtain s where
      "\<forall>r. read_attrs ctx (?attrs @ r) dec_start = read_attrs ctx r ((upd_attrs ?g (carried a as4 (saw_all True dec_start)))\<lparr>v_seen := s\<rparr>)"
      "?attrs \<noteq> []" using nh by auto
    then show ?thesis using that by (metis append_Nil2 read_attrs_Nil)
  qed
  define st where "st = (upd_attrs ?g (carried a as4 (saw_all True dec_start)))\<lparr>v_seen := s, u_has_attrs := True, u_nlri := xs\<rparr>"
  have run: "read_nlri (add_path_for ctx 1 1) AFI_IP (run_of ap xs) = (xs, 0, True)"
    using read_nlri_run_of [OF xs(1)] c(3) by simp
  have body: "decode_body ctx (be16 0 @ be16 (int (length ?attrs)) @ ?attrs @ run_of ap xs) = finish_update (length ?attrs) st"
    using decode_body_step [OF len refl run] ne by (simp add: s st_def)
  have fields: "v_attrs st = ?g attrs_blank" "u_nlri st = xs" "v_saw_origin st" "v_saw_as_path st" "v_saw_nexthop st"
    "v_as4_path st = (if needs_as4 a as4 then Some (a_as_path a) else None)"
    "v_as4_aggregator st = (if needs_as4 a as4 \<and> big_aggregator a then Some (a_aggregator a) else None)"
    by (simp_all add: st_def upd_attrs_def carried_def saw_all_def dec_start_def)
  have "apply_as4 st = upd_attrs (\<lambda>b. b\<lparr>a_as_path := a_as_path a, a_aggregator := a_aggregator a\<rparr>) st"
    by (rule apply_as4_result [OF ok]) (simp_all add: fields seen_all_fields)
  from finish_clean [OF fields(3,4) _ this] fields(2,5) xs(2)
  have "finish_update (length ?attrs) st = (upd_attrs (\<lambda>b. b\<lparr>a_as_path := a_as_path a, a_aggregator := a_aggregator a\<rparr>) st)
      \<lparr>u_attrs := Some (attrs_finalize (sent_view a e (a_nexthop a))), u_end_of_rib := False\<rparr>"
    using seen_all_view [OF ok(1), of as4 True e] nh by (simp add: fields)
  moreover have "int (length (announce_v4 ?attrs (run_of ap xs))) \<ge> 23" by (simp add: announce_v4_octets)
  ultimately show ?thesis
    unfolding decode_update_def announce_v4_octets drop_message body
    by (simp add: update_msg.truncate_def announced_v4_def st_def upd_attrs_def carried_def saw_all_def dec_start_def)
qed

end
