(* ===== verification/WireRoundTrip.thy ===== *)
theory WireRoundTrip
  imports WireAnnounce
begin

text \<open>
  Whole exchanges: everything an encoder of \<open>WireEncode\<close> produces, the decoder at the other end
  reads back, and every message passes the framer.
\<close>

section \<open>Announcing in MP_REACH_NLRI\<close>

lemma bytes_at_mp:
  assumes "length nh < 256"
  shows "bgp_mp_reach_hdr (mp_reach_value 2 1 nh run) = Some (2, 1, Some (nh, run))"
  using assms by (simp add: bgp_mp_reach_hdr_def mp_reach_value_def be8_def nth_append unat_be8 fits_def Let_def)

definition announced_mp :: "attr_set \<Rightarrow> bytestr \<Rightarrow> bytestr \<Rightarrow> nlri list \<Rightarrow> update_msg" where
  "announced_mp b g l xs = \<lparr>u_withdrawn = [], u_nlri = [], u_attrs = Some b, u_has_attrs = True,
    u_mp_reach = Some (2, 1, g, l, xs), u_mp_unreach = None, u_errors = [], u_end_of_rib = False, u_host_bits = 0\<rparr>"

lemma read_mp_attr:
  assumes "length v < 65536" and "t \<notin> set (v_seen st)"
  shows "read_attrs ctx ([0x90, t] @ be16 (int (length v)) @ v) st
    = decode_attr ctx 0x90 t v (st\<lparr>v_seen := t # v_seen st\<rparr>)"
proof -
  have "bgp_attr_next ([0x90, t] @ be16 (int (length v)) @ v) = Some (0x90, t, 4, length v)"
    using unat_rd16_be16 [of "length v" v] assms(1) by (simp add: bgp_attr_next_def)
  moreover have "drop 4 ([0x90, t] @ be16 (int (length v)) @ v) = v @ []" by simp
  ultimately show ?thesis
    using read_attrs_step [OF _ _ assms(2), of "[0x90, t] @ be16 (int (length v)) @ v" "0x90" 4 v "[]" ctx] by simp
qed

lemma decode_announce_mp:
  assumes ok: "sendable a us" "restores a as4" and c: "ctx_as4 ctx = as4" "ctx_is_ebgp ctx = e" "add_path_for ctx 2 1 = ap"
    and fam: "wire_family_ok ctx 2 1" and nh: "mp_nexthop 2 nh = Some (g, l)"
    and len: "length (w_attrs a as4 False e) + length (mp_reach_value 2 1 nh (run_of ap xs)) + 4 < 65536"
    and xs: "list_all (nlri_ok ap AFI_IP6) xs" "xs \<noteq> []"
  shows "decode_update (announce_mp 2 1 nh (w_attrs a as4 False e) (run_of ap xs)) ctx
    = announced_mp (attrs_finalize ((sent_view a e g)\<lparr>a_nexthop_local := l\<rparr>)) g l xs"
proof -
  let ?attrs = "w_attrs a as4 False e" and ?g = "seen_all a us as4 False e" and ?v = "mp_reach_value 2 1 nh (run_of ap xs)"
  let ?mp = "[0x90, 14] @ be16 (int (length ?v)) @ ?v"
  let ?h = "\<lambda>b. b\<lparr>a_nexthop := g, a_nexthop_local := l\<rparr>"
  have small: "length ?attrs < 65536" "length ?v < 65536" "length (?attrs @ ?mp) < 65536" using len by simp_all
  obtain s where s: "\<forall>r. read_attrs ctx (?attrs @ r) dec_start = read_attrs ctx r
      ((upd_attrs ?g (carried a as4 (saw_all False dec_start)))\<lparr>v_seen := s\<rparr>)" and mp: "ATTR_MP_REACH \<notin> set s"
    using read_w_attrs [OF ok(1) c(1,2) small(1)] by auto
  define st0 where "st0 = (upd_attrs ?g (carried a as4 (saw_all False dec_start)))\<lparr>v_seen := 14 # s\<rparr>"
  have nhl: "length nh < 256" using nh by (auto simp: mp_nexthop_def split: if_splits)
  have run: "read_nlri (add_path_for ctx 2 1) 2 (run_of ap xs) = (xs, 0, True)"
    using read_nlri_run_of [OF xs(1)] c(3) by simp
  have "read_attrs ctx (?attrs @ ?mp) dec_start = decode_attr ctx 0x90 14 ?v st0"
    using read_mp_attr [OF small(2), of 14] mp by (simp add: s st0_def)
  also have "\<dots> = decode_mp_reach ctx ?v st0"
    by (simp add: decode_attr_def checked_def is_optional_def is_transitive_def)
  also have "\<dots> = (upd_attrs ?h st0)\<lparr>u_mp_reach := Some (2, 1, g, l, xs)\<rparr>"
    unfolding decode_mp_reach_def bytes_at_mp [OF nhl] by (simp add: fam nh run upd_attrs_def Let_def)
  finally have read: "read_attrs ctx (?attrs @ ?mp) dec_start = (upd_attrs ?h st0)\<lparr>u_mp_reach := Some (2, 1, g, l, xs)\<rparr>" .
  define st where "st = (upd_attrs ?h st0)\<lparr>u_mp_reach := Some (2, 1, g, l, xs), u_has_attrs := True\<rparr>"
  have "read_nlri (add_path_for ctx 1 1) AFI_IP [] = ([], 0, True)"
    by (simp add: read_nlri_def nlri_run.simps addr_len_def)
  moreover have "st\<lparr>u_nlri := []\<rparr> = st" by (simp add: st_def st0_def upd_attrs_def carried_def saw_all_def dec_start_def)
  ultimately have body: "decode_body ctx (be16 0 @ be16 (int (length ?attrs + length ?mp)) @ ?attrs @ ?mp)
      = finish_update (length (?attrs @ ?mp)) st"
    using decode_body_step [OF small(3) refl, of ctx "[]" "[]", unfolded read] by (simp add: st_def)
  have fields: "v_attrs st = ?h (?g attrs_blank)" "u_nlri st = []" "v_saw_origin st" "v_saw_as_path st"
    "v_as4_path st = (if needs_as4 a as4 then Some (a_as_path a) else None)"
    "v_as4_aggregator st = (if needs_as4 a as4 \<and> big_aggregator a then Some (a_aggregator a) else None)"
    "u_mp_reach st \<noteq> None"
    by (simp_all add: st_def st0_def upd_attrs_def carried_def saw_all_def dec_start_def)
  have "apply_as4 st = upd_attrs (\<lambda>b. b\<lparr>a_as_path := a_as_path a, a_aggregator := a_aggregator a\<rparr>) st"
    by (rule apply_as4_result [OF ok]) (simp_all add: fields seen_all_fields)
  from finish_clean [OF fields(3,4) _ this] fields(2,7)
  have "finish_update (length (?attrs @ ?mp)) st = (upd_attrs (\<lambda>b. b\<lparr>a_as_path := a_as_path a, a_aggregator := a_aggregator a\<rparr>) st)
      \<lparr>u_attrs := Some (attrs_finalize ((v_attrs st)\<lparr>a_as_path := a_as_path a, a_aggregator := a_aggregator a\<rparr>)), u_end_of_rib := False\<rparr>"
    by simp
  moreover have "(v_attrs st)\<lparr>a_as_path := a_as_path a, a_aggregator := a_aggregator a\<rparr>
      = (sent_view a e g)\<lparr>a_nexthop_local := l\<rparr>"
  proof -
    have "(v_attrs st)\<lparr>a_as_path := a_as_path a, a_aggregator := a_aggregator a\<rparr>
        = ?h ((?g attrs_blank)\<lparr>a_as_path := a_as_path a, a_aggregator := a_aggregator a\<rparr>)"
      by (simp add: fields(1))
    then show ?thesis using seen_all_view [OF ok(1), of as4 False e] by (simp add: sent_view_def)
  qed
  moreover have "announce_mp 2 1 nh ?attrs (run_of ap xs) = message MSG_UPDATE (be16 0 @ be16 (int (length ?attrs + length ?mp)) @ ?attrs @ ?mp)"
    by (simp add: announce_mp_octets Let_def add.left_commute)
  ultimately show ?thesis
    unfolding decode_update_def by (simp only: drop_message body)
      (simp add: update_msg.truncate_def announced_mp_def st_def st0_def upd_attrs_def carried_def saw_all_def dec_start_def)
qed

section \<open>Splitting over messages\<close>

lemma announce_loop_Nil [simp]: "announce_loop afi safi mx ap nh attrs [] = Inr []"
  by (simp add: announce_loop.simps)

definition block_of :: "int \<Rightarrow> int \<Rightarrow> bytestr \<Rightarrow> bytestr \<Rightarrow> bytestr" where
  "block_of afi safi nh attrs = attrs @ (if afi = 1 \<and> safi = 1 then [] else mp_reach_open afi safi nh)"

lemma announce_loop_step:
  assumes "announce_loop afi safi mx ap nh attrs items = Inr msgs" and "items \<noteq> []"
    and ok: "list_all (\<lambda>x. prefix_ok (fst x)) items"
  obtains xs rest out where "items = xs @ rest" and "xs \<noteq> []" and "length rest < length items"
    and "announce_loop afi safi mx ap nh attrs rest = Inr out"
    and "msgs = (if afi = 1 \<and> safi = 1 then announce_v4 attrs (run_of ap xs) else announce_mp afi safi nh attrs (run_of ap xs)) # out"
    and "int (length (announce_head (block_of afi safi nh attrs)) + length (run_of ap xs)) \<le> mx"
proof -
  let ?budget = "mx - int (length (announce_head (block_of afi safi nh attrs)))"
  obtain run rest where f: "fill ap ?budget 0 items = (run, rest)" by fastforce
  note step = assms(1)[unfolded announce_loop.simps [of afi safi mx ap nh attrs items] Let_def, folded block_of_def]
  from step assms(2) f have b: "0 < ?budget" and r: "run \<noteq> []"
    and l: "bind_res (announce_loop afi safi mx ap nh attrs rest) (\<lambda>out. Inr ((if \<not> (afi = 1 \<and> safi = 1)
      then announce_mp afi safi nh attrs run else announce_v4 attrs run) # out)) = Inr msgs"
    by (auto simp: block_of_def split: if_splits)
  obtain xs where xs: "items = xs @ rest" "run = run_of ap xs" using fill_split [OF f] by blast
  moreover have "xs \<noteq> []" using r xs(2) by auto
  moreover have "length rest < length items" using xs(1) \<open>xs \<noteq> []\<close> by simp
  moreover have "int (length run) \<le> ?budget" using fill_budget [OF f ok] b by simp
  ultimately show ?thesis using that l by (auto simp: bind_res_Inr_iff)
qed

lemma block_length_v4: "length (announce_head (block_of 1 1 nh attrs)) = 23 + length attrs"
  by (simp add: announce_head_def block_of_def)

lemma block_length_mp:
  "length (announce_head (block_of 2 1 nh attrs)) + length run = 27 + length attrs + length (mp_reach_value 2 1 nh run)"
  by (simp add: announce_head_def block_of_def mp_reach_open_def mp_reach_value_def)

lemma announce_loop_v4:
  assumes "announce_loop 1 1 mx ap nh attrs items = Inr msgs" and "list_all (\<lambda>x. prefix_ok (fst x)) items" and "mx \<le> 65535"
  shows "\<exists>parts. items = concat parts \<and> msgs = map (\<lambda>xs. announce_v4 attrs (run_of ap xs)) parts
    \<and> (\<forall>xs\<in>set parts. xs \<noteq> []) \<and> (\<forall>m\<in>set msgs. well_framed mx (MSG_UPDATE, m))
    \<and> (items \<noteq> [] \<longrightarrow> length attrs < 65536)"
  using assms
proof (induction "length items" arbitrary: items msgs rule: less_induct)
  case less
  show ?case
  proof (cases "items = []")
    case True
    with less.prems show ?thesis by (intro exI [of _ "[]"]) simp
  next
    case False
    from announce_loop_step [OF less.prems(1) this less.prems(2)] obtain xs rest out where
      s: "items = xs @ rest" "xs \<noteq> []" "length rest < length items" "announce_loop 1 1 mx ap nh attrs rest = Inr out"
      "msgs = announce_v4 attrs (run_of ap xs) # out"
      and len: "int (length (announce_head (block_of 1 1 nh attrs)) + length (run_of ap xs)) \<le> mx" by auto
    have "list_all (\<lambda>x. prefix_ok (fst x)) rest" using less.prems(2) s(1) by simp
    from less.hyps [OF s(3,4) this less.prems(3)] obtain parts where
      p: "rest = concat parts" "out = map (\<lambda>xs. announce_v4 attrs (run_of ap xs)) parts" "\<forall>xs\<in>set parts. xs \<noteq> []"
      "\<forall>m\<in>set out. well_framed mx (MSG_UPDATE, m)" by blast
    have "well_framed mx (MSG_UPDATE, announce_v4 attrs (run_of ap xs))"
      unfolding announce_v4_octets using len less.prems(3) by (intro well_framed_update) (simp_all add: block_length_v4)
    moreover have "length attrs < 65536" using len less.prems(3) by (simp add: block_length_v4)
    ultimately show ?thesis using s p by (intro exI [of _ "xs # parts"]) auto
  qed
qed

lemma announce_loop_mp:
  assumes "announce_loop 2 1 mx ap nh attrs items = Inr msgs" and "list_all (\<lambda>x. prefix_ok (fst x)) items" and "mx \<le> 65535"
  shows "\<exists>parts. items = concat parts \<and> msgs = map (\<lambda>xs. announce_mp 2 1 nh attrs (run_of ap xs)) parts
    \<and> (\<forall>xs\<in>set parts. xs \<noteq> []) \<and> (\<forall>m\<in>set msgs. well_framed mx (MSG_UPDATE, m))
    \<and> (\<forall>xs\<in>set parts. length attrs + length (mp_reach_value 2 1 nh (run_of ap xs)) + 4 < 65536)"
  using assms
proof (induction "length items" arbitrary: items msgs rule: less_induct)
  case less
  show ?case
  proof (cases "items = []")
    case True
    with less.prems show ?thesis by (intro exI [of _ "[]"]) simp
  next
    case False
    from announce_loop_step [OF less.prems(1) this less.prems(2)] obtain xs rest out where
      s: "items = xs @ rest" "xs \<noteq> []" "length rest < length items" "announce_loop 2 1 mx ap nh attrs rest = Inr out"
      "msgs = announce_mp 2 1 nh attrs (run_of ap xs) # out"
      and len: "int (length (announce_head (block_of 2 1 nh attrs)) + length (run_of ap xs)) \<le> mx" by auto
    have "list_all (\<lambda>x. prefix_ok (fst x)) rest" using less.prems(2) s(1) by simp
    from less.hyps [OF s(3,4) this less.prems(3)] obtain parts where
      p: "rest = concat parts" "out = map (\<lambda>xs. announce_mp 2 1 nh attrs (run_of ap xs)) parts" "\<forall>xs\<in>set parts. xs \<noteq> []"
      "\<forall>m\<in>set out. well_framed mx (MSG_UPDATE, m)"
      "\<forall>xs\<in>set parts. length attrs + length (mp_reach_value 2 1 nh (run_of ap xs)) + 4 < 65536" by blast
    have l: "int (27 + length attrs + length (mp_reach_value 2 1 nh (run_of ap xs))) \<le> mx"
      using len unfolding block_length_mp .
    then have "well_framed mx (MSG_UPDATE, announce_mp 2 1 nh attrs (run_of ap xs))"
      unfolding announce_mp_octets Let_def using less.prems(3) by (intro well_framed_update) simp_all
    moreover have "length attrs + length (mp_reach_value 2 1 nh (run_of ap xs)) + 4 < 65536" using l less.prems(3) by simp
    ultimately show ?thesis using s p by (intro exI [of _ "xs # parts"]) auto
  qed
qed

section \<open>Announcements end to end\<close>

lemma updates_stream:
  assumes "\<forall>m\<in>set msgs. well_framed mx (MSG_UPDATE, m)" and "concat cs = concat msgs"
  shows "frames mx (concat cs) = (map (Pair MSG_UPDATE) msgs, Pending [])"
proof -
  have "list_all (well_framed mx) (map (Pair MSG_UPDATE) msgs)" using assms(1) by (simp add: list_all_iff)
  from frames_well_framed [OF this, of "[]"] show ?thesis
    using assms(2) by (simp add: comp_def frames_cases)
qed

definition decode_all :: "decode_ctx \<Rightarrow> int \<Rightarrow> bytestr list \<Rightarrow> update_msg list result" where
  \<comment> \<open>what a receiver makes of a stream of UPDATEs, in whatever pieces it arrives\<close>
  "decode_all ctx mx cs =
    bind_res (fst (receive cs (new_framer mx))) (\<lambda>ms. Inr (map (\<lambda>m. decode_update (snd m) ctx) ms))"

text \<open>Unless a read raises, every message of the stream is decoded.\<close>

lemma decode_stream:
  assumes "\<forall>m\<in>set msgs. well_framed mx (MSG_UPDATE, m)" and "concat cs = concat msgs"
  shows "decode_all ctx mx cs =
    (if reads_ok mx 0 [] cs then Inr (map (\<lambda>m. decode_update m ctx) msgs) else Inl resize_error)"
  using receive_new [of mx cs] updates_stream [OF assms] by (simp add: decode_all_def)

lemma nlri_ok_prefix_ok: "list_all (nlri_ok ap afi) xs \<Longrightarrow> list_all (\<lambda>x. prefix_ok (fst x)) xs"
  by (auto simp: list_all_iff nlri_ok_def)

lemma parts_ok: "xs = concat parts \<Longrightarrow> list_all P xs \<Longrightarrow> ys \<in> set parts \<Longrightarrow> list_all P ys"
  by (auto simp: list_all_iff)

lemma announced_stream_v4:
  assumes enc: "encode_announce items a 1 1 mx as4 ap e nexthop = Inr msgs" and mx: "mx \<le> 65535"
    and a: "sendable a us" "restores a as4" "length (a_nexthop a) = 4"
    and items: "list_all (nlri_ok ap AFI_IP) (map as_pair items)"
    and ctx: "ctx_as4 ctx = as4" "ctx_is_ebgp ctx = e" "add_path_for ctx 1 1 = ap"
    and stream: "concat cs = concat msgs"
  shows "\<exists>parts. concat parts = map as_pair items
    \<and> decode_all ctx mx cs = (if reads_ok mx 0 [] cs
      then Inr (map (announced_v4 (attrs_finalize (sent_view a e (a_nexthop a)))) parts) else Inl resize_error)"
proof -
  let ?attrs = "w_attrs a as4 True e"
  have loop: "announce_loop 1 1 mx ap (get_default nexthop (a_nexthop a)) ?attrs (map as_pair items) = Inr msgs"
    using enc by (auto simp: encode_announce_def Let_def split: if_splits)
  obtain parts where parts: "map as_pair items = concat parts" "msgs = map (\<lambda>xs. announce_v4 ?attrs (run_of ap xs)) parts"
    "\<forall>xs\<in>set parts. xs \<noteq> []" "\<forall>m\<in>set msgs. well_framed mx (MSG_UPDATE, m)"
    "map as_pair items \<noteq> [] \<longrightarrow> length ?attrs < 65536"
    using announce_loop_v4 [OF loop nlri_ok_prefix_ok [OF items] mx] by blast
  have "decode_update (announce_v4 ?attrs (run_of ap xs)) ctx = announced_v4 (attrs_finalize (sent_view a e (a_nexthop a))) xs"
    if "xs \<in> set parts" for xs
  proof (rule decode_announce_v4 [OF a(1,2) ctx _ a(3)])
    show "xs \<noteq> []" using parts(3) that by blast
    then show "length ?attrs < 65536" using parts(1,5) that by auto
    show "list_all (nlri_ok ap AFI_IP) xs" by (rule parts_ok [OF parts(1) items that])
  qed
  then have "map (\<lambda>m. decode_update m ctx) msgs = map (announced_v4 (attrs_finalize (sent_view a e (a_nexthop a)))) parts"
    by (simp add: parts(2))
  with parts(1) decode_stream [OF parts(4) stream, of ctx] show ?thesis by (intro exI [of _ parts]) simp
qed

text \<open>
  C32. What is announced for IPv4 arrives: cut the stream anywhere, and unless a read raises in the framer,
  which the stream and the cuts decide, the messages of one announcement are
  delivered and decoded without a fault, carry together every prefix with its path identifier
  once and in the order given, and each carries the attributes that may cross the session. Over
  a session with two-octet AS numbers the AS_PATH has to be one that the merge with AS4_PATH
  restores.
\<close>

theorem announcement_round_trip_v4:
  assumes enc: "encode_announce items a 1 1 mx as4 ap e nexthop = Inr msgs" and mx: "mx \<le> 65535"
    and a: "sendable a us" "restores a as4" "length (a_nexthop a) = 4"
    and items: "list_all (nlri_ok ap AFI_IP) (map as_pair items)"
    and ctx: "ctx_as4 ctx = as4" "ctx_is_ebgp ctx = e" "add_path_for ctx 1 1 = ap"
    and stream: "concat cs = concat msgs"
  shows "\<exists>parts. concat parts = map as_pair items
    \<and> decode_all ctx mx cs = (if reads_ok mx 0 [] cs
      then Inr (map (announced_v4 (attrs_finalize (sent_view a e (a_nexthop a)))) parts) else Inl resize_error)"
  using assms by (rule announced_stream_v4)

text \<open>
  C33. What is announced in MP_REACH_NLRI for IPv6 arrives the same way, under the same conditions on
  the cuts and on the AS_PATH of a two-octet session, with the global and the link-local next hop
  that the announcement names.
\<close>

theorem announcement_round_trip_v6:
  assumes enc: "encode_announce items a 2 1 mx as4 ap e nexthop = Inr msgs" and mx: "mx \<le> 65535"
    and a: "sendable a us" "restores a as4" "mp_nexthop 2 (get_default nexthop (a_nexthop a)) = Some (g, l)"
    and items: "list_all (nlri_ok ap AFI_IP6) (map as_pair items)"
    and ctx: "ctx_as4 ctx = as4" "ctx_is_ebgp ctx = e" "add_path_for ctx 2 1 = ap" "wire_family_ok ctx 2 1"
    and stream: "concat cs = concat msgs"
  shows "\<exists>parts. concat parts = map as_pair items
    \<and> decode_all ctx mx cs = (if reads_ok mx 0 [] cs
      then Inr (map (announced_mp (attrs_finalize ((sent_view a e g)\<lparr>a_nexthop_local := l\<rparr>)) g l) parts) else Inl resize_error)"
proof -
  let ?attrs = "w_attrs a as4 False e" and ?nh = "get_default nexthop (a_nexthop a)"
  have loop: "announce_loop 2 1 mx ap ?nh ?attrs (map as_pair items) = Inr msgs"
    using enc by (auto simp: encode_announce_def Let_def split: if_splits)
  obtain parts where parts: "map as_pair items = concat parts" "msgs = map (\<lambda>xs. announce_mp 2 1 ?nh ?attrs (run_of ap xs)) parts"
    "\<forall>xs\<in>set parts. xs \<noteq> []" "\<forall>m\<in>set msgs. well_framed mx (MSG_UPDATE, m)"
    "\<forall>xs\<in>set parts. length ?attrs + length (mp_reach_value 2 1 ?nh (run_of ap xs)) + 4 < 65536"
    using announce_loop_mp [OF loop nlri_ok_prefix_ok [OF items] mx] by blast
  have "decode_update (announce_mp 2 1 ?nh ?attrs (run_of ap xs)) ctx
      = announced_mp (attrs_finalize ((sent_view a e g)\<lparr>a_nexthop_local := l\<rparr>)) g l xs" if "xs \<in> set parts" for xs
  proof (rule decode_announce_mp [OF a(1,2) ctx a(3)])
    show "length ?attrs + length (mp_reach_value 2 1 ?nh (run_of ap xs)) + 4 < 65536" using parts(5) that by blast
    show "list_all (nlri_ok ap AFI_IP6) xs" by (rule parts_ok [OF parts(1) items that])
    show "xs \<noteq> []" using parts(3) that by blast
  qed
  then have "map (\<lambda>m. decode_update m ctx) msgs = map (announced_mp (attrs_finalize ((sent_view a e g)\<lparr>a_nexthop_local := l\<rparr>)) g l) parts"
    by (simp add: parts(2))
  with parts(1) decode_stream [OF parts(4) stream, of ctx] show ?thesis by (intro exI [of _ parts]) simp
qed


section \<open>When an announcement can be encoded\<close>

lemma fill_stuck: "fst (fill ap b 0 (x # xs)) = [] \<longleftrightarrow> b < int (prefix_wire_len ap (fst x))"
  by (simp add: case_prod_unfold)

lemma fill_fits:
  assumes "fill ap b used xs = (w, rest)" and "xs = ys @ rest"
  shows "list_all (\<lambda>x. int (used + prefix_wire_len ap (fst x)) \<le> b) ys"
  using assms
proof (induction xs arbitrary: used w ys)
  case (Cons x xs)
  note IH = Cons.IH and all = Cons.prems(2)
  show ?case
  proof (cases "b < int (used + prefix_wire_len ap (fst x))")
    case False
    then obtain v where v: "fill ap b (used + prefix_wire_len ap (fst x)) xs = (v, rest)"
      using Cons.prems(1) by (cases "fill ap b (used + prefix_wire_len ap (fst x)) xs") simp
    show ?thesis
    proof (cases ys)
      case (Cons y zs)
      then have "x = y" "xs = zs @ rest" using all by simp_all
      with IH [OF v] show ?thesis using False Cons by (auto simp: list_all_iff)
    qed simp
  next
    case True
    then have "rest = x # xs" using Cons.prems(1) by simp
    then show ?thesis using all by simp
  qed
qed simp

lemma prefix_wire_len_pos: "0 < prefix_wire_len ap p"
  by (simp add: prefix_wire_len_def)

lemma announce_loop_split:
  assumes "items \<noteq> []" and f: "fill ap b 0 items = (run, rest)"
    and b: "b = mx - int (length (announce_head (block_of afi safi nh attrs)))"
  shows "b \<le> 0 \<or> run = [] \<Longrightarrow> \<exists>e. announce_loop afi safi mx ap nh attrs items = Inl e"
    and "0 < b \<Longrightarrow> run \<noteq> [] \<Longrightarrow> announce_loop afi safi mx ap nh attrs items = bind_res (announce_loop afi safi mx ap nh attrs rest)
      (\<lambda>out. Inr ((if \<not> (afi = 1 \<and> safi = 1) then announce_mp afi safi nh attrs run else announce_v4 attrs run) # out))"
proof -
  have block: "attrs @ (if \<not> (afi = 1 \<and> safi = 1) then mp_reach_open afi safi nh else []) = block_of afi safi nh attrs"
    by (simp add: block_of_def)
  note step = announce_loop.simps [of afi safi mx ap nh attrs items, unfolded Let_def block b [symmetric] f prod.case]
  show "b \<le> 0 \<or> run = [] \<Longrightarrow> \<exists>e. announce_loop afi safi mx ap nh attrs items = Inl e"
    using assms(1) unfolding step by auto
  show "0 < b \<Longrightarrow> run \<noteq> [] \<Longrightarrow> announce_loop afi safi mx ap nh attrs items = bind_res (announce_loop afi safi mx ap nh attrs rest)
      (\<lambda>out. Inr ((if \<not> (afi = 1 \<and> safi = 1) then announce_mp afi safi nh attrs run else announce_v4 attrs run) # out))"
    using assms(1) unfolding step by auto
qed

lemma announce_loop_ok_iff:
  "(\<exists>msgs. announce_loop afi safi mx ap nh attrs items = Inr msgs) \<longleftrightarrow>
    list_all (\<lambda>x. int (length (announce_head (block_of afi safi nh attrs)) + prefix_wire_len ap (fst x)) \<le> mx) items"
proof (induction "length items" arbitrary: items rule: less_induct)
  case less
  let ?budget = "mx - int (length (announce_head (block_of afi safi nh attrs)))"
  show ?case
  proof (cases items)
    case (Cons x xs)
    obtain run rest where f: "fill ap ?budget 0 items = (run, rest)" by fastforce
    obtain ys where ys: "items = ys @ rest" "run = run_of ap ys" using fill_split [OF f] by blast
    have stuck: "run = [] \<longleftrightarrow> ?budget < int (prefix_wire_len ap (fst x))" using fill_stuck [of ap ?budget x xs] f Cons by simp
    have ne: "items \<noteq> []" using Cons by simp
    note split = announce_loop_split [OF ne f refl]
    show ?thesis
    proof (cases "run = []")
      case True
      then have "\<not> int (length (announce_head (block_of afi safi nh attrs)) + prefix_wire_len ap (fst x)) \<le> mx"
        using stuck by simp
      then show ?thesis using split(1) True Cons by auto
    next
      case False
      then have "length rest < length items" using ys by auto
      note IH = less [OF this]
      have pos: "0 < ?budget" using False stuck prefix_wire_len_pos [of ap "fst x"] by linarith
      have "(\<exists>msgs. announce_loop afi safi mx ap nh attrs items = Inr msgs) \<longleftrightarrow>
          (\<exists>msgs. announce_loop afi safi mx ap nh attrs rest = Inr msgs)"
        unfolding split(2) [OF pos False] by (auto simp: bind_res_Inr_iff)
      moreover have "list_all (\<lambda>x. int (length (announce_head (block_of afi safi nh attrs)) + prefix_wire_len ap (fst x)) \<le> mx) ys"
        using fill_fits [OF f ys(1)] by (auto simp: list_all_iff)
      ultimately show ?thesis using IH ys(1) by simp
    qed
  qed simp
qed

text \<open>
  An announcement is encoded exactly when there is nothing to announce, or the next hop of a
  family beside IPv4 unicast is there and not all zero and every prefix, alone beside the
  path attributes, keeps to the message size; otherwise the encoder raises.
\<close>

theorem announcement_encodes_iff:
  "(\<exists>msgs. encode_announce items a afi safi mx as4 ap e nexthop = Inr msgs) \<longleftrightarrow>
    items = []
    \<or> (if afi = 1 \<and> safi = 1 then True else list_ex (\<lambda>b. b \<noteq> 0) (get_default nexthop (a_nexthop a)))
      \<and> list_all (\<lambda>x. int (length (announce_head (block_of afi safi (get_default nexthop (a_nexthop a))
            (w_attrs a as4 (afi = 1 \<and> safi = 1) e))) + prefix_wire_len ap (fst x)) \<le> mx) (map as_pair items)"
proof -
  have zero: "list_all (\<lambda>b. b = 0) nh \<longleftrightarrow> \<not> list_ex (\<lambda>b. b \<noteq> 0) nh" for nh :: bytestr
    by (induction nh) auto
  show ?thesis
    using announce_loop_ok_iff [of afi safi mx ap "get_default nexthop (a_nexthop a)" "w_attrs a as4 (afi = 1 \<and> safi = 1) e" "map as_pair items"]
    by (auto simp: encode_announce_def Let_def zero)
qed

section \<open>Attributes that survive an internal session\<close>

lemma one_flag: "(if w AND push_bit n 1 \<noteq> 0 then push_bit n 1 else 0) = w AND push_bit n (1 :: byte)"
proof -
  have "bit (w AND push_bit n (1 :: byte)) m \<longleftrightarrow> bit w n \<and> bit (push_bit n (1 :: byte)) m" for m
    by (auto simp: bit_simps)
  then have "w AND push_bit n (1 :: byte) = (if bit w n then push_bit n 1 else 0)" by (auto intro: bit_eqI)
  then show ?thesis by simp
qed

lemma flag_values: "push_bit 0 (1 :: byte) = 1" "push_bit 1 (1 :: byte) = 2" "push_bit 2 (1 :: byte) = 4" "push_bit 3 (1 :: byte) = 8"
  by (simp_all add: push_bit_eq_mult)

lemma presence_sent: "presence (sent_view a False nh) = presence a"
proof -
  let ?w = "a_flags a"
  have f: "(if ?w AND 1 \<noteq> 0 then 1 else 0) = ?w AND 1" "(if ?w AND 2 \<noteq> 0 then 2 else 0) = ?w AND 2"
    "(if ?w AND 4 \<noteq> 0 then 4 else 0) = ?w AND 4" "(if ?w AND 8 \<noteq> 0 then 8 else 0) = ?w AND 8"
    using one_flag [of ?w 0] one_flag [of ?w 1] one_flag [of ?w 2] one_flag [of ?w 3]
    unfolding flag_values by blast+
  have "flags_of (has_med a) (has_local_pref a) (atomic_aggregate a) (has_originator_id a)
      = (?w AND 1) OR (?w AND 2) OR (?w AND 4) OR (?w AND 8)"
    by (simp only: flags_of_def has_med_def has_local_pref_def atomic_aggregate_def has_originator_id_def has_flag_def f or.assoc)
  also have "\<dots> = ?w AND PRESENCE" by (simp add: PRESENCE_def bit.conj_disj_distrib [symmetric])
  finally have "flags_of (has_med a) (has_local_pref a) (atomic_aggregate a) (has_originator_id a) = ?w AND PRESENCE" .
  then show ?thesis by (simp add: presence_def sent_view_def and.assoc)
qed

lemma sent_view_same:
  "a_nexthop_local a = l \<Longrightarrow> same_attributes ((sent_view a False (a_nexthop a))\<lparr>a_nexthop_local := l\<rparr>) a"
proof -
  assume l: "a_nexthop_local a = l"
  let ?b = "(sent_view a False (a_nexthop a))\<lparr>a_nexthop_local := l\<rparr>"
  have p: "presence ?b = presence a" using presence_sent by (simp add: presence_def)
  from same_presence [OF p] show ?thesis
    using p l unfolding same_attributes_def by (simp add: sent_view_def)
qed

lemma same_key:
  assumes "same_attributes a b"
  shows "a_hash (attrs_finalize a) = a_hash (attrs_finalize b) \<and> attrs_cmp (attrs_finalize a) (attrs_finalize b) = 0"
proof -
  have m: "same_meaning (attrs_finalize a) (attrs_finalize b)"
    using assms by (simp add: same_meaning_def same_attributes_def finalize_fields sort_groups_iff sort_unknown_iff cluster_iff)
  with same_meaning_hash [OF m] attrs_finalize_final show ?thesis
    unfolding final_def by (metis attrs_cmp_zero)
qed

text \<open>
  C34. Over an internal session the attributes of an IPv4 announcement keep their identity: unless a read
  raises, every message carries a set with the hash of the sender's own that the order by which
  sets are interned cannot tell from it. The sender's set has no link-local next hop, and over a
  two-octet session a path that the merge restores.
\<close>

theorem internal_announcement_keeps_attributes:
  assumes enc: "encode_announce items a 1 1 mx as4 ap False nexthop = Inr msgs" and mx: "mx \<le> 65535"
    and a: "sendable a us" "restores a as4" "length (a_nexthop a) = 4" "a_nexthop_local a = []"
    and items: "list_all (nlri_ok ap AFI_IP) (map as_pair items)"
    and ctx: "ctx_as4 ctx = as4" "\<not> ctx_is_ebgp ctx" "add_path_for ctx 1 1 = ap"
    and stream: "concat cs = concat msgs" "reads_ok mx 0 [] cs"
  shows "\<exists>us. decode_all ctx mx cs = Inr us \<and> list_all (\<lambda>m. case u_attrs m of None \<Rightarrow> False
      | Some b \<Rightarrow> a_hash b = a_hash (attrs_finalize a) \<and> attrs_cmp b (attrs_finalize a) = 0) us"
proof -
  have e: "ctx_is_ebgp ctx = False" using ctx(2) by simp
  have "same_attributes (sent_view a False (a_nexthop a)) a"
    using sent_view_same [OF a(4)] by (simp add: sent_view_def attrs_blank_def)
  then show ?thesis
    using announced_stream_v4 [OF enc mx a(1-3) items ctx(1) e ctx(3) stream(1)] same_key stream(2)
    by (auto simp: list_all_iff announced_v4_def)
qed


section \<open>Sample announcements\<close>

definition sample_attrs :: attr_set where
  "sample_attrs = attrs_blank\<lparr>a_as_path := big_path, a_nexthop := [10, 0, 0, 1], a_flags := ATTRF_LOCAL_PREF,
    a_local_pref := 200, a_communities := [0, 1, 0, 2], a_unknown := [0xE0, 99, 2, 1, 2]\<rparr>"

definition sample_items :: "nlri_item list" where
  "sample_items = [Path_prefix (pfx_new AFI_IP 8 [10]) 1, Path_prefix (pfx_new AFI_IP 12 [172, 16]) 7]"

definition sample_items6 :: "nlri_item list" where
  "sample_items6 = [Bare_prefix (pfx_new AFI_IP6 32 [0x20, 1, 13, 0xB8])]"

definition sample_ctx :: "bool \<Rightarrow> bool \<Rightarrow> bool \<Rightarrow> decode_ctx" where
  "sample_ctx as4 e ap = \<lparr>ctx_as4 = as4, ctx_is_ebgp = e, ctx_local_as = 65000, ctx_peer_as = 65001,
    ctx_add_path = (if ap then {|(1, 1)|} else {||}), ctx_max_msg = 4096, ctx_families = {||}\<rparr>"

definition sample_msgs :: "bytestr list" where
  "sample_msgs = (case encode_announce sample_items sample_attrs 1 1 84 False True False None of Inr ms \<Rightarrow> ms | Inl _ \<Rightarrow> [])"

definition sample_msgs6 :: "bytestr list" where
  "sample_msgs6 = (case encode_announce sample_items6 sample_attrs 2 1 4096 False False True (Some (replicate 32 1)) of
     Inr ms \<Rightarrow> ms | Inl _ \<Rightarrow> [])"

lemma sample_sendable: "sendable sample_attrs [(0xE0, 99, [1, 2])]" "restores sample_attrs False"
proof -
  have "canon_as_path True (a_as_path sample_attrs) = Some (a_as_path sample_attrs)" by code_simp
  moreover have "list_all unknown_ok [(0xE0, 99, [1, 2])]"
    by (simp add: unknown_ok_def wire_attr_ok_def KNOWN_TYPES_def is_optional_def is_transitive_def)
  moreover have "attr_bytes (0xE0, 99, [1, 2]) = [0xE0, 99, 2, 1, 2]" by code_simp
  ultimately show "sendable sample_attrs [(0xE0, 99, [1, 2])]"
    by (simp add: sendable_def by_type_def wire_types_def sample_attrs_def attrs_blank_def)
  show "restores sample_attrs False" by code_simp
qed

lemma sample_reads_ok:
  "reads_ok 84 0 [] [take 30 (concat sample_msgs), drop 30 (concat sample_msgs)]"
  "reads_ok 84 0 [] [concat sample_msgs]"
  "reads_ok 4096 0 [] [concat sample_msgs6]"
proof -
  have f: "snd (frames 84 (concat sample_msgs)) = Pending []" "snd (frames 4096 (concat sample_msgs6)) = Pending []"
    "head_of 84 (take 30 (concat sample_msgs)) = More" by code_simp+
  show "reads_ok 84 0 [] [take 30 (concat sample_msgs), drop 30 (concat sample_msgs)]"
    by (rule reads_two) (simp_all only: f append_take_drop_id)
  show "reads_ok 84 0 [] [concat sample_msgs]" "reads_ok 4096 0 [] [concat sample_msgs6]"
    by (rule reads_whole, rule f)+
qed

lemma announcement_round_trip_v4_witness:
  "\<exists>parts. concat parts = map as_pair sample_items
    \<and> decode_all (sample_ctx False False True) 84 [take 30 (concat sample_msgs), drop 30 (concat sample_msgs)]
      = Inr (map (announced_v4 (attrs_finalize (sent_view sample_attrs False (a_nexthop sample_attrs)))) parts)"
proof -
  have "encode_announce sample_items sample_attrs 1 1 84 False True False None = Inr sample_msgs"
    "length (a_nexthop sample_attrs) = 4" "list_all (nlri_ok True AFI_IP) (map as_pair sample_items)" by code_simp+
  from announcement_round_trip_v4 [OF this(1) _ sample_sendable this(2,3), of "sample_ctx False False True"
      "[take 30 (concat sample_msgs), drop 30 (concat sample_msgs)]"] sample_reads_ok(1)
  show ?thesis by (simp add: sample_ctx_def add_path_for_def)
qed

lemma internal_announcement_keeps_attributes_witness:
  "\<exists>us. decode_all (sample_ctx False False True) 84 [concat sample_msgs] = Inr us \<and> list_all (\<lambda>m. case u_attrs m of None \<Rightarrow> False
      | Some b \<Rightarrow> a_hash b = a_hash (attrs_finalize sample_attrs) \<and> attrs_cmp b (attrs_finalize sample_attrs) = 0) us"
proof (rule internal_announcement_keeps_attributes [OF _ _ sample_sendable _ _ _ _ _ _ _ sample_reads_ok(2)])
  show "encode_announce sample_items sample_attrs 1 1 84 False True False None = Inr sample_msgs" by code_simp
  show "length (a_nexthop sample_attrs) = 4" by code_simp
  show "list_all (nlri_ok True AFI_IP) (map as_pair sample_items)" by code_simp
qed (simp_all add: sample_ctx_def add_path_for_def sample_attrs_def attrs_blank_def)

lemma announcement_round_trip_v6_witness:
  "\<exists>parts. concat parts = map as_pair sample_items6
    \<and> decode_all (sample_ctx False True False) 4096 [concat sample_msgs6]
      = Inr (map (announced_mp (attrs_finalize ((sent_view sample_attrs True (replicate 16 1))\<lparr>a_nexthop_local := replicate 16 1\<rparr>))
          (replicate 16 1) (replicate 16 1)) parts)"
proof -
  have "encode_announce sample_items6 sample_attrs 2 1 4096 False False True (Some (replicate 32 1)) = Inr sample_msgs6"
    "mp_nexthop 2 (get_default (Some (replicate 32 1)) (a_nexthop sample_attrs)) = Some (replicate 16 1, replicate 16 1)"
    "list_all (nlri_ok False AFI_IP6) (map as_pair sample_items6)" "wire_family_ok (sample_ctx False True False) 2 1"
    by code_simp+
  from announcement_round_trip_v6 [OF this(1) _ sample_sendable this(2,3) _ _ _ this(4), of "[concat sample_msgs6]"]
    sample_reads_ok(3)
  show ?thesis by (simp add: sample_ctx_def add_path_for_def)
qed

end
