(* ===== verification/WireWithdraw.thy ===== *)
theory WireWithdraw
  imports WireRoundTrip
begin

text \<open>
  Withdrawals and the messages without attributes: what is withdrawn arrives, the End-of-RIB
  marker is recognised as such and by nothing else that a sender produces, a NOTIFICATION
  keeps to the size limit and a ROUTE-REFRESH comes back.
\<close>

section \<open>Withdrawals\<close>

lemma withdraw_v4_octets:
  "withdraw_v4 run = message MSG_UPDATE (be16 (int (length run)) @ run @ be16 0)"
proof -
  have "w_set_u16 19 (int (length run)) (w_header MSG_UPDATE @ be16 0 @ run) = w_header MSG_UPDATE @ be16 (int (length run)) @ run"
    by (rule set_u16_middle) simp
  then show ?thesis
    using w_finish_header [of MSG_UPDATE "be16 (int (length run)) @ run @ be16 0"]
    by (simp add: withdraw_v4_def Let_def)
qed

definition mp_unreach_value :: "int \<Rightarrow> int \<Rightarrow> bytestr \<Rightarrow> bytestr" where
  "mp_unreach_value afi safi run = be16 afi @ be8 safi @ run"

lemma withdraw_mp_octets:
  "withdraw_mp afi safi run = message MSG_UPDATE
    (let mp = [0x90, 15] @ be16 (int (length (mp_unreach_value afi safi run))) @ mp_unreach_value afi safi run in
     be16 0 @ be16 (int (length mp)) @ mp)"
proof -
  let ?pre = "w_header MSG_UPDATE @ be16 0" and ?v = "mp_unreach_value afi safi run"
  have v: "be16 afi @ be8 safi @ run = ?v" "int (length run) + 3 = int (length ?v)" "int (length run) + 3 + 4 = int (length ?v + 4)"
    by (simp_all add: mp_unreach_value_def)
  have "w_set_u16 25 (int (length ?v)) ((?pre @ be16 0 @ [0x90, 15]) @ be16 0 @ ?v)
      = (?pre @ be16 0 @ [0x90, 15]) @ be16 (int (length ?v)) @ ?v"
    by (rule set_u16_middle) simp
  moreover have "w_set_u16 21 (int (length ?v + 4)) (?pre @ be16 0 @ [0x90, 15] @ be16 (int (length ?v)) @ ?v)
      = ?pre @ be16 (int (length ?v + 4)) @ [0x90, 15] @ be16 (int (length ?v)) @ ?v"
    by (rule set_u16_middle) simp
  ultimately have "withdraw_mp afi safi run = w_finish (?pre @ be16 (int (length ?v + 4)) @ [0x90, 15] @ be16 (int (length ?v)) @ ?v)"
    unfolding withdraw_mp_def Let_def v by simp
  then show ?thesis
    using w_finish_header [of MSG_UPDATE "be16 0 @ be16 (int (length ?v + 4)) @ [0x90, 15] @ be16 (int (length ?v)) @ ?v"]
    by (simp add: Let_def add.commute)
qed

text \<open>What a withdrawal decodes to: no attribute was there, so the set is the empty one.\<close>

definition withdrawn_v4 :: "nlri list \<Rightarrow> update_msg" where
  "withdrawn_v4 xs = \<lparr>u_withdrawn = xs, u_nlri = [], u_attrs = Some (attrs_finalize attrs_blank), u_has_attrs = False,
    u_mp_reach = None, u_mp_unreach = None, u_errors = [], u_end_of_rib = (xs = []), u_host_bits = 0\<rparr>"

definition withdrawn_mp :: "int \<Rightarrow> int \<Rightarrow> nlri list \<Rightarrow> update_msg" where
  "withdrawn_mp afi safi xs = \<lparr>u_withdrawn = [], u_nlri = [], u_attrs = Some (attrs_finalize attrs_blank), u_has_attrs = True,
    u_mp_reach = None, u_mp_unreach = Some (afi, safi, xs), u_errors = [], u_end_of_rib = (xs = []), u_host_bits = 0\<rparr>"

lemma finish_quiet:
  assumes "u_nlri st = []" "u_mp_reach st = None" "v_as4_path st = None" "v_as4_aggregator st = None"
  shows "finish_update n st = st\<lparr>u_attrs := Some (attrs_finalize (v_attrs st)), u_end_of_rib := is_end_of_rib st n\<rparr>"
  using assms by (simp add: finish_update_def apply_as4_def stale_as4_def check_mandatory_def is_end_of_rib_def Let_def)

lemma read_no_nlri: "read_nlri ap AFI_IP [] = ([], 0, True)"
  by (simp add: read_nlri_def nlri_run.simps addr_len_def)

lemma decode_withdraw_v4:
  assumes "add_path_for ctx 1 1 = ap" and xs: "list_all (nlri_ok ap AFI_IP) xs" and len: "length (run_of ap xs) < 65536"
  shows "decode_update (withdraw_v4 (run_of ap xs)) ctx = withdrawn_v4 xs"
proof -
  have run: "read_nlri (add_path_for ctx 1 1) AFI_IP (run_of ap xs) = (xs, 0, True)"
    using read_nlri_run_of [OF xs] assms(1) by simp
  have z: "unat (rd16 (be16 0 @ r)) = 0" "unat (rd16 (be16 0)) = 0" for r by simp_all
  have "decode_body ctx (be16 (int (length (run_of ap xs))) @ run_of ap xs @ be16 0)
      = finish_update 0 (dec_start\<lparr>u_withdrawn := xs\<rparr>)"
    using rd16_small [OF len, of "run_of ap xs @ be16 0"] run read_no_nlri
    by (simp add: decode_body_def Let_def z dec_start_def)
  also have "\<dots> = dec_start\<lparr>u_withdrawn := xs, u_attrs := Some (attrs_finalize attrs_blank), u_end_of_rib := xs = []\<rparr>"
    by (subst finish_quiet) (auto simp: dec_start_def is_end_of_rib_def)
  finally show ?thesis
    unfolding decode_update_def withdraw_v4_octets
    by (simp add: withdrawn_v4_def update_msg.truncate_def dec_start_def)
qed

lemma decode_withdraw_mp:
  assumes "add_path_for ctx 2 1 = ap" "wire_family_ok ctx 2 1" and xs: "list_all (nlri_ok ap AFI_IP6) xs"
    and len: "length (mp_unreach_value 2 1 (run_of ap xs)) + 4 < 65536"
  shows "decode_update (withdraw_mp 2 1 (run_of ap xs)) ctx = withdrawn_mp 2 1 xs"
proof -
  let ?v = "mp_unreach_value 2 1 (run_of ap xs)"
  let ?mp = "[0x90, 15] @ be16 (int (length ?v)) @ ?v"
  have hdr: "bgp_mp_unreach_hdr ?v = Some (2, 1, run_of ap xs)"
    by (simp add: bgp_mp_unreach_hdr_def mp_unreach_value_def be8_def nth_append fits_def)
  have run: "read_nlri (add_path_for ctx 2 1) 2 (run_of ap xs) = (xs, 0, True)"
    using read_nlri_run_of [OF xs] assms(1) by simp
  have "read_attrs ctx ?mp dec_start = decode_attr ctx 0x90 15 ?v (dec_start\<lparr>v_seen := [15]\<rparr>)"
    using read_mp_attr [of ?v 15 dec_start ctx] len by (simp add: dec_start_def)
  also have "\<dots> = dec_start\<lparr>v_seen := [15], u_mp_unreach := Some (2, 1, xs)\<rparr>"
    by (simp add: decode_attr_def checked_def is_optional_def is_transitive_def decode_mp_unreach_def hdr assms(2) run dec_start_def)
  finally have read: "read_attrs ctx ?mp dec_start = dec_start\<lparr>v_seen := [15], u_mp_unreach := Some (2, 1, xs)\<rparr>" .
  have small: "length ?mp < 65536" using len by simp
  have "decode_body ctx (be16 0 @ be16 (int (length ?mp)) @ ?mp @ [])
      = finish_update (length ?mp) (dec_start\<lparr>v_seen := [15], u_mp_unreach := Some (2, 1, xs), u_has_attrs := True\<rparr>)"
    using decode_body_step [OF small refl read_no_nlri, of ctx, unfolded read] by (simp add: dec_start_def)
  also have "\<dots> = dec_start\<lparr>v_seen := [15], u_mp_unreach := Some (2, 1, xs), u_has_attrs := True,
      u_attrs := Some (attrs_finalize attrs_blank), u_end_of_rib := xs = []\<rparr>"
    by (subst finish_quiet) (auto simp: dec_start_def is_end_of_rib_def)
  finally show ?thesis
    unfolding decode_update_def withdraw_mp_octets Let_def
    by (simp add: withdrawn_mp_def update_msg.truncate_def dec_start_def)
qed

section \<open>Splitting a withdrawal\<close>

definition withdraw_room :: "int \<Rightarrow> int" where
  "withdraw_room afi = 23 + (if afi = 1 then 0 else 7)"

definition withdraw_one :: "int \<Rightarrow> bytestr \<Rightarrow> bytestr" where
  "withdraw_one afi run = (if afi = 1 then withdraw_v4 run else withdraw_mp afi 1 run)"

lemma withdraw_loop_step:
  assumes "withdraw_loop afi 1 mx ap items = Inr msgs" and "items \<noteq> []" and ok: "list_all (\<lambda>x. prefix_ok (fst x)) items"
  obtains xs rest out where "items = xs @ rest" and "xs \<noteq> []" and "length rest < length items"
    and "withdraw_loop afi 1 mx ap rest = Inr out" and "msgs = withdraw_one afi (run_of ap xs) # out"
    and "int (length (run_of ap xs)) + withdraw_room afi \<le> mx"
proof -
  have room: "mx - 19 - 4 - (if afi = 1 \<and> (1 :: int) = 1 then 0 else 4 + 3) = mx - withdraw_room afi"
    by (simp add: withdraw_room_def)
  obtain run rest where f: "fill ap (mx - withdraw_room afi) 0 items = (run, rest)" by fastforce
  note step = assms(1)[unfolded withdraw_loop.simps [of afi 1 mx ap items] Let_def room]
  from step assms(2) f have r: "run \<noteq> []"
    and l: "bind_res (withdraw_loop afi 1 mx ap rest) (\<lambda>out. Inr (withdraw_one afi run # out)) = Inr msgs"
    by (auto simp: withdraw_one_def split: if_splits)
  obtain xs where xs: "items = xs @ rest" "run = run_of ap xs" using fill_split [OF f] by blast
  moreover have "xs \<noteq> []" using r xs(2) by auto
  moreover have "length rest < length items" using xs(1) \<open>xs \<noteq> []\<close> by simp
  moreover have "0 \<le> mx - withdraw_room afi"
  proof (rule ccontr)
    assume "\<not> 0 \<le> mx - withdraw_room afi"
    then have "run = []" using f assms(2) by (cases items) (simp_all split: if_splits)
    with r show False ..
  qed
  then have "int (length run) \<le> mx - withdraw_room afi" using fill_budget [OF f ok] by simp
  ultimately show ?thesis using that l by (auto simp: bind_res_Inr_iff)
qed

lemma well_framed_withdrawal:
  assumes "int (length run) + withdraw_room afi \<le> mx" and "mx \<le> 65535"
  shows "well_framed mx (MSG_UPDATE, withdraw_one afi run)"
proof (cases "afi = 1")
  case True
  have "well_framed mx (MSG_UPDATE, message MSG_UPDATE (be16 (int (length run)) @ run @ be16 0))"
    by (rule well_framed_update) (use assms True in \<open>simp_all add: withdraw_room_def\<close>)
  then show ?thesis using True by (simp add: withdraw_one_def withdraw_v4_octets)
next
  case False
  have "well_framed mx (MSG_UPDATE, withdraw_mp afi 1 run)"
    unfolding withdraw_mp_octets Let_def
    by (rule well_framed_update) (use assms False in \<open>simp_all add: withdraw_room_def mp_unreach_value_def\<close>)
  then show ?thesis using False by (simp add: withdraw_one_def)
qed

lemma withdraw_loop_parts:
  assumes "withdraw_loop afi 1 mx ap items = Inr msgs" and "list_all (\<lambda>x. prefix_ok (fst x)) items" and "mx \<le> 65535"
  shows "\<exists>parts. items = concat parts \<and> msgs = map (\<lambda>xs. withdraw_one afi (run_of ap xs)) parts
    \<and> (\<forall>xs\<in>set parts. xs \<noteq> [] \<and> int (length (run_of ap xs)) + withdraw_room afi \<le> mx)"
  using assms(1,2)
proof (induction "length items" arbitrary: items msgs rule: less_induct)
  case less
  show ?case
  proof (cases "items = []")
    case True
    with less.prems show ?thesis by (intro exI [of _ "[]"]) (simp add: withdraw_loop.simps)
  next
    case False
    from withdraw_loop_step [OF less.prems(1) this less.prems(2)] obtain xs rest out where
      s: "items = xs @ rest" "xs \<noteq> []" "length rest < length items" "withdraw_loop afi 1 mx ap rest = Inr out"
      "msgs = withdraw_one afi (run_of ap xs) # out" "int (length (run_of ap xs)) + withdraw_room afi \<le> mx" by auto
    have "list_all (\<lambda>x. prefix_ok (fst x)) rest" using less.prems(2) s(1) by simp
    from less.hyps [OF s(3,4) this] obtain parts where
      "rest = concat parts" "out = map (\<lambda>xs. withdraw_one afi (run_of ap xs)) parts"
      "\<forall>xs\<in>set parts. xs \<noteq> [] \<and> int (length (run_of ap xs)) + withdraw_room afi \<le> mx" by blast
    with s show ?thesis by (intro exI [of _ "xs # parts"]) auto
  qed
qed

definition withdrawn :: "int \<Rightarrow> nlri list \<Rightarrow> update_msg" where
  "withdrawn afi xs = (if afi = 1 then withdrawn_v4 xs else withdrawn_mp afi 1 xs)"

text \<open>
  C39. What is withdrawn arrives: unless a read raises in the framer, the messages of one withdrawal are
  delivered and decoded without a fault, name together every prefix with its path identifier
  once and in the order given, carry no announcement, and none of them reads as End-of-RIB.
\<close>

theorem withdrawal_round_trip:
  assumes enc: "encode_withdraw items afi 1 mx ap = Inr msgs" and mx: "mx \<le> 65535"
    and fam: "afi = 1 \<or> afi = 2" "wire_family_ok ctx afi 1" "add_path_for ctx afi 1 = ap"
    and items: "list_all (nlri_ok ap (nat afi)) (map as_pair items)"
    and stream: "concat cs = concat msgs"
  shows "\<exists>parts. concat parts = map as_pair items \<and> [] \<notin> set parts
    \<and> decode_all ctx mx cs = (if reads_ok mx 0 [] cs then Inr (map (withdrawn afi) parts) else Inl resize_error)"
proof -
  from withdraw_loop_parts [OF enc[unfolded encode_withdraw_def] nlri_ok_prefix_ok [OF items] mx] obtain parts where
    parts: "map as_pair items = concat parts" "msgs = map (\<lambda>xs. withdraw_one afi (run_of ap xs)) parts"
    "\<forall>xs\<in>set parts. xs \<noteq> [] \<and> int (length (run_of ap xs)) + withdraw_room afi \<le> mx" by blast
  have "decode_update (withdraw_one afi (run_of ap xs)) ctx = withdrawn afi xs" if "xs \<in> set parts" for xs
  proof -
    have ok: "list_all (nlri_ok ap (nat afi)) xs" by (rule parts_ok [OF parts(1) items that])
    have len: "int (length (run_of ap xs)) + withdraw_room afi \<le> 65535" using parts(3) that mx by force
    from fam(1) show ?thesis
    proof
      assume a: "afi = 1"
      then show ?thesis using decode_withdraw_v4 [of ctx ap xs] fam(3) ok len
        by (simp add: withdraw_one_def withdrawn_def withdraw_room_def)
    next
      assume a: "afi = 2"
      then show ?thesis using decode_withdraw_mp [of ctx ap xs] fam(2,3) ok len
        by (simp add: withdraw_one_def withdrawn_def withdraw_room_def mp_unreach_value_def)
    qed
  qed
  moreover have "\<forall>m\<in>set msgs. well_framed mx (MSG_UPDATE, m)"
    using parts(2,3) well_framed_withdrawal [OF _ mx] by auto
  ultimately have "decode_all ctx mx cs = (if reads_ok mx 0 [] cs then Inr (map (withdrawn afi) parts) else Inl resize_error)"
    using decode_stream [OF _ stream, of mx ctx] by (simp add: parts(2))
  with parts show ?thesis by (intro exI [of _ parts]) auto
qed

lemma withdrawal_round_trip_witness:
  "\<exists>parts. concat parts = map as_pair sample_items6 \<and> [] \<notin> set parts
    \<and> decode_all (sample_ctx True True False) 4096 [withdraw_mp 2 1 [32, 0x20, 1, 13, 0xB8]] = Inr (map (withdrawn 2) parts)"
proof -
  have "encode_withdraw sample_items6 2 1 4096 False = Inr [withdraw_mp 2 1 [32, 0x20, 1, 13, 0xB8]]"
    "list_all (nlri_ok False (nat 2)) (map as_pair sample_items6)" "wire_family_ok (sample_ctx True True False) 2 1"
    by code_simp+
  moreover have "reads_ok 4096 0 [] [withdraw_mp 2 1 [32, 0x20, 1, 13, 0xB8]]"
    by (rule reads_whole) code_simp
  ultimately show ?thesis
    using withdrawal_round_trip [of sample_items6 2 4096 False "[withdraw_mp 2 1 [32, 0x20, 1, 13, 0xB8]]"
        "sample_ctx True True False" "[withdraw_mp 2 1 [32, 0x20, 1, 13, 0xB8]]"]
    by (simp add: sample_ctx_def add_path_for_def)
qed

section \<open>End-of-RIB\<close>

lemma end_of_rib_v4: "encode_end_of_rib 1 1 = withdraw_v4 []"
  by (simp add: encode_end_of_rib_def withdraw_v4_octets w_finish_header)

text \<open>
  The End-of-RIB marker of IPv4 and of every negotiated family is decoded as the
  marker of that family, without a prefix and without a fault.
\<close>

theorem end_of_rib_recognised:
  assumes "afi = 1 \<or> afi = 2" and "wire_family_ok ctx afi 1"
  shows "decode_update (encode_end_of_rib afi 1) ctx = withdrawn afi []"
proof (cases "afi = 1")
  case True
  then show ?thesis
    using decode_withdraw_v4 [of ctx "add_path_for ctx 1 1" "[]"] by (simp add: end_of_rib_v4 withdrawn_def)
next
  case False
  then have a: "afi = 2" using assms(1) by simp
  let ?mp = "[0x80, 15, 3] @ be16 2 @ be8 1"
  have hd: "bgp_attr_next ?mp = Some (0x80, 15, 3, length (be16 2 @ be8 1))" by (simp add: bgp_attr_next_def)
  have hdr: "bgp_mp_unreach_hdr (be16 2 @ be8 1) = Some (2, 1, [])"
    by (simp add: bgp_mp_unreach_hdr_def be8_def nth_append fits_def)
  have "read_attrs ctx ?mp dec_start = decode_attr ctx 0x80 15 (be16 2 @ be8 1) (dec_start\<lparr>v_seen := [15]\<rparr>)"
    using read_attrs_step [OF hd, of "[]" dec_start ctx] by (simp add: dec_start_def)
  also have "\<dots> = dec_start\<lparr>v_seen := [15], u_mp_unreach := Some (2, 1, [])\<rparr>"
    using assms(2) a by (simp add: decode_attr_def checked_def is_optional_def is_transitive_def decode_mp_unreach_def hdr
        read_nlri_def nlri_run.simps addr_len_def dec_start_def)
  finally have read: "read_attrs ctx ?mp dec_start = dec_start\<lparr>v_seen := [15], u_mp_unreach := Some (2, 1, [])\<rparr>" .
  have small: "length ?mp < 65536" by simp
  have "decode_body ctx (be16 0 @ be16 (int (length ?mp)) @ ?mp @ [])
      = finish_update (length ?mp) (dec_start\<lparr>v_seen := [15], u_mp_unreach := Some (2, 1, []), u_has_attrs := True\<rparr>)"
    using decode_body_step [OF small refl read_no_nlri, of ctx, unfolded read] by (simp add: dec_start_def)
  also have "\<dots> = dec_start\<lparr>v_seen := [15], u_mp_unreach := Some (2, 1, []), u_has_attrs := True,
      u_attrs := Some (attrs_finalize attrs_blank), u_end_of_rib := True\<rparr>"
    by (subst finish_quiet) (auto simp: dec_start_def is_end_of_rib_def)
  finally have body: "decode_body ctx (be16 0 @ be16 6 @ ?mp) = dec_start\<lparr>v_seen := [15], u_mp_unreach := Some (2, 1, []),
      u_has_attrs := True, u_attrs := Some (attrs_finalize attrs_blank), u_end_of_rib := True\<rparr>" by simp
  have "encode_end_of_rib 2 1 = message MSG_UPDATE (be16 0 @ be16 6 @ ?mp)"
    using w_finish_header [of MSG_UPDATE "be16 0 @ be16 6 @ ?mp"] by (simp add: encode_end_of_rib_def)
  then show ?thesis
    unfolding a decode_update_def
    by (simp only: drop_message body) (simp add: withdrawn_def withdrawn_mp_def update_msg.truncate_def dec_start_def)
qed

lemma end_of_rib_recognised_witness:
  "decode_update (encode_end_of_rib 2 1) (sample_ctx True True False) = withdrawn 2 []"
  by (rule end_of_rib_recognised) (simp_all add: wire_family_ok_def sample_ctx_def)

end
