(* ===== verification/WireOpen.thy ===== *)
theory WireOpen
  imports WireRoundTrip CapabilitiesProps
begin

text \<open>
  OPEN, NOTIFICATION and ROUTE-REFRESH: an OPEN comes back with its fixed fields and every
  capability in order, in the classic and in the extended parameter format, and with the
  capability codec on either side the receiver understands what the sender advertised.
\<close>

section \<open>Capabilities inside parameters\<close>

definition cap_ok :: "tlv \<Rightarrow> bool" where
  "cap_ok c \<longleftrightarrow> fits 8 (fst c) \<and> length (snd c) \<le> 255"

definition take_cap :: "tlv \<Rightarrow> open_msg \<Rightarrow> open_msg" where
  "take_cap c m = (if fst c = 65 \<and> length (snd c) = 4 then m\<lparr>om_my_as := u32_of (snd c)\<rparr> else m)
    \<lparr>om_capabilities := om_capabilities m @ [c]\<rparr>"

lemma code_65: "fits 8 c \<Longrightarrow> (word_of_int c :: byte) = 65 \<longleftrightarrow> c = 65"
  using uint_word_of_int_fits [of c, where 'a = 8] by force

lemma read_capabilities_Nil [simp]: "read_capabilities [] m = m"
  by (simp add: read_capabilities.simps)

lemma read_cap_tlv:
  assumes "cap_ok c"
  shows "read_capabilities (cap_tlv c) m = take_cap c m"
proof -
  obtain code v where c: "c = (code, v)" by (cases c)
  have f: "fits 8 code" and l: "length v < 256" using assms by (simp_all add: c cap_ok_def)
  have n: "unat (word_of_nat (length v) :: byte) = length v" by (rule unat_be8 [OF l])
  have hd: "bgp_cap_next (cap_tlv c) = Some (word_of_int code, length v)"
    by (simp add: bgp_cap_next_def cap_tlv_def c be8_def n)
  have p: "cap_tlv c \<noteq> []" "drop 2 (cap_tlv c) = v" by (simp_all add: cap_tlv_def c be8_def)
  have "read_capabilities p m = (m\<lparr>om_my_as := if code = 65 \<and> length v = 4 then u32_of v else om_my_as m,
      om_capabilities := om_capabilities m @ [(code, v)]\<rparr>)"
    if "bgp_cap_next p = Some (word_of_int code, length v)" "p \<noteq> []" "drop 2 p = v" for p
    using that by (subst read_capabilities.simps)
      (simp add: code_65 [OF f] uint_word_of_int_fits [of code, where 'a = 8] f del: length_drop)
  from this [OF hd p] show ?thesis by (simp add: take_cap_def c)
qed

definition param_bytes :: "bool \<Rightarrow> bytestr \<Rightarrow> bytestr" where
  "param_bytes ext cap = [2] @ (if ext then be16 (int (length cap)) else be8 (int (length cap))) @ cap"

lemma read_params_Nil [simp]: "read_params ext [] m = m"
  by (simp add: read_params.simps)

lemma read_param:
  assumes "length cap \<le> (if ext then 65535 else 255)"
  shows "read_params ext (param_bytes ext cap @ r) m = read_params ext r (read_capabilities cap m)"
proof -
  have n: "unat (word_of_int (int (length cap)) :: byte) = length cap" if "\<not> ext"
    using assms that by (simp add: unat_be8)
  have h: "param_next ext (param_bytes ext cap @ r) = Some (2, (if ext then 3 else 2), length cap)"
    using unat_rd16_be16 [of "length cap" "cap @ r"] assms n
    by (cases ext) (simp_all add: param_next_def bgp_cap_next_def param_bytes_def be8_def Let_def)
  have d: "drop (if ext then 3 else 2) (param_bytes ext cap @ r) = cap @ r"
    by (simp add: param_bytes_def be8_def)
  have "param_bytes ext cap @ r \<noteq> []" by (simp add: param_bytes_def)
  moreover have "take (length cap) (cap @ r) = cap" "drop (length cap) (cap @ r) = r" by simp_all
  ultimately show ?thesis
    by (subst read_params.simps) (simp only: h d option.case prod.case Let_def if_False if_True, simp)
qed

lemma read_all_params:
  assumes "list_all cap_ok cs" and "list_all (\<lambda>c. length (cap_tlv c) \<le> (if ext then 65535 else 255)) cs"
  shows "read_params ext (concat (map (param_bytes ext \<circ> cap_tlv) cs)) m = fold take_cap cs m"
  using assms by (induction cs arbitrary: m) (simp_all add: read_param read_cap_tlv)

lemma caps_tlvs_Inr: "caps_tlvs cs = Inr caps \<longleftrightarrow> caps = map cap_tlv cs \<and> list_all (\<lambda>c. length (snd c) \<le> 255) cs"
proof (induction cs arbitrary: caps)
  case (Cons c cs)
  then show ?case by (cases c) (auto simp: bind_res_Inr_iff)
qed auto

lemma fold_take_cap_fields:
  "om_capabilities (fold take_cap cs m) = om_capabilities m @ cs"
  "om_version (fold take_cap cs m) = om_version m" "om_my_as_wire (fold take_cap cs m) = om_my_as_wire m"
  "om_hold_time (fold take_cap cs m) = om_hold_time m" "om_bgp_id (fold take_cap cs m) = om_bgp_id m"
  "om_unsupported_params (fold take_cap cs m) = om_unsupported_params m" "om_errors (fold take_cap cs m) = om_errors m"
  by (induction cs arbitrary: m) (simp_all add: take_cap_def)

text \<open>The AS an OPEN speaks for: the last 4-octet AS capability, or the field of the header.\<close>

definition spoken_as :: "tlv list \<Rightarrow> int \<Rightarrow> int" where
  "spoken_as cs wire = fold (\<lambda>c a. if fst c = 65 \<and> length (snd c) = 4 then u32_of (snd c) else a) cs wire"

lemma fold_take_cap_as: "om_my_as (fold take_cap cs m) = spoken_as cs (om_my_as m)"
  unfolding spoken_as_def by (induction cs arbitrary: m) (simp_all add: take_cap_def)

section \<open>The fixed part\<close>

lemma params_forms:
  "classic_params (map cap_tlv cs) = concat (map (param_bytes False \<circ> cap_tlv) cs)"
  "extended_params (map cap_tlv cs) = concat (map (param_bytes True \<circ> cap_tlv) cs)"
  by (simp_all add: classic_params_def extended_params_def param_bytes_def comp_def)

lemma open_fixed_classic:
  assumes "fits 16 asn" "fits 16 hold" "fits 32 rid" and "length params \<le> 255" and "params \<noteq> [] \<longrightarrow> params ! 0 = 2"
  shows "bgp_open_fixed True (BGP_VERSION # be16 asn @ be16 hold @ be32 rid @ be8 (int (length params)) @ params)
    = Some (BGP_VERSION, asn, hold, word_of_int rid, False, length params)"
proof -
  have n: "unat (word_of_int (int (length params)) :: byte) = length params"
    using assms(4) by (simp add: unat_be8)
  show ?thesis
    using assms n by (cases params) (simp_all add: bgp_open_fixed_def be8_def nth_append Let_def nth_Cons')
qed

lemma open_fixed_extended:
  assumes "fits 16 asn" "fits 16 hold" "fits 32 rid" and "length params \<le> 65535"
  shows "bgp_open_fixed True (BGP_VERSION # be16 asn @ be16 hold @ be32 rid @ [255, 255] @ be16 (int (length params)) @ params)
    = Some (BGP_VERSION, asn, hold, word_of_int rid, True, length params)"
  using assms unat_rd16_be16 [of "length params" params]
  by (simp add: bgp_open_fixed_def nth_append Let_def nth_Cons')

lemma well_framed_open:
  assumes "10 \<le> length body" and "length body + 19 \<le> 4096"
  shows "well_framed 4096 (MSG_OPEN, message MSG_OPEN body)"
proof -
  have "fits 16 (19 + int (length body))" using assms by (simp add: fits_def)
  then show ?thesis
    using assms by (simp add: well_framed_def message_def MARKER_def length_fits_type_def nth_append)
qed

section \<open>OPEN\<close>

definition opened :: "int \<Rightarrow> int \<Rightarrow> int \<Rightarrow> tlv list \<Rightarrow> open_msg" where
  "opened asn hold rid cs = \<lparr>om_version = BGP_VERSION, om_my_as = spoken_as cs asn, om_my_as_wire = asn, om_hold_time = hold,
    om_bgp_id = word_of_int rid, om_capabilities = cs, om_unsupported_params = [], om_errors = []\<rparr>"

definition wire_as :: "int \<Rightarrow> int" where
  "wire_as asn = (if asn \<le> 0xffff then asn else uint AS_TRANS)"

lemma as_fields_Inr:
  "as_u16 v = Inr w \<longleftrightarrow> w = v \<and> fits 16 v" "as_u32 v = Inr w \<longleftrightarrow> w = v \<and> fits 32 v"
  by (auto simp: as_u16_def as_u32_def)

lemma router_id_fits: "router_id arg = Inr rid \<Longrightarrow> fits 32 rid"
  by (auto simp: router_id_def as_fields_Inr split: router_arg.splits if_splits)

lemma fold_take_cap:
  "fold take_cap cs (blank_open\<lparr>om_version := BGP_VERSION, om_my_as := asn, om_my_as_wire := asn, om_hold_time := hold,
    om_bgp_id := word_of_int rid\<rparr>) = opened asn hold rid cs"
  by (rule open_msg.equality) (simp_all add: fold_take_cap_fields fold_take_cap_as opened_def blank_open_def)

text \<open>The shape of what is sent: the fixed part, the length in one of two forms, the parameters.\<close>

definition open_body :: "bool \<Rightarrow> int \<Rightarrow> int \<Rightarrow> int \<Rightarrow> bytestr \<Rightarrow> bytestr" where
  "open_body ext asn hold rid params = BGP_VERSION # be16 asn @ be16 hold @ be32 rid
    @ (if ext then [255, 255] @ be16 (int (length params)) else be8 (int (length params))) @ params"

lemma encode_open_shape:
  assumes "encode_open my_as hold arg cs extended = Inr msg"
  obtains ext rid where "router_id arg = Inr rid" "fits 16 (wire_as my_as)" "fits 16 hold"
    "msg = message MSG_OPEN (open_body ext (wire_as my_as) hold rid (concat (map (param_bytes ext \<circ> cap_tlv) cs)))"
    "length (concat (map (param_bytes ext \<circ> cap_tlv) cs)) \<le> (if ext then 65535 else 255)"
    "list_all (\<lambda>c. length (snd c) \<le> 255) cs" "list_all (\<lambda>c. length (cap_tlv c) \<le> (if ext then 65535 else 255)) cs"
    "length msg \<le> 4096"
proof -
  from assms obtain ext params fixed where caps: "list_all (\<lambda>c. length (snd c) \<le> 255) cs"
    and p: "open_params (map cap_tlv cs) extended = Inr (ext, params)" and f: "open_fixed_part my_as hold arg = Inr fixed"
    and small: "\<not> (ext \<and> 65535 < length params)"
    and msg: "msg = w_finish (w_header MSG_OPEN @ fixed
       @ (if ext then [255, 255] @ be16 (int (length params)) else be8 (int (length params))) @ params)" "length msg \<le> 4096"
    unfolding encode_open_def by (auto simp: bind_res_Inr_iff caps_tlvs_Inr Let_def split: if_splits)
  from p have params: "params = concat (map (param_bytes ext \<circ> cap_tlv) cs)"
    and each: "\<not> ext \<longrightarrow> list_all (\<lambda>c. length (cap_tlv c) \<le> 255) cs \<and> length params \<le> 255"
    by (auto simp: open_params_def Let_def params_forms list_ex_iff list_all_iff split: if_splits)
  have each_ext: "list_all (\<lambda>c. length (cap_tlv c) \<le> 65535) cs"
    using caps by (auto simp: list_all_iff cap_tlv_def dest!: bspec)
  from f obtain rid where rid: "router_id arg = Inr rid" "fits 16 (wire_as my_as)" "fits 16 hold"
    and fixed: "fixed = BGP_VERSION # be16 (wire_as my_as) @ be16 hold @ be32 rid"
    by (auto simp: open_fixed_part_def bind_res_Inr_iff as_fields_Inr wire_as_def)
  have "msg = message MSG_OPEN (open_body ext (wire_as my_as) hold rid params)"
    using msg(1) w_finish_header [of MSG_OPEN "open_body ext (wire_as my_as) hold rid params"]
    by (simp add: open_body_def fixed)
  with that [of rid ext] show ?thesis
    using rid caps each each_ext small msg(2) params by (cases ext) (simp_all add: not_less)
qed

lemma params_first: "concat (map (param_bytes ext \<circ> cap_tlv) cs) \<noteq> [] \<longrightarrow> concat (map (param_bytes ext \<circ> cap_tlv) cs) ! 0 = 2"
  by (cases cs) (simp_all add: param_bytes_def)

text \<open>
  C40. An OPEN comes back: an encoded one passes the framer and decodes without a fault to
  the version, the hold time, the identifier, the two-octet AS of the header, every
  capability in order, and the AS its 4-octet capability names.
\<close>

theorem open_round_trip:
  assumes enc: "encode_open my_as hold arg cs extended = Inr msg" and codes: "list_all (\<lambda>c. fits 8 (fst c)) cs"
  shows "\<exists>rid. router_id arg = Inr rid \<and> fst (receive [msg] (new_framer 4096)) = Inr [(MSG_OPEN, msg)]
    \<and> decode_open msg = opened (wire_as my_as) hold rid cs"
proof -
  from encode_open_shape [OF enc] obtain ext rid where s: "router_id arg = Inr rid" "fits 16 (wire_as my_as)" "fits 16 hold"
    "msg = message MSG_OPEN (open_body ext (wire_as my_as) hold rid (concat (map (param_bytes ext \<circ> cap_tlv) cs)))"
    "length (concat (map (param_bytes ext \<circ> cap_tlv) cs)) \<le> (if ext then 65535 else 255)"
    "list_all (\<lambda>c. length (snd c) \<le> 255) cs" "list_all (\<lambda>c. length (cap_tlv c) \<le> (if ext then 65535 else 255)) cs"
    "length msg \<le> 4096" by metis
  define params where "params = concat (map (param_bytes ext \<circ> cap_tlv) cs)"
  define body where "body = open_body ext (wire_as my_as) hold rid params"
  note msg = s(4)[folded params_def, folded body_def]
  have rid: "fits 32 rid" by (rule router_id_fits [OF s(1)])
  have ok: "list_all cap_ok cs" using s(6) codes by (simp add: list_all_iff cap_ok_def)
  have len: "length params \<le> (if ext then 65535 else 255)" using s(5) by (simp add: params_def)
  have fixed: "bgp_open_fixed True body = Some (BGP_VERSION, wire_as my_as, hold, word_of_int rid, ext, length params)"
  proof (cases ext)
    case True
    then show ?thesis using open_fixed_extended [OF s(2,3) rid, of params] len by (simp add: body_def open_body_def)
  next
    case False
    then show ?thesis using open_fixed_classic [OF s(2,3) rid, of params] len params_first [of ext cs]
      by (simp add: body_def open_body_def params_def)
  qed
  have rest: "drop (if ext then 13 else 10) body = params"
    by (cases ext) (simp_all add: body_def open_body_def be8_def)
  have min: "10 \<le> length body" by (simp add: body_def open_body_def)
  have "decode_open msg = read_params ext params (blank_open\<lparr>om_version := BGP_VERSION, om_my_as := wire_as my_as,
      om_my_as_wire := wire_as my_as, om_hold_time := hold, om_bgp_id := word_of_int rid\<rparr>)"
    using min by (simp add: decode_open_def msg fixed rest Let_def del: length_drop)
  also have "\<dots> = opened (wire_as my_as) hold rid cs"
    unfolding params_def read_all_params [OF ok s(7)] by (rule fold_take_cap)
  finally have dec: "decode_open msg = opened (wire_as my_as) hold rid cs" .
  have "well_framed 4096 (MSG_OPEN, msg)"
    unfolding msg by (rule well_framed_open [OF min]) (use s(8) msg in simp)
  then have f: "frames 4096 (concat [msg]) = ([(MSG_OPEN, msg)], Pending [])"
    using frames_well_framed [of 4096 "[(MSG_OPEN, msg)]" "[]"] by (simp add: frames_cases)
  then have "reads_ok 4096 0 [] [msg]" by (intro reads_whole) simp
  then have "fst (receive [msg] (new_framer 4096)) = Inr [(MSG_OPEN, msg)]"
    using receive_new_ok(1) [of 4096 "[msg]"] f by simp
  with s(1) dec show ?thesis by (intro exI [of _ rid]) simp
qed

section \<open>What the two ends agree on\<close>

definition sample_open :: "tlv list" where
  "sample_open = [(1, [0, 1, 0, 1]), (65, [0, 1, 0x11, 0x70])]"

definition sample_open_msg :: bytestr where
  "sample_open_msg = (case encode_open 70000 90 (Router_quad [10, 0, 0, 1]) sample_open False of Inr m \<Rightarrow> m | Inl _ \<Rightarrow> [])"

lemma sample_open_encoded: "encode_open 70000 90 (Router_quad [10, 0, 0, 1]) sample_open False = Inr sample_open_msg"
  by code_simp

lemma open_round_trip_witness:
  "\<exists>rid. router_id (Router_quad [10, 0, 0, 1]) = Inr rid
    \<and> fst (receive [sample_open_msg] (new_framer 4096)) = Inr [(MSG_OPEN, sample_open_msg)]
    \<and> decode_open sample_open_msg = opened (wire_as 70000) 90 rid sample_open"
  by (rule open_round_trip [OF sample_open_encoded]) (simp add: sample_open_def fits_def)

section \<open>NOTIFICATION and ROUTE-REFRESH\<close>

text \<open>
  A NOTIFICATION is at most 4096 octets whatever data it is given, well formed, and comes back
  with its code, its subcode and as much of the data as fits.
\<close>

theorem notification_round_trip:
  assumes "fits 8 code" and "fits 8 subcode"
  shows "well_framed 4096 (MSG_NOTIFICATION, encode_notification code subcode dat)
    \<and> decode_notification (encode_notification code subcode dat)
      = \<lparr>nm_code = word_of_int code, nm_subcode = word_of_int subcode, nm_data = take 4075 dat\<rparr>"
proof -
  have t: "(if 4096 - BGP_HEADER_LEN - 2 < length dat then take (4096 - BGP_HEADER_LEN - 2) dat else dat) = take 4075 dat"
    by simp
  have msg: "encode_notification code subcode dat
      = message MSG_NOTIFICATION (be8 code @ be8 subcode @ take 4075 dat)"
    unfolding encode_notification_def Let_def t by (rule w_finish_header)
  have len: "length (take 4075 dat) \<le> 4075" by simp
  define d where "d = take 4075 dat"
  note small = len[folded d_def]
  have "fits 16 (19 + int (length (be8 code @ be8 subcode @ d)))" using small by (simp add: fits_def)
  then have "well_framed 4096 (MSG_NOTIFICATION, message MSG_NOTIFICATION (be8 code @ be8 subcode @ d))"
    using small by (simp add: well_framed_def message_def MARKER_def length_fits_type_def nth_append)
  moreover have "decode_notification (message MSG_NOTIFICATION (be8 code @ be8 subcode @ d))
      = \<lparr>nm_code = word_of_int code, nm_subcode = word_of_int subcode, nm_data = d\<rparr>"
    by (simp add: decode_notification_def message_def MARKER_def be8_def nth_append)
  ultimately show ?thesis by (simp add: msg d_def)
qed

lemma notification_round_trip_witness:
  "well_framed 4096 (MSG_NOTIFICATION, encode_notification 6 2 (replicate 5000 0x41))
    \<and> decode_notification (encode_notification 6 2 (replicate 5000 0x41))
      = \<lparr>nm_code = word_of_int 6, nm_subcode = word_of_int 2, nm_data = take 4075 (replicate 5000 0x41)\<rparr>"
  by (rule notification_round_trip) (simp_all add: fits_def)

lemma route_refresh_round_trip:
  assumes "fits 16 afi" and "fits 8 safi" and "fits 8 subtype"
  shows "decode_route_refresh (encode_route_refresh afi safi subtype)
    = Some \<lparr>rr_afi = afi, rr_safi = word_of_int safi, rr_subtype = word_of_int subtype\<rparr>"
proof -
  have "encode_route_refresh afi safi subtype = message MSG_ROUTE_REFRESH (be16 afi @ be8 subtype @ be8 safi)"
    unfolding encode_route_refresh_def by (rule w_finish_header)
  then show ?thesis using assms(1)
    by (simp add: decode_route_refresh_def message_def MARKER_def be8_def nth_append)
qed

end
