(* ===== verification/LocRib.thy ===== *)
theory LocRib
  imports BestPath RouteTable
begin

text \<open>
  The BGP Loc-RIB (\<open>plugins/bgp/locrib.py\<close>): the table of one address family between the
  peers and the global RIB. Destinations and paths are objects: \<open>l_dest\<close> and \<open>l_path\<close> are
  their stores, with the number of objects made so far as the next free address, and \<open>l_attr\<close>
  names the attribute-set object a path holds in the shared store \<open>l_sets\<close>. Calls to the
  global RIB or the event bus are recorded in order in \<open>l_sent\<close>. The set of offered prefixes
  is kept as a list; the texts of the two errors that quote a prefix leave it out.
\<close>

section \<open>State\<close>

datatype rib_sink = To_core | To_events | To_nobody

datatype rib_call =
    Core_offer route int
  | Core_retract prefix int
  | Event_best prefix nat nat  \<comment> \<open>prefix, path, version\<close>
  | Event_withdraw prefix

type_synonym dest_index = "(prefix, nat) pydict"

record loc_rib =
  l_afi :: nat
  l_safi :: int
  l_config :: bestpath_config
  l_distance_ebgp :: int
  l_distance_ibgp :: int
  l_sink :: rib_sink
  l_dests :: dest_index
  l_by_peer :: "(nat, dest_index) pydict"
  l_nh_dests :: "(bytestr, dest_index) pydict"
  l_nh_state :: "(bytestr, bool \<times> u32) pydict"
  l_offered :: "prefix list"
  l_queue :: "nat list"
  l_qhead :: nat
  l_path_count :: int
  l_version :: nat
  l_selections :: nat
  l_offers :: nat
  l_retractions :: nat
  l_offer_errors :: nat
  l_local_unoffered :: nat
  l_dest :: "nat \<Rightarrow> bgp_dest"
  l_ndests :: nat
  l_path :: pheap
  l_npaths :: nat
  l_attr :: "nat \<Rightarrow> nat"
  l_table :: attr_table
  l_sets :: aheap
  l_sent :: "rib_call list"

definition new_loc_rib ::
  "nat \<Rightarrow> int \<Rightarrow> bestpath_config \<Rightarrow> int \<Rightarrow> int \<Rightarrow> rib_sink \<Rightarrow> attr_table \<Rightarrow> aheap \<Rightarrow> loc_rib" where
  "new_loc_rib afi safi cfg ebgp ibgp sink t h =
    \<lparr>l_afi = afi, l_safi = safi, l_config = cfg, l_distance_ebgp = ebgp, l_distance_ibgp = ibgp, l_sink = sink,
     l_dests = [], l_by_peer = [], l_nh_dests = [], l_nh_state = [], l_offered = [], l_queue = [], l_qhead = 0,
     l_path_count = 0, l_version = 0, l_selections = 0, l_offers = 0, l_retractions = 0, l_offer_errors = 0,
     l_local_unoffered = 0, l_dest = (\<lambda>_. new_bgp_dest \<lparr>pafi = afi, pbits = []\<rparr>), l_ndests = 0,
     l_path = (\<lambda>_. new_bgp_path attrs_blank None 0 0 0 0 0 True), l_npaths = 0, l_attr = (\<lambda>_. 0),
     l_table = t, l_sets = h, l_sent = []\<rparr>"

definition upd_dest :: "nat \<Rightarrow> (bgp_dest \<Rightarrow> bgp_dest) \<Rightarrow> loc_rib \<Rightarrow> loc_rib" where
  "upd_dest d g s = s\<lparr>l_dest := (l_dest s)(d := g (l_dest s d))\<rparr>"

definition live :: "loc_rib \<Rightarrow> nat \<Rightarrow> bool" where
  \<comment> \<open>\<open>self._dests.get(d.prefix) is d\<close>\<close>
  "live s d \<longleftrightarrow> dict_get (l_dests s) (d_prefix (l_dest s d)) = Some d"

definition path_nexthop :: "loc_rib \<Rightarrow> nat \<Rightarrow> bytestr" where
  "path_nexthop s p = a_nexthop (p_attrs (l_path s p))"

definition loc_intern :: "nat \<Rightarrow> loc_rib \<Rightarrow> nat \<times> loc_rib" where
  "loc_intern a s = (case intern a (l_table s, l_sets s) of (b, t, h) \<Rightarrow> (b, s\<lparr>l_table := t, l_sets := h\<rparr>))"

definition loc_release :: "nat \<Rightarrow> loc_rib \<Rightarrow> loc_rib" where
  \<comment> \<open>\<open>release(path.attrs)\<close>\<close>
  "loc_release p s = (case release (Some (l_attr s p)) (l_table s, l_sets s) of (_, t, h) \<Rightarrow> s\<lparr>l_table := t, l_sets := h\<rparr>)"

section \<open>The change queue and the indexes\<close>

definition loc_enqueue :: "nat \<Rightarrow> loc_rib \<Rightarrow> loc_rib" where
  "loc_enqueue d s =
    (if d_queued (l_dest s d) then s
     else (upd_dest d (\<lambda>x. x\<lparr>d_queued := True\<rparr>) s)\<lparr>l_queue := l_queue s @ [d]\<rparr>)"

definition loc_pending :: "loc_rib \<Rightarrow> nat" where
  "loc_pending s = length (l_queue s) - l_qhead s"

definition set_config :: "bestpath_config option \<Rightarrow> loc_rib \<Rightarrow> nat \<times> loc_rib" where
  "set_config cfg s =
    (case cfg of
      None \<Rightarrow> (0, s)
    | Some cfg \<Rightarrow>
        if cfg = l_config s then (0, s)
        else (length (l_dests s), fold (\<lambda>(_, d). loc_enqueue d) (l_dests s) (s\<lparr>l_config := cfg\<rparr>)))"

definition index_add :: "nat \<Rightarrow> nat \<Rightarrow> loc_rib \<Rightarrow> loc_rib" where
  "index_add peer d s =
    (let contributed = get_default (dict_get (l_by_peer s) peer) [] in
     s\<lparr>l_by_peer := dict_set peer (dict_set (d_prefix (l_dest s d)) d contributed) (l_by_peer s)\<rparr>)"

definition index_remove :: "nat \<Rightarrow> prefix \<Rightarrow> loc_rib \<Rightarrow> loc_rib" where
  "index_remove peer p s =
    (case dict_get (l_by_peer s) peer of
      None \<Rightarrow> s
    | Some contributed \<Rightarrow>
        (let contributed = dict_pop p contributed in
         s\<lparr>l_by_peer := if contributed = [] then dict_pop peer (l_by_peer s) else dict_set peer contributed (l_by_peer s)\<rparr>))"

definition peer_has :: "nat \<Rightarrow> nat \<Rightarrow> loc_rib \<Rightarrow> bool" where
  "peer_has peer d s \<longleftrightarrow> list_ex (\<lambda>p. pr_obj (p_peer (l_path s p)) = peer) (d_paths (l_dest s d))"

definition index_nexthop :: "bytestr \<Rightarrow> nat \<Rightarrow> bool \<Rightarrow> u32 \<Rightarrow> loc_rib \<Rightarrow> loc_rib" where
  "index_nexthop nh d resolved metric s =
    (if nh = [] then s
     else s\<lparr>l_nh_dests := dict_set nh (dict_set (d_prefix (l_dest s d)) d (get_default (dict_get (l_nh_dests s) nh) []))
              (l_nh_dests s),
            l_nh_state := dict_set nh (resolved, metric) (l_nh_state s)\<rparr>)"

definition store_nexthop :: "bytestr \<Rightarrow> dest_index \<Rightarrow> loc_rib \<Rightarrow> loc_rib" where
  \<comment> \<open>the dictionary of a next hop was edited in place; an empty one goes, and its answer with it\<close>
  "store_nexthop nh ds s =
    (if ds = [] then s\<lparr>l_nh_dests := dict_pop nh (l_nh_dests s), l_nh_state := dict_pop nh (l_nh_state s)\<rparr>
     else s\<lparr>l_nh_dests := dict_set nh ds (l_nh_dests s)\<rparr>)"

definition uses_nexthop :: "loc_rib \<Rightarrow> bytestr \<Rightarrow> nat \<Rightarrow> bool" where
  "uses_nexthop s nh d \<longleftrightarrow> list_ex (\<lambda>p. path_nexthop s p = nh) (d_paths (l_dest s d))"

definition unindex_nexthop :: "bytestr \<Rightarrow> nat \<Rightarrow> loc_rib \<Rightarrow> loc_rib" where
  "unindex_nexthop nh d s =
    (if nh = [] then s
     else case dict_get (l_nh_dests s) nh of
       None \<Rightarrow> s
     | Some ds \<Rightarrow>
         if dict_get ds (d_prefix (l_dest s d)) \<noteq> Some d then s
         else if live s d \<and> uses_nexthop s nh d then s
         else store_nexthop nh (dict_pop (d_prefix (l_dest s d)) ds) s)"

definition nexthop_index_size :: "loc_rib \<Rightarrow> nat \<times> nat" where
  "nexthop_index_size s = (length (l_nh_dests s), (\<Sum>(_, ds)\<leftarrow>l_nh_dests s. length ds))"

section \<open>The peer-facing operations\<close>

definition loc_get :: "prefix \<Rightarrow> loc_rib \<Rightarrow> nat option" where
  "loc_get p s = dict_get (l_dests s) p"

definition paths_for :: "prefix \<Rightarrow> loc_rib \<Rightarrow> nat list" where
  "paths_for p s = (case dict_get (l_dests s) p of None \<Rightarrow> [] | Some d \<Rightarrow> d_paths (l_dest s d))"

definition loc_dest :: "prefix option \<Rightarrow> loc_rib \<Rightarrow> (nat \<times> loc_rib) result" where
  "loc_dest p s =
    (case p of
      None \<Rightarrow> Inl (ValueError ''a prefix is required'')
    | Some p \<Rightarrow>
        if pafi p \<noteq> l_afi s then Inl (ValueError ''the prefix is of another address family'')
        else case dict_get (l_dests s) p of
          Some d \<Rightarrow> Inr (d, s)
        | None \<Rightarrow> Inr (l_ndests s, s\<lparr>l_dest := (l_dest s)(l_ndests s := new_bgp_dest p), l_ndests := l_ndests s + 1,
            l_dests := dict_set p (l_ndests s) (l_dests s)\<rparr>))"

definition held_time :: "loc_rib \<Rightarrow> nat \<Rightarrow> nat \<Rightarrow> u32 \<Rightarrow> time \<Rightarrow> time" where
  "held_time s d peer path_id now =
    (case find (is_path (l_path s) peer path_id) (d_paths (l_dest s d)) of
      None \<Rightarrow> now | Some held \<Rightarrow> p_recv_time (l_path s held))"

definition new_path :: "nat \<Rightarrow> bgp_path \<Rightarrow> loc_rib \<Rightarrow> nat \<times> loc_rib" where
  "new_path a x s = (l_npaths s, s\<lparr>l_path := (l_path s)(l_npaths s := x), l_attr := (l_attr s)(l_npaths s := a),
    l_npaths := l_npaths s + 1\<rparr>)"

text \<open>\<open>recv_time\<close> is the given time, or the clock's where none is given.\<close>

definition add_path ::
  "peer_ref option \<Rightarrow> prefix option \<Rightarrow> nat option \<Rightarrow> u32 \<Rightarrow> u32 \<Rightarrow> byte \<Rightarrow> u32 \<Rightarrow> time \<Rightarrow> bool \<Rightarrow> bool
    \<Rightarrow> loc_rib \<Rightarrow> loc_rib result" where
  "add_path peer p attrs path_id weight source igp_metric recv_time resolved keep_age s =
    (case peer of None \<Rightarrow> Inl (ValueError ''a path needs the PeerRef it arrived through'')
     | Some peer \<Rightarrow>
    (case attrs of None \<Rightarrow> Inl (ValueError ''a path needs an attribute set'')
     | Some attrs \<Rightarrow>
     bind_res (loc_dest p s) (\<lambda>(d, s).
       let recv_time = (if keep_age then held_time s d (pr_obj peer) path_id recv_time else recv_time);
           (interned, s) = loc_intern attrs s;
           aset = l_sets s interned;
           (path, s) = new_path interned
             (new_bgp_path aset (Some peer) path_id weight source igp_metric recv_time resolved) s;
           (replaced, x) = dest_add (l_path s) path (l_dest s d);
           s = upd_dest d (\<lambda>_. x) s;
           s = (case replaced of
                  None \<Rightarrow> s\<lparr>l_path_count := l_path_count s + 1\<rparr>
                | Some old \<Rightarrow>
                    (let s = loc_release old s in
                     if path_nexthop s old \<noteq> a_nexthop aset then unindex_nexthop (path_nexthop s old) d s else s));
           s = index_add (pr_obj peer) d s;
           s = index_nexthop (a_nexthop aset) d resolved igp_metric s
       in Inr (loc_enqueue d s))))"

definition remove_path :: "peer_ref option \<Rightarrow> prefix option \<Rightarrow> u32 \<Rightarrow> loc_rib \<Rightarrow> bool \<times> loc_rib" where
  "remove_path peer p path_id s =
    (case (peer, p) of
      (Some peer, Some p) \<Rightarrow>
        (case dict_get (l_dests s) p of
          None \<Rightarrow> (False, s)
        | Some d \<Rightarrow>
          (case dest_remove (l_path s) (pr_obj peer) path_id (l_dest s d) of
            (None, _) \<Rightarrow> (False, s)
          | (Some path, x) \<Rightarrow>
              (let s = upd_dest d (\<lambda>_. x) s;
                   s = loc_release path (s\<lparr>l_path_count := l_path_count s - 1\<rparr>);
                   s = (if peer_has (pr_obj peer) d s then s else index_remove (pr_obj peer) p s);
                   s = loc_enqueue d s;
                   s = (if d_paths (l_dest s d) = [] then s\<lparr>l_dests := dict_pop p (l_dests s)\<rparr> else s)
               in (True, unindex_nexthop (path_nexthop s path) d s))))
    | _ \<Rightarrow> (False, s))"

text \<open>What one destination loses when a peer goes.\<close>

definition remove_peer_dest :: "nat \<Rightarrow> prefix \<Rightarrow> nat \<Rightarrow> loc_rib \<Rightarrow> nat \<times> loc_rib" where
  "remove_peer_dest peer p d s =
    (let mine = filter (\<lambda>q. pr_obj (p_peer (l_path s q)) = peer) (d_paths (l_dest s d));
         s = fold loc_release mine s;
         (gone, x) = dest_remove_peer (l_path s) peer (l_dest s d);
         s = upd_dest d (\<lambda>_. x) s
     in if gone = 0 then (0, s)
        else let s = loc_enqueue d (s\<lparr>l_path_count := l_path_count s - int gone\<rparr>);
                 s = (if d_paths (l_dest s d) = [] \<and> dict_get (l_dests s) p = Some d
                      then s\<lparr>l_dests := dict_pop p (l_dests s)\<rparr> else s)
             in (gone, fold (\<lambda>q s. unindex_nexthop (path_nexthop s q) d s) mine s))"

definition remove_peer :: "peer_ref option \<Rightarrow> loc_rib \<Rightarrow> nat \<times> loc_rib" where
  "remove_peer peer s =
    (case peer of
      None \<Rightarrow> (0, s)
    | Some peer \<Rightarrow>
        (case dict_get (l_by_peer s) (pr_obj peer) of
          None \<Rightarrow> (0, s)
        | Some contributed \<Rightarrow>
            fold (\<lambda>(p, d) (n, s). case remove_peer_dest (pr_obj peer) p d s of (k, s) \<Rightarrow> (n + k, s))
              contributed (0, s\<lparr>l_by_peer := dict_pop (pr_obj peer) (l_by_peer s)\<rparr>)))"

section \<open>Next-hop tracking\<close>

definition prune_nexthop :: "bytestr \<Rightarrow> loc_rib \<Rightarrow> loc_rib" where
  "prune_nexthop nh s =
    store_nexthop nh
      (filter (\<lambda>(p, d). dict_get (l_dests s) p = Some d \<and> uses_nexthop s nh d)
        (get_default (dict_get (l_nh_dests s) nh) [])) s"

definition stale_answer :: "loc_rib \<Rightarrow> bytestr \<Rightarrow> bool \<times> u32 \<Rightarrow> nat \<Rightarrow> bool" where
  "stale_answer s nh answer q \<longleftrightarrow>
    path_nexthop s q = nh \<and> (p_resolved (l_path s q) \<noteq> fst answer \<or> p_igp_metric (l_path s q) \<noteq> snd answer)"

text \<open>A path whose answer has not changed is stored with the answer it has.\<close>

definition answer_dest :: "bytestr \<Rightarrow> bool \<times> u32 \<Rightarrow> nat \<Rightarrow> nat \<times> loc_rib \<Rightarrow> nat \<times> loc_rib" where
  "answer_dest nh answer d ns =
    (case ns of (n, s) \<Rightarrow>
      let touched = filter (stale_answer s nh answer) (d_paths (l_dest s d));
          s' = s\<lparr>l_path := fold (\<lambda>q h. h(q := (h q)\<lparr>p_resolved := fst answer, p_igp_metric := snd answer\<rparr>)) touched (l_path s)\<rparr>
      in if touched = [] then (n, s) else (n + 1, loc_enqueue d s'))"

definition revalidate_one :: "(nat \<Rightarrow> bytestr \<Rightarrow> bool \<times> u32) \<Rightarrow> bytestr \<Rightarrow> nat \<times> loc_rib \<Rightarrow> nat \<times> loc_rib" where
  "revalidate_one check nh ns =
    (case ns of (n, s) \<Rightarrow>
      let answer = check (l_afi s) nh in
      if dict_get (l_nh_state s) nh = Some answer then (n, prune_nexthop nh s)
      else let s = s\<lparr>l_nh_state := dict_set nh answer (l_nh_state s)\<rparr>;
               gone = (\<lambda>(p, d). dict_get (l_dests s) p \<noteq> Some d);
               ds = get_default (dict_get (l_nh_dests s) nh) [];
               s = s\<lparr>l_nh_dests := dict_set nh (filter (\<lambda>x. \<not> gone x) ds) (l_nh_dests s)\<rparr>;
               (n, s) = fold (\<lambda>(p, d). answer_dest nh answer d) (filter (\<lambda>x. \<not> gone x) ds) (n, s)
           in (n, prune_nexthop nh s))"

definition revalidate :: "(nat \<Rightarrow> bytestr \<Rightarrow> bool \<times> u32) \<Rightarrow> loc_rib \<Rightarrow> nat \<times> loc_rib" where
  "revalidate check s = fold (revalidate_one check) (map fst (l_nh_dests s)) (0, s)"

section \<open>Publication\<close>

definition loc_retract :: "prefix \<Rightarrow> loc_rib \<Rightarrow> bool \<times> loc_rib" where
  "loc_retract p s =
    (if p \<notin> set (l_offered s) then (False, s)
     else (True, s\<lparr>l_offered := removeAll p (l_offered s), l_retractions := l_retractions s + 1,
       l_sent := l_sent s @ (case l_sink s of To_core \<Rightarrow> [Core_retract p (l_safi s)]
                             | To_events \<Rightarrow> [Event_withdraw p] | To_nobody \<Rightarrow> [])\<rparr>))"

definition LOC_SOURCE :: nat where
  \<comment> \<open>the table itself, the source of its routes\<close>
  "LOC_SOURCE = 0"

definition route_of :: "loc_rib \<Rightarrow> prefix \<Rightarrow> nat \<Rightarrow> route result" where
  "route_of s p w =
    (let x = l_path s w; a = p_attrs x in
     new_route p PROTO_BGP (if pr_is_ebgp (p_peer x) then l_distance_ebgp s else l_distance_ibgp s)
       (if has_med a then uint (a_med a) else 0) (a_nexthop a) LOC_SOURCE
       (if p_recv_time x > 0 then p_recv_time x else -1) w)"

text \<open>A distance that is no octet raises \<open>OverflowError\<close>, which is not caught; the configuration
  refuses one, and the model counts it with the routes that cannot be built.\<close>

definition loc_offer :: "nat \<Rightarrow> nat \<Rightarrow> loc_rib \<Rightarrow> bool \<times> loc_rib" where
  "loc_offer d w s =
    (let p = d_prefix (l_dest s d) in
     if p_source (l_path s w) \<noteq> PATH_SRC_PEER
     then (False, snd (loc_retract p (s\<lparr>l_local_unoffered := l_local_unoffered s + 1\<rparr>)))
     else case route_of s p w of
       Inl _ \<Rightarrow> (False, snd (loc_retract p (s\<lparr>l_offer_errors := l_offer_errors s + 1\<rparr>)))
     | Inr r \<Rightarrow>
         (True, s\<lparr>l_offered := (if p \<in> set (l_offered s) then l_offered s else l_offered s @ [p]), l_offers := l_offers s + 1,
           l_sent := l_sent s @ (case l_sink s of To_core \<Rightarrow> [Core_offer r (l_safi s)]
                                 | To_events \<Rightarrow> [Event_best p w (l_version s)] | To_nobody \<Rightarrow> [])\<rparr>))"

section \<open>Selection\<close>

text \<open>One turn of the loop: the destination at the head of the queue is taken out and selected,
  a winner that changed is published, and an emptied destination goes.\<close>

definition loc_selected :: "loc_rib \<Rightarrow> loc_rib" where
  "loc_selected s =
    (let d = l_queue s ! l_qhead s;
         (res, x, h) = dest_reselect (l_config s) ((l_dest s d)\<lparr>d_queued := False\<rparr>) (l_path s)
     in s\<lparr>l_qhead := l_qhead s + 1, l_dest := (l_dest s)(d := x), l_path := h, l_selections := l_selections s + 1\<rparr>)"

definition loc_publish :: "nat \<Rightarrow> nat option \<Rightarrow> nat option \<Rightarrow> loc_rib \<Rightarrow> loc_rib" where
  "loc_publish d previous winner s =
    (if winner = previous then s
     else let s = s\<lparr>l_version := l_version s + 1\<rparr> in
       case winner of
         None \<Rightarrow> snd (loc_retract (d_prefix (l_dest s d)) s)
       | Some w \<Rightarrow> if \<not> p_resolved (l_path s w) then snd (loc_retract (d_prefix (l_dest s d)) s) else snd (loc_offer d w s))"

definition loc_drop_empty :: "nat \<Rightarrow> loc_rib \<Rightarrow> loc_rib" where
  "loc_drop_empty d s =
    (if d_best (l_dest s d) = None \<and> d_paths (l_dest s d) = [] \<and> live s d
     then s\<lparr>l_dests := dict_pop (d_prefix (l_dest s d)) (l_dests s)\<rparr> else s)"

definition loc_select_one :: "loc_rib \<Rightarrow> loc_rib \<times> nat list" where
  "loc_select_one s =
    (let d = l_queue s ! l_qhead s; s1 = loc_selected s; previous = d_best (l_dest s d); winner = d_best (l_dest s1 d) in
     (loc_drop_empty d (loc_publish d previous winner s1), if winner \<noteq> previous then [d] else []))"

lemma loc_qhead_simps [simp]:
  "l_qhead (snd (loc_retract p s)) = l_qhead s" "l_qhead (snd (loc_offer d v s)) = l_qhead s"
  "l_qhead (loc_publish d u w s) = l_qhead s" "l_qhead (loc_drop_empty d s) = l_qhead s" "l_qhead (loc_selected s) = l_qhead s + 1"
  by (simp_all add: loc_retract_def loc_offer_def loc_publish_def loc_drop_empty_def loc_selected_def Let_def
      split: sum.split option.split prod.split)

lemma loc_select_one_qhead [simp]: "l_qhead (fst (loc_select_one s)) = l_qhead s + 1"
  by (simp add: loc_select_one_def Let_def)

function loc_loop :: "int \<Rightarrow> nat \<Rightarrow> int \<Rightarrow> loc_rib \<Rightarrow> nat list \<Rightarrow> loc_rib \<times> nat list" where
  "loc_loop limit n done s changed =
    (if l_qhead s < n \<and> (limit \<le> 0 \<or> done < limit)
     then loc_loop limit n (done + 1) (fst (loc_select_one s)) (changed @ snd (loc_select_one s))
     else (s, changed))"
  by pat_completeness auto
termination
  by (relation "measure (\<lambda>(limit, n, done, s, changed). n - l_qhead s)") auto

declare loc_loop.simps [simp del]

definition loc_compact :: "loc_rib \<Rightarrow> loc_rib" where
  "loc_compact s =
    (if l_qhead s \<ge> length (l_queue s) then s\<lparr>l_queue := [], l_qhead := 0\<rparr>
     else if l_qhead s > 1024 then s\<lparr>l_queue := drop (l_qhead s) (l_queue s), l_qhead := 0\<rparr>
     else s)"

definition loc_reselect :: "int \<Rightarrow> loc_rib \<Rightarrow> nat list \<times> loc_rib" where
  "loc_reselect limit s =
    (case loc_loop limit (length (l_queue s)) 0 s [] of (s', changed) \<Rightarrow> (changed, loc_compact s'))"

definition loc_select_step :: "int \<Rightarrow> loc_rib \<Rightarrow> nat \<times> loc_rib" where
  "loc_select_step chunk s =
    (let before = loc_pending s in
     if before = 0 then (0, s)
     else let s' = snd (loc_reselect chunk s) in (before - loc_pending s', s'))"

section \<open>Shutdown and views\<close>

definition loc_clear :: "loc_rib \<Rightarrow> nat \<times> loc_rib" where
  "loc_clear s =
    (let paths = concat (map (\<lambda>(_, d). d_paths (l_dest s d)) (l_dests s));
         s = fold loc_release paths s;
         s = fold (\<lambda>(_, d). upd_dest d (\<lambda>x. x\<lparr>d_queued := False\<rparr>)) (l_dests s) s;
         s = fold (\<lambda>p s. snd (loc_retract p s)) (l_offered s) s
     in (length paths, s\<lparr>l_dests := [], l_by_peer := [], l_nh_dests := [], l_nh_state := [], l_offered := [],
       l_queue := [], l_qhead := 0, l_path_count := 0\<rparr>))"

definition loc_degraded :: "loc_rib \<Rightarrow> bool" where
  "loc_degraded s \<longleftrightarrow> l_offer_errors s \<noteq> 0"

end
