(* ===== verification/LocRibProps.thy ===== *)
theory LocRibProps
  imports LocRib AttrTable BestPathResults
begin

text \<open>
  The Loc-RIB publishes winners: whatever peers announce and withdraw, sessions that go,
  next hops that change, reconfiguration and selection in slices of any size, once nothing
  waits the core holds for every prefix the route of the path that the decision process
  chooses, and nothing else.
\<close>

section \<open>What the core was told\<close>

definition core_call :: "rib_call \<Rightarrow> (prefix \<rightharpoonup> route) \<Rightarrow> (prefix \<rightharpoonup> route)" where
  "core_call c m =
    (case c of Core_offer r _ \<Rightarrow> m(rprefix r \<mapsto> r) | Core_retract p _ \<Rightarrow> m(p := None) | _ \<Rightarrow> m)"

definition core_view :: "loc_rib \<Rightarrow> prefix \<rightharpoonup> route" where
  "core_view s = fold core_call (l_sent s) Map.empty"

text \<open>The route a winning path becomes, if it may become one.\<close>

definition forwards :: "loc_rib \<Rightarrow> prefix \<Rightarrow> nat \<Rightarrow> route option" where
  "forwards s p w =
    (if p_source (l_path s w) \<noteq> PATH_SRC_PEER then None
     else case route_of s p w of Inl _ \<Rightarrow> None | Inr r \<Rightarrow> Some r)"

definition pending_of :: "loc_rib \<Rightarrow> nat list" where
  "pending_of s = drop (l_qhead s) (l_queue s)"

definition known :: "loc_rib \<Rightarrow> nat \<Rightarrow> bool" where
  "known s d \<longleftrightarrow> live s d \<or> d \<in> set (pending_of s)"

definition precedes :: "'a \<Rightarrow> 'a \<Rightarrow> 'a list \<Rightarrow> bool" where
  "precedes d e xs \<longleftrightarrow> (\<exists>ys zs. xs = ys @ d # zs \<and> e \<in> set zs)"

abbreviation paths_of :: "loc_rib \<Rightarrow> nat \<Rightarrow> nat list" where
  "paths_of s d \<equiv> d_paths (l_dest s d)"

abbreviation best_of :: "loc_rib \<Rightarrow> nat \<Rightarrow> nat option" where
  "best_of s d \<equiv> d_best (l_dest s d)"

abbreviation prefix_of :: "loc_rib \<Rightarrow> nat \<Rightarrow> prefix" where
  "prefix_of s d \<equiv> d_prefix (l_dest s d)"

text \<open>The destinations in \<open>X\<close> have changed and may not be waiting for selection yet.\<close>

definition tidy :: "nat set \<Rightarrow> loc_rib \<Rightarrow> nat \<Rightarrow> bool" where
  "tidy X s d \<longleftrightarrow> d < l_ndests s \<and> d_queued (l_dest s d) = (d \<in> set (pending_of s))
    \<and> (\<forall>q\<in>set (paths_of s d). q < l_npaths s) \<and> (\<forall>w. best_of s d = Some w \<longrightarrow> w < l_npaths s)
    \<and> (live s d \<or> paths_of s d = [])
    \<and> (live s d \<and> d \<notin> X \<and> d \<notin> set (pending_of s) \<longrightarrow> best_of s d = chosen (l_path s) (l_config s) (paths_of s d))"

definition apart :: "loc_rib \<Rightarrow> nat \<Rightarrow> nat \<Rightarrow> bool" where
  "apart s d e \<longleftrightarrow> set (paths_of s d) \<inter> set (paths_of s e) = {}
    \<and> (prefix_of s d = prefix_of s e \<longrightarrow> best_of s d = None \<or> best_of s e = None)"

definition in_turn :: "nat set \<Rightarrow> loc_rib \<Rightarrow> nat \<Rightarrow> nat \<Rightarrow> bool" where
  "in_turn X s d e \<longleftrightarrow> (best_of s d \<noteq> None \<and> prefix_of s e = prefix_of s d
    \<longrightarrow> precedes d e (pending_of s) \<or> e \<in> X \<and> e \<notin> set (pending_of s))"

definition told :: "loc_rib \<Rightarrow> prefix \<Rightarrow> route option \<Rightarrow> bool" where
  "told s p r \<longleftrightarrow> (p \<in> set (l_offered s) \<longleftrightarrow> r \<noteq> None) \<and> (l_sink s = To_core \<longrightarrow> core_view s p = r)"

definition loc_inv :: "nat set \<Rightarrow> loc_rib \<Rightarrow> bool" where
  "loc_inv X s \<longleftrightarrow>
    l_qhead s \<le> length (l_queue s) \<and> distinct (pending_of s) \<and> distinct (map fst (l_dests s))
    \<and> (\<forall>p d. dict_get (l_dests s) p = Some d \<longrightarrow> prefix_of s d = p)
    \<and> (\<forall>d. known s d \<longrightarrow> tidy X s d)
    \<and> (\<forall>d e. known s d \<longrightarrow> known s e \<longrightarrow> d \<noteq> e \<longrightarrow> apart s d e)
    \<and> (\<forall>d e. known s d \<longrightarrow> \<not> live s d \<longrightarrow> live s e \<longrightarrow> in_turn X s d e)
    \<and> (\<forall>p. (\<forall>d. known s d \<and> prefix_of s d = p \<longrightarrow> best_of s d = None) \<longrightarrow> told s p None)
    \<and> (\<forall>d w. known s d \<longrightarrow> best_of s d = Some w \<longrightarrow> told s (prefix_of s d) (forwards s (prefix_of s d) w))"

lemma loc_invI:
  assumes "l_qhead s \<le> length (l_queue s)" "distinct (pending_of s)" "distinct (map fst (l_dests s))"
    and "\<And>p d. dict_get (l_dests s) p = Some d \<Longrightarrow> prefix_of s d = p"
    and "\<And>d. known s d \<Longrightarrow> tidy X s d" and "\<And>d e. known s d \<Longrightarrow> known s e \<Longrightarrow> d \<noteq> e \<Longrightarrow> apart s d e"
    and "\<And>d e. known s d \<Longrightarrow> \<not> live s d \<Longrightarrow> live s e \<Longrightarrow> in_turn X s d e"
    and "\<And>p. (\<And>d. known s d \<Longrightarrow> prefix_of s d = p \<Longrightarrow> best_of s d = None) \<Longrightarrow> told s p None"
    and "\<And>d w. known s d \<Longrightarrow> best_of s d = Some w \<Longrightarrow> told s (prefix_of s d) (forwards s (prefix_of s d) w)"
  shows "loc_inv X s"
  unfolding loc_inv_def using assms by simp

lemma loc_invD:
  assumes "loc_inv X s"
  shows "l_qhead s \<le> length (l_queue s)" "distinct (pending_of s)" "distinct (map fst (l_dests s))"
    "dict_get (l_dests s) p = Some d \<Longrightarrow> prefix_of s d = p"
    "known s d \<Longrightarrow> tidy X s d" "known s d \<Longrightarrow> known s e \<Longrightarrow> d \<noteq> e \<Longrightarrow> apart s d e"
    "known s d \<Longrightarrow> \<not> live s d \<Longrightarrow> live s e \<Longrightarrow> in_turn X s d e"
    "(\<And>d. known s d \<Longrightarrow> prefix_of s d = p \<Longrightarrow> best_of s d = None) \<Longrightarrow> told s p None"
    "known s d \<Longrightarrow> best_of s d = Some w \<Longrightarrow> told s (prefix_of s d) (forwards s (prefix_of s d) w)"
  using assms unfolding loc_inv_def by simp_all

lemma tidyD:
  assumes "loc_inv X s" and "known s d"
  shows "d < l_ndests s" "d_queued (l_dest s d) = (d \<in> set (pending_of s))" "q \<in> set (paths_of s d) \<Longrightarrow> q < l_npaths s"
    "best_of s d = Some w \<Longrightarrow> w < l_npaths s" "\<not> live s d \<Longrightarrow> paths_of s d = []"
  using loc_invD(5) [OF assms] by (auto simp: tidy_def)

lemma apartD:
  assumes "loc_inv X s" and "known s d" and "known s e" and "d \<noteq> e"
  shows "set (paths_of s d) \<inter> set (paths_of s e) = {}"
    "prefix_of s d = prefix_of s e \<Longrightarrow> best_of s d = None \<or> best_of s e = None"
  using loc_invD(6) [OF assms] by (auto simp: apart_def)

lemma liveI: "loc_inv X s \<Longrightarrow> dict_get (l_dests s) p = Some d \<Longrightarrow> live s d"
  by (simp add: live_def loc_invD(4))

lemma live_known: "live s d \<Longrightarrow> known s d"
  by (simp add: known_def)

lemma loc_inv_mono:
  assumes "loc_inv X s" and "X \<subseteq> Y"
  shows "loc_inv Y s"
proof -
  have "tidy X s d \<Longrightarrow> tidy Y s d" "in_turn X s d e \<Longrightarrow> in_turn Y s d e" for d e
    using assms(2) by (auto simp: tidy_def in_turn_def)
  then show ?thesis using assms(1) unfolding loc_inv_def by simp
qed

section \<open>Steps that do not concern publication\<close>

text \<open>The fields publication depends on.\<close>

definition same_table :: "loc_rib \<Rightarrow> loc_rib \<Rightarrow> bool" where
  "same_table s s' \<longleftrightarrow> l_dests s' = l_dests s \<and> l_dest s' = l_dest s \<and> l_ndests s' = l_ndests s \<and> l_path s' = l_path s
    \<and> l_npaths s' = l_npaths s \<and> l_config s' = l_config s \<and> l_offered s' = l_offered s \<and> l_queue s' = l_queue s
    \<and> l_qhead s' = l_qhead s \<and> l_sent s' = l_sent s \<and> l_sink s' = l_sink s \<and> l_safi s' = l_safi s \<and> l_afi s' = l_afi s
    \<and> l_distance_ebgp s' = l_distance_ebgp s \<and> l_distance_ibgp s' = l_distance_ibgp s"

lemma same_tableD:
  assumes "same_table s s'"
  shows "loc_inv X s' \<longleftrightarrow> loc_inv X s" "live s' = live s" "known s' = known s" "pending_of s' = pending_of s" "forwards s' = forwards s"
    "core_view s' = core_view s"
proof -
  have eqs: "l_dest s' = l_dest s" "l_ndests s' = l_ndests s" "l_path s' = l_path s" "l_npaths s' = l_npaths s"
    "l_config s' = l_config s" "l_offered s' = l_offered s" "l_sink s' = l_sink s"
    using assms by (simp_all add: same_table_def)
  have l: "live s' = live s" using assms by (auto simp: live_def same_table_def)
  have p: "pending_of s' = pending_of s" using assms by (simp add: pending_of_def same_table_def)
  have k: "known s' = known s" by (simp add: known_def l p fun_eq_iff)
  have f: "forwards s' = forwards s" using assms by (auto simp: forwards_def route_of_def same_table_def fun_eq_iff Let_def)
  have c: "core_view s' = core_view s" using assms by (simp add: core_view_def same_table_def)
  show "live s' = live s" "known s' = known s" "pending_of s' = pending_of s" "forwards s' = forwards s" "core_view s' = core_view s"
    by (fact l p k f c)+
  have t: "tidy X s' = tidy X s" "apart s' = apart s" "in_turn X s' = in_turn X s" "told s' = told s"
    using eqs by (intro ext; simp add: tidy_def apart_def in_turn_def told_def l p c)+
  show "loc_inv X s' \<longleftrightarrow> loc_inv X s"
    using assms unfolding loc_inv_def l p k f t by (simp add: same_table_def)
qed

lemma same_table_refl [simp]: "same_table s s"
  by (simp add: same_table_def)

lemma same_table_trans: "same_table s s' \<Longrightarrow> same_table s' s'' \<Longrightarrow> same_table s s''"
  by (simp add: same_table_def)

lemma same_table_steps [simp]:
  "same_table s (loc_release q s)" "same_table s (snd (loc_intern a s))" "same_table s (index_add peer d s)"
  "same_table s (index_remove peer p s)" "same_table s (index_nexthop nh d r m s)" "same_table s (store_nexthop nh ds s)"
  "same_table s (unindex_nexthop nh d s)" "same_table s (prune_nexthop nh s)" "same_table s (s\<lparr>l_path_count := n\<rparr>)"
  "same_table s (s\<lparr>l_by_peer := b\<rparr>)" "same_table s (s\<lparr>l_nh_dests := i\<rparr>)" "same_table s (s\<lparr>l_nh_state := j\<rparr>)"
  by (auto simp: same_table_def loc_release_def loc_intern_def index_add_def index_remove_def index_nexthop_def store_nexthop_def
      unindex_nexthop_def prune_nexthop_def Let_def split: prod.split option.split)

lemma same_table_fold: "(\<And>x s. same_table s (f x s)) \<Longrightarrow> same_table s (fold f xs s)"
  by (induction xs arbitrary: s) (auto intro: same_table_trans)

section \<open>Selection depends on the paths alone\<close>

lemma scan_best_ext:
  "(\<And>x y. x \<in> insert b (set ps) \<Longrightarrow> y \<in> insert b (set ps) \<Longrightarrow> cmp x y = cmp' x y) \<Longrightarrow> scan_best cmp b ps = scan_best cmp' b ps"
proof (induction ps arbitrary: b)
  case (Cons p ps)
  have "cmp b p = cmp' b p" using Cons.prems by simp
  moreover have "scan_best cmp c ps = scan_best cmp' c ps" if "c = b \<or> c = p" for c
    using that Cons.prems by (intro Cons.IH) auto
  ultimately show ?case by simp
qed simp

lemma scan_list_cong:
  "(\<And>x y. x \<in> set ps \<Longrightarrow> y \<in> set ps \<Longrightarrow> cmp x y = cmp' x y) \<Longrightarrow> ps \<noteq> [] \<Longrightarrow> scan_list cmp ps = scan_list cmp' ps"
  unfolding scan_list_def by (rule scan_best_ext) (cases ps; auto)

lemma chosen_cong:
  assumes "\<And>q. q \<in> set ps \<Longrightarrow> h q = h' q"
  shows "chosen h cfg ps = chosen h' cfg ps"
proof -
  define es where "es = eligible_of h' ps"
  have e: "eligible_of h ps = es" using assms by (simp add: es_def eligible_of_def cong: filter_cong)
  have in_es: "q \<in> set es \<Longrightarrow> h q = h' q" for q using assms by (auto simp: es_def eligible_of_def)
  have scan: "scan_list (cmp_at h cfg) qs = scan_list (cmp_at h' cfg) qs" if "qs \<noteq> []" "set qs \<subseteq> set es" for qs
  proof (rule scan_list_cong [OF _ that(1)])
    fix x y assume "x \<in> set qs" "y \<in> set qs"
    then have "h x = h' x" "h y = h' y" using in_es that(2) by blast+
    then show "cmp_at h cfg x y = cmp_at h' cfg x y" by (simp add: cmp_at_def)
  qed
  have g: "group_of h k es = group_of h' k es" for k using in_es by (simp add: group_of_def cong: filter_cong)
  have k: "group_keys h es = group_keys h' es" using in_es by (simp add: group_keys_def cong: image_cong)
  have member: "group_of h' k es \<noteq> []" "set (group_of h' k es) \<subseteq> set es" if "k \<in> set (group_keys h' es)" for k
    using that by (auto simp: group_keys_def group_of_def filter_empty_conv)
  have w: "winners_of h cfg es = winners_of h' cfg es"
    using scan member by (simp add: winners_of_def med_group_winners_eq g k)
  have "winners_of h' cfg es \<noteq> [] \<and> set (winners_of h' cfg es) \<subseteq> set es" if "es \<noteq> []"
  proof (cases "c_deterministic_med cfg")
    case True
    have "group_keys h' es \<noteq> []" using that by (simp add: group_keys_def)
    then show ?thesis using True scan_list_in [OF member(1)] member(2)
      by (auto simp: winners_of_def med_group_winners_eq)
  qed (simp add: winners_of_def that)
  then show ?thesis
    using scan by (simp add: chosen_def e es_def [symmetric] w)
qed

section \<open>Single changes to the table\<close>

lemma upd_dest_simps [simp]:
  "l_dest (upd_dest d g s) = (l_dest s)(d := g (l_dest s d))"
  "l_dests (upd_dest d g s) = l_dests s" "l_ndests (upd_dest d g s) = l_ndests s" "l_path (upd_dest d g s) = l_path s"
  "l_npaths (upd_dest d g s) = l_npaths s" "l_config (upd_dest d g s) = l_config s" "l_offered (upd_dest d g s) = l_offered s"
  "l_queue (upd_dest d g s) = l_queue s" "l_qhead (upd_dest d g s) = l_qhead s" "l_sent (upd_dest d g s) = l_sent s" "l_sink (upd_dest d g s) = l_sink s"
  "l_distance_ebgp (upd_dest d g s) = l_distance_ebgp s" "l_distance_ibgp (upd_dest d g s) = l_distance_ibgp s"
  by (simp_all add: upd_dest_def)

lemma told_cong:
  "l_offered s' = l_offered s \<Longrightarrow> l_sent s' = l_sent s \<Longrightarrow> l_sink s' = l_sink s \<Longrightarrow> told s' = told s"
  by (simp add: told_def core_view_def fun_eq_iff)

lemma forwards_cong:
  assumes "p_source (l_path s' w) = p_source (l_path s w)" "p_peer (l_path s' w) = p_peer (l_path s w)"
    "p_attrs (l_path s' w) = p_attrs (l_path s w)" "p_recv_time (l_path s' w) = p_recv_time (l_path s w)"
    and "l_distance_ebgp s' = l_distance_ebgp s" "l_distance_ibgp s' = l_distance_ibgp s"
  shows "forwards s' p w = forwards s p w"
  using assms by (simp add: forwards_def route_of_def Let_def)

lemma precedes_snoc: "d \<in> set xs \<Longrightarrow> precedes d e (xs @ [e])"
  unfolding precedes_def by (metis append.assoc append_Cons in_set_conv_decomp list.set_intros(1) set_append UnCI)

lemma precedes_append: "precedes d e xs \<Longrightarrow> precedes d e (xs @ ys)"
  unfolding precedes_def by (metis Un_iff append.assoc append_Cons set_append)

lemma pending_live: "loc_inv X s \<Longrightarrow> known s d \<Longrightarrow> \<not> live s d \<Longrightarrow> d \<in> set (pending_of s)"
  by (simp add: known_def)

lemma loc_enqueue_inv:
  assumes inv: "loc_inv X s" and d: "live s d"
  shows "loc_inv (X - {d}) (loc_enqueue d s)"
proof (cases "d_queued (l_dest s d)")
  case True
  note I = loc_invD [OF inv]
  have p: "d \<in> set (pending_of s)" using True I(5) [OF live_known [OF d]] by (simp add: tidy_def)
  have "tidy (X - {d}) s e" if "known s e" for e using I(5) [OF that] p by (auto simp: tidy_def)
  moreover have "in_turn (X - {d}) s e f" if "known s e" "\<not> live s e" "live s f" for e f
    using I(7) [OF that] p by (auto simp: in_turn_def)
  ultimately have "loc_inv (X - {d}) s" using I by (intro loc_invI) blast+
  then show ?thesis using True by (simp add: loc_enqueue_def)
next
  case False
  note I = loc_invD [OF inv]
  define s' where "s' = (upd_dest d (\<lambda>x. x\<lparr>d_queued := True\<rparr>) s)\<lparr>l_queue := l_queue s @ [d]\<rparr>"
  have new: "d \<notin> set (pending_of s)" using False I(5) [OF live_known [OF d]] by (simp add: tidy_def)
  have pend: "pending_of s' = pending_of s @ [d]" using I(1) by (simp add: pending_of_def s'_def)
  have lv: "live s' = live s" by (auto simp: live_def s'_def fun_eq_iff)
  have kn: "known s' = known s" using d by (auto simp: known_def lv pend fun_eq_iff)
  have f: "forwards s' = forwards s" by (intro ext forwards_cong) (simp_all add: s'_def)
  have t: "told s' = told s" by (rule told_cong) (simp_all add: s'_def)
  have fields: "prefix_of s' e = prefix_of s e" "paths_of s' e = paths_of s e" "best_of s' e = best_of s e" for e
    by (simp_all add: s'_def)
  have "loc_inv (X - {d}) s'"
  proof (rule loc_invI)
    show "tidy (X - {d}) s' e" if "known s' e" for e
      using I(5) [of e] that new unfolding tidy_def kn lv pend fields by (auto simp: s'_def)
    show "in_turn (X - {d}) s' e g" if "known s' e" "\<not> live s' e" "live s' g" for e g
    proof (cases "g = d")
      case True
      have "e \<in> set (pending_of s)" using that(1,2) unfolding kn lv by (simp add: known_def)
      then show ?thesis using True by (simp add: in_turn_def pend precedes_snoc)
    next
      case g: False
      then show ?thesis using I(7) [of e g] that unfolding in_turn_def kn lv pend fields
        by (auto intro: precedes_append)
    qed
    show "l_qhead s' \<le> length (l_queue s')" using I(1) by (simp add: s'_def)
    show "apart s' e g" if "known s' e" "known s' g" "e \<noteq> g" for e g
      using I(6) [of e g] that unfolding apart_def kn fields by simp
    show "told s' p None" if "\<And>e. known s' e \<Longrightarrow> prefix_of s' e = p \<Longrightarrow> best_of s' e = None" for p
      using I(8) [of p] that unfolding kn fields t by simp
    show "distinct (pending_of s')" using I(2) new by (simp add: pend)
    show "distinct (map fst (l_dests s'))" using I(3) by (simp add: s'_def)
    show "prefix_of s' e = p" if "dict_get (l_dests s') p = Some e" for p e
      using I(4) [of p e] that unfolding fields by (simp add: s'_def)
    show "told s' (prefix_of s' e) (forwards s' (prefix_of s' e) w)" if "known s' e" "best_of s' e = Some w" for e w
      using I(9) [of e w] that unfolding fields kn f t by simp
  qed
  then show ?thesis using False by (simp add: loc_enqueue_def s'_def)
qed

text \<open>A change of paths, of their answers or of the configuration: only destinations in \<open>X\<close> may
  choose differently.\<close>

lemma paths_inv:
  assumes inv: "loc_inv X s"
    and same: "l_dests s' = l_dests s" "l_ndests s' = l_ndests s" "l_queue s' = l_queue s" "l_qhead s' = l_qhead s"
      "l_offered s' = l_offered s" "l_sent s' = l_sent s" "l_sink s' = l_sink s"
      "l_distance_ebgp s' = l_distance_ebgp s" "l_distance_ibgp s' = l_distance_ibgp s"
    and dest: "\<And>e. prefix_of s' e = prefix_of s e" "\<And>e. best_of s' e = best_of s e" "\<And>e. d_queued (l_dest s' e) = d_queued (l_dest s e)"
    and n: "l_npaths s \<le> l_npaths s'"
    and keep: "\<And>w. w < l_npaths s \<Longrightarrow> p_source (l_path s' w) = p_source (l_path s w) \<and> p_peer (l_path s' w) = p_peer (l_path s w)
      \<and> p_attrs (l_path s' w) = p_attrs (l_path s w) \<and> p_recv_time (l_path s' w) = p_recv_time (l_path s w)"
    and choice: "\<And>e. live s e \<Longrightarrow> e \<notin> X \<Longrightarrow>
      chosen (l_path s') (l_config s') (paths_of s' e) = chosen (l_path s) (l_config s) (paths_of s e)"
    and range: "\<And>e q. known s e \<Longrightarrow> q \<in> set (paths_of s' e) \<Longrightarrow> q < l_npaths s'"
    and dead: "\<And>e. known s e \<Longrightarrow> \<not> live s e \<Longrightarrow> paths_of s' e = []"
    and sep: "\<And>e f. known s e \<Longrightarrow> known s f \<Longrightarrow> e \<noteq> f \<Longrightarrow> set (paths_of s' e) \<inter> set (paths_of s' f) = {}"
  shows "loc_inv X s'"
proof -
  note I = loc_invD [OF inv]
  have pend: "pending_of s' = pending_of s" by (simp add: pending_of_def same)
  have lv: "live s' = live s" by (auto simp: live_def same dest)
  have kn: "known s' = known s" by (simp add: known_def lv pend fun_eq_iff)
  have t: "told s' = told s" by (rule told_cong) (simp_all add: same)
  have f: "forwards s' p w = forwards s p w" if "w < l_npaths s" for p w
    by (rule forwards_cong) (use keep [OF that] in \<open>simp_all add: same\<close>)
  show ?thesis
  proof (rule loc_invI)
    show "tidy X s' e" if "known s' e" for e
    proof -
      from that have k: "known s e" by (simp add: kn)
      show ?thesis
        using I(5) [OF k] range [OF k] dead [OF k] choice [of e] n
        unfolding tidy_def lv pend dest same(2) by (auto intro: less_le_trans)
    qed
    show "apart s' e g" if "known s' e" "known s' g" "e \<noteq> g" for e g
      using I(6) [of e g] sep [of e g] that unfolding kn apart_def dest by simp
    show "in_turn X s' e g" if "known s' e" "\<not> live s' e" "live s' g" for e g
      using I(7) [of e g] that unfolding in_turn_def kn lv pend dest by simp
    show "told s' p None" if "\<And>e. known s' e \<Longrightarrow> prefix_of s' e = p \<Longrightarrow> best_of s' e = None" for p
      using I(8) [of p] that unfolding kn dest t by simp
    show "told s' (prefix_of s' e) (forwards s' (prefix_of s' e) w)" if "known s' e" "best_of s' e = Some w" for e w
    proof -
      have "known s e" "best_of s e = Some w" using that by (simp_all add: kn dest)
      moreover from this have "w < l_npaths s" using I(5) [of e] by (simp add: tidy_def)
      ultimately show ?thesis using I(9) [of e w] unfolding dest t by (simp add: f)
    qed
    show "prefix_of s' e = p" if "dict_get (l_dests s') p = Some e" for p e
      using I(4) [of p e] that by (simp add: same dest)
  qed (use I(1-3) in \<open>simp_all add: same pend\<close>)
qed

lemma upd_paths_inv:
  assumes inv: "loc_inv X s" and d: "live s d" "d \<in> X"
    and ps: "\<And>q. q \<in> set ps \<Longrightarrow> q < l_npaths s" "\<And>e. known s e \<Longrightarrow> e \<noteq> d \<Longrightarrow> set ps \<inter> set (paths_of s e) = {}"
  shows "loc_inv X (upd_dest d (\<lambda>x. x\<lparr>d_paths := ps\<rparr>) s)"
proof -
  note I = loc_invD [OF inv]
  show ?thesis
  proof (rule paths_inv [OF inv])
    show "set (paths_of (upd_dest d (\<lambda>x. x\<lparr>d_paths := ps\<rparr>) s) e) \<inter> set (paths_of (upd_dest d (\<lambda>x. x\<lparr>d_paths := ps\<rparr>) s) f) = {}"
      if "known s e" "known s f" "e \<noteq> f" for e f
      using I(6) [OF that] ps(2) [of e] ps(2) [of f] that by (auto simp: apart_def)
    show "q < l_npaths (upd_dest d (\<lambda>x. x\<lparr>d_paths := ps\<rparr>) s)" if "known s e" "q \<in> set (paths_of (upd_dest d (\<lambda>x. x\<lparr>d_paths := ps\<rparr>) s) e)" for e q
      using ps(1) [of q] I(5) [OF that(1)] that(2) by (auto simp: tidy_def split: if_splits)
    show "paths_of (upd_dest d (\<lambda>x. x\<lparr>d_paths := ps\<rparr>) s) e = []" if "known s e" "\<not> live s e" for e
      using I(5) [OF that(1)] that(2) d(1) by (auto simp: tidy_def)
  qed (use d in \<open>auto simp: upd_dest_def\<close>)
qed

lemma new_path_inv:
  assumes inv: "loc_inv X s"
  shows "loc_inv X (snd (new_path a x s))"
proof -
  have "chosen ((l_path s)(l_npaths s := x)) cfg (paths_of s e) = chosen (l_path s) cfg (paths_of s e)" if "known s e" for e cfg
    by (rule chosen_cong) (use tidyD(3) [OF inv that] in auto)
  then show ?thesis
    using tidyD(3,5) [OF inv] apartD(1) [OF inv]
    by (intro paths_inv [OF inv]) (auto simp: new_path_def intro: less_SucI dest: live_known)
qed

lemma answers_inv:
  assumes inv: "loc_inv X s" and d: "live s d" "d \<in> X" and qs: "set qs \<subseteq> set (paths_of s d)"
  shows "loc_inv X (s\<lparr>l_path := fold (\<lambda>q h. h(q := (h q)\<lparr>p_resolved := r, p_igp_metric := m\<rparr>)) qs (l_path s)\<rparr>)"
proof -
  note I = loc_invD [OF inv]
  have eq: "fold (\<lambda>q h. h(q := (h q)\<lparr>p_resolved := r, p_igp_metric := m\<rparr>)) qs h w
      = (if w \<in> set qs then (h w)\<lparr>p_resolved := r, p_igp_metric := m\<rparr> else h w)" for h w
    by (induction qs arbitrary: h) auto
  have "chosen (fold (\<lambda>q h. h(q := (h q)\<lparr>p_resolved := r, p_igp_metric := m\<rparr>)) qs (l_path s)) cfg (paths_of s e)
      = chosen (l_path s) cfg (paths_of s e)" if "live s e" "e \<noteq> d" for e cfg
  proof (rule chosen_cong)
    fix q assume "q \<in> set (paths_of s e)"
    moreover have "apart s e d" using I(6) that d by (auto dest: live_known)
    ultimately show "fold (\<lambda>q h. h(q := (h q)\<lparr>p_resolved := r, p_igp_metric := m\<rparr>)) qs (l_path s) q = l_path s q"
      using qs by (auto simp: eq apart_def)
  qed
  then have "chosen (fold (\<lambda>q h. h(q := (h q)\<lparr>p_resolved := r, p_igp_metric := m\<rparr>)) qs (l_path s)) cfg (paths_of s e)
      = chosen (l_path s) cfg (paths_of s e)" if "live s e" "e \<notin> X" for e cfg
    using that d(2) by blast
  then show ?thesis
    using tidyD(3,5) [OF inv] apartD(1) [OF inv]
    by (intro paths_inv [OF inv]) (simp_all add: eq)
qed

lemma config_inv:
  assumes inv: "loc_inv X s" and "\<And>d. live s d \<Longrightarrow> d \<in> X"
  shows "loc_inv X (s\<lparr>l_config := c\<rparr>)"
  using tidyD(3,5) [OF inv] apartD(1) [OF inv] assms(2) by (intro paths_inv [OF inv]) simp_all

lemma new_dest_inv:
  assumes inv: "loc_inv X s" and free: "dict_get (l_dests s) p = None"
    and s': "s' = s\<lparr>l_dest := (l_dest s)(l_ndests s := new_bgp_dest p), l_ndests := l_ndests s + 1,
      l_dests := dict_set p (l_ndests s) (l_dests s)\<rparr>"
  shows "loc_inv (insert (l_ndests s) X) s'" and "live s' (l_ndests s)"
proof -
  note I = loc_invD [OF inv]
  let ?n = "l_ndests s"
  have fresh: "\<not> known s ?n" using tidyD(1) [OF inv] by blast
  have pend: "pending_of s' = pending_of s" by (simp add: pending_of_def s')
  have npend: "?n \<notin> set (pending_of s)" using fresh by (simp add: known_def)
  have lv: "live s' e \<longleftrightarrow> e = ?n \<or> live s e" for e
  proof (cases "e = ?n")
    case False
    have "prefix_of s e \<noteq> p" if "live s e" using that free by (auto simp: live_def)
    with False show ?thesis by (auto simp: live_def s' dict_get_set)
  qed (simp add: live_def s' dict_get_set new_bgp_dest_def)
  then show "live s' ?n" by simp
  have kn: "known s' e \<longleftrightarrow> e = ?n \<or> known s e" for e by (auto simp: known_def lv pend)
  have old: "l_dest s' e = l_dest s e" if "e \<noteq> ?n" for e using that by (simp add: s')
  have new: "l_dest s' ?n = new_bgp_dest p" by (simp add: s')
  have t: "told s' = told s" by (rule told_cong) (simp_all add: s')
  have f: "forwards s' = forwards s" by (intro ext forwards_cong) (simp_all add: s')
  have same: "l_path s' = l_path s" "l_config s' = l_config s" "l_npaths s' = l_npaths s" "l_ndests s' = l_ndests s + 1"
    by (simp_all add: s')
  show "loc_inv (insert ?n X) s'"
  proof (rule loc_invI)
    show "tidy (insert ?n X) s' e" if "known s' e" for e
    proof (cases "e = ?n")
      case True
      then show ?thesis using npend by (simp add: tidy_def lv new pend) (simp add: new_bgp_dest_def s')
    next
      case False
      with that have "tidy X s e" using I(5) by (simp add: kn)
      then show ?thesis using False by (auto simp: tidy_def old lv pend same)
    qed
    show "apart s' e g" if "known s' e" "known s' g" "e \<noteq> g" for e g
      using I(6) [of e g] that by (cases "e = ?n"; cases "g = ?n") (auto simp: kn apart_def old new new_bgp_dest_def)
    show "in_turn (insert ?n X) s' e g" if "known s' e" "\<not> live s' e" "live s' g" for e g
      using I(7) [of e g] that npend by (cases "g = ?n") (auto simp: kn lv in_turn_def old pend)
    show "told s' q None" if all: "\<And>e. known s' e \<Longrightarrow> prefix_of s' e = q \<Longrightarrow> best_of s' e = None" for q
    proof -
      have "best_of s e = None" if "known s e" "prefix_of s e = q" for e
      proof -
        have "e \<noteq> ?n" using that fresh by blast
        then show ?thesis using all [of e] that by (simp add: kn old)
      qed
      then show ?thesis unfolding t by (rule I(8))
    qed
    show "told s' (prefix_of s' e) (forwards s' (prefix_of s' e) w)" if "known s' e" "best_of s' e = Some w" for e w
      using I(9) [of e w] that by (cases "e = ?n") (auto simp: kn old new t f new_bgp_dest_def)
    show "prefix_of s' e = q" if "dict_get (l_dests s') q = Some e" for q e
    proof (cases "q = p")
      case True
      then show ?thesis using that by (simp add: s' dict_get_set new_bgp_dest_def)
    next
      case False
      then have g: "dict_get (l_dests s) q = Some e" using that by (simp add: s' dict_get_set)
      then have "e \<noteq> ?n" using liveI [OF inv g] live_known fresh by blast
      then show ?thesis using I(4) [OF g] by (simp add: old)
    qed
    show "l_qhead s' \<le> length (l_queue s')" "distinct (map fst (l_dests s'))" using I(1,3) by (simp_all add: s')
    show "distinct (pending_of s')" using I(2) by (simp add: pend)
  qed
qed

lemma pop_inv:
  assumes inv: "loc_inv X s" and d: "dict_get (l_dests s) p = Some d" and empty: "paths_of s d = []"
    and q: "d \<in> set (pending_of s) \<or> best_of s d = None"
  shows "loc_inv X (s\<lparr>l_dests := dict_pop p (l_dests s)\<rparr>)"
proof -
  define s' where "s' = s\<lparr>l_dests := dict_pop p (l_dests s)\<rparr>"
  note I = loc_invD [OF inv]
  have pd: "prefix_of s d = p" using I(4) [OF d] .
  have pend: "pending_of s' = pending_of s" by (simp add: pending_of_def s'_def)
  have lv: "live s' e \<longleftrightarrow> live s e \<and> e \<noteq> d" for e
    using d pd by (auto simp: live_def s'_def dict_get_pop)
  have kn: "known s' e \<longleftrightarrow> known s e \<and> (e \<noteq> d \<or> d \<in> set (pending_of s))" for e
    using liveI [OF inv d] by (auto simp: known_def lv pend)
  have dest: "l_dest s' = l_dest s" by (simp add: s'_def)
  have t: "told s' = told s" by (rule told_cong) (simp_all add: s'_def)
  have f: "forwards s' = forwards s" by (intro ext forwards_cong) (simp_all add: s'_def)
  have "loc_inv X s'"
  proof (rule loc_invI)
    show "tidy X s' e" if "known s' e" for e
      using I(5) [of e] that empty unfolding kn tidy_def lv pend dest by (auto simp: s'_def)
    show "apart s' e g" if "known s' e" "known s' g" "e \<noteq> g" for e g
      using I(6) [of e g] that by (simp add: kn apart_def dest)
    show "in_turn X s' e g" if "known s' e" "\<not> live s' e" "live s' g" for e g
    proof (cases "e = d")
      case True
      have "live s g" "g \<noteq> d" using that(3) by (simp_all add: lv)
      then have "prefix_of s g \<noteq> p" using d by (auto simp: live_def)
      then show ?thesis using True pd by (simp add: in_turn_def dest)
    next
      case False
      then show ?thesis using I(7) [of e g] that by (simp add: kn lv in_turn_def dest pend)
    qed
    show "told s' r None" if "\<And>e. known s' e \<Longrightarrow> prefix_of s' e = r \<Longrightarrow> best_of s' e = None" for r
      using I(8) [of r] that q unfolding kn dest t by blast
    show "told s' (prefix_of s' e) (forwards s' (prefix_of s' e) w)" if "known s' e" "best_of s' e = Some w" for e w
      using I(9) [of e w] that by (simp add: kn dest t f)
    show "prefix_of s' e = r" if "dict_get (l_dests s') r = Some e" for r e
      using I(4) [of r e] that by (simp add: s'_def dict_get_pop split: if_splits)
  qed (use I(1-3) in \<open>simp_all add: s'_def pending_of_def\<close>)
  then show ?thesis by (simp add: s'_def)
qed

section \<open>Telling the core\<close>

lemma told_ex: "loc_inv X s \<Longrightarrow> \<exists>r. told s p r"
  using loc_invD(8,9) [of X s] by (metis option.exhaust)

lemma core_view_snoc: "core_view (s\<lparr>l_offered := o', l_retractions := n, l_sent := l_sent s @ [c]\<rparr>) = core_call c (core_view s)"
  by (simp add: core_view_def)

lemma retract_told:
  assumes "told s p r"
  shows "told (snd (loc_retract p s)) p None" and "p' \<noteq> p \<Longrightarrow> told (snd (loc_retract p s)) p' r' = told s p' r'"
  using assms by (auto simp: loc_retract_def told_def core_view_def core_call_def split: rib_sink.split)

lemma route_of_prefix: "route_of s p w = Inr r \<Longrightarrow> rprefix r = p"
  by (auto simp: route_of_def new_route_def Let_def split: if_splits)

lemma offer_told:
  assumes "told s p r" and "p = prefix_of s d"
  shows "told (snd (loc_offer d w s)) p (forwards s p w)" and "p' \<noteq> p \<Longrightarrow> told (snd (loc_offer d w s)) p' r' = told s p' r'"
proof -
  have t: "told (s\<lparr>l_local_unoffered := n\<rparr>) = told s" "told (s\<lparr>l_offer_errors := n\<rparr>) = told s" for n
    by (rule told_cong; simp)+
  note R = retract_told(1) [of "s\<lparr>l_local_unoffered := n\<rparr>" p r for n] retract_told(1) [of "s\<lparr>l_offer_errors := n\<rparr>" p r for n]
  show "told (snd (loc_offer d w s)) p (forwards s p w)"
    using assms R unfolding t
    by (auto simp: loc_offer_def forwards_def Let_def told_def core_view_def core_call_def dest: route_of_prefix split: sum.split rib_sink.split)
  show "told (snd (loc_offer d w s)) p' r' = told s p' r'" if "p' \<noteq> p"
    using assms that retract_told(2) [of "s\<lparr>l_local_unoffered := n\<rparr>" p r p' r' for n] retract_told(2) [of "s\<lparr>l_offer_errors := n\<rparr>" p r p' r' for n]
    unfolding t
    by (auto simp: loc_offer_def Let_def told_def core_view_def core_call_def dest: route_of_prefix split: sum.split rib_sink.split)
qed

section \<open>One selection\<close>

lemma chosen_marks: "same_but_marks h h' \<Longrightarrow> chosen h cfg ps = chosen h' cfg ps"
  by (simp add: chosen_def eligible_marks winners_marks same_marks_cmp)

lemma marks_fields:
  assumes "same_but_marks h h'"
  shows "p_source (h' w) = p_source (h w)" "p_peer (h' w) = p_peer (h w)" "p_attrs (h' w) = p_attrs (h w)"
    "p_recv_time (h' w) = p_recv_time (h w)" "p_path_id (h' w) = p_path_id (h w)"
proof -
  have e: "(h w)\<lparr>p_best := False, p_multipath := False\<rparr> = (h' w)\<lparr>p_best := False, p_multipath := False\<rparr>"
    using assms by (simp add: same_but_marks_def)
  show "p_source (h' w) = p_source (h w)" "p_peer (h' w) = p_peer (h w)" "p_attrs (h' w) = p_attrs (h w)"
    "p_recv_time (h' w) = p_recv_time (h w)" "p_path_id (h' w) = p_path_id (h w)"
    using arg_cong [OF e, of p_source] arg_cong [OF e, of p_peer] arg_cong [OF e, of p_attrs] arg_cong [OF e, of p_recv_time]
      arg_cong [OF e, of p_path_id] by simp_all
qed

lemma precedes_tail: "precedes e g (d # xs) \<Longrightarrow> e \<noteq> d \<Longrightarrow> precedes e g xs"
  unfolding precedes_def by (metis append_Cons append_Nil list.inject neq_Nil_conv list.sel(1))

lemma precedes_head: "precedes e d (d # xs) \<Longrightarrow> distinct (d # xs) \<Longrightarrow> False"
  unfolding precedes_def by (auto simp: Cons_eq_append_conv)

lemma publish_fields:
  "l_dests (loc_publish d v w s) = l_dests s" "l_dest (loc_publish d v w s) = l_dest s" "l_ndests (loc_publish d v w s) = l_ndests s"
  "l_path (loc_publish d v w s) = l_path s" "l_npaths (loc_publish d v w s) = l_npaths s" "l_config (loc_publish d v w s) = l_config s"
  "l_queue (loc_publish d v w s) = l_queue s" "l_distance_ebgp (loc_publish d v w s) = l_distance_ebgp s"
  "l_distance_ibgp (loc_publish d v w s) = l_distance_ibgp s"
  by (simp_all add: loc_publish_def loc_retract_def loc_offer_def Let_def split: sum.split option.split)

lemma publish_told:
  assumes t: "told s p r" and p: "p = prefix_of s d" and res: "\<And>v. w = Some v \<Longrightarrow> p_resolved (l_path s v)" and "w \<noteq> prev"
  shows "told (loc_publish d prev w s) p (case w of None \<Rightarrow> None | Some v \<Rightarrow> forwards s p v)"
    and "p' \<noteq> p \<Longrightarrow> told (loc_publish d prev w s) p' r' = told s p' r'"
proof -
  define s1 where "s1 = s\<lparr>l_version := l_version s + 1\<rparr>"
  have t1: "told s1 = told s" by (rule told_cong) (simp_all add: s1_def)
  have f1: "forwards s1 = forwards s" by (intro ext forwards_cong) (simp_all add: s1_def)
  have p1: "p = prefix_of s1 d" by (simp add: s1_def p)
  have told1: "told s1 p r" by (simp add: t1 t)
  have pub: "loc_publish d prev w s = (case w of None \<Rightarrow> snd (loc_retract p s1) | Some v \<Rightarrow> snd (loc_offer d v s1))"
    using assms(4) res by (auto simp: loc_publish_def Let_def s1_def p split: option.split)
  show "told (loc_publish d prev w s) p (case w of None \<Rightarrow> None | Some v \<Rightarrow> forwards s p v)"
    using retract_told(1) [OF told1] offer_told(1) [OF told1 p1] by (simp add: pub f1 split: option.split)
  show "told (loc_publish d prev w s) p' r' = told s p' r'" if "p' \<noteq> p"
    using retract_told(2) [OF told1 that] offer_told(2) [OF told1 p1 that] by (simp add: pub t1 split: option.split)
qed

lemma selected_fields:
  "l_dests (loc_selected s) = l_dests s" "l_ndests (loc_selected s) = l_ndests s" "l_npaths (loc_selected s) = l_npaths s"
  "l_config (loc_selected s) = l_config s" "l_queue (loc_selected s) = l_queue s" "l_offered (loc_selected s) = l_offered s"
  "l_sent (loc_selected s) = l_sent s" "l_sink (loc_selected s) = l_sink s"
  "l_distance_ebgp (loc_selected s) = l_distance_ebgp s" "l_distance_ibgp (loc_selected s) = l_distance_ibgp s"
  by (simp_all add: loc_selected_def Let_def split: prod.split)

lemma selected_dest:
  fixes s
  defines "d \<equiv> l_queue s ! l_qhead s"
  shows "e \<noteq> d \<Longrightarrow> l_dest (loc_selected s) e = l_dest s e"
    and "prefix_of (loc_selected s) e = prefix_of s e" and "paths_of (loc_selected s) e = paths_of s e"
    and "\<not> d_queued (l_dest (loc_selected s) d)"
    and "best_of (loc_selected s) d = chosen (l_path s) (l_config s) (paths_of s d)"
    and "same_but_marks (l_path s) (l_path (loc_selected s))"
proof -
  obtain res h where r: "select_paths (paths_of s d) (l_config s) (l_path s) = (res, h)" by fastforce
  have "same_but_marks (l_path s) h" "r_best res = chosen (l_path s) (l_config s) (paths_of s d)"
    using select_paths_frame [of "l_path s" "paths_of s d" "l_config s"] select_best [of "paths_of s d" "l_config s" "l_path s"]
    by (simp_all add: r)
  then show "e \<noteq> d \<Longrightarrow> l_dest (loc_selected s) e = l_dest s e"
    "prefix_of (loc_selected s) e = prefix_of s e" "paths_of (loc_selected s) e = paths_of s e"
    "\<not> d_queued (l_dest (loc_selected s) d)" "best_of (loc_selected s) d = chosen (l_path s) (l_config s) (paths_of s d)"
    "same_but_marks (l_path s) (l_path (loc_selected s))"
    by (simp_all add: loc_selected_def dest_reselect_def Let_def d_def [symmetric] r)
qed

lemma pending_head: "l_qhead s < length (l_queue s) \<Longrightarrow> pending_of s = l_queue s ! l_qhead s # drop (Suc (l_qhead s)) (l_queue s)"
  by (simp add: pending_of_def Cons_nth_drop_Suc)

lemma select_one_inv:
  assumes inv: "loc_inv {} s" and more: "l_qhead s < length (l_queue s)"
  shows "loc_inv {} (fst (loc_select_one s))" and "pending_of s = l_queue s ! l_qhead s # pending_of (fst (loc_select_one s))"
proof -
  note I = loc_invD [OF inv]
  define d where "d = l_queue s ! l_qhead s"
  define w where "w = chosen (l_path s) (l_config s) (paths_of s d)"
  define s1 where "s1 = loc_selected s"
  define s2 where "s2 = loc_publish d (best_of s d) w s1"
  define rest where "rest = drop (Suc (l_qhead s)) (l_queue s)"
  note D = selected_dest [where s = s, folded d_def s1_def, folded w_def]
  note F = selected_fields [of s, folded s1_def] publish_fields [of d "best_of s d" w s1, folded s2_def]
  have pend: "pending_of s = d # rest" unfolding d_def rest_def by (rule pending_head [OF more])
  have q2: "l_qhead s2 = Suc (l_qhead s)" by (simp add: s2_def s1_def)
  have pend2: "pending_of s2 = rest" by (simp add: pending_of_def F q2 rest_def)
  have dr: "d \<notin> set rest" "distinct rest" using I(2) by (simp_all add: pend)
  have kd: "known s d" by (simp add: known_def pend)
  have dest: "prefix_of s2 e = prefix_of s e" "paths_of s2 e = paths_of s e" "best_of s2 e = (if e = d then w else best_of s e)"
    "e \<noteq> d \<Longrightarrow> l_dest s2 e = l_dest s e" for e
    using D by (auto simp: F)
  have lv: "live s2 = live s" by (simp add: live_def F D(2) fun_eq_iff)
  have kn: "known s2 e \<longleftrightarrow> live s e \<or> e \<in> set rest" for e by (simp add: known_def lv pend2)
  have kn_old: "known s2 e \<Longrightarrow> known s e" for e unfolding kn by (auto simp: known_def pend)
  have kn2: "known s2 e \<longleftrightarrow> known s e \<and> (e \<noteq> d \<or> live s d)" for e
    unfolding kn using dr(1) by (auto simp: known_def pend)
  have marks: "same_but_marks (l_path s) (l_path s2)" by (simp add: F D(6))
  have f: "forwards s2 = forwards s" "forwards s1 = forwards s"
    by (intro ext forwards_cong; simp add: F marks_fields [OF marks] marks_fields [OF D(6)])+
  have resolved: "p_resolved (l_path s1 v)" if "w = Some v" for v
    using chosen_resolved [of "l_path s" "l_config s" "paths_of s d" v] that same_marksD(2) [OF D(6)] by (simp add: w_def)
  have t1: "told s1 = told s" by (rule told_cong) (simp_all add: F)
  obtain r where r: "told s1 (prefix_of s d) r" using told_ex [OF inv] t1 by metis
  have T: "told s2 (prefix_of s d) (case w of None \<Rightarrow> None | Some v \<Rightarrow> forwards s (prefix_of s d) v)"
    "p' \<noteq> prefix_of s d \<Longrightarrow> told s2 p' r' = told s p' r'" if "w \<noteq> best_of s d" for p' r'
    using publish_told [OF r D(2) [of d, symmetric] resolved that, folded s2_def] unfolding t1 f by simp_all
  have T0: "told s2 = told s" if "w = best_of s d" using that by (simp add: s2_def loc_publish_def t1)
  have T': "told s2 p' r' = told s p' r'" if "p' \<noteq> prefix_of s d" for p' r'
    using T(2) [OF _ that] T0 by (cases "w = best_of s d") simp_all
  have other: "w = None" if e: "known s2 e" "e \<noteq> d" "prefix_of s e = prefix_of s d" "best_of s e \<noteq> None" for e
  proof (rule ccontr)
    assume "w \<noteq> None"
    then have "paths_of s d \<noteq> []" by (auto simp: w_def chosen_def eligible_of_def)
    then have ld: "live s d" using tidyD(5) [OF inv kd] by blast
    have "\<not> live s e" using e(2,3) ld by (auto simp: live_def)
    then have "precedes e d (d # rest)" using I(7) [OF kn_old [OF e(1)] _ ld] e(3,4) by (simp add: in_turn_def pend)
    then show False using dr precedes_head by fastforce
  qed
  have none_dead: "w = None" if "\<not> live s d"
    using tidyD(5) [OF inv kd that] by (simp add: w_def chosen_def eligible_of_def)
  have inv2: "loc_inv {} s2"
  proof (rule loc_invI)
    show "tidy {} s2 e" if "known s2 e" for e
    proof (cases "e = d")
      case True
      have "v < l_npaths s" if "w = Some v" for v
        using chosen_in that tidyD(3) [OF inv kd] unfolding w_def by blast
      then show ?thesis
        using I(5) [OF kd] True D(4) dr unfolding tidy_def lv pend2 dest
        by (simp add: F w_def chosen_marks [OF D(6)])
    next
      case False
      then show ?thesis
        using I(5) [OF kn_old [OF that]] unfolding tidy_def lv pend2 dest(2,3) dest(4) [OF False]
        by (simp add: F pend chosen_marks [OF D(6)])
    qed
    show "apart s2 e g" if k: "known s2 e" "known s2 g" "e \<noteq> g" for e g
      using apartD [OF inv kn_old [OF k(1)] kn_old [OF k(2)] k(3)] other [of e] other [of g] k unfolding apart_def dest by auto
    show "in_turn {} s2 e g" if k: "known s2 e" "\<not> live s2 e" "live s2 g" for e g
    proof -
      have e: "e \<in> set rest" "e \<noteq> d" using k(1,2) dr(1) by (auto simp: kn lv)
      have "in_turn {} s e g" using I(7) [OF kn_old [OF k(1)]] k(2,3) by (simp add: lv)
      then show ?thesis using e(2) precedes_tail [of e g d rest] by (auto simp: in_turn_def dest pend pend2)
    qed
    show "told s2 q None" if all: "\<And>e. known s2 e \<Longrightarrow> prefix_of s2 e = q \<Longrightarrow> best_of s2 e = None" for q
    proof (cases "q = prefix_of s d")
      case False
      have "best_of s e = None" if e: "known s e" "prefix_of s e = q" for e
        using all [of e] e False by (cases "e = d") (simp_all add: kn2 dest)
      then show ?thesis using I(8) [of q] T' [OF False] by simp
    next
      case True
      have w: "w = None" using none_dead all [of d] True kd by (auto simp: kn2 dest)
      show ?thesis
      proof (cases "best_of s d = None")
        case True
        have "best_of s e = None" if e: "known s e" "prefix_of s e = q" for e
          using all [of e] e True by (cases "e = d") (auto simp: kn2 dest)
        then show ?thesis using I(8) [of q] T0 w True by simp
      next
        case False
        then have "w \<noteq> best_of s d" using w by metis
        from T(1) [OF this] show ?thesis using w \<open>q = prefix_of s d\<close> by simp
      qed
    qed
    show "told s2 (prefix_of s2 e) (forwards s2 (prefix_of s2 e) v)" if e: "known s2 e" "best_of s2 e = Some v" for e v
    proof (cases "e = d")
      case True
      then have "w = Some v" using e(2) by (simp add: dest)
      then show ?thesis using T(1) T0 I(9) [OF kd, of v] True by (cases "w = best_of s d") (simp_all add: dest f)
    next
      case False
      then have b: "best_of s e = Some v" using e(2) by (simp add: dest)
      have k: "known s e" using kn_old [OF e(1)] .
      show ?thesis
      proof (cases "prefix_of s e = prefix_of s d")
        case True
        have "w = None" using other [OF e(1) False True] b by simp
        moreover have "best_of s d = None" using apartD(2) [OF inv k kd False True] b by simp
        ultimately show ?thesis using T0 I(9) [OF k b] by (simp add: dest f)
      next
        case False
        then show ?thesis using T' [OF False] I(9) [OF k b] by (simp add: dest f)
      qed
    qed
    show "prefix_of s2 e = q" if "dict_get (l_dests s2) q = Some e" for q e
      using I(4) [of q e] that unfolding dest(1) by (simp add: F)
  qed (use I(3) dr more in \<open>simp_all add: F pend2 q2\<close>)
  have b2: "best_of s2 d = w" by (simp add: dest)
  have one: "fst (loc_select_one s) = loc_drop_empty d s2"
    using D(5) by (simp add: loc_select_one_def Let_def d_def [symmetric] s1_def [symmetric] s2_def)
  show "loc_inv {} (fst (loc_select_one s))"
  proof (cases "best_of s2 d = None \<and> paths_of s2 d = [] \<and> live s2 d")
    case True
    then have "dict_get (l_dests s2) (prefix_of s2 d) = Some d" by (simp add: live_def)
    then show ?thesis using pop_inv [OF inv2] True by (simp add: one loc_drop_empty_def)
  next
    case False
    then have "loc_drop_empty d s2 = s2" by (auto simp: loc_drop_empty_def)
    then show ?thesis using inv2 by (simp add: one)
  qed
  have "pending_of (loc_drop_empty d s2) = pending_of s2" by (simp add: loc_drop_empty_def pending_of_def)
  then show "pending_of s = l_queue s ! l_qhead s # pending_of (fst (loc_select_one s))"
    by (simp add: one pend pend2 d_def)
qed

end
