(* ===== verification/LocRibRun.thy ===== *)
theory LocRibRun
  imports LocRibProps
begin

text \<open>
  Runs of the Loc-RIB: selection in slices, the operations of the peers as sequences of single
  changes, and the two indexes, which name exactly the destinations that hold a path of the
  peer or through the next hop.
\<close>

section \<open>Selection in slices\<close>

lemma requeue_inv:
  assumes inv: "loc_inv X s" and q: "drop h q = pending_of s" "h \<le> length q"
  shows "loc_inv X (s\<lparr>l_queue := q, l_qhead := h\<rparr>)"
proof -
  define s' where "s' = s\<lparr>l_queue := q, l_qhead := h\<rparr>"
  have eqs: "l_dest s' = l_dest s" "l_ndests s' = l_ndests s" "l_path s' = l_path s" "l_npaths s' = l_npaths s"
    "l_config s' = l_config s" "l_dests s' = l_dests s"
    by (simp_all add: s'_def)
  have l: "live s' = live s" by (auto simp: live_def eqs)
  have p: "pending_of s' = pending_of s" using q by (simp add: pending_of_def s'_def)
  have k: "known s' = known s" by (simp add: known_def l p fun_eq_iff)
  have f: "forwards s' = forwards s" by (intro ext forwards_cong) (simp_all add: s'_def)
  have t: "told s' = told s" by (rule told_cong) (simp_all add: s'_def)
  have e: "tidy X s' = tidy X s" "apart s' = apart s" "in_turn X s' = in_turn X s"
    by (intro ext; simp add: tidy_def apart_def in_turn_def l p eqs)+
  have h: "l_qhead s' \<le> length (l_queue s')" using q by (simp add: s'_def)
  show ?thesis
    using inv h unfolding s'_def [symmetric] loc_inv_def l p k f t e by (simp add: eqs)
qed

lemma compact_inv': "loc_inv X s \<Longrightarrow> loc_inv X (loc_compact s)"
  using requeue_inv [of X s 0 "[]"] requeue_inv [of X s 0 "pending_of s"]
  by (auto simp: loc_compact_def pending_of_def)

lemma compact_pending: "pending_of (loc_compact s) = pending_of s"
  by (simp add: loc_compact_def pending_of_def)

lemma select_one_queue [simp]: "l_queue (fst (loc_select_one s)) = l_queue s"
  by (simp add: loc_select_one_def Let_def loc_drop_empty_def publish_fields selected_fields)

lemma loop_inv:
  assumes "loc_inv {} s" and "n \<le> length (l_queue s)"
  shows "loc_inv {} (fst (loc_loop limit n k s cs))" and "l_queue (fst (loc_loop limit n k s cs)) = l_queue s"
  using assms
proof (induction limit n k s cs rule: loc_loop.induct)
  case (1 limit n k s cs)
  let ?more = "l_qhead s < n \<and> (limit \<le> 0 \<or> k < limit)"
  {
    case 1
    show ?case
    proof (cases ?more)
      case True
      then have "loc_inv {} (fst (loc_select_one s))" using select_one_inv(1) "1.prems" by simp
      then show ?thesis using "1.IH"(1) True "1.prems"(2) by (subst loc_loop.simps) simp
    next
      case False
      then show ?thesis using "1.prems" by (subst loc_loop.simps) auto
    qed
  next
    case 2
    show ?case
    proof (cases ?more)
      case True
      then have "loc_inv {} (fst (loc_select_one s))" using select_one_inv(1) "2.prems" by simp
      then show ?thesis using "1.IH"(2) True "2.prems"(2) by (subst loc_loop.simps) simp
    next
      case False
      then show ?thesis by (subst loc_loop.simps) auto
    qed
  }
qed

lemma loop_qhead:
  "l_qhead s \<le> n \<Longrightarrow> limit \<le> 0 \<or> k \<le> limit \<Longrightarrow>
    l_qhead (fst (loc_loop limit n k s cs)) = (if limit \<le> 0 then n else min n (l_qhead s + nat (limit - k)))"
proof (induction limit n k s cs rule: loc_loop.induct)
  case (1 limit n k s cs)
  show ?case
  proof (cases "l_qhead s < n \<and> (limit \<le> 0 \<or> k < limit)")
    case True
    have "nat (limit - k) = Suc (nat (limit - (k + 1)))" if "0 < limit"
      using True that by (simp add: Suc_nat_eq_nat_zadd1)
    then show ?thesis using "1.IH" [OF True] True by (subst loc_loop.simps) auto
  next
    case False
    then show ?thesis using "1.prems" by (subst loc_loop.simps) auto
  qed
qed

lemma reselect_inv:
  assumes inv: "loc_inv {} s"
  shows "loc_inv {} (snd (loc_reselect limit s))"
    and "loc_pending (snd (loc_reselect limit s)) = (if limit \<le> 0 then 0 else loc_pending s - nat limit)"
proof -
  define s1 where "s1 = fst (loc_loop limit (length (l_queue s)) 0 s [])"
  have r: "snd (loc_reselect limit s) = loc_compact s1" by (simp add: loc_reselect_def s1_def split: prod.split)
  note L = loop_inv [OF inv, of "length (l_queue s)" limit 0 "[]", folded s1_def]
  have "l_qhead s1 = (if limit \<le> 0 then length (l_queue s) else min (length (l_queue s)) (l_qhead s + nat limit))"
    using loop_qhead [of s "length (l_queue s)" limit 0 "[]"] loc_invD(1) [OF inv] by (simp add: s1_def)
  then have "length (pending_of s1) = (if limit \<le> 0 then 0 else loc_pending s - nat limit)"
    using L(2) loc_invD(1) [OF inv] by (auto simp: pending_of_def loc_pending_def)
  moreover have "loc_pending t = length (pending_of t)" for t by (simp add: loc_pending_def pending_of_def)
  ultimately show "loc_pending (snd (loc_reselect limit s)) = (if limit \<le> 0 then 0 else loc_pending s - nat limit)"
    by (simp add: r compact_pending)
  show "loc_inv {} (snd (loc_reselect limit s))" unfolding r using L(1) by (intro compact_inv') simp
qed

lemma loc_select_step_inv: "loc_inv {} s \<Longrightarrow> loc_inv {} (snd (loc_select_step chunk s))"
  using reselect_inv(1) by (simp add: loc_select_step_def Let_def)

section \<open>The operations as sequences of changes\<close>

definition set_paths :: "nat \<Rightarrow> nat list \<Rightarrow> loc_rib \<Rightarrow> loc_rib" where
  "set_paths d ps = upd_dest d (\<lambda>x. x\<lparr>d_paths := ps\<rparr>)"

text \<open>What becomes of the path that an announcement displaces.\<close>

definition displace :: "nat \<Rightarrow> bytestr \<Rightarrow> nat option \<Rightarrow> loc_rib \<Rightarrow> loc_rib" where
  "displace d nh old s =
    (case old of
      None \<Rightarrow> s\<lparr>l_path_count := l_path_count s + 1\<rparr>
    | Some q \<Rightarrow> (let s = loc_release q s in if path_nexthop s q \<noteq> nh then unindex_nexthop (path_nexthop s q) d s else s))"

lemma new_path_fields:
  "l_path (snd (new_path b x s)) = (l_path s)(l_npaths s := x)" "l_dests (snd (new_path b x s)) = l_dests s"
  "l_dest (snd (new_path b x s)) = l_dest s" "fst (new_path b x s) = l_npaths s" "l_npaths (snd (new_path b x s)) = Suc (l_npaths s)"
  "l_sets (snd (new_path b x s)) = l_sets s"
  by (simp_all add: new_path_def)

lemma add_path_cases:
  assumes "add_path peer p attrs i w src m t r keep s = Inr s'"
  obtains pr a d s1 b s2 x s3 old ps where
    "peer = Some pr" "attrs = Some a" "loc_dest p s = Inr (d, s1)" "loc_intern a s1 = (b, s2)"
    "x = new_bgp_path (l_sets s2 b) (Some pr) i w src m (if keep then held_time s1 d (pr_obj pr) i t else t) r"
    "s3 = snd (new_path b x s2)" "replace_first (is_path (l_path s3) (pr_obj pr) i) (l_npaths s2) (paths_of s3 d) = (old, ps)"
    "s' = loc_enqueue d (index_nexthop (a_nexthop (p_attrs x)) d r m (index_add (pr_obj pr) d
      (displace d (a_nexthop (p_attrs x)) old (set_paths d ps s3))))"
proof -
  from assms obtain pr a where pa: "peer = Some pr" "attrs = Some a"
    by (auto simp: add_path_def split: option.splits)
  with assms obtain d s1 where ds: "loc_dest p s = Inr (d, s1)"
    by (cases "loc_dest p s") (auto simp: add_path_def)
  obtain b s2 where i: "loc_intern a s1 = (b, s2)" by fastforce
  define x where "x = new_bgp_path (l_sets s2 b) (Some pr) i w src m (if keep then held_time s1 d (pr_obj pr) i t else t) r"
  define s3 where "s3 = snd (new_path b x s2)"
  obtain old ps where ps: "replace_first (is_path (l_path s3) (pr_obj pr) i) (l_npaths s2) (paths_of s3 d) = (old, ps)" by fastforce
  have np: "new_path b x s2 = (l_npaths s2, s3)" by (simp add: s3_def new_path_def)
  have x: "l_path s3 (l_npaths s2) = x" "p_peer x = pr" "p_path_id x = i" "p_attrs x = l_sets s2 b"
    by (simp_all add: s3_def new_path_fields x_def new_bgp_path_def)
  have u: "upd_dest d (\<lambda>_. (l_dest s3 d)\<lparr>d_paths := ps\<rparr>) s3 = set_paths d ps s3" by (simp add: set_paths_def upd_dest_def)
  have "s' = loc_enqueue d (index_nexthop (a_nexthop (p_attrs x)) d r m (index_add (pr_obj pr) d
      (displace d (a_nexthop (p_attrs x)) old (set_paths d ps s3))))"
    using assms unfolding add_path_def pa
    by (cases old) (simp_all add: ds i x_def [symmetric] np dest_add_def x ps u displace_def Let_def cong: if_cong del: fun_upd_apply)
  with that pa ds i ps show ?thesis by (simp add: x_def s3_def)
qed

text \<open>A destination after some of its paths went: it waits for selection, and if it is
  empty it is no longer in the table.\<close>

definition requeue :: "nat \<Rightarrow> loc_rib \<Rightarrow> loc_rib" where
  "requeue d s =
    (let s = loc_enqueue d s
     in if paths_of s d = [] then s\<lparr>l_dests := dict_pop (prefix_of s d) (l_dests s)\<rparr> else s)"

lemma remove_path_cases:
  assumes "remove_path peer p i s = (b, s')" and inv: "loc_inv {} s"
  obtains "\<not> b" "s' = s"
  | pr d q ps s1 where "b" "peer = Some pr" "p = Some (prefix_of s d)" "live s d" "delete_first (is_path (l_path s) (pr_obj pr) i) (paths_of s d) = (Some q, ps)"
    "s1 = loc_release q (set_paths d ps s\<lparr>l_path_count := l_path_count s - 1\<rparr>)"
    "s' = unindex_nexthop (path_nexthop s q) d (requeue d (if peer_has (pr_obj pr) d s1 then s1 else index_remove (pr_obj pr) (prefix_of s d) s1))"
proof (cases "\<exists>pr p' d. peer = Some pr \<and> p = Some p' \<and> dict_get (l_dests s) p' = Some d")
  case False
  then have "\<not> b" "s' = s" using assms(1) by (auto simp: remove_path_def split: option.splits)
  then show ?thesis by (rule that(1))
next
  case True
  then obtain pr p' d where e: "peer = Some pr" "p = Some p'" "dict_get (l_dests s) p' = Some d" by blast
  have p': "p' = prefix_of s d" "live s d" using loc_invD(4) [OF inv e(3)] liveI [OF inv e(3)] by simp_all
  obtain q ps where del: "delete_first (is_path (l_path s) (pr_obj pr) i) (paths_of s d) = (q, ps)" by fastforce
  have u: "upd_dest d (\<lambda>_. (l_dest s d)\<lparr>d_paths := ps\<rparr>) s = set_paths d ps s" by (simp add: set_paths_def upd_dest_def)
  show ?thesis
  proof (cases q)
    case None
    then have "\<not> b" "s' = s" using assms(1) by (simp_all add: remove_path_def e dest_remove_def del)
    then show ?thesis by (rule that(1))
  next
    case (Some q')
    define s1 where "s1 = loc_release q' (set_paths d ps s\<lparr>l_path_count := l_path_count s - 1\<rparr>)"
    define s2 where "s2 = (if peer_has (pr_obj pr) d s1 then s1 else index_remove (pr_obj pr) p' s1)"
    have pc: "l_path_count (set_paths d ps s) = l_path_count s" by (simp add: set_paths_def upd_dest_def)
    have b: "b" "s' = unindex_nexthop (path_nexthop (if paths_of (loc_enqueue d s2) d = [] then (loc_enqueue d s2)\<lparr>l_dests := dict_pop p' (l_dests (loc_enqueue d s2))\<rparr>
      else loc_enqueue d s2) q') d (if paths_of (loc_enqueue d s2) d = [] then (loc_enqueue d s2)\<lparr>l_dests := dict_pop p' (l_dests (loc_enqueue d s2))\<rparr>
      else loc_enqueue d s2)"
      using assms(1) unfolding remove_path_def e prod.case option.case dest_remove_def del Let_def Some u pc s1_def [symmetric] s2_def [symmetric]
      by simp_all
    have eq: "l_path s2 = l_path s" "prefix_of s2 d = prefix_of s d"
      by (simp_all add: s2_def s1_def loc_release_def index_remove_def set_paths_def Let_def split: prod.split option.split)
    have "l_path (loc_enqueue d s2) = l_path s" "prefix_of (loc_enqueue d s2) d = p'"
      by (simp_all add: loc_enqueue_def eq p')
    then have "s' = unindex_nexthop (path_nexthop s q') d (requeue d s2)"
      using b(2) by (simp add: requeue_def Let_def path_nexthop_def)
    then show ?thesis using that(2) [of pr d q' ps s1] b(1) e p' del Some s1_def by (simp add: s2_def)
  qed
qed


section \<open>Publication through the operations\<close>

lemma replace_first_mset:
  "replace_first Q x ys = (old, zs) \<Longrightarrow> add_mset x (mset ys) = mset zs + (case old of None \<Rightarrow> {#} | Some q \<Rightarrow> {#q#})"
  by (induction ys arbitrary: old zs) (fastforce split: if_splits prod.splits)+

lemma delete_first_mset:
  "delete_first Q ys = (old, zs) \<Longrightarrow> mset ys = mset zs + (case old of None \<Rightarrow> {#} | Some q \<Rightarrow> {#q#})"
  by (induction ys arbitrary: old zs) (fastforce split: if_splits prod.splits)+

lemma replace_first_set: "replace_first Q x ys = (old, zs) \<Longrightarrow> set zs \<subseteq> insert x (set ys)"
  using arg_cong [OF replace_first_mset [of Q x ys old zs], of set_mset] by (auto split: option.splits)

lemma delete_first_set: "delete_first Q ys = (old, zs) \<Longrightarrow> set zs \<subseteq> set ys"
  using arg_cong [OF delete_first_mset [of Q ys old zs], of set_mset] by (auto split: option.splits)

lemma set_paths_inv:
  assumes "loc_inv X s" "live s d" "d \<in> X" "\<And>q. q \<in> set ps \<Longrightarrow> q < l_npaths s"
    and "\<And>e. known s e \<Longrightarrow> e \<noteq> d \<Longrightarrow> set ps \<inter> set (paths_of s e) = {}"
  shows "loc_inv X (set_paths d ps s)"
  unfolding set_paths_def by (rule upd_paths_inv [OF assms])

lemma fewer_paths_inv:
  assumes "loc_inv X s" "live s d" "d \<in> X" "set ps \<subseteq> set (paths_of s d)"
  shows "loc_inv X (set_paths d ps s)"
  using assms tidyD(3) [OF assms(1) live_known [OF assms(2)]] apartD(1) [OF assms(1) live_known [OF assms(2)]]
  by (intro set_paths_inv) blast+

lemma set_paths_live [simp]: "live (set_paths d ps s) = live s"
  by (auto simp: set_paths_def live_def fun_eq_iff)

lemma loc_enqueue_simps [simp]:
  "live (loc_enqueue d s) = live s" "l_dests (loc_enqueue d s) = l_dests s" "paths_of (loc_enqueue d s) e = paths_of s e"
  "prefix_of (loc_enqueue d s) e = prefix_of s e" "l_path (loc_enqueue d s) = l_path s" "d_queued (l_dest (loc_enqueue d s) d)"
  by (auto simp: loc_enqueue_def live_def fun_eq_iff)

lemma requeue_keeps:
  assumes inv: "loc_inv X s" and lv: "live s d"
  shows "loc_inv (X - {d}) (requeue d s)"
proof -
  let ?t = "loc_enqueue d s"
  have t: "loc_inv (X - {d}) ?t" by (rule loc_enqueue_inv [OF inv lv])
  have "known ?t d" using lv by (simp add: live_known)
  from tidyD(2) [OF t this] have "d \<in> set (pending_of ?t)" by simp
  then show ?thesis
    using pop_inv [OF t, of "prefix_of ?t d" d] lv t by (simp add: requeue_def Let_def live_def)
qed

lemma displace_same: "same_table s (displace d nh old s)"
proof (cases old)
  case (Some q)
  have "same_table s (unindex_nexthop a d (loc_release q s))" for a by (rule same_table_trans [of _ "loc_release q s"]) simp_all
  then show ?thesis by (simp add: displace_def Some Let_def)
qed (simp add: displace_def)

lemma loc_dest_inv:
  assumes "loc_dest p s = Inr (d, s')" and inv: "loc_inv {} s"
  shows "loc_inv {d} s'" "live s' d" "p = Some (prefix_of s' d)"
proof -
  from assms(1) obtain q where p: "p = Some q" by (auto simp: loc_dest_def split: option.splits)
  show "loc_inv {d} s'" "live s' d" "p = Some (prefix_of s' d)"
  proof (atomize (full), cases "dict_get (l_dests s) q")
    case None
    then have e: "d = l_ndests s" "s' = s\<lparr>l_dest := (l_dest s)(l_ndests s := new_bgp_dest q), l_ndests := l_ndests s + 1,
      l_dests := dict_set q (l_ndests s) (l_dests s)\<rparr>"
      using assms(1) p by (auto simp: loc_dest_def split: if_splits)
    have pd: "prefix_of s' d = q" by (simp add: e new_bgp_dest_def)
    show "loc_inv {d} s' \<and> live s' d \<and> p = Some (prefix_of s' d)"
      using new_dest_inv [OF inv None e(2)] unfolding e(1) [symmetric] by (simp add: p pd)
  next
    case (Some e)
    then have "d = e" "s' = s" using assms(1) p by (auto simp: loc_dest_def split: if_splits)
    then show "loc_inv {d} s' \<and> live s' d \<and> p = Some (prefix_of s' d)"
      using Some loc_inv_mono [OF inv] liveI [OF inv] loc_invD(4) [OF inv] p by auto
  qed
qed

lemma add_path_inv:
  assumes inv: "loc_inv {} s" and add: "add_path peer p attrs i w src m t r keep s = Inr s'"
  shows "loc_inv {} s'"
  using add
proof (rule add_path_cases)
  fix pr a d s1 b s2 x s3 old ps
  assume ds: "loc_dest p s = Inr (d, s1)" and i: "loc_intern a s1 = (b, s2)" and s3: "s3 = snd (new_path b x s2)"
    and ps: "replace_first (is_path (l_path s3) (pr_obj pr) i) (l_npaths s2) (paths_of s3 d) = (old, ps)"
    and s': "s' = loc_enqueue d (index_nexthop (a_nexthop (p_attrs x)) d r m (index_add (pr_obj pr) d
      (displace d (a_nexthop (p_attrs x)) old (set_paths d ps s3))))"
  have s2: "same_table s1 s2" using same_table_steps(2) [of s1 a] by (simp add: i)
  have i2: "loc_inv {d} s2" "live s2 d" using loc_dest_inv [OF ds inv] by (simp_all add: same_tableD [OF s2])
  have i3: "loc_inv {d} s3" unfolding s3 by (rule new_path_inv [OF i2(1)])
  have l3: "live s3 = live s2" "pending_of s3 = pending_of s2" by (auto simp: s3 live_def new_path_fields pending_of_def new_path_def)
  have k3: "known s3 = known s2" by (simp add: known_def l3 fun_eq_iff)
  have lv: "live s3 d" by (simp add: l3 i2)
  have sub: "set ps \<subseteq> insert (l_npaths s2) (set (paths_of s3 d))" by (rule replace_first_set [OF ps])
  have i4: "loc_inv {d} (set_paths d ps s3)"
  proof (rule set_paths_inv [OF i3 lv])
    show "q < l_npaths s3" if "q \<in> set ps" for q
      using that sub tidyD(3) [OF i3 live_known [OF lv]] by (auto simp: s3 new_path_fields)
    show "set ps \<inter> set (paths_of s3 e) = {}" if e: "known s3 e" "e \<noteq> d" for e
    proof -
      have "l_npaths s2 \<notin> set (paths_of s3 e)" using tidyD(3) [OF i2(1) e(1) [unfolded k3]] by (auto simp: s3 new_path_fields)
      then show ?thesis using sub apartD(1) [OF i3 e(1) live_known [OF lv] e(2)] by auto
    qed
  qed simp
  define s6 where "s6 = index_nexthop (a_nexthop (p_attrs x)) d r m (index_add (pr_obj pr) d
      (displace d (a_nexthop (p_attrs x)) old (set_paths d ps s3)))"
  have s6: "same_table (set_paths d ps s3) s6"
    unfolding s6_def by (rule same_table_trans [OF same_table_trans [OF displace_same same_table_steps(3)] same_table_steps(5)])
  have "loc_inv ({d} - {d}) (loc_enqueue d s6)"
    by (rule loc_enqueue_inv) (simp_all add: same_tableD [OF s6] i4 lv)
  then show "loc_inv {} s'" by (simp add: s' s6_def)
qed

lemma remove_path_inv:
  assumes inv: "loc_inv {} s"
  shows "loc_inv {} (snd (remove_path peer p i s))"
proof -
  obtain b s' where r: "remove_path peer p i s = (b, s')" by fastforce
  from r inv show ?thesis
  proof (rule remove_path_cases)
    assume "\<not> b" "s' = s"
    then show ?thesis using r inv by simp
  next
    fix pr d q ps s1
    assume lv: "live s d" and del: "delete_first (is_path (l_path s) (pr_obj pr) i) (paths_of s d) = (Some q, ps)"
      and s1: "s1 = loc_release q (set_paths d ps s\<lparr>l_path_count := l_path_count s - 1\<rparr>)"
      and s': "s' = unindex_nexthop (path_nexthop s q) d (requeue d (if peer_has (pr_obj pr) d s1 then s1 else index_remove (pr_obj pr) (prefix_of s d) s1))"
    define s2 where "s2 = (if peer_has (pr_obj pr) d s1 then s1 else index_remove (pr_obj pr) (prefix_of s d) s1)"
    have i1: "loc_inv {d} (set_paths d ps s)"
      using loc_inv_mono [OF inv] delete_first_set [OF del] lv by (intro fewer_paths_inv) auto
    have "same_table (set_paths d ps s) s1" unfolding s1 by (rule same_table_trans [OF same_table_steps(9) same_table_steps(1)])
    then have t: "same_table (set_paths d ps s) s2" unfolding s2_def by (auto intro: same_table_trans)
    have "loc_inv ({d} - {d}) (requeue d s2)" by (rule requeue_keeps) (simp_all add: same_tableD [OF t] i1 lv)
    then have "loc_inv {} s'" by (simp add: s' s2_def [symmetric] same_tableD(1) [OF same_table_steps(7)])
    then show ?thesis by (simp add: r)
  qed
qed

section \<open>Indexes\<close>

text \<open>What an index answers for a key and a prefix, and what it should: the destination of the
  prefix, where one of its paths has the key.\<close>

definition look :: "('k, dest_index) pydict \<Rightarrow> 'k \<Rightarrow> prefix \<Rightarrow> nat option" where
  "look ix k p = (case dict_get ix k of None \<Rightarrow> None | Some ds \<Rightarrow> dict_get ds p)"

definition keyed :: "(pheap \<Rightarrow> nat \<Rightarrow> 'k) \<Rightarrow> loc_rib \<Rightarrow> 'k \<Rightarrow> prefix \<Rightarrow> nat option" where
  "keyed key s k p =
    (case dict_get (l_dests s) p of
      None \<Rightarrow> None
    | Some d \<Rightarrow> if \<exists>q\<in>set (paths_of s d). key (l_path s) q = k then Some d else None)"

definition peer_key :: "pheap \<Rightarrow> nat \<Rightarrow> nat" where
  "peer_key h q = pr_obj (p_peer (h q))"

definition hop_key :: "pheap \<Rightarrow> nat \<Rightarrow> bytestr" where
  "hop_key h q = a_nexthop (p_attrs (h q))"

definition inner_distinct :: "('k, dest_index) pydict \<Rightarrow> bool" where
  "inner_distinct ix \<longleftrightarrow> (\<forall>k ds. dict_get ix k = Some ds \<longrightarrow> distinct (map fst ds))"

lemma look_set: "look (dict_set k ds ix) k' p = (if k' = k then dict_get ds p else look ix k' p)"
  by (simp add: look_def dict_get_set)

lemma look_pop: "look (dict_pop k ix) k' p = (if k' = k then None else look ix k' p)"
  by (simp add: look_def dict_get_pop)

lemma inner_distinct_set: "inner_distinct ix \<Longrightarrow> distinct (map fst ds) \<Longrightarrow> inner_distinct (dict_set k ds ix)"
  by (simp add: inner_distinct_def dict_get_set)

lemma inner_distinct_pop: "inner_distinct ix \<Longrightarrow> inner_distinct (dict_pop k ix)"
  by (simp add: inner_distinct_def dict_get_pop)

lemma inner_distinct_get: "inner_distinct ix \<Longrightarrow> distinct (map fst (get_default (dict_get ix k) []))"
  by (cases "dict_get ix k") (simp_all add: inner_distinct_def)

lemma dict_get_default: "dict_get (get_default (dict_get ix k) []) p = look ix k p"
  by (cases "dict_get ix k") (simp_all add: look_def)

lemma look_index_add:
  "look (l_by_peer (index_add peer d s)) k p = (if k = peer \<and> p = prefix_of s d then Some d else look (l_by_peer s) k p)"
  by (simp add: index_add_def Let_def look_set dict_get_set dict_get_default)

lemma look_index_remove:
  "look (l_by_peer (index_remove peer p s)) k p' = (if k = peer \<and> p' = p then None else look (l_by_peer s) k p')"
proof (cases "dict_get (l_by_peer s) peer")
  case None
  then show ?thesis by (simp add: index_remove_def look_def)
next
  case (Some ds)
  have "dict_get (dict_pop p ds) p' = (if p' = p then None else dict_get ds p')" by (rule dict_get_pop)
  with Some show ?thesis
    by (cases "dict_pop p ds = []") (auto simp: index_remove_def Let_def look_def dict_get_set dict_get_pop)
qed

lemma inner_distinct_steps:
  assumes "inner_distinct (l_by_peer s)"
  shows "inner_distinct (l_by_peer (index_add peer d s))" "inner_distinct (l_by_peer (index_remove peer p s))"
proof -
  show "inner_distinct (l_by_peer (index_add peer d s))"
    using inner_distinct_get [OF assms, of peer] by (simp add: index_add_def Let_def inner_distinct_set [OF assms])
  have "distinct (map fst ds)" if "dict_get (l_by_peer s) peer = Some ds" for ds
    using assms that by (simp add: inner_distinct_def)
  then show "inner_distinct (l_by_peer (index_remove peer p s))"
    using assms by (auto simp: index_remove_def Let_def inner_distinct_pop intro!: inner_distinct_set split: option.split)
qed

lemma keyed_cong:
  assumes "l_dests s' = l_dests s"
    and "\<And>p d. dict_get (l_dests s) p = Some d \<Longrightarrow> set (paths_of s' d) = set (paths_of s d)"
    and "\<And>p d q. dict_get (l_dests s) p = Some d \<Longrightarrow> q \<in> set (paths_of s d) \<Longrightarrow> key (l_path s') q = key (l_path s) q"
  shows "keyed key s' = keyed key s"
proof (intro ext)
  fix k p
  show "keyed key s' k p = keyed key s k p"
  proof (cases "dict_get (l_dests s) p")
    case (Some d)
    then show ?thesis using assms(2,3) [OF Some] by (simp add: keyed_def assms(1) cong: bex_cong)
  qed (simp add: keyed_def assms(1))
qed

lemma keyed_same: "same_table s s' \<Longrightarrow> keyed key s' = keyed key s"
  by (rule keyed_cong) (simp_all add: same_table_def)

lemma keyed_enqueue [simp]: "keyed key (loc_enqueue d s) = keyed key s"
  by (rule keyed_cong) simp_all

lemma keyed_set_paths:
  assumes inv: "loc_inv X s" and d: "live s d"
  shows "keyed key (set_paths d ps s) k p =
    (if p = prefix_of s d then if \<exists>q\<in>set ps. key (l_path s) q = k then Some d else None else keyed key s k p)"
proof (cases "p = prefix_of s d")
  case True
  then show ?thesis using d by (simp add: keyed_def set_paths_def live_def)
next
  case False
  have "e \<noteq> d" if "dict_get (l_dests s) p = Some e" for e using loc_invD(4) [OF inv that] False by auto
  then show ?thesis using False by (auto simp: keyed_def set_paths_def split: option.split)
qed

lemma keyed_prefix: "live s d \<Longrightarrow> keyed key s k (prefix_of s d) = (if \<exists>q\<in>set (paths_of s d). key (l_path s) q = k then Some d else None)"
  by (simp add: keyed_def live_def)

lemma keyed_pop:
  assumes "live s d" and "paths_of s d = []"
  shows "keyed key (s\<lparr>l_dests := dict_pop (prefix_of s d) (l_dests s)\<rparr>) = keyed key s"
  using assms by (auto simp: keyed_def dict_get_pop live_def fun_eq_iff split: option.split)

lemma keyed_requeue: "live s d \<Longrightarrow> keyed key (requeue d s) = keyed key s"
  using keyed_pop [of "loc_enqueue d s" d key] by (simp add: requeue_def Let_def)

lemma peer_has_iff: "peer_has peer d s \<longleftrightarrow> (\<exists>q\<in>set (paths_of s d). peer_key (l_path s) q = peer)"
  by (simp add: peer_has_def peer_key_def list_ex_iff)

lemma keyed_new_path:
  assumes inv: "loc_inv X s" and local: "\<And>h h' q. h q = h' q \<Longrightarrow> key h q = key h' q"
  shows "keyed key (snd (new_path b x s)) = keyed key s"
proof (rule keyed_cong)
  show "key (l_path (snd (new_path b x s))) q = key (l_path s) q"
    if "dict_get (l_dests s) p = Some d" "q \<in> set (paths_of s d)" for p d q
  proof (rule local)
    have "q < l_npaths s" using tidyD(3) [OF inv live_known [OF liveI [OF inv that(1)]]] that(2) .
    then show "l_path (snd (new_path b x s)) q = l_path s q" by (simp add: new_path_fields)
  qed
qed (simp_all add: new_path_fields)

lemma keyed_loc_dest:
  assumes "loc_dest p s = Inr (d, s')" and inv: "loc_inv X s"
  shows "keyed key s' = keyed key s"
proof -
  from assms(1) obtain q where p: "p = Some q" by (auto simp: loc_dest_def split: option.splits)
  show ?thesis
  proof (cases "dict_get (l_dests s) q")
    case None
    then have e: "s' = s\<lparr>l_dest := (l_dest s)(l_ndests s := new_bgp_dest q), l_ndests := l_ndests s + 1,
      l_dests := dict_set q (l_ndests s) (l_dests s)\<rparr>"
      using assms(1) p by (auto simp: loc_dest_def split: if_splits)
    have "e \<noteq> l_ndests s" if "dict_get (l_dests s) r = Some e" for r e
      using tidyD(1) [OF inv live_known [OF liveI [OF inv that]]] by simp
    then show ?thesis
      using None by (auto simp: keyed_def e dict_get_set new_bgp_dest_def fun_eq_iff split: option.split)
  next
    case (Some e)
    then show ?thesis using assms(1) p by (auto simp: loc_dest_def split: if_splits)
  qed
qed

end
