(* ===== verification/LocRibIndex.thy ===== *)
theory LocRibIndex
  imports LocRibRun
begin

text \<open>
  The index of the destinations by peer is exact through every operation, which is what makes
  tearing down a session remove all of its paths and no other; the remaining operations keep
  what is published in step.
\<close>

section \<open>The index by peer\<close>

definition peers_but :: "nat set \<Rightarrow> loc_rib \<Rightarrow> bool" where
  "peers_but P s \<longleftrightarrow> inner_distinct (l_by_peer s)
    \<and> (\<forall>k p. look (l_by_peer s) k p = (if k \<in> P then None else keyed peer_key s k p))"

lemma peers_butD:
  "peers_but P s \<Longrightarrow> inner_distinct (l_by_peer s)"
  "peers_but P s \<Longrightarrow> look (l_by_peer s) k p = (if k \<in> P then None else keyed peer_key s k p)"
  by (simp_all add: peers_but_def)

lemma peers_frame:
  "peers_but P s \<Longrightarrow> l_by_peer s' = l_by_peer s \<Longrightarrow> keyed peer_key s' = keyed peer_key s \<Longrightarrow> peers_but P s'"
  by (simp add: peers_but_def)

lemma by_peer_frames [simp]:
  "l_by_peer (loc_release q s) = l_by_peer s" "l_by_peer (snd (loc_intern a s)) = l_by_peer s"
  "l_by_peer (store_nexthop nh ds s) = l_by_peer s" "l_by_peer (prune_nexthop nh s) = l_by_peer s"
  "l_by_peer (index_nexthop nh d r m s) = l_by_peer s" "l_by_peer (unindex_nexthop nh d s) = l_by_peer s"
  "l_by_peer (set_paths d ps s) = l_by_peer s" "l_by_peer (loc_enqueue d s) = l_by_peer s"
  "l_by_peer (snd (new_path b x s)) = l_by_peer s" "l_by_peer (displace d nh old s) = l_by_peer s" "l_by_peer (requeue d s) = l_by_peer s"
proof -
  show e: "l_by_peer (store_nexthop nh ds s) = l_by_peer s" "l_by_peer (loc_release q s) = l_by_peer s"
    "l_by_peer (loc_enqueue d s) = l_by_peer s" for nh ds q d and s :: loc_rib
    by (simp_all add: store_nexthop_def loc_release_def loc_enqueue_def upd_dest_def split: prod.split)
  show u: "l_by_peer (unindex_nexthop nh d s) = l_by_peer s" for nh and s :: loc_rib
    by (simp add: unindex_nexthop_def e split: option.split)
  show "l_by_peer (snd (loc_intern a s)) = l_by_peer s" "l_by_peer (prune_nexthop nh s) = l_by_peer s"
    "l_by_peer (index_nexthop nh d r m s) = l_by_peer s" "l_by_peer (set_paths d ps s) = l_by_peer s"
    "l_by_peer (snd (new_path b x s)) = l_by_peer s" "l_by_peer (requeue d s) = l_by_peer s"
    by (simp_all add: loc_intern_def prune_nexthop_def e index_nexthop_def set_paths_def upd_dest_def new_path_def requeue_def Let_def
        split: prod.split)
  show "l_by_peer (displace d nh old s) = l_by_peer s" by (simp add: displace_def Let_def e u split: option.split)
qed

lemma loc_dest_by_peer: "loc_dest p s = Inr (d, s') \<Longrightarrow> l_by_peer s' = l_by_peer s"
  by (auto simp: loc_dest_def split: option.splits if_splits)

lemma replace_first_keys:
  "replace_first Q x ys = (old, zs) \<Longrightarrow> (\<And>y. Q y \<Longrightarrow> f y = f x) \<Longrightarrow> f ` set zs = insert (f x) (f ` set ys)"
proof (induction ys arbitrary: old zs)
  case (Cons y ys)
  show ?case
  proof (cases "Q y")
    case True
    then show ?thesis using Cons.prems by auto
  next
    case False
    obtain o' ws where w: "replace_first Q x ys = (o', ws)" by fastforce
    then have "zs = y # ws" using Cons.prems(1) False by simp
    then show ?thesis using Cons.IH [OF w Cons.prems(2)] by (simp add: insert_commute)
  qed
qed simp

lemma delete_first_keys:
  "delete_first Q ys = (old, zs) \<Longrightarrow> (\<And>y. Q y \<Longrightarrow> f y = c) \<Longrightarrow> k \<noteq> c \<Longrightarrow> (\<exists>q\<in>set zs. f q = k) = (\<exists>q\<in>set ys. f q = k)"
proof (induction ys arbitrary: old zs)
  case (Cons y ys)
  then show ?case by (cases "Q y") (auto split: prod.splits)
qed simp

lemma delete_first_found: "delete_first Q ys = (Some q, zs) \<Longrightarrow> q \<in> set ys \<and> Q q"
  by (induction ys arbitrary: zs) (auto split: if_splits prod.splits)

lemma is_path_peer: "is_path h peer i q \<Longrightarrow> peer_key h q = peer"
  by (simp add: is_path_def peer_key_def)

lemma peer_key_local: "h q = h' q \<Longrightarrow> peer_key h q = peer_key h' q"
  by (simp add: peer_key_def)

lemma add_path_peers:
  assumes inv: "loc_inv {} s" and peers: "peers_but {} s" and add: "add_path peer p attrs i w src m t r keep s = Inr s'"
  shows "peers_but {} s'"
  using add
proof (rule add_path_cases)
  fix pr a d s1 b s2 x s3 old ps
  assume ds: "loc_dest p s = Inr (d, s1)" and i: "loc_intern a s1 = (b, s2)" and s3: "s3 = snd (new_path b x s2)"
    and x: "x = new_bgp_path (l_sets s2 b) (Some pr) i w src m (if keep then held_time s1 d (pr_obj pr) i t else t) r"
    and ps: "replace_first (is_path (l_path s3) (pr_obj pr) i) (l_npaths s2) (paths_of s3 d) = (old, ps)"
    and s': "s' = loc_enqueue d (index_nexthop (a_nexthop (p_attrs x)) d r m (index_add (pr_obj pr) d
      (displace d (a_nexthop (p_attrs x)) old (set_paths d ps s3))))"
  have s2: "s2 = snd (loc_intern a s1)" "same_table s1 s2" using same_table_steps(2) [of s1 a] by (simp_all add: i)
  have i2: "loc_inv {d} s2" "live s2 d" using loc_dest_inv [OF ds inv] by (simp_all add: same_tableD [OF s2(2)])
  have i3: "loc_inv {d} s3" unfolding s3 by (rule new_path_inv [OF i2(1)])
  have lv: "live s3 d" using i2(2) by (simp add: s3 live_def new_path_fields)
  have keyed3: "keyed peer_key s3 = keyed peer_key s"
    using keyed_new_path [OF i2(1), where key = peer_key and b = b and x = x, OF peer_key_local] keyed_same [OF s2(2), of peer_key]
      keyed_loc_dest [OF ds inv, of peer_key] by (simp add: s3)
  have by3: "l_by_peer s3 = l_by_peer s" by (simp add: s3 s2(1) loc_dest_by_peer [OF ds])
  have kx: "peer_key (l_path s3) (l_npaths s2) = pr_obj pr" by (simp add: s3 new_path_fields x new_bgp_path_def peer_key_def)
  have "peer_key (l_path s3) ` set ps = insert (peer_key (l_path s3) (l_npaths s2)) (peer_key (l_path s3) ` set (paths_of s3 d))"
    by (rule replace_first_keys [OF ps]) (simp add: is_path_peer kx)
  moreover have "(\<exists>q\<in>S. peer_key (l_path s3) q = k) \<longleftrightarrow> k \<in> peer_key (l_path s3) ` S" for S k by auto
  ultimately have keys: "(\<exists>q\<in>set ps. peer_key (l_path s3) q = k) \<longleftrightarrow> k = pr_obj pr \<or> (\<exists>q\<in>set (paths_of s3 d). peer_key (l_path s3) q = k)" for k
    by (simp add: kx)
  define s5 where "s5 = displace d (a_nexthop (p_attrs x)) old (set_paths d ps s3)"
  have s5: "same_table (set_paths d ps s3) s5" unfolding s5_def by (rule displace_same)
  have pd: "prefix_of s5 d = prefix_of s3 d" using s5 by (simp add: same_table_def set_paths_def)
  have "keyed peer_key s' = keyed peer_key (set_paths d ps s3)"
    using keyed_same [OF same_table_trans [OF s5 same_table_trans [OF same_table_steps(3) same_table_steps(5)]]] by (simp add: s' s5_def)
  then have k': "keyed peer_key s' k p = (if k = pr_obj pr \<and> p = prefix_of s3 d then Some d else keyed peer_key s k p)" for k p
    using keyed_set_paths [OF i3 lv, of peer_key ps k p] keys [of k] keyed_prefix [OF lv, of peer_key k]
    by (auto simp: keyed3)
  have by5: "l_by_peer s5 = l_by_peer s" by (simp add: s5_def by3)
  have look': "look (l_by_peer s') k p = (if k = pr_obj pr \<and> p = prefix_of s3 d then Some d else look (l_by_peer s) k p)" for k p
    by (simp add: s' s5_def [symmetric] look_index_add pd by5)
  have "inner_distinct (l_by_peer s')"
    using inner_distinct_steps(1) [of s5] peers_butD(1) [OF peers] by (simp add: s' s5_def [symmetric] by5)
  then show "peers_but {} s'" using peers_butD(2) [OF peers] by (simp add: peers_but_def k' look')
qed

lemma remove_path_peers:
  assumes inv: "loc_inv {} s" and peers: "peers_but {} s"
  shows "peers_but {} (snd (remove_path peer p i s))"
proof -
  obtain b s' where r: "remove_path peer p i s = (b, s')" by fastforce
  from r inv show ?thesis
  proof (rule remove_path_cases)
    assume "\<not> b" "s' = s"
    then show ?thesis using r peers by simp
  next
    fix pr d q ps s1
    assume lv: "live s d" and del: "delete_first (is_path (l_path s) (pr_obj pr) i) (paths_of s d) = (Some q, ps)"
      and s1: "s1 = loc_release q (set_paths d ps s\<lparr>l_path_count := l_path_count s - 1\<rparr>)"
      and s': "s' = unindex_nexthop (path_nexthop s q) d (requeue d (if peer_has (pr_obj pr) d s1 then s1 else index_remove (pr_obj pr) (prefix_of s d) s1))"
    define s2 where "s2 = (if peer_has (pr_obj pr) d s1 then s1 else index_remove (pr_obj pr) (prefix_of s d) s1)"
    have t1: "same_table (set_paths d ps s) s1" unfolding s1 by (rule same_table_trans [OF same_table_steps(9) same_table_steps(1)])
    then have t: "same_table (set_paths d ps s) s2" unfolding s2_def by (auto intro: same_table_trans)
    have lv2: "live s2 d" by (simp add: same_tableD [OF t] lv)
    have k2: "keyed peer_key s' = keyed peer_key (set_paths d ps s)"
      using keyed_same [OF t, of peer_key] keyed_requeue [OF lv2, of peer_key] keyed_same [OF same_table_steps(7), of peer_key]
      by (simp add: s' s2_def [symmetric])
    have rest: "(\<exists>q\<in>set ps. peer_key (l_path s) q = k) = (\<exists>q\<in>set (paths_of s d). peer_key (l_path s) q = k)" if "k \<noteq> pr_obj pr" for k
      by (rule delete_first_keys [OF del is_path_peer that])
    have q: "q \<in> set (paths_of s d)" "peer_key (l_path s) q = pr_obj pr"
      using delete_first_found [OF del] is_path_peer by auto
    have has: "peer_has (pr_obj pr) d s1 \<longleftrightarrow> (\<exists>q\<in>set ps. peer_key (l_path s) q = pr_obj pr)"
      using t1 by (simp add: peer_has_iff same_table_def set_paths_def)
    have k': "keyed peer_key s' k p = (if k = pr_obj pr \<and> p = prefix_of s d then if peer_has (pr_obj pr) d s1 then Some d else None
        else keyed peer_key s k p)" for k p
      using keyed_set_paths [OF inv lv, of peer_key ps k p] rest [of k] keyed_prefix [OF lv, of peer_key k] has by (auto simp: k2)
    have old: "look (l_by_peer s) (pr_obj pr) (prefix_of s d) = Some d"
      using peers_butD(2) [OF peers] keyed_prefix [OF lv, of peer_key "pr_obj pr"] q by auto
    have by1: "l_by_peer s1 = l_by_peer s" by (simp add: s1)
    have by2: "l_by_peer s' = (if peer_has (pr_obj pr) d s1 then l_by_peer s else l_by_peer (index_remove (pr_obj pr) (prefix_of s d) s1))"
      by (simp add: s' by1)
    have "inner_distinct (l_by_peer s')"
      using inner_distinct_steps(2) [of s1] peers_butD(1) [OF peers] by (simp add: by2 by1)
    moreover have "look (l_by_peer s') k p = keyed peer_key s' k p" for k p
      using old peers_butD(2) [OF peers] unfolding by2 k' by (simp add: look_index_remove by1)
    ultimately show ?thesis by (simp add: r peers_but_def)
  qed
qed


section \<open>A session that goes\<close>

lemma release_fold [simp]:
  "l_path_count (fold loc_release qs s) = l_path_count s" "l_by_peer (fold loc_release qs s) = l_by_peer s"
  "l_nh_dests (fold loc_release qs s) = l_nh_dests s" "l_nh_state (fold loc_release qs s) = l_nh_state s"
  by (induction qs arbitrary: s) (simp_all add: loc_release_def split: prod.split)

lemma unindex_fold:
  "same_table s (fold (\<lambda>q s. unindex_nexthop (path_nexthop s q) d s) qs s)"
  "l_by_peer (fold (\<lambda>q s. unindex_nexthop (path_nexthop s q) d s) qs s) = l_by_peer s"
proof (induction qs arbitrary: s)
  case (Cons q qs)
  {
    case 1
    show ?case using same_table_trans [OF same_table_steps(7) Cons.IH(1)] by simp
  next
    case 2
    show ?case by (simp add: Cons.IH(2))
  }
qed simp_all

definition of_peer :: "nat \<Rightarrow> loc_rib \<Rightarrow> nat \<Rightarrow> nat list" where
  "of_peer peer s d = filter (\<lambda>q. peer_key (l_path s) q = peer) (paths_of s d)"

definition others :: "nat \<Rightarrow> loc_rib \<Rightarrow> nat \<Rightarrow> nat list" where
  "others peer s d = filter (\<lambda>q. peer_key (l_path s) q \<noteq> peer) (paths_of s d)"

definition dropped :: "nat \<Rightarrow> nat \<Rightarrow> loc_rib \<Rightarrow> loc_rib" where
  "dropped peer d s =
    (set_paths d (others peer s d) (fold loc_release (of_peer peer s d) s))\<lparr>l_path_count := l_path_count s - int (length (of_peer peer s d))\<rparr>"

lemma remove_peer_dest_eq:
  assumes lv: "live s d"
  shows "remove_peer_dest peer (prefix_of s d) d s =
    (if of_peer peer s d = [] then (0, s)
     else (length (of_peer peer s d),
           fold (\<lambda>q s. unindex_nexthop (path_nexthop s q) d s) (of_peer peer s d) (requeue d (dropped peer d s))))"
proof -
  define s1 where "s1 = fold loc_release (of_peer peer s d) s"
  have t: "same_table s s1" unfolding s1_def by (rule same_table_fold) simp
  have f: "l_path s1 = l_path s" "l_dest s1 = l_dest s" "l_dests s1 = l_dests s" using t by (simp_all add: same_table_def)
  have mine: "filter (\<lambda>q. pr_obj (p_peer (l_path s q)) = peer) (paths_of s d) = of_peer peer s d"
    and keep: "filter (\<lambda>q. pr_obj (p_peer (l_path s q)) \<noteq> peer) (paths_of s d) = others peer s d"
    by (simp_all add: of_peer_def others_def peer_key_def)
  have rem: "dest_remove_peer (l_path s1) peer (l_dest s1 d) = (length (of_peer peer s d),
      if of_peer peer s d \<noteq> [] then (l_dest s d)\<lparr>d_paths := others peer s d\<rparr> else l_dest s d)"
    by (simp add: dest_remove_peer_def f mine keep)
  show ?thesis
  proof (cases "of_peer peer s d = []")
    case True
    then have "upd_dest d (\<lambda>_. l_dest s d) s1 = s" by (simp add: s1_def upd_dest_def)
    then show ?thesis
      using True unfolding remove_peer_dest_def mine s1_def [symmetric] Let_def rem prod.case by simp
  next
    case False
    have u: "upd_dest d (\<lambda>_. (l_dest s d)\<lparr>d_paths := others peer s d\<rparr>) s1 = set_paths d (others peer s d) s1"
      by (simp add: set_paths_def upd_dest_def f)
    have pc: "l_path_count (set_paths d (others peer s d) s1) = l_path_count s"
      by (simp add: s1_def set_paths_def upd_dest_def)
    define s2 where "s2 = loc_enqueue d (dropped peer d s)"
    have d2: "dict_get (l_dests s2) (prefix_of s d) = Some d" "prefix_of s2 d = prefix_of s d"
      using lv by (simp_all add: s2_def dropped_def s1_def [symmetric] set_paths_def f live_def)
    have r: "requeue d (dropped peer d s) = (if paths_of s2 d = [] \<and> dict_get (l_dests s2) (prefix_of s d) = Some d
        then s2\<lparr>l_dests := dict_pop (prefix_of s d) (l_dests s2)\<rparr> else s2)"
      by (simp add: requeue_def Let_def s2_def [symmetric] d2)
    have e: "loc_enqueue d (set_paths d (others peer s d) s1\<lparr>l_path_count := l_path_count s - int (length (of_peer peer s d))\<rparr>) = s2"
      by (simp add: s2_def dropped_def s1_def)
    show ?thesis
      using False unfolding remove_peer_dest_def mine s1_def [symmetric] Let_def rem prod.case r
      by (simp add: u pc e)
  qed
qed

lemma dropped_same: "same_table (set_paths d (others peer s d) s) (dropped peer d s)"
proof -
  have "same_table s (fold loc_release (of_peer peer s d) s)" by (rule same_table_fold) simp
  then show ?thesis by (simp add: dropped_def same_table_def set_paths_def upd_dest_def)
qed

lemma remove_peer_dest_keeps:
  assumes inv: "loc_inv {} s" and lv: "live s d" and r: "remove_peer_dest peer (prefix_of s d) d s = (n, s')"
  shows "loc_inv {} s' \<and> l_by_peer s' = l_by_peer s \<and> l_path s' = l_path s \<and> n = length (of_peer peer s d)
    \<and> keyed peer_key s' k p = (if k = peer \<and> p = prefix_of s d then None else keyed peer_key s k p)
    \<and> (p \<noteq> prefix_of s d \<longrightarrow> dict_get (l_dests s') p = dict_get (l_dests s) p)
    \<and> paths_for p s' = (if p = prefix_of s d then others peer s d else paths_for p s)"
proof (cases "of_peer peer s d = []")
  case True
  then have e: "s' = s" "n = 0" using r remove_peer_dest_eq [OF lv] by simp_all
  have "others peer s d = paths_of s d" using True by (auto simp: others_def of_peer_def filter_empty_conv)
  moreover have "keyed peer_key s peer (prefix_of s d) = None"
    using True by (auto simp: keyed_prefix [OF lv] of_peer_def filter_empty_conv)
  moreover have "dict_get (l_dests s) (prefix_of s d) = Some d" using lv by (simp add: live_def)
  ultimately show ?thesis
    using inv by (simp add: e paths_for_def True)
next
  case False
  define s1 where "s1 = set_paths d (others peer s d) s"
  define s2 where "s2 = dropped peer d s"
  define s3 where "s3 = requeue d s2"
  have s': "s' = fold (\<lambda>q s. unindex_nexthop (path_nexthop s q) d s) (of_peer peer s d) s3" "n = length (of_peer peer s d)"
    using r False remove_peer_dest_eq [OF lv, of peer] by (simp_all add: s3_def s2_def)
  have t2: "same_table s1 s2" unfolding s1_def s2_def by (rule dropped_same)
  have t3: "same_table s3 s'" unfolding s' by (rule unindex_fold)
  have i1: "loc_inv {d} s1" unfolding s1_def by (rule fewer_paths_inv [OF loc_inv_mono [OF inv] lv]) (auto simp: others_def)
  have lv2: "live s2 d" by (simp add: same_tableD [OF t2]) (simp add: s1_def lv)
  have "loc_inv ({d} - {d}) s3" unfolding s3_def by (rule requeue_keeps) (simp_all add: same_tableD(1) [OF t2] i1 lv2)
  then have "loc_inv {} s'" by (simp add: same_tableD(1) [OF t3])
  moreover have "l_by_peer s' = l_by_peer s"
    unfolding s'(1) unindex_fold(2) by (simp add: s3_def s2_def dropped_def)
  moreover have "l_path s' = l_path s"
    using t3 t2 by (simp add: same_table_def s3_def requeue_def Let_def s1_def set_paths_def)
  moreover have "keyed peer_key s' k p = (if k = peer \<and> p = prefix_of s d then None else keyed peer_key s k p)"
  proof -
    have "keyed peer_key s' = keyed peer_key s1"
      using keyed_same [OF t3] keyed_requeue [OF lv2] keyed_same [OF t2] by (metis s3_def)
    then show ?thesis
      using keyed_set_paths [OF inv lv, of peer_key "others peer s d" k p] keyed_prefix [OF lv, of peer_key k]
      by (auto simp: s1_def others_def)
  qed
  moreover have d2: "l_dests s2 = l_dests s" "prefix_of s2 d = prefix_of s d" "l_dest s2 = l_dest s1"
    using t2 by (simp_all add: same_table_def s1_def set_paths_def)
  have d3: "l_dests s' = l_dests s3" "l_dest s' = l_dest s3" using t3 by (simp_all add: same_table_def)
  have get3: "dict_get (l_dests s3) p = (if p = prefix_of s d \<and> others peer s d = [] then None else dict_get (l_dests s) p)" for p
    by (simp add: s3_def requeue_def Let_def d2 dict_get_pop) (simp add: d2 s1_def set_paths_def)
  moreover have "p \<noteq> prefix_of s d \<longrightarrow> dict_get (l_dests s') p = dict_get (l_dests s) p" by (simp add: d3 get3)
  moreover have "paths_for p s' = (if p = prefix_of s d then others peer s d else paths_for p s)"
  proof -
    have po: "paths_of s3 e = (if e = d then others peer s d else paths_of s e)" for e
      by (simp add: s3_def requeue_def Let_def d2 s1_def set_paths_def)
    have "e \<noteq> d" if "dict_get (l_dests s) p = Some e" "p \<noteq> prefix_of s d" for e
      using loc_invD(4) [OF inv that(1)] that(2) by auto
    then show ?thesis using lv by (auto simp: paths_for_def d3 get3 po live_def split: option.split)
  qed
  ultimately show ?thesis
    using s'(2) by blast
qed


lemma paths_for_live: "dict_get (l_dests s) p = Some d \<Longrightarrow> paths_for p s = paths_of s d"
  by (simp add: paths_for_def)

lemma paths_for_cong: "l_dests s' = l_dests s \<Longrightarrow> (\<And>d. paths_of s' d = paths_of s d) \<Longrightarrow> paths_for p s' = paths_for p s"
  by (simp add: paths_for_def split: option.split)

lemma paths_for_same: "same_table s s' \<Longrightarrow> paths_for p s' = paths_for p s"
  by (rule paths_for_cong) (simp_all add: same_table_def)

abbreviation drop_peer_step :: "nat \<Rightarrow> prefix \<times> nat \<Rightarrow> nat \<times> loc_rib \<Rightarrow> nat \<times> loc_rib" where
  "drop_peer_step peer \<equiv> \<lambda>(p, d) (n, s). case remove_peer_dest peer p d s of (k, s) \<Rightarrow> (n + k, s)"

lemma remove_peer_fold:
  assumes "loc_inv {} s" and "distinct (map fst cs)" and "\<And>p d. (p, d) \<in> set cs \<Longrightarrow> dict_get (l_dests s) p = Some d"
    and "fold (drop_peer_step peer) cs (n, s) = (m, s')"
  shows "loc_inv {} s' \<and> l_by_peer s' = l_by_peer s \<and> l_path s' = l_path s
    \<and> (\<forall>k p. keyed peer_key s' k p = (if k = peer \<and> p \<in> fst ` set cs then None else keyed peer_key s k p))
    \<and> (\<forall>p. paths_for p s' = (if p \<in> fst ` set cs then filter (\<lambda>q. peer_key (l_path s) q \<noteq> peer) (paths_for p s) else paths_for p s))"
  using assms
proof (induction cs arbitrary: n s)
  case (Cons c cs)
  obtain p d where c: "c = (p, d)" by fastforce
  have get: "dict_get (l_dests s) p = Some d" using Cons.prems(3) c by simp
  have d: "live s d" "prefix_of s d = p" using liveI loc_invD(4) Cons.prems(1) get by blast+
  obtain k s1 where r: "remove_peer_dest peer (prefix_of s d) d s = (k, s1)" by fastforce
  note K = remove_peer_dest_keeps [OF Cons.prems(1) d(1) r, unfolded d(2)]
  have p: "p \<notin> fst ` set cs" using Cons.prems(2) c by auto
  have rest: "dict_get (l_dests s1) p' = Some d'" if "(p', d') \<in> set cs" for p' d'
  proof -
    have "p' \<noteq> p" using that p by force
    then show ?thesis using K [of _ p'] Cons.prems(3) [of p' d'] that by simp
  qed
  have "fold (drop_peer_step peer) cs (n + k, s1) = (m, s')" using Cons.prems(4) r by (simp add: c d(2))
  from Cons.IH [OF _ _ rest this] K Cons.prems(2) have IH: "loc_inv {} s'" "l_by_peer s' = l_by_peer s1" "l_path s' = l_path s1"
    "\<And>k p. keyed peer_key s' k p = (if k = peer \<and> p \<in> fst ` set cs then None else keyed peer_key s1 k p)"
    "\<And>p. paths_for p s' = (if p \<in> fst ` set cs then filter (\<lambda>q. peer_key (l_path s1) q \<noteq> peer) (paths_for p s1) else paths_for p s1)"
    by simp_all
  have "others peer s d = filter (\<lambda>q. peer_key (l_path s) q \<noteq> peer) (paths_for p s)"
    by (simp add: others_def paths_for_live [OF get])
  then show ?case using IH K p by (simp add: c)
qed simp

lemma remove_peer_keeps:
  assumes inv: "loc_inv {} s" and peers: "peers_but {} s" and r: "remove_peer (Some pr) s = (n, s')"
  shows "loc_inv {} s'" "peers_but {} s'" "l_path s' = l_path s"
    "paths_for p s' = filter (\<lambda>q. pr_obj (p_peer (l_path s q)) \<noteq> pr_obj pr) (paths_for p s)"
proof -
  let ?k = "pr_obj pr"
  have spared: "look (l_by_peer s) ?k p = None \<longrightarrow> filter (\<lambda>q. peer_key (l_path s) q \<noteq> ?k) (paths_for p s) = paths_for p s" for p
  proof (cases "dict_get (l_dests s) p")
    case (Some d)
    then show ?thesis
      using peers_butD(2) [OF peers, of ?k p] by (auto simp: keyed_def paths_for_def filter_id_conv split: if_splits)
  qed (simp add: paths_for_def)
  have "loc_inv {} s' \<and> peers_but {} s' \<and> l_path s' = l_path s
    \<and> (\<forall>p. paths_for p s' = filter (\<lambda>q. peer_key (l_path s) q \<noteq> ?k) (paths_for p s))"
  proof (cases "dict_get (l_by_peer s) ?k")
    case None
    then have e: "s' = s" "\<forall>p. look (l_by_peer s) ?k p = None" using r by (simp_all add: remove_peer_def look_def)
    have "\<forall>p. paths_for p s = filter (\<lambda>q. peer_key (l_path s) q \<noteq> ?k) (paths_for p s)" using spared e(2) by metis
    then show ?thesis using inv peers e(1) by simp
  next
    case (Some cs)
    let ?s = "s\<lparr>l_by_peer := dict_pop ?k (l_by_peer s)\<rparr>"
    have same: "same_table s ?s" by simp
    have lk: "look (l_by_peer s) ?k p = dict_get cs p" for p by (simp add: look_def Some)
    have dist: "distinct (map fst cs)" using peers_butD(1) [OF peers] Some by (simp add: inner_distinct_def)
    have in_table: "dict_get (l_dests ?s) p = Some d" if "(p, d) \<in> set cs" for p d
      using peers_butD(2) [OF peers, of ?k p] lk [of p] map_of_is_SomeI [OF dist that]
      by (auto simp: keyed_def split: option.splits if_splits)
    have fold: "fold (drop_peer_step ?k) cs (0, ?s) = (n, s')" using r Some by (simp add: remove_peer_def)
    have "loc_inv {} ?s" using inv by (simp add: same_tableD(1) [OF same])
    note F = remove_peer_fold [OF this dist in_table fold]
    have outside: "look (l_by_peer s) ?k p = None \<longleftrightarrow> p \<notin> fst ` set cs" for p by (simp add: lk dict_get_None_iff)
    have paths: "paths_for p s' = filter (\<lambda>q. peer_key (l_path s) q \<noteq> ?k) (paths_for p s)" for p
      using F spared [of p] outside [of p] paths_for_same [OF same] by simp
    have "keyed peer_key s' k p = (if k = ?k then None else keyed peer_key s k p)" for k p
      using F outside [of p] peers_butD(2) [OF peers, of ?k p] keyed_same [OF same, of peer_key] by auto
    then have "peers_but {} s'"
      using F peers_butD [OF peers] by (simp add: peers_but_def look_pop inner_distinct_pop)
    then show ?thesis using F paths by simp
  qed
  then show "loc_inv {} s'" "peers_but {} s'" "l_path s' = l_path s"
    "paths_for p s' = filter (\<lambda>q. pr_obj (p_peer (l_path s q)) \<noteq> pr_obj pr) (paths_for p s)"
    by (simp_all add: peer_key_def)
qed

section \<open>Reconfiguration\<close>

lemma enqueue_all_inv:
  assumes "loc_inv X s" and "\<And>p d. (p, d) \<in> set xs \<Longrightarrow> live s d"
  shows "loc_inv (X - snd ` set xs) (fold (\<lambda>(_, d). loc_enqueue d) xs s)"
  using assms
proof (induction xs arbitrary: X s)
  case (Cons x xs)
  obtain p d where x: "x = (p, d)" by fastforce
  have "live s d" by (rule Cons.prems(2) [of p]) (simp add: x)
  then have "loc_inv (X - {d}) (loc_enqueue d s)" by (rule loc_enqueue_inv [OF Cons.prems(1)])
  moreover have "live (loc_enqueue d s) d'" if "(p', d') \<in> set xs" for p' d' using Cons.prems(2) [of p' d'] that by simp
  ultimately have "loc_inv (X - {d} - snd ` set xs) (fold (\<lambda>(_, d). loc_enqueue d) xs (loc_enqueue d s))" by (rule Cons.IH)
  moreover have "X - snd ` set (x # xs) = X - {d} - snd ` set xs" by (auto simp: x)
  ultimately show ?case by (simp only: fold.simps comp_apply x prod.case)
qed simp

lemma enqueue_all_frame:
  "l_by_peer (fold (\<lambda>(_, d). loc_enqueue d) xs s) = l_by_peer s"
  "keyed key (fold (\<lambda>(_, d). loc_enqueue d) xs s) = keyed key s"
  by (induction xs arbitrary: s) auto

lemma entry_live: "loc_inv X s \<Longrightarrow> (p, d) \<in> set (l_dests s) \<Longrightarrow> live s d"
  using loc_invD(3) liveI map_of_is_SomeI by metis

lemma set_config_inv:
  assumes inv: "loc_inv {} s"
  shows "loc_inv {} (snd (set_config cfg s))"
proof -
  let ?L = "{d. live s d}"
  have "loc_inv {} (fold (\<lambda>(_, d). loc_enqueue d) (l_dests s) (s\<lparr>l_config := c\<rparr>))" for c
  proof -
    let ?s = "s\<lparr>l_config := c\<rparr>"
    have lv: "live ?s = live s" by (simp add: live_def fun_eq_iff)
    have "loc_inv ?L ?s" by (rule config_inv [OF loc_inv_mono [OF inv]]) simp_all
    then have "loc_inv (?L - snd ` set (l_dests s)) (fold (\<lambda>(_, d). loc_enqueue d) (l_dests s) ?s)"
      using entry_live [OF inv] by (intro enqueue_all_inv) (simp_all add: lv)
    moreover have "?L - snd ` set (l_dests s) = {}" by (force simp: live_def dest: map_of_SomeD)
    ultimately show ?thesis by simp
  qed
  then show ?thesis using inv by (simp add: set_config_def split: option.split)
qed

lemma set_config_peers:
  assumes "peers_but {} s"
  shows "peers_but {} (snd (set_config cfg s))"
proof -
  have "keyed peer_key (s\<lparr>l_config := c\<rparr>) = keyed peer_key s" for c by (rule keyed_cong) simp_all
  then show ?thesis
    using assms by (auto simp: set_config_def enqueue_all_frame intro!: peers_frame [OF assms] split: option.split)
qed

section \<open>Next hops tested again\<close>

lemma answers_eq:
  "fold (\<lambda>q h. h(q := (h q)\<lparr>p_resolved := r, p_igp_metric := m\<rparr>)) qs h w
    = (if w \<in> set qs then (h w)\<lparr>p_resolved := r, p_igp_metric := m\<rparr> else h w)"
  by (induction qs arbitrary: h) auto

lemma answer_dest_keeps:
  assumes inv: "loc_inv {} s" and lv: "live s d" and r: "answer_dest nh a d (n, s) = (n', s')"
  shows "loc_inv {} s'" "l_by_peer s' = l_by_peer s" "keyed peer_key s' = keyed peer_key s" "l_dests s' = l_dests s" "live s' = live s"
proof -
  define qs where "qs = filter (stale_answer s nh a) (paths_of s d)"
  define s1 where "s1 = s\<lparr>l_path := fold (\<lambda>q h. h(q := (h q)\<lparr>p_resolved := fst a, p_igp_metric := snd a\<rparr>)) qs (l_path s)\<rparr>"
  have s': "s' = (if qs = [] then s else loc_enqueue d s1)"
    using r by (simp add: answer_dest_def qs_def [symmetric] s1_def [symmetric] Let_def split: if_splits)
  have lv1: "live s1 = live s" by (simp add: live_def s1_def fun_eq_iff)
  have "loc_inv {d} s1"
    unfolding s1_def by (rule answers_inv [OF loc_inv_mono [OF inv] lv]) (auto simp: qs_def)
  then have "loc_inv ({d} - {d}) (loc_enqueue d s1)" by (rule loc_enqueue_inv) (simp add: lv1 lv)
  then show "loc_inv {} s'" using inv by (simp add: s')
  have "keyed peer_key s1 = keyed peer_key s" by (rule keyed_cong) (simp_all add: s1_def answers_eq peer_key_def)
  then show "l_by_peer s' = l_by_peer s" "keyed peer_key s' = keyed peer_key s" "l_dests s' = l_dests s" "live s' = live s"
    by (simp_all add: s' lv1) (simp_all add: s1_def)
qed

lemma answer_fold_keeps:
  assumes "loc_inv {} s" and "\<And>p d. (p, d) \<in> set xs \<Longrightarrow> live s d" and "fold (\<lambda>(p, d). answer_dest nh a d) xs (n, s) = (n', s')"
  shows "loc_inv {} s' \<and> l_by_peer s' = l_by_peer s \<and> keyed peer_key s' = keyed peer_key s"
  using assms
proof (induction xs arbitrary: n s)
  case (Cons x xs)
  obtain p d where x: "x = (p, d)" by fastforce
  obtain k s1 where a: "answer_dest nh a d (n, s) = (k, s1)" by fastforce
  have lv: "live s d" by (rule Cons.prems(2) [of p]) (simp add: x)
  note K = answer_dest_keeps [OF Cons.prems(1) lv a]
  have "fold (\<lambda>(p, d). answer_dest nh a d) xs (k, s1) = (n', s')" using Cons.prems(3) by (simp add: x a)
  moreover have "live s1 d" if "(p, d) \<in> set xs" for p d using Cons.prems(2) [of p d] that by (simp add: K(5))
  ultimately show ?case using Cons.IH [OF K(1)] K(2,3) by simp
qed simp

lemma revalidate_one_keeps:
  assumes inv: "loc_inv {} s" and peers: "peers_but {} s" and r: "revalidate_one check nh (n, s) = (n', s')"
  shows "loc_inv {} s' \<and> peers_but {} s'"
proof -
  let ?a = "check (l_afi s) nh"
  define ds where "ds = get_default (dict_get (l_nh_dests s) nh) []"
  define xs where "xs = filter (\<lambda>x. \<not> (\<lambda>(p, d). dict_get (l_dests s) p \<noteq> Some d) x) ds"
  define s1 where "s1 = s\<lparr>l_nh_state := dict_set nh ?a (l_nh_state s), l_nh_dests := dict_set nh xs (l_nh_dests s)\<rparr>"
  have t: "same_table s s1" by (simp add: s1_def same_table_def)
  have i1: "loc_inv {} s1" using inv by (simp add: same_tableD(1) [OF t])
  show ?thesis
  proof (cases "dict_get (l_nh_state s) nh = Some ?a")
    case True
    then have "s' = prune_nexthop nh s" using r by (simp add: revalidate_one_def Let_def)
    then show ?thesis
      using inv peers_frame [OF peers _ keyed_same [OF same_table_steps(8)], of nh] by (simp add: same_tableD(1) [OF same_table_steps(8)])
  next
    case False
    obtain m s2 where f: "fold (\<lambda>(p, d). answer_dest nh ?a d) xs (n, s1) = (m, s2)" by fastforce
    have e: "s' = prune_nexthop nh s2"
      using r False f unfolding revalidate_one_def Let_def s1_def xs_def ds_def by simp
    have "live s1 d" if "(p, d) \<in> set xs" for p d
      using that liveI [OF inv, of p d] by (auto simp: xs_def same_tableD(2) [OF t])
    from answer_fold_keeps [OF i1 this f] have K: "loc_inv {} s2" "l_by_peer s2 = l_by_peer s1" "keyed peer_key s2 = keyed peer_key s1" by simp_all
    have "peers_but {} s2" using peers_frame [OF peers] K keyed_same [OF t, of peer_key] by (simp add: s1_def)
    then show ?thesis
      using K(1) peers_frame [OF _ _ keyed_same [OF same_table_steps(8)], of "{}" s2 nh] by (simp add: e same_tableD(1) [OF same_table_steps(8)])
  qed
qed

lemma revalidate_keeps:
  assumes "loc_inv {} s" and "peers_but {} s"
  shows "loc_inv {} (snd (revalidate check s)) \<and> peers_but {} (snd (revalidate check s))"
proof -
  have "loc_inv {} (snd (fold (revalidate_one check) nhs (n, s))) \<and> peers_but {} (snd (fold (revalidate_one check) nhs (n, s)))" for nhs n
    using assms
  proof (induction nhs arbitrary: n s)
    case (Cons nh nhs)
    obtain k s1 where r: "revalidate_one check nh (n, s) = (k, s1)" by fastforce
    from revalidate_one_keeps [OF Cons.prems r] Cons.IH show ?case by (simp add: r)
  qed simp
  then show ?thesis by (simp add: revalidate_def)
qed


section \<open>Selection and shutdown\<close>

lemma publish_by_peer [simp]: "l_by_peer (loc_publish d v w s) = l_by_peer s" "l_by_peer (loc_selected s) = l_by_peer s"
  by (simp_all add: loc_publish_def loc_retract_def loc_offer_def loc_selected_def Let_def split: sum.split option.split prod.split)

lemma drop_empty_keeps: "l_by_peer (loc_drop_empty d s) = l_by_peer s" "keyed key (loc_drop_empty d s) = keyed key s"
  using keyed_pop [of s d key] by (auto simp: loc_drop_empty_def)

lemma drop_empty_paths: "paths_for p (loc_drop_empty d s) = paths_for p s"
  by (auto simp: loc_drop_empty_def paths_for_def dict_get_pop live_def split: option.split)

lemma select_one_keeps:
  assumes local: "\<And>h h'. same_but_marks h h' \<Longrightarrow> key h' = key h"
  shows "l_by_peer (fst (loc_select_one s)) = l_by_peer s" "keyed key (fst (loc_select_one s)) = keyed key s"
    "paths_for p (fst (loc_select_one s)) = paths_for p s"
proof -
  define d where "d = l_queue s ! l_qhead s"
  define s2 where "s2 = loc_publish d (d_best (l_dest s d)) (d_best (l_dest (loc_selected s) d)) (loc_selected s)"
  have one: "fst (loc_select_one s) = loc_drop_empty d s2" by (simp add: loc_select_one_def Let_def d_def s2_def)
  have f: "l_dests s2 = l_dests s" "paths_of s2 e = paths_of s e" "l_path s2 = l_path (loc_selected s)" for e
    by (simp_all add: s2_def publish_fields selected_fields selected_dest(3))
  have "keyed key s2 = keyed key s" by (rule keyed_cong) (simp_all add: f local [OF selected_dest(6)])
  moreover have "paths_for p s2 = paths_for p s" by (rule paths_for_cong) (simp_all add: f)
  moreover have "l_by_peer s2 = l_by_peer s" by (simp add: s2_def)
  ultimately show "l_by_peer (fst (loc_select_one s)) = l_by_peer s" "keyed key (fst (loc_select_one s)) = keyed key s"
    "paths_for p (fst (loc_select_one s)) = paths_for p s"
    by (simp_all add: one drop_empty_keeps drop_empty_paths)
qed

lemma loop_keeps:
  assumes local: "\<And>h h'. same_but_marks h h' \<Longrightarrow> key h' = key h"
  shows "l_by_peer (fst (loc_loop limit n k s cs)) = l_by_peer s \<and> keyed key (fst (loc_loop limit n k s cs)) = keyed key s
    \<and> paths_for p (fst (loc_loop limit n k s cs)) = paths_for p s"
proof (induction limit n k s cs rule: loc_loop.induct)
  case (1 limit n k s cs)
  show ?case
  proof (cases "l_qhead s < n \<and> (limit \<le> 0 \<or> k < limit)")
    case True
    then show ?thesis using "1.IH" [OF True] select_one_keeps(1,2) [where key = key and s = s, OF local]
      select_one_keeps(3) [where key = key and s = s and p = p, OF local] by (subst (1 2 3) loc_loop.simps) simp
  next
    case False
    then show ?thesis by (subst (1 2 3) loc_loop.simps) auto
  qed
qed

lemma reselect_keeps:
  assumes local: "\<And>h h'. same_but_marks h h' \<Longrightarrow> key h' = key h"
  shows "l_by_peer (snd (loc_reselect limit s)) = l_by_peer s" "keyed key (snd (loc_reselect limit s)) = keyed key s"
    "paths_for p (snd (loc_reselect limit s)) = paths_for p s"
proof -
  define s1 where "s1 = fst (loc_loop limit (length (l_queue s)) 0 s [])"
  have r: "snd (loc_reselect limit s) = loc_compact s1" by (simp add: loc_reselect_def s1_def split: prod.split)
  have "paths_for p (loc_compact s1) = paths_for p s1" by (rule paths_for_cong) (simp_all add: loc_compact_def)
  moreover have "l_by_peer (loc_compact s1) = l_by_peer s1" by (simp add: loc_compact_def)
  moreover have "keyed key (loc_compact s1) = keyed key s1" by (rule keyed_cong) (simp_all add: loc_compact_def)
  ultimately show "l_by_peer (snd (loc_reselect limit s)) = l_by_peer s" "keyed key (snd (loc_reselect limit s)) = keyed key s"
    "paths_for p (snd (loc_reselect limit s)) = paths_for p s"
    using loop_keeps [where key = key and limit = limit and n = "length (l_queue s)" and k = 0 and s = s and cs = "[]" and p = p, OF local]
    by (simp_all add: r s1_def)
qed

lemma marks_peer_key: "same_but_marks h h' \<Longrightarrow> peer_key h' = peer_key h"
  by (simp add: peer_key_def marks_fields fun_eq_iff)

lemma reselect_peers: "peers_but {} s \<Longrightarrow> peers_but {} (snd (loc_reselect limit s))"
  by (erule peers_frame) (rule reselect_keeps, erule marks_peer_key)+

lemma select_step_peers: "peers_but {} s \<Longrightarrow> peers_but {} (snd (loc_select_step chunk s))"
  using reselect_peers by (simp add: loc_select_step_def Let_def)

lemma retract_all:
  assumes "\<And>p. \<exists>r. told s p r"
  shows "(\<exists>r. told (fold (\<lambda>p s. snd (loc_retract p s)) ps s) p r)
    \<and> set (l_offered (fold (\<lambda>p s. snd (loc_retract p s)) ps s)) = set (l_offered s) - set ps"
  using assms
proof (induction ps arbitrary: s)
  case (Cons q ps)
  have told: "\<exists>r. told (snd (loc_retract q s)) p r" for p
  proof -
    obtain r where r: "told s q r" using Cons.prems by blast
    obtain r' where r': "told s p r'" using Cons.prems by blast
    show ?thesis using retract_told(1) [OF r] retract_told(2) [OF r, of p r'] r' by (cases "p = q") auto
  qed
  have o: "set (l_offered (snd (loc_retract q s))) = set (l_offered s) - {q}" by (auto simp: loc_retract_def)
  show ?case using Cons.IH [OF told] by (simp add: o) blast
qed simp

lemma told_upd_dest: "told (upd_dest d g s) = told s"
  by (rule told_cong) simp_all

lemma fold_upd_dest_fields:
  "told (fold (\<lambda>(_, d). upd_dest d g) xs s) = told s" "l_offered (fold (\<lambda>(_, d). upd_dest d g) xs s) = l_offered s"
  by (induction xs arbitrary: s) (auto simp: told_upd_dest)

lemma clear_keeps:
  assumes inv: "loc_inv {} s"
  shows "loc_inv {} (snd (loc_clear s)) \<and> peers_but {} (snd (loc_clear s))"
proof -
  define s1 where "s1 = fold loc_release (concat (map (\<lambda>(_, d). d_paths (l_dest s d)) (l_dests s))) s"
  define s2 where "s2 = fold (\<lambda>(_, d). upd_dest d (\<lambda>x. x\<lparr>d_queued := False\<rparr>)) (l_dests s) s1"
  define s3 where "s3 = fold (\<lambda>p s. snd (loc_retract p s)) (l_offered s) s2"
  define s4 where "s4 = snd (loc_clear s)"
  have t1: "same_table s s1" unfolding s1_def by (rule same_table_fold) simp
  have "told s1 = told s" "l_offered s1 = l_offered s" using t1 told_cong [of s1 s] by (simp_all add: same_table_def)
  then have told2: "told s2 = told s" "l_offered s2 = l_offered s" by (simp_all add: s2_def fold_upd_dest_fields)
  have ex: "\<exists>r. told s2 p r" for p using told_ex [OF inv] by (simp add: told2)
  have off: "l_offered s3 = []" using retract_all [OF ex, of "l_offered s"] by (simp add: s3_def told2)
  have none: "told s3 p None" for p
  proof -
    obtain r where r: "told s3 p r" using retract_all [OF ex, of "l_offered s" p] by (auto simp: s3_def)
    then have "r = None" by (simp add: told_def off)
    with r show ?thesis by simp
  qed
  have s4: "s4 = s3\<lparr>l_dests := [], l_by_peer := [], l_nh_dests := [], l_nh_state := [], l_offered := [], l_queue := [],
    l_qhead := 0, l_path_count := 0\<rparr>"
    using t1 unfolding s4_def loc_clear_def Let_def s1_def [symmetric]
    by (simp add: same_table_def s2_def [symmetric] told2(2) s3_def [symmetric])
  have "told s4 = told s3" by (rule told_cong) (simp_all add: s4 off)
  moreover have "\<not> known s4 d" for d by (simp add: known_def live_def pending_of_def s4)
  ultimately have "loc_inv {} s4" using none by (intro loc_invI) (simp_all add: s4 pending_of_def)
  moreover have "peers_but {} s4" by (simp add: peers_but_def s4 look_def keyed_def inner_distinct_def)
  ultimately show ?thesis by (simp add: s4_def)
qed

end
