(* ===== verification/LocRibResults.thy ===== *)
theory LocRibResults
  imports LocRibIndex
begin

text \<open>
  The Loc-RIB under any run of announcements, withdrawals, sessions going down, next hops tested
  again, selection, reconfiguration and shutdown: what the core holds is what the decision process
  chooses.
\<close>

section \<open>Runs\<close>

datatype loc_event =
    Announce "peer_ref option" "prefix option" "nat option" u32 u32 byte u32 time bool bool
  | Withdraw "peer_ref option" "prefix option" u32
  | Session_down "peer_ref option"
  | Next_hops "nat \<Rightarrow> bytestr \<Rightarrow> bool \<times> u32"
  | Select int
  | Select_chunk int
  | Configure "bestpath_config option"
  | Shut_down

fun loc_step :: "loc_rib \<Rightarrow> loc_event \<Rightarrow> loc_rib" where
  "loc_step s (Announce peer p attrs i w src m t r keep) =
    (case add_path peer p attrs i w src m t r keep s of Inl _ \<Rightarrow> s | Inr s' \<Rightarrow> s')"
| "loc_step s (Withdraw peer p i) = snd (remove_path peer p i s)"
| "loc_step s (Session_down peer) = snd (remove_peer peer s)"
| "loc_step s (Next_hops check) = snd (revalidate check s)"
| "loc_step s (Select limit) = snd (loc_reselect limit s)"
| "loc_step s (Select_chunk chunk) = snd (loc_select_step chunk s)"
| "loc_step s (Configure cfg) = snd (set_config cfg s)"
| "loc_step s Shut_down = snd (loc_clear s)"

definition loc_ok :: "loc_rib \<Rightarrow> bool" where
  "loc_ok s \<longleftrightarrow> loc_inv {} s \<and> peers_but {} s"

lemma loc_ok_step:
  assumes "loc_ok s"
  shows "loc_ok (loc_step s e)"
proof -
  from assms have ok: "loc_inv {} s" "peers_but {} s" by (simp_all add: loc_ok_def)
  show ?thesis
  proof (cases e)
    case (Announce peer p attrs i w src m t r keep)
    then show ?thesis
      using assms add_path_inv [OF ok(1)] add_path_peers [OF ok] by (simp add: loc_ok_def split: sum.split)
  next
    case (Session_down peer)
    obtain n s' where r: "remove_peer peer s = (n, s')" by fastforce
    show ?thesis
    proof (cases peer)
      case None
      then show ?thesis using assms Session_down by (simp add: remove_peer_def)
    next
      case (Some pr)
      then show ?thesis using remove_peer_keeps(1,2) [OF ok r [unfolded Some]] Session_down r by (simp add: loc_ok_def)
    qed
  qed (use ok remove_path_inv remove_path_peers revalidate_keeps reselect_inv(1) reselect_peers loc_select_step_inv select_step_peers
        set_config_inv set_config_peers clear_keeps in \<open>simp_all add: loc_ok_def\<close>)
qed

interpretation loc_machine: invariant_machine loc_step loc_ok
  by unfold_locales (rule loc_ok_step)

lemma new_loc_rib_ok: "loc_ok (new_loc_rib afi safi cfg ebgp ibgp sink t h)"
proof -
  let ?s = "new_loc_rib afi safi cfg ebgp ibgp sink t h"
  have k: "\<not> known ?s d" for d by (simp add: known_def live_def pending_of_def new_loc_rib_def)
  have told: "told ?s p None" for p by (simp add: told_def core_view_def new_loc_rib_def)
  have "loc_inv {} ?s" by (rule loc_invI) (simp_all add: k told, simp_all add: new_loc_rib_def pending_of_def)
  moreover have "peers_but {} ?s" by (simp add: peers_but_def look_def keyed_def inner_distinct_def new_loc_rib_def)
  ultimately show ?thesis by (simp add: loc_ok_def)
qed

abbreviation loc_run :: "loc_rib \<Rightarrow> loc_event list \<Rightarrow> loc_rib" where
  "loc_run \<equiv> foldl loc_step"

lemma loc_run_ok: "loc_ok (loc_run (new_loc_rib afi safi cfg ebgp ibgp sink t h) es)"
  by (rule loc_machine.run_inv) (rule new_loc_rib_ok)

section \<open>The sink stays\<close>

lemma sink_frames [simp]:
  "l_sink (loc_enqueue d s) = l_sink s" "l_sink (set_paths d ps s) = l_sink s" "l_sink (requeue d s) = l_sink s"
  "l_sink (snd (new_path b x s)) = l_sink s" "l_sink (snd (loc_retract p s)) = l_sink s" "l_sink (loc_publish d v w s) = l_sink s"
  "l_sink (loc_drop_empty d s) = l_sink s" "l_sink (loc_compact s) = l_sink s"
  by (simp_all add: loc_enqueue_def set_paths_def requeue_def new_path_def loc_retract_def loc_publish_def loc_offer_def
      loc_drop_empty_def loc_compact_def Let_def split: sum.split option.split)

lemma sink_same: "same_table s s' \<Longrightarrow> l_sink s' = l_sink s"
  by (simp add: same_table_def)

lemma loop_sink: "l_sink (fst (loc_loop limit n k s cs)) = l_sink s"
proof (induction limit n k s cs rule: loc_loop.induct)
  case (1 limit n k s cs)
  have "l_sink (fst (loc_select_one s)) = l_sink s" by (simp add: loc_select_one_def Let_def selected_fields)
  with 1 show ?case by (subst loc_loop.simps) simp
qed

lemma reselect_sink [simp]: "l_sink (snd (loc_reselect limit s)) = l_sink s"
  using loop_sink [of limit "length (l_queue s)" 0 s "[]"] by (simp add: loc_reselect_def case_prod_beta)

lemma fold_sink: "(\<And>x s. l_sink (f x s) = l_sink s) \<Longrightarrow> l_sink (fold f xs s) = l_sink s"
  by (induction xs arbitrary: s) simp_all

lemma fold_sink_snd: "(\<And>x ns. l_sink (snd (f x ns)) = l_sink (snd ns)) \<Longrightarrow> l_sink (snd (fold f xs ns)) = l_sink (snd ns)"
  by (induction xs arbitrary: ns) simp_all

lemma add_path_sink: "add_path peer p attrs i w src m t r keep s = Inr s' \<Longrightarrow> l_sink s' = l_sink s"
proof (erule add_path_cases)
  fix pr a d s1 b s2 x s3 old ps
  assume ds: "loc_dest p s = Inr (d, s1)" and i: "loc_intern a s1 = (b, s2)" and s3: "s3 = snd (new_path b x s2)"
    and s': "s' = loc_enqueue d (index_nexthop (a_nexthop (p_attrs x)) d r m (index_add (pr_obj pr) d
      (displace d (a_nexthop (p_attrs x)) old (set_paths d ps s3))))"
  have "l_sink s1 = l_sink s" using ds by (auto simp: loc_dest_def split: option.splits if_splits)
  moreover have "l_sink s2 = l_sink s1" using sink_same [OF same_table_steps(2), of a s1] by (simp add: i)
  ultimately show ?thesis
    by (simp add: s' s3 sink_same [OF same_table_steps(5)] sink_same [OF same_table_steps(3)] sink_same [OF displace_same])
qed

lemma remove_peer_dest_sink: "l_sink (snd (remove_peer_dest peer p d s)) = l_sink s"
proof -
  have r: "l_sink (fold loc_release qs s) = l_sink s" for qs s by (rule fold_sink) (rule sink_same [OF same_table_steps(1)])
  have u: "l_sink (fold (\<lambda>q s. unindex_nexthop (path_nexthop s q) d s) qs s) = l_sink s" for qs s
    by (rule fold_sink) (rule sink_same [OF same_table_steps(7)])
  show ?thesis by (simp add: remove_peer_dest_def Let_def u split: prod.split) (simp add: r)
qed

lemma loc_step_sink: "l_sink (loc_step s e) = l_sink s"
proof (cases e)
  case (Announce peer p attrs i w src m t r keep)
  then show ?thesis by (simp add: add_path_sink split: sum.split)
next
  case (Withdraw peer p i)
  then show ?thesis
    by (simp add: remove_path_def Let_def sink_same [OF same_table_steps(7)] sink_same [OF same_table_steps(1)] sink_same [OF same_table_steps(4)]
        split: option.split prod.split)
next
  case (Session_down peer)
  have "l_sink (snd (fold (drop_peer_step k) cs ns)) = l_sink (snd ns)" for k cs ns
    by (rule fold_sink_snd) (simp add: remove_peer_dest_sink case_prod_beta)
  then show ?thesis using Session_down by (simp add: remove_peer_def split: option.split)
next
  case (Next_hops check)
  have a: "l_sink (snd (answer_dest nh a d ns)) = l_sink (snd ns)" for nh a d ns
    by (simp add: answer_dest_def Let_def split: prod.split)
  have f: "l_sink (snd (fold (\<lambda>(p, d). answer_dest nh a d) xs ns)) = l_sink (snd ns)" for nh a ns and xs :: dest_index
    by (rule fold_sink_snd) (simp add: a case_prod_beta)
  have "l_sink (snd (revalidate_one check nh ns)) = l_sink (snd ns)" for nh ns
    using f by (simp add: revalidate_one_def Let_def case_prod_beta sink_same [OF same_table_steps(8)])
  then show ?thesis using Next_hops fold_sink_snd [of "revalidate_one check"] by (simp add: revalidate_def)
next
  case (Configure cfg)
  have "l_sink (fold (\<lambda>(_, d). loc_enqueue d) xs s) = l_sink s" for xs :: dest_index and s by (rule fold_sink) (simp add: case_prod_beta)
  then show ?thesis using Configure by (simp add: set_config_def split: option.split)
next
  case Shut_down
  have "l_sink (fold loc_release qs s) = l_sink s" for qs s by (rule fold_sink) (rule sink_same [OF same_table_steps(1)])
  moreover have "l_sink (fold (\<lambda>(_, d). upd_dest d g) xs s) = l_sink s" for g s and xs :: dest_index by (rule fold_sink) (simp add: case_prod_beta)
  moreover have "l_sink (fold (\<lambda>p s. snd (loc_retract p s)) ps s) = l_sink s" for ps s by (rule fold_sink) simp
  ultimately show ?thesis using Shut_down by (simp add: loc_clear_def Let_def)
qed (simp_all add: loc_select_step_def Let_def)

lemma loc_run_sink: "l_sink (loc_run s es) = l_sink s"
  by (induction es arbitrary: s) (simp_all add: loc_step_sink)

section \<open>What the core holds\<close>

text \<open>The path that the decision process, run afresh over the paths of a prefix, makes the best.\<close>

definition decided :: "loc_rib \<Rightarrow> prefix \<Rightarrow> nat option" where
  "decided s p = r_best (fst (select_paths (paths_for p s) (l_config s) (l_path s)))"

lemma decided_chosen: "decided s p = chosen (l_path s) (l_config s) (paths_for p s)"
  by (simp add: decided_def select_best)

lemma published:
  assumes ok: "loc_ok s" and idle: "loc_pending s = 0"
  shows "told s p (Option.bind (decided s p) (forwards s p))"
proof -
  from ok have inv: "loc_inv {} s" by (simp add: loc_ok_def)
  note I = loc_invD [OF inv]
  have none: "pending_of s = []" using idle by (simp add: pending_of_def loc_pending_def)
  have k: "known s d \<longleftrightarrow> live s d" for d by (simp add: known_def none)
  show ?thesis
  proof (cases "dict_get (l_dests s) p")
    case None
    then have "\<not> (known s d \<and> prefix_of s d = p)" for d by (auto simp: k live_def)
    then have "told s p None" by (intro I(8)) blast
    then show ?thesis using None by (simp add: decided_chosen paths_for_def chosen_def eligible_of_def)
  next
    case (Some d)
    have d: "live s d" "prefix_of s d = p" using liveI [OF inv Some] I(4) [OF Some] by simp_all
    have best: "best_of s d = decided s p"
      using I(5) [of d] d by (simp add: tidy_def k none decided_chosen paths_for_live [OF Some])
    show ?thesis
    proof (cases "best_of s d")
      case None
      have "best_of s e = None" if "known s e" "prefix_of s e = p" for e
        using that Some None by (simp add: k live_def)
      then have "told s p None" by (rule I(8))
      then show ?thesis using None best by simp
    next
      case (Some w)
      then show ?thesis using I(9) [of d w] d best by (simp add: k)
    qed
  qed
qed

text \<open>
  C4. The Loc-RIB publishes its winners: after any run of announcements, withdrawals, sessions
  going down, next hops tested again, reconfiguration, shutdown and selection in slices, as soon as
  nothing waits for selection the core holds for a prefix the route of the path that the
  decision process, run afresh over all paths of the prefix, makes the best, where that path
  came from a peer and has a usable next hop, and nothing otherwise.
\<close>

theorem loc_rib_publishes_best:
  assumes "loc_pending (loc_run (new_loc_rib afi safi cfg ebgp ibgp To_core t h) es) = 0"
  shows "core_view (loc_run (new_loc_rib afi safi cfg ebgp ibgp To_core t h) es) p
    = Option.bind (decided (loc_run (new_loc_rib afi safi cfg ebgp ibgp To_core t h) es) p)
        (forwards (loc_run (new_loc_rib afi safi cfg ebgp ibgp To_core t h) es) p)"
proof -
  have "l_sink (loc_run (new_loc_rib afi safi cfg ebgp ibgp To_core t h) es) = To_core"
    by (simp add: loc_run_sink) (simp add: new_loc_rib_def)
  with published [OF loc_run_ok assms] show ?thesis by (simp add: told_def)
qed

text \<open>
  Selection ends and does exactly the work it reports: a slice of a positive size examines that
  many waiting destinations, or all of them when there are fewer, and reports how many; without
  a limit nothing is left waiting.
\<close>

theorem loc_rib_drains:
  assumes "0 < chunk"
  shows "fst (loc_select_step chunk (loc_run (new_loc_rib afi safi cfg ebgp ibgp sink t h) es))
      = min (nat chunk) (loc_pending (loc_run (new_loc_rib afi safi cfg ebgp ibgp sink t h) es))
    \<and> loc_pending (snd (loc_select_step chunk (loc_run (new_loc_rib afi safi cfg ebgp ibgp sink t h) es)))
      = loc_pending (loc_run (new_loc_rib afi safi cfg ebgp ibgp sink t h) es) - nat chunk
    \<and> loc_pending (snd (loc_reselect 0 (loc_run (new_loc_rib afi safi cfg ebgp ibgp sink t h) es))) = 0"
proof -
  let ?s = "loc_run (new_loc_rib afi safi cfg ebgp ibgp sink t h) es"
  have "loc_inv {} ?s" using loc_run_ok by (simp add: loc_ok_def)
  from reselect_inv(2) [OF this, of chunk] reselect_inv(2) [OF this, of 0] assms
  show ?thesis by (simp add: loc_select_step_def Let_def min_def)
qed

text \<open>
  C6. A session that goes down takes exactly its own paths along: afterwards every prefix has the paths
  it had, in their order, less those of that session, though only the destinations indexed under
  it are visited.
\<close>

theorem session_down_exact:
  "paths_for p (loc_step (loc_run (new_loc_rib afi safi cfg ebgp ibgp sink t h) es) (Session_down (Some pr)))
    = filter (\<lambda>q. pr_obj (p_peer (l_path (loc_run (new_loc_rib afi safi cfg ebgp ibgp sink t h) es) q)) \<noteq> pr_obj pr)
        (paths_for p (loc_run (new_loc_rib afi safi cfg ebgp ibgp sink t h) es))"
proof -
  let ?s = "loc_run (new_loc_rib afi safi cfg ebgp ibgp sink t h) es"
  obtain n s' where r: "remove_peer (Some pr) ?s = (n, s')" by fastforce
  have "loc_inv {} ?s" "peers_but {} ?s" using loc_run_ok by (simp_all add: loc_ok_def)
  from remove_peer_keeps(4) [OF this r] show ?thesis by (simp add: r)
qed


section \<open>A next hop that went unnoticed\<close>

text \<open>Two external peers announce one prefix through the same next hop: the first while it
  resolves, the second after it has stopped to. Then all next hops are tested, and none resolves.\<close>

definition stale_set :: attr_set where
  "stale_set = attrs_finalize (attrs_blank\<lparr>a_nexthop := [10, 0, 0, 1]\<rparr>)"

definition stale_prefix :: prefix where
  "stale_prefix = \<lparr>pafi = 1, pbits = [True]\<rparr>"

definition stale_peer :: "nat \<Rightarrow> peer_ref" where
  "stale_peer n = LOCAL_PEER\<lparr>pr_obj := n, pr_is_ebgp := True\<rparr>"

definition stale_cfg :: bestpath_config where
  "stale_cfg = \<lparr>c_local_as = 65000, c_router_id = 1, c_always_compare_med = False, c_deterministic_med = False,
    c_med_missing_as_worst = False, c_compare_router_id = False, c_as_path_ignore = False, c_as_path_multipath_relax = False,
    c_maximum_paths = 1, c_maximum_paths_ibgp = 1, c_default_local_pref = 100\<rparr>"

definition stale_rib :: loc_rib where
  "stale_rib = new_loc_rib 1 1 stale_cfg 20 200 To_core new_attr_table (\<lambda>_. stale_set)"

definition no_next_hop :: "nat \<Rightarrow> bytestr \<Rightarrow> bool \<times> u32" where
  "no_next_hop afi nh = (False, 0)"

definition stale_events :: "loc_event list" where
  "stale_events =
    [Announce (Some (stale_peer 1)) (Some stale_prefix) (Some 1) 0 0 PATH_SRC_PEER 0 1 True False, Select 0,
     Announce (Some (stale_peer 2)) (Some stale_prefix) (Some 2) 0 0 PATH_SRC_PEER 0 2 False False,
     Next_hops no_next_hop, Select 0]"

text \<open>
  A next hop that stops resolving can keep its routes: an announcement writes its own answer over the
  cached one of its next hop, so the next test of that hop sees no change and leaves the older
  paths as they are. Here a path announced while its next hop resolved stays resolved, stays
  the best and stays in the core, although every next hop has been tested and none resolves.
\<close>

theorem stale_next_hop:
  "paths_for stale_prefix (loc_run stale_rib stale_events) = [0, 1]
   \<and> path_nexthop (loc_run stale_rib stale_events) 0 = path_nexthop (loc_run stale_rib stale_events) 1
   \<and> p_resolved (l_path (loc_run stale_rib stale_events) 0) \<and> \<not> p_resolved (l_path (loc_run stale_rib stale_events) 1)
   \<and> decided (loc_run stale_rib stale_events) stale_prefix = Some 0
   \<and> core_view (loc_run stale_rib stale_events) stale_prefix \<noteq> None"
  by code_simp

lemma stale_run_idle:
  "loc_pending (loc_run (new_loc_rib 1 1 stale_cfg 20 200 To_core new_attr_table (\<lambda>_. stale_set)) stale_events) = 0"
  by code_simp

lemma loc_rib_publishes_best_witness:
  "core_view (loc_run (new_loc_rib 1 1 stale_cfg 20 200 To_core new_attr_table (\<lambda>_. stale_set)) stale_events) stale_prefix
    = Option.bind (decided (loc_run (new_loc_rib 1 1 stale_cfg 20 200 To_core new_attr_table (\<lambda>_. stale_set)) stale_events) stale_prefix)
        (forwards (loc_run (new_loc_rib 1 1 stale_cfg 20 200 To_core new_attr_table (\<lambda>_. stale_set)) stale_events) stale_prefix)"
  by (rule loc_rib_publishes_best) (rule stale_run_idle)

lemma loc_rib_drains_witness:
  "fst (loc_select_step 2 (loc_run (new_loc_rib 1 1 stale_cfg 20 200 To_core new_attr_table (\<lambda>_. stale_set)) (take 1 stale_events)))
      = min (nat 2) (loc_pending (loc_run (new_loc_rib 1 1 stale_cfg 20 200 To_core new_attr_table (\<lambda>_. stale_set)) (take 1 stale_events)))
    \<and> loc_pending (snd (loc_select_step 2 (loc_run (new_loc_rib 1 1 stale_cfg 20 200 To_core new_attr_table (\<lambda>_. stale_set)) (take 1 stale_events))))
      = loc_pending (loc_run (new_loc_rib 1 1 stale_cfg 20 200 To_core new_attr_table (\<lambda>_. stale_set)) (take 1 stale_events)) - nat 2
    \<and> loc_pending (snd (loc_reselect 0 (loc_run (new_loc_rib 1 1 stale_cfg 20 200 To_core new_attr_table (\<lambda>_. stale_set)) (take 1 stale_events)))) = 0"
  by (rule loc_rib_drains) simp

end
