(* ===== verification/LocRibClaims.thy ===== *)
theory LocRibClaims
  imports LocRibResults
begin

text \<open>
  The interning discipline of the Loc-RIB: at every moment the shared table of attribute sets holds one
  claim for every path in the table, whoever took it there, beside the claims of others, and after
  shutdown only those of the others.
\<close>

section \<open>The paths held and what they claim\<close>

definition all_paths :: "loc_rib \<Rightarrow> nat list" where
  "all_paths s = concat (map (\<lambda>(_, d). paths_of s d) (l_dests s))"

abbreviation bag :: "loc_rib \<Rightarrow> nat multiset" where
  "bag s \<equiv> mset (all_paths s)"

definition accounts :: "loc_rib \<Rightarrow> attr_table \<times> aheap \<times> (nat \<Rightarrow> nat) \<times> int" where
  "accounts s = (l_table s, l_sets s, l_attr s, l_path_count s)"

definition balanced :: "aheap \<Rightarrow> nat multiset \<Rightarrow> loc_rib \<Rightarrow> bool" where
  "balanced h0 C s \<longleftrightarrow> table_inv h0 ((l_table s, l_sets s), C + image_mset (l_attr s) (bag s)) \<and> l_path_count s = int (size (bag s))"

lemma balanced_frame: "balanced h0 C s \<Longrightarrow> accounts s' = accounts s \<Longrightarrow> bag s' = bag s \<Longrightarrow> balanced h0 C s'"
  by (simp add: balanced_def accounts_def)

lemma accounts_frames [simp]:
  "accounts (loc_enqueue d s) = accounts s" "accounts (set_paths d ps s) = accounts s" "accounts (requeue d s) = accounts s"
  "accounts (index_add peer d s) = accounts s" "accounts (index_remove peer p s) = accounts s"
  "accounts (index_nexthop nh d r m s) = accounts s" "accounts (store_nexthop nh ds s) = accounts s"
  "accounts (unindex_nexthop nh d s) = accounts s" "accounts (prune_nexthop nh s) = accounts s" "accounts (snd (loc_retract p s)) = accounts s"
  "accounts (loc_publish d v w s) = accounts s" "accounts (loc_drop_empty d s) = accounts s" "accounts (loc_selected s) = accounts s"
  "accounts (loc_compact s) = accounts s" "accounts (upd_dest d g s) = accounts s"
proof -
  show e: "accounts (loc_enqueue d s) = accounts s" "accounts (upd_dest d g s) = accounts s" "accounts (store_nexthop nh ds s) = accounts s"
    for d g nh ds and s :: loc_rib
    by (simp_all add: accounts_def loc_enqueue_def upd_dest_def store_nexthop_def)
  show "accounts (set_paths d ps s) = accounts s" by (simp add: set_paths_def e)
  have "accounts (s\<lparr>l_dests := ds\<rparr>) = accounts s" for ds and s :: loc_rib by (simp add: accounts_def)
  then show "accounts (requeue d s) = accounts s" "accounts (loc_drop_empty d s) = accounts s"
    by (simp_all add: requeue_def Let_def e loc_drop_empty_def)
  show "accounts (unindex_nexthop nh d s) = accounts s" "accounts (prune_nexthop nh s) = accounts s"
    by (simp_all add: unindex_nexthop_def prune_nexthop_def e split: option.split)
qed (simp_all add: accounts_def index_add_def index_remove_def index_nexthop_def loc_retract_def loc_publish_def loc_offer_def
    loc_selected_def loc_compact_def Let_def split: option.split sum.split prod.split)

lemma all_paths_cong: "l_dests s' = l_dests s \<Longrightarrow> (\<And>d. paths_of s' d = paths_of s d) \<Longrightarrow> all_paths s' = all_paths s"
  by (simp add: all_paths_def)

lemma all_paths_same: "same_table s s' \<Longrightarrow> all_paths s' = all_paths s"
  by (rule all_paths_cong) (simp_all add: same_table_def)

lemma all_paths_enqueue [simp]: "all_paths (loc_enqueue d s) = all_paths s"
  by (rule all_paths_cong) simp_all

lemma bag_set_paths:
  assumes inv: "loc_inv X s" and lv: "live s d"
  shows "bag (set_paths d ps s) + mset (paths_of s d) = bag s + mset ps"
proof -
  have "(prefix_of s d, d) \<in> set (l_dests s)" using lv by (simp add: live_def map_of_SomeD)
  then obtain xs ys where split: "l_dests s = xs @ (prefix_of s d, d) # ys" by (auto dest: split_list)
  have apart: "e \<noteq> d" if "(p, e) \<in> set (xs @ ys)" for p e
  proof
    assume "e = d"
    then have "dict_get (l_dests s) p = Some d" using that split loc_invD(3) [OF inv] by (intro map_of_is_SomeI) auto
    then have "p = prefix_of s d" using loc_invD(4) [OF inv] by simp
    then show False using that split loc_invD(3) [OF inv] by force
  qed
  have "concat (map (\<lambda>(_, e). paths_of (set_paths d ps s) e) zs) = concat (map (\<lambda>(_, e). paths_of s e) zs)" if "set zs \<subseteq> set (xs @ ys)" for zs
  proof -
    have "paths_of (set_paths d ps s) (snd x) = paths_of s (snd x)" if "x \<in> set zs" for x
      using apart [of "fst x" "snd x"] that \<open>set zs \<subseteq> set (xs @ ys)\<close> by (auto simp: set_paths_def)
    then show ?thesis by (intro arg_cong [of _ _ concat] map_cong) (simp_all add: case_prod_beta)
  qed
  from this [of xs] this [of ys] show ?thesis
    by (simp add: all_paths_def split set_paths_def)
qed

lemma bag_pop:
  assumes inv: "loc_inv X s" and "dict_get (l_dests s) p = Some d" and "paths_of s d = []"
  shows "bag (s\<lparr>l_dests := dict_pop p (l_dests s)\<rparr>) = bag s"
proof -
  have only: "e = d" if "(p, e) \<in> set (l_dests s)" for e
    using map_of_is_SomeI [OF loc_invD(3) [OF inv] that] assms(2) by simp
  have "mset (concat (map (\<lambda>(_, e). paths_of s e) (dict_pop p xs))) = mset (concat (map (\<lambda>(_, e). paths_of s e) xs))"
    if "set xs \<subseteq> set (l_dests s)" for xs
    using that only assms(3) by (induction xs) auto
  then show ?thesis by (simp add: all_paths_def)
qed

lemma bag_requeue:
  assumes inv: "loc_inv X s" and lv: "live s d"
  shows "bag (requeue d s) = bag s"
proof -
  have "loc_inv (X - {d}) (loc_enqueue d s)" by (rule loc_enqueue_inv [OF inv lv])
  from bag_pop [OF this, of "prefix_of s d" d] lv show ?thesis by (simp add: requeue_def Let_def live_def)
qed

lemma dict_set_new: "k \<notin> fst ` set xs \<Longrightarrow> dict_set k v xs = xs @ [(k, v)]"
  by (induction xs) auto

lemma bag_loc_dest:
  assumes "loc_dest p s = Inr (d, s')" and inv: "loc_inv X s"
  shows "bag s' = bag s" "accounts s' = accounts s"
proof -
  from assms(1) obtain q where p: "p = Some q" by (auto simp: loc_dest_def split: option.splits)
  have "bag s' = bag s \<and> accounts s' = accounts s"
  proof (cases "dict_get (l_dests s) q")
    case None
    then have e: "s' = s\<lparr>l_dest := (l_dest s)(l_ndests s := new_bgp_dest q), l_ndests := l_ndests s + 1,
      l_dests := dict_set q (l_ndests s) (l_dests s)\<rparr>"
      using assms(1) p by (auto simp: loc_dest_def split: if_splits)
    have "q \<notin> fst ` set (l_dests s)" using None by (simp add: dict_get_None_iff)
    then have new: "dict_set q (l_ndests s) (l_dests s) = l_dests s @ [(q, l_ndests s)]" by (rule dict_set_new)
    have "d' \<noteq> l_ndests s" if "(p', d') \<in> set (l_dests s)" for p' d'
      using tidyD(1) [OF inv live_known [OF entry_live [OF inv that]]] by simp
    then have old: "map (\<lambda>(_, d). paths_of s' d) (l_dests s) = map (\<lambda>(_, d). paths_of s d) (l_dests s)" by (auto simp: e)
    have "l_dests s' = l_dests s @ [(q, l_ndests s)]" "paths_of s' (l_ndests s) = []" using new by (simp_all add: e new_bgp_dest_def)
    then have "all_paths s' = concat (map (\<lambda>(_, d). paths_of s' d) (l_dests s))" by (simp add: all_paths_def)
    then have "all_paths s' = all_paths s" unfolding old by (simp add: all_paths_def)
    then show ?thesis by (simp add: e accounts_def)
  next
    case (Some e)
    then show ?thesis using assms(1) p by (auto simp: loc_dest_def split: if_splits)
  qed
  then show "bag s' = bag s" "accounts s' = accounts s" by simp_all
qed

section \<open>Taking and giving back\<close>

lemma release_claim:
  assumes "all_final h0" and "table_inv h0 ((l_table s, l_sets s), M)"
  shows "table_inv h0 ((l_table (loc_release q s), l_sets (loc_release q s)), M - {#l_attr s q#})"
  using release_inv [OF assms, of "l_attr s q"] by (simp add: loc_release_def split: prod.split)

lemma release_attr [simp]: "l_attr (loc_release q s) = l_attr s" "l_path_count (loc_release q s) = l_path_count s"
  by (simp_all add: loc_release_def split: prod.split)

lemma release_claims:
  assumes "all_final h0" and "table_inv h0 ((l_table s, l_sets s), M)"
  shows "table_inv h0 ((l_table (fold loc_release qs s), l_sets (fold loc_release qs s)), M - image_mset (l_attr s) (mset qs))"
    and "l_attr (fold loc_release qs s) = l_attr s"
proof -
  have "table_inv h0 ((l_table (fold loc_release qs s), l_sets (fold loc_release qs s)), M - image_mset (l_attr s) (mset qs))
    \<and> l_attr (fold loc_release qs s) = l_attr s"
    using assms(2)
  proof (induction qs arbitrary: s M)
    case (Cons q qs)
    from Cons.IH [OF release_claim [OF assms(1) Cons.prems, of q]] show ?case by simp
  qed simp
  then show "table_inv h0 ((l_table (fold loc_release qs s), l_sets (fold loc_release qs s)), M - image_mset (l_attr s) (mset qs))"
    "l_attr (fold loc_release qs s) = l_attr s" by simp_all
qed

lemma intern_claim:
  assumes "all_final h0" and "table_inv h0 ((l_table s, l_sets s), M)" and "loc_intern a s = (b, s')"
  shows "table_inv h0 ((l_table s', l_sets s'), add_mset b M)" "l_attr s' = l_attr s" "l_path_count s' = l_path_count s"
proof -
  obtain b' t h where i: "intern a (l_table s, l_sets s) = (b', t, h)" by (metis surj_pair)
  then have e: "b' = b" "s' = s\<lparr>l_table := t, l_sets := h\<rparr>" using assms(3) by (simp_all add: loc_intern_def)
  show "table_inv h0 ((l_table s', l_sets s'), add_mset b M)" "l_attr s' = l_attr s" "l_path_count s' = l_path_count s"
    using intern_inv [OF assms(1,2) i] by (simp_all add: e)
qed

lemma displace_claims:
  assumes "all_final h0" and "table_inv h0 ((l_table s, l_sets s), M)"
  shows "table_inv h0 ((l_table (displace d nh old s), l_sets (displace d nh old s)),
      M - (case old of None \<Rightarrow> {#} | Some q \<Rightarrow> {#l_attr s q#}))"
    and "l_attr (displace d nh old s) = l_attr s"
    and "l_path_count (displace d nh old s) = l_path_count s + (case old of None \<Rightarrow> 1 | Some q \<Rightarrow> 0)"
proof -
  have acc: "l_table s' = l_table s'' \<and> l_sets s' = l_sets s'' \<and> l_attr s' = l_attr s'' \<and> l_path_count s' = l_path_count s''"
    if "accounts s' = accounts s''" for s' s'' :: loc_rib using that by (simp add: accounts_def)
  have e: "l_table (displace d nh (Some q) s) = l_table (loc_release q s) \<and> l_sets (displace d nh (Some q) s) = l_sets (loc_release q s)
    \<and> l_attr (displace d nh (Some q) s) = l_attr (loc_release q s) \<and> l_path_count (displace d nh (Some q) s) = l_path_count (loc_release q s)" for q
    by (rule acc) (simp add: displace_def Let_def)
  show "table_inv h0 ((l_table (displace d nh old s), l_sets (displace d nh old s)),
      M - (case old of None \<Rightarrow> {#} | Some q \<Rightarrow> {#l_attr s q#}))"
    "l_attr (displace d nh old s) = l_attr s"
    "l_path_count (displace d nh old s) = l_path_count s + (case old of None \<Rightarrow> 1 | Some q \<Rightarrow> 0)"
    using assms(2) release_claim [OF assms] e by (cases old; simp add: displace_def [of _ _ None])+
qed


section \<open>The operations\<close>

lemma accountsD:
  "accounts s' = accounts s \<Longrightarrow> l_table s' = l_table s \<and> l_sets s' = l_sets s \<and> l_attr s' = l_attr s \<and> l_path_count s' = l_path_count s"
  by (simp add: accounts_def)

lemma bag_range: "loc_inv X s \<Longrightarrow> q \<in># bag s \<Longrightarrow> q < l_npaths s"
  using tidyD(3) live_known entry_live by (fastforce simp: all_paths_def)

lemma add_path_balanced:
  assumes fin: "all_final h0" and inv: "loc_inv {} s" and bal: "balanced h0 C s"
    and add: "add_path peer p attrs i w src m t r keep s = Inr s'"
  shows "balanced h0 C s'"
  using add
proof (rule add_path_cases)
  fix pr a d s1 b s2 x s3 old ps
  assume ds: "loc_dest p s = Inr (d, s1)" and i: "loc_intern a s1 = (b, s2)" and s3: "s3 = snd (new_path b x s2)"
    and ps: "replace_first (is_path (l_path s3) (pr_obj pr) i) (l_npaths s2) (paths_of s3 d) = (old, ps)"
    and s': "s' = loc_enqueue d (index_nexthop (a_nexthop (p_attrs x)) d r m (index_add (pr_obj pr) d
      (displace d (a_nexthop (p_attrs x)) old (set_paths d ps s3))))"
  define s4 where "s4 = set_paths d ps s3"
  define s5 where "s5 = displace d (a_nexthop (p_attrs x)) old s4"
  define gone where "gone = (case old of None \<Rightarrow> {#} | Some q \<Rightarrow> {#q#})"
  have bal1: "balanced h0 C s1" by (rule balanced_frame [OF bal]) (simp_all add: bag_loc_dest [OF ds inv])
  let ?M = "C + image_mset (l_attr s1) (bag s1)"
  have claim1: "table_inv h0 ((l_table s1, l_sets s1), ?M)" and count1: "l_path_count s1 = int (size (bag s1))"
    using bal1 by (simp_all add: balanced_def)
  note claim2 = intern_claim [OF fin claim1 i]
  have same2: "same_table s1 s2" using same_table_steps(2) [of s1 a] by (simp add: i)
  have i1: "loc_inv {d} s1" "live s1 d" using loc_dest_inv [OF ds inv] by simp_all
  have i2: "loc_inv {d} s2" "live s2 d" using i1 by (simp_all add: same_tableD [OF same2])
  have i3: "loc_inv {d} s3" unfolding s3 by (rule new_path_inv [OF i2(1)])
  have lv: "live s3 d" using i2(2) by (simp add: s3 live_def new_path_fields)
  have f3: "l_table s3 = l_table s2" "l_sets s3 = l_sets s2" "l_path_count s3 = l_path_count s2"
    "l_attr s3 = (l_attr s2)(l_npaths s2 := b)"
    by (simp_all add: s3 new_path_def)
  have bag2: "all_paths s2 = all_paths s1" by (rule all_paths_same [OF same2])
  then have bag3: "all_paths s3 = all_paths s1" by (simp add: all_paths_def s3 new_path_fields)
  have attr3: "image_mset (l_attr s3) (bag s1) = image_mset (l_attr s1) (bag s1)"
    using bag_range [OF i2(1)] by (intro image_mset_cong) (auto simp: f3 claim2(2) bag2)
  have "bag s4 + mset (paths_of s3 d) = bag s1 + mset ps" using bag_set_paths [OF i3 lv, of ps] by (simp add: s4_def bag3)
  moreover have "add_mset (l_npaths s2) (mset (paths_of s3 d)) = mset ps + gone"
    using replace_first_mset [OF ps] by (simp add: gone_def)
  ultimately have "bag s4 + gone + mset (paths_of s3 d) = add_mset (l_npaths s2) (bag s1) + mset (paths_of s3 d)"
    by (metis (no_types, lifting) add.assoc add.commute add_mset_add_single)
  then have swap: "bag s4 + gone = add_mset (l_npaths s2) (bag s1)" by simp
  have image: "image_mset (l_attr s3) (bag s4) + image_mset (l_attr s3) gone = add_mset b (image_mset (l_attr s1) (bag s1))"
    using arg_cong [OF swap, of "image_mset (l_attr s3)"] by (simp add: attr3) (simp add: f3)
  have f4: "l_table s4 = l_table s2" "l_sets s4 = l_sets s2" "l_path_count s4 = l_path_count s2" "l_attr s4 = l_attr s3"
    using accountsD [OF accounts_frames(2)] f3 by (simp_all add: s4_def)
  have claim4: "table_inv h0 ((l_table s4, l_sets s4), add_mset b ?M)" using claim2(1) by (simp add: f4)
  note D = displace_claims [OF fin claim4, of d "a_nexthop (p_attrs x)" old, folded s5_def]
  have g: "(case old of None \<Rightarrow> {#} | Some q \<Rightarrow> {#l_attr s4 q#}) = image_mset (l_attr s3) gone"
    by (simp add: gone_def f4 split: option.split)
  have "add_mset b ?M = C + image_mset (l_attr s3) (bag s4) + image_mset (l_attr s3) gone"
    using image by (simp add: add.assoc)
  then have "add_mset b ?M - image_mset (l_attr s3) gone = C + image_mset (l_attr s3) (bag s4)" by (simp only: add_diff_cancel_right')
  then have "table_inv h0 ((l_table s5, l_sets s5), C + image_mset (l_attr s5) (bag s4))"
    using D(1) unfolding D(2) f4 g [unfolded f4(4)] by (simp only:)
  moreover have "size (bag s4) + size gone = size (bag s1) + 1" using arg_cong [OF swap, of size] by simp
  then have "l_path_count s5 = int (size (bag s4))"
    using D(3) count1 by (simp add: f4 claim2(3) gone_def split: option.splits)
  moreover have acc: "accounts s' = accounts s5" by (simp add: s' s5_def s4_def)
  moreover have "all_paths s' = all_paths s4"
  proof -
    have "same_table s4 (index_nexthop (a_nexthop (p_attrs x)) d r m (index_add (pr_obj pr) d s5))"
      unfolding s5_def by (rule same_table_trans [OF same_table_trans [OF displace_same same_table_steps(3)] same_table_steps(5)])
    from all_paths_same [OF this] show ?thesis by (simp add: s' s5_def s4_def)
  qed
  ultimately show "balanced h0 C s'" using accountsD [OF acc] by (simp add: balanced_def)
qed

lemma lose_paths:
  assumes fin: "all_final h0" and inv: "loc_inv {} s" and lv: "live s d" and bal: "balanced h0 C s"
    and ps: "mset (paths_of s d) = mset ps + mset qs" and n: "l_path_count s' = l_path_count s - int (length qs)"
    and t: "table_inv h0 ((l_table s', l_sets s'), C + image_mset (l_attr s) (bag s) - image_mset (l_attr s) (mset qs))"
    and a: "l_attr s' = l_attr s" and same: "same_table (set_paths d ps s) s'"
  shows "balanced h0 C s'" and "bag s = bag s' + mset qs"
proof -
  have "bag (set_paths d ps s) + mset (paths_of s d) = bag s + mset ps" by (rule bag_set_paths [OF inv lv])
  then have "bag (set_paths d ps s) + mset qs + mset ps = bag s + mset ps" by (simp add: ps ac_simps)
  then show b: "bag s = bag s' + mset qs" using all_paths_same [OF same] by simp
  show "balanced h0 C s'"
    using t bal n by (simp add: balanced_def a b)
qed

lemma remove_path_balanced:
  assumes fin: "all_final h0" and inv: "loc_inv {} s" and bal: "balanced h0 C s"
  shows "balanced h0 C (snd (remove_path peer p i s))"
proof -
  obtain b s' where r: "remove_path peer p i s = (b, s')" by fastforce
  from r inv show ?thesis
  proof (rule remove_path_cases)
    assume "\<not> b" "s' = s"
    then show ?thesis using r bal by simp
  next
    fix pr d q ps s1
    assume lv: "live s d" and del: "delete_first (is_path (l_path s) (pr_obj pr) i) (paths_of s d) = (Some q, ps)"
      and s1: "s1 = loc_release q (set_paths d ps s\<lparr>l_path_count := l_path_count s - 1\<rparr>)"
      and s': "s' = unindex_nexthop (path_nexthop s q) d (requeue d (if peer_has (pr_obj pr) d s1 then s1 else index_remove (pr_obj pr) (prefix_of s d) s1))"
    let ?s0 = "set_paths d ps s\<lparr>l_path_count := l_path_count s - 1\<rparr>"
    have t1: "same_table (set_paths d ps s) s1" unfolding s1 by (rule same_table_trans [OF same_table_steps(9) same_table_steps(1)])
    have f0: "l_table ?s0 = l_table s" "l_sets ?s0 = l_sets s" "l_attr ?s0 = l_attr s"
      using accountsD [OF accounts_frames(2), of d ps s] by simp_all
    have "table_inv h0 ((l_table s1, l_sets s1), C + image_mset (l_attr s) (bag s) - {#l_attr s q#})"
      using release_claim [OF fin, of ?s0 "C + image_mset (l_attr s) (bag s)" q] bal f0 by (simp add: s1 balanced_def)
    then have "balanced h0 C s1"
      using delete_first_mset [OF del] f0 by (intro lose_paths(1) [OF fin inv lv bal _ _ _ _ t1, of "[q]"]) (simp_all add: s1)
    define s2 where "s2 = (if peer_has (pr_obj pr) d s1 then s1 else index_remove (pr_obj pr) (prefix_of s d) s1)"
    have t2: "same_table s1 s2" by (simp add: s2_def)
    have "loc_inv {d} (set_paths d ps s)"
      using loc_inv_mono [OF inv] delete_first_set [OF del] lv by (intro fewer_paths_inv) auto
    then have "loc_inv {d} s2" by (simp add: same_tableD(1) [OF same_table_trans [OF t1 t2]])
    moreover have "live s2 d" by (simp add: same_tableD(2) [OF same_table_trans [OF t1 t2]] lv)
    ultimately have "bag s' = bag s1" using bag_requeue all_paths_same [OF t2] all_paths_same [OF same_table_steps(7)]
      by (simp add: s' s2_def [symmetric])
    moreover have "accounts s' = accounts s1" by (simp add: s')
    ultimately show ?thesis using balanced_frame [OF \<open>balanced h0 C s1\<close>] by (simp add: r)
  qed
qed


lemma mset_split: "mset xs = mset (filter (\<lambda>x. \<not> P x) xs) + mset (filter P xs)"
  by (induction xs) auto

lemma unindex_fold_accounts: "accounts (fold (\<lambda>q s. unindex_nexthop (path_nexthop s q) d s) qs s) = accounts s"
  by (induction qs arbitrary: s) simp_all

lemma remove_peer_dest_balanced:
  assumes fin: "all_final h0" and inv: "loc_inv {} s" and lv: "live s d" and bal: "balanced h0 C s"
  shows "balanced h0 C (snd (remove_peer_dest peer (prefix_of s d) d s))"
proof (cases "of_peer peer s d = []")
  case False
  define s1 where "s1 = fold loc_release (of_peer peer s d) s"
  define s2 where "s2 = dropped peer d s"
  have t2: "same_table (set_paths d (others peer s d) s) s2" unfolding s2_def by (rule dropped_same)
  have c1: "table_inv h0 ((l_table s1, l_sets s1), C + image_mset (l_attr s) (bag s) - image_mset (l_attr s) (mset (of_peer peer s d)))"
    and a1: "l_attr s1 = l_attr s"
    using release_claims [OF fin, of s "C + image_mset (l_attr s) (bag s)" "of_peer peer s d"] bal by (simp_all add: s1_def balanced_def)
  have f2: "l_table s2 = l_table s1" "l_sets s2 = l_sets s1" "l_attr s2 = l_attr s" "l_path_count s2 = l_path_count s - int (length (of_peer peer s d))"
    using accountsD [OF accounts_frames(2), of d "others peer s d" s1] by (simp_all add: s2_def dropped_def s1_def [symmetric] a1)
  have split: "mset (paths_of s d) = mset (others peer s d) + mset (of_peer peer s d)"
    unfolding others_def of_peer_def by (rule mset_split)
  have bal2: "balanced h0 C s2"
    using c1 by (intro lose_paths(1) [OF fin inv lv bal split f2(4) _ f2(3) t2]) (simp add: f2)
  have "loc_inv {d} (set_paths d (others peer s d) s)"
    using loc_inv_mono [OF inv] lv by (intro fewer_paths_inv) (auto simp: others_def)
  then have i2: "loc_inv {d} s2" "live s2 d" by (simp_all add: same_tableD [OF t2] lv)
  let ?s3 = "fold (\<lambda>q s. unindex_nexthop (path_nexthop s q) d s) (of_peer peer s d) (requeue d s2)"
  have "bag ?s3 = bag s2" using all_paths_same [OF unindex_fold(1)] bag_requeue [OF i2] by simp
  then have "balanced h0 C ?s3" by (intro balanced_frame [OF bal2]) (simp_all add: unindex_fold_accounts)
  then show ?thesis using False by (simp add: remove_peer_dest_eq [OF lv] s2_def)
qed (simp add: remove_peer_dest_eq [OF lv] bal)

lemma remove_peer_fold_balanced:
  assumes fin: "all_final h0" and "loc_inv {} s" and "distinct (map fst cs)" and "\<And>p d. (p, d) \<in> set cs \<Longrightarrow> dict_get (l_dests s) p = Some d"
    and "balanced h0 C s"
  shows "balanced h0 C (snd (fold (drop_peer_step peer) cs (n, s)))"
  using assms(2-)
proof (induction cs arbitrary: n s)
  case (Cons c cs)
  obtain p d where c: "c = (p, d)" by fastforce
  have get: "dict_get (l_dests s) p = Some d" by (rule Cons.prems(3)) (simp add: c)
  have d: "live s d" "prefix_of s d = p" using liveI loc_invD(4) Cons.prems(1) get by blast+
  obtain k s1 where r: "remove_peer_dest peer (prefix_of s d) d s = (k, s1)" by fastforce
  note K = remove_peer_dest_keeps [OF Cons.prems(1) d(1) r, unfolded d(2)]
  have rest: "dict_get (l_dests s1) p' = Some d'" if "(p', d') \<in> set cs" for p' d'
  proof -
    have "p' \<noteq> p" using that Cons.prems(2) c by force
    moreover have "dict_get (l_dests s) p' = Some d'" by (rule Cons.prems(3)) (simp add: that)
    ultimately show ?thesis using K [of _ p'] by simp
  qed
  have "balanced h0 C s1" using remove_peer_dest_balanced [OF fin Cons.prems(1) d(1) Cons.prems(4), of peer] by (simp add: r)
  then have "balanced h0 C (snd (fold (drop_peer_step peer) cs (n + k, s1)))"
    using Cons.IH [OF _ _ rest] K Cons.prems(2) by simp
  then show ?case using r by (simp add: c d(2))
qed simp

lemma remove_peer_balanced:
  assumes fin: "all_final h0" and inv: "loc_inv {} s" and peers: "peers_but {} s" and bal: "balanced h0 C s"
  shows "balanced h0 C (snd (remove_peer peer s))"
proof (cases peer)
  case (Some pr)
  let ?k = "pr_obj pr"
  show ?thesis
  proof (cases "dict_get (l_by_peer s) ?k")
    case (Some cs)
    let ?s = "s\<lparr>l_by_peer := dict_pop ?k (l_by_peer s)\<rparr>"
    have same: "same_table s ?s" by simp
    have dist: "distinct (map fst cs)" using peers_butD(1) [OF peers] Some by (simp add: inner_distinct_def)
    have in_table: "dict_get (l_dests ?s) p = Some d" if "(p, d) \<in> set cs" for p d
      using peers_butD(2) [OF peers, of ?k p] map_of_is_SomeI [OF dist that]
      by (auto simp: keyed_def look_def Some split: option.splits if_splits)
    have "loc_inv {} ?s" using inv by (simp add: same_tableD(1) [OF same])
    moreover have "balanced h0 C ?s"
      using all_paths_same [OF same] by (intro balanced_frame [OF bal]) (simp_all add: accounts_def)
    ultimately show ?thesis
      using remove_peer_fold_balanced [OF fin _ dist in_table] Some \<open>peer = Some pr\<close> by (simp add: remove_peer_def)
  qed (use bal Some in \<open>simp add: remove_peer_def\<close>)
qed (simp add: remove_peer_def bal)

section \<open>The other operations leave the claims alone\<close>

lemma drop_empty_bag:
  assumes "loc_inv X s"
  shows "bag (loc_drop_empty d s) = bag s"
  using bag_pop [OF assms, of "prefix_of s d" d] by (simp add: loc_drop_empty_def live_def)

lemma select_one_claims:
  assumes inv: "loc_inv {} s" and more: "l_qhead s < length (l_queue s)"
  shows "accounts (fst (loc_select_one s)) = accounts s" "bag (fst (loc_select_one s)) = bag s"
proof -
  define d where "d = l_queue s ! l_qhead s"
  define s2 where "s2 = loc_publish d (d_best (l_dest s d)) (d_best (l_dest (loc_selected s) d)) (loc_selected s)"
  have one: "fst (loc_select_one s) = loc_drop_empty d s2" by (simp add: loc_select_one_def Let_def d_def s2_def)
  show "accounts (fst (loc_select_one s)) = accounts s" by (simp add: one) (simp add: s2_def)
  have f: "l_dests s2 = l_dests s" "paths_of s2 e = paths_of s e" "prefix_of s2 e = prefix_of s e" for e
    by (simp_all add: s2_def publish_fields selected_fields selected_dest(2,3))
  have pop: "bag (s\<lparr>l_dests := dict_pop (prefix_of s d) (l_dests s)\<rparr>) = bag s" if "paths_of s d = []" "live s d"
    using bag_pop [OF inv _ that(1), of "prefix_of s d"] that(2) by (simp add: live_def)
  have "live s2 d = live s d" by (simp add: live_def f)
  then have "all_paths (loc_drop_empty d s2) = all_paths (if best_of s2 d = None \<and> paths_of s d = [] \<and> live s d
      then s\<lparr>l_dests := dict_pop (prefix_of s d) (l_dests s)\<rparr> else s)"
    by (simp add: loc_drop_empty_def all_paths_def f)
  then show "bag (fst (loc_select_one s)) = bag s" using pop by (simp add: one)
qed

lemma loop_claims:
  assumes "loc_inv {} s" and "n \<le> length (l_queue s)"
  shows "accounts (fst (loc_loop limit n k s cs)) = accounts s \<and> bag (fst (loc_loop limit n k s cs)) = bag s"
  using assms
proof (induction limit n k s cs rule: loc_loop.induct)
  case (1 limit n k s cs)
  show ?case
  proof (cases "l_qhead s < n \<and> (limit \<le> 0 \<or> k < limit)")
    case True
    then have more: "l_qhead s < length (l_queue s)" using "1.prems" by simp
    show ?thesis
      using "1.IH" [OF True] select_one_claims [OF "1.prems"(1) more] select_one_inv(1) [OF "1.prems"(1) more] "1.prems"(2) True
      by (subst (1 2) loc_loop.simps) simp
  next
    case False
    then show ?thesis by (subst (1 2) loc_loop.simps) auto
  qed
qed

lemma reselect_balanced:
  assumes inv: "loc_inv {} s" and bal: "balanced h0 C s"
  shows "balanced h0 C (snd (loc_reselect limit s))"
proof -
  define s1 where "s1 = fst (loc_loop limit (length (l_queue s)) 0 s [])"
  have r: "snd (loc_reselect limit s) = loc_compact s1" by (simp add: loc_reselect_def s1_def case_prod_beta)
  have "all_paths (loc_compact s1) = all_paths s1" by (rule all_paths_cong) (simp_all add: loc_compact_def)
  then show ?thesis
    using loop_claims [OF inv, of "length (l_queue s)" limit 0 "[]"] by (intro balanced_frame [OF bal]) (simp_all add: r s1_def)
qed

lemma set_config_balanced: "balanced h0 C s \<Longrightarrow> balanced h0 C (snd (set_config cfg s))"
proof (erule balanced_frame)
  have f: "accounts (fold (\<lambda>(_, d). loc_enqueue d) xs s) = accounts s \<and> all_paths (fold (\<lambda>(_, d). loc_enqueue d) xs s) = all_paths s"
    for s and xs :: dest_index by (induction xs arbitrary: s) auto
  have "accounts (s\<lparr>l_config := c\<rparr>) = accounts s \<and> all_paths (s\<lparr>l_config := c\<rparr>) = all_paths s" for c
    by (simp add: accounts_def all_paths_def)
  then show "accounts (snd (set_config cfg s)) = accounts s" "bag (snd (set_config cfg s)) = bag s"
    using f by (simp_all add: set_config_def split: option.split)
qed

lemma revalidate_claims: "accounts (snd (revalidate check s)) = accounts s \<and> all_paths (snd (revalidate check s)) = all_paths s"
proof -
  have a: "accounts (snd (answer_dest nh a d ns)) = accounts (snd ns) \<and> all_paths (snd (answer_dest nh a d ns)) = all_paths (snd ns)" for nh a d ns
    by (simp add: answer_dest_def Let_def split: prod.split) (simp add: accounts_def all_paths_def)
  have f: "accounts (snd (fold (\<lambda>(p, d). answer_dest nh a d) xs ns)) = accounts (snd ns)
    \<and> all_paths (snd (fold (\<lambda>(p, d). answer_dest nh a d) xs ns)) = all_paths (snd ns)" for nh a ns and xs :: dest_index
    by (induction xs arbitrary: ns) (auto simp: a)
  have h: "accounts (s\<lparr>l_nh_state := x, l_nh_dests := y\<rparr>) = accounts s" "all_paths (s\<lparr>l_nh_state := x, l_nh_dests := y\<rparr>) = all_paths s" for x y s
    by (simp_all add: accounts_def all_paths_def)
  have "accounts (snd (revalidate_one check nh ns)) = accounts (snd ns) \<and> all_paths (snd (revalidate_one check nh ns)) = all_paths (snd ns)" for nh ns
    using f all_paths_same [OF same_table_steps(8)] by (simp add: revalidate_one_def Let_def case_prod_beta h)
  then have "accounts (snd (fold (revalidate_one check) nhs ns)) = accounts (snd ns)
    \<and> all_paths (snd (fold (revalidate_one check) nhs ns)) = all_paths (snd ns)" for nhs ns
    by (induction nhs arbitrary: ns) simp_all
  then show ?thesis by (simp add: revalidate_def)
qed

lemma clear_balanced:
  assumes fin: "all_final h0" and bal: "balanced h0 C s"
  shows "table_inv h0 ((l_table (snd (loc_clear s)), l_sets (snd (loc_clear s))), C)" "balanced h0 C (snd (loc_clear s))"
proof -
  define s1 where "s1 = fold loc_release (all_paths s) s"
  have c1: "table_inv h0 ((l_table s1, l_sets s1), C)"
    using release_claims(1) [OF fin, of s "C + image_mset (l_attr s) (bag s)" "all_paths s"] bal by (simp add: s1_def balanced_def)
  have u: "accounts (fold (\<lambda>(_, d). upd_dest d g) xs s) = accounts s" for g s and xs :: dest_index
    by (induction xs arbitrary: s) auto
  have r: "accounts (fold (\<lambda>p s. snd (loc_retract p s)) ps s) = accounts s" for ps s
    by (induction ps arbitrary: s) simp_all
  define s3 where "s3 = fold (\<lambda>p s. snd (loc_retract p s)) (l_offered (fold (\<lambda>(_, d). upd_dest d (\<lambda>x. x\<lparr>d_queued := False\<rparr>)) (l_dests s1) s1))
    (fold (\<lambda>(_, d). upd_dest d (\<lambda>x. x\<lparr>d_queued := False\<rparr>)) (l_dests s1) s1)"
  have "accounts s3 = accounts s1" by (simp add: s3_def r u)
  moreover have e: "snd (loc_clear s) = s3\<lparr>l_dests := [], l_by_peer := [], l_nh_dests := [], l_nh_state := [], l_offered := [], l_queue := [],
    l_qhead := 0, l_path_count := 0\<rparr>"
    unfolding loc_clear_def Let_def all_paths_def [symmetric] s1_def [symmetric] s3_def [symmetric] by simp
  ultimately show t: "table_inv h0 ((l_table (snd (loc_clear s)), l_sets (snd (loc_clear s))), C)"
    using c1 accountsD [of s3 s1] by simp
  show "balanced h0 C (snd (loc_clear s))" using t by (simp add: balanced_def e all_paths_def)
qed

lemma loc_step_balanced:
  assumes fin: "all_final h0" and ok: "loc_ok s" and bal: "balanced h0 C s"
  shows "balanced h0 C (loc_step s e)"
proof -
  from ok have inv: "loc_inv {} s" and peers: "peers_but {} s" by (simp_all add: loc_ok_def)
  show ?thesis
  proof (cases e)
    case (Announce peer p attrs i w src m t r keep)
    then show ?thesis using add_path_balanced [OF fin inv bal] bal by (simp split: sum.split)
  next
    case (Next_hops check)
    then show ?thesis using revalidate_claims [of check s] by (intro balanced_frame [OF bal]) simp_all
  next
    case (Select_chunk chunk)
    then show ?thesis using reselect_balanced [OF inv bal] bal by (simp add: loc_select_step_def Let_def)
  qed (simp_all add: remove_path_balanced [OF fin inv bal] remove_peer_balanced [OF fin inv peers bal] reselect_balanced [OF inv bal]
      set_config_balanced [OF bal] clear_balanced(2) [OF fin bal])
qed

interpretation loc_claims: invariant_machine loc_step "\<lambda>s. all_final h0 \<and> loc_ok s \<and> balanced h0 C s" for h0 C
  by unfold_locales (simp add: loc_ok_step loc_step_balanced)

lemma new_loc_rib_balanced: "table_inv h0 ((t, h), C) \<Longrightarrow> balanced h0 C (new_loc_rib afi safi cfg ebgp ibgp sink t h)"
  by (simp add: balanced_def new_loc_rib_def all_paths_def)

text \<open>
  C5. Interning balances: the shared table starts with the claims of others; after any run of the Loc-RIB
  it counts, beside them, exactly one claim for every path held, on the set of that path, the
  path counter is the number of paths held, and after shutdown the claims are those of the
  others alone.
\<close>

theorem loc_rib_claims_balance:
  assumes "all_final h" and "table_inv h ((t, h), C)"
  shows "table_inv h ((l_table (loc_run (new_loc_rib afi safi cfg ebgp ibgp sink t h) es), l_sets (loc_run (new_loc_rib afi safi cfg ebgp ibgp sink t h) es)),
      C + image_mset (l_attr (loc_run (new_loc_rib afi safi cfg ebgp ibgp sink t h) es)) (mset (all_paths (loc_run (new_loc_rib afi safi cfg ebgp ibgp sink t h) es))))
    \<and> l_path_count (loc_run (new_loc_rib afi safi cfg ebgp ibgp sink t h) es) = int (length (all_paths (loc_run (new_loc_rib afi safi cfg ebgp ibgp sink t h) es)))
    \<and> table_inv h ((l_table (loc_run (new_loc_rib afi safi cfg ebgp ibgp sink t h) (es @ [Shut_down])),
        l_sets (loc_run (new_loc_rib afi safi cfg ebgp ibgp sink t h) (es @ [Shut_down]))), C)"
proof -
  let ?s = "loc_run (new_loc_rib afi safi cfg ebgp ibgp sink t h) es"
  have "all_final h \<and> loc_ok ?s \<and> balanced h C ?s"
    by (rule loc_claims.run_inv) (simp add: assms new_loc_rib_ok new_loc_rib_balanced)
  then show ?thesis using clear_balanced(1) [of h C ?s] by (simp add: balanced_def)
qed

lemma sample_claims: "all_final sample_store" "table_inv sample_store ((new_attr_table, sample_store), {#})"
  using tracked_run_inv [OF sample_store_fresh, of "[]"] sample_store_fresh by (simp_all add: tracked_run_def fresh_store_def)

lemma loc_rib_claims_balance_witness:
  "l_path_count (loc_run (new_loc_rib 1 1 stale_cfg 20 200 To_core new_attr_table sample_store) stale_events)
    = int (length (all_paths (loc_run (new_loc_rib 1 1 stale_cfg 20 200 To_core new_attr_table sample_store) stale_events)))"
  using loc_rib_claims_balance [OF sample_claims] by blast

end
