(* ===== verification/LocRibHops.thy ===== *)
theory LocRibHops
  imports LocRibResults
begin

text \<open>
  Next-hop tracking in the Loc-RIB: the reverse index is exact through every operation, so testing
  the next hops again reaches every path behind a next hop whose answer has changed, and no other.
\<close>

section \<open>The index by next hop\<close>

definition hop_index :: "loc_rib \<Rightarrow> bytestr \<Rightarrow> prefix \<Rightarrow> nat option" where
  "hop_index s nh p = (if nh = [] then None else keyed hop_key s nh p)"

text \<open>Exact, but for next hops in \<open>K\<close> at the prefix of \<open>d\<close>, which may still name \<open>d\<close>, and
  for those in \<open>N\<close>, which may not name it yet.\<close>

definition hops_at :: "nat \<Rightarrow> bytestr set \<Rightarrow> bytestr set \<Rightarrow> loc_rib \<Rightarrow> bool" where
  "hops_at d K N s \<longleftrightarrow> distinct (map fst (l_nh_dests s)) \<and> inner_distinct (l_nh_dests s)
    \<and> (\<forall>k p. look (l_nh_dests s) k p = hop_index s k p
        \<or> k \<noteq> [] \<and> p = prefix_of s d \<and> (k \<in> N \<or> k \<in> K \<and> look (l_nh_dests s) k p = Some d))"

definition hops_exact :: "loc_rib \<Rightarrow> bool" where
  "hops_exact s \<longleftrightarrow> distinct (map fst (l_nh_dests s)) \<and> inner_distinct (l_nh_dests s)
    \<and> (\<forall>k p. look (l_nh_dests s) k p = hop_index s k p)"

lemma hops_atD:
  "hops_at d K N s \<Longrightarrow> look (l_nh_dests s) k p = hop_index s k p
    \<or> k \<noteq> [] \<and> p = prefix_of s d \<and> (k \<in> N \<or> k \<in> K \<and> look (l_nh_dests s) k p = Some d)"
  by (simp add: hops_at_def)

lemma hops_at_exact: "hops_at d {} {} s \<longleftrightarrow> hops_exact s"
  by (simp add: hops_at_def hops_exact_def)

lemma hops_frame:
  "hops_exact s \<Longrightarrow> l_nh_dests s' = l_nh_dests s \<Longrightarrow> keyed hop_key s' = keyed hop_key s \<Longrightarrow> hops_exact s'"
  by (simp add: hops_exact_def hop_index_def)

lemma hops_at_frame:
  "hops_at d K N s \<Longrightarrow> l_nh_dests s' = l_nh_dests s \<Longrightarrow> keyed hop_key s' = keyed hop_key s \<Longrightarrow> prefix_of s' d = prefix_of s d
    \<Longrightarrow> hops_at d K N s'"
proof -
  assume a: "hops_at d K N s" "l_nh_dests s' = l_nh_dests s" "keyed hop_key s' = keyed hop_key s" "prefix_of s' d = prefix_of s d"
  have "hop_index s' = hop_index s" by (simp add: hop_index_def a(3) fun_eq_iff)
  with a(1) show ?thesis unfolding hops_at_def by (simp add: a(2,4))
qed

lemma nh_dests_frames [simp]:
  "l_nh_dests (loc_release q s) = l_nh_dests s" "l_nh_dests (snd (loc_intern a s)) = l_nh_dests s"
  "l_nh_dests (index_add peer d s) = l_nh_dests s" "l_nh_dests (index_remove peer p s) = l_nh_dests s"
  "l_nh_dests (set_paths d ps s) = l_nh_dests s" "l_nh_dests (loc_enqueue d s) = l_nh_dests s"
  "l_nh_dests (snd (new_path b x s)) = l_nh_dests s" "l_nh_dests (requeue d s) = l_nh_dests s"
  "l_nh_dests (loc_publish d v w s) = l_nh_dests s" "l_nh_dests (loc_drop_empty d s) = l_nh_dests s" "l_nh_dests (loc_selected s) = l_nh_dests s"
  "l_nh_dests (loc_compact s) = l_nh_dests s"
proof -
  show "l_nh_dests (loc_enqueue d s) = l_nh_dests s" for d and s :: loc_rib by (simp add: loc_enqueue_def upd_dest_def)
  then show "l_nh_dests (requeue d s) = l_nh_dests s" by (simp add: requeue_def Let_def)
qed (simp_all add: loc_release_def loc_intern_def index_add_def index_remove_def set_paths_def upd_dest_def new_path_def
    loc_publish_def loc_retract_def loc_offer_def loc_drop_empty_def loc_selected_def loc_compact_def Let_def
    split: option.split sum.split prod.split)

lemma loc_dest_nh_dests: "loc_dest p s = Inr (d, s') \<Longrightarrow> l_nh_dests s' = l_nh_dests s"
  by (auto simp: loc_dest_def split: option.splits if_splits)

lemma hop_key_local: "h q = h' q \<Longrightarrow> hop_key h q = hop_key h' q"
  by (simp add: hop_key_def)

lemma path_nexthop_key: "path_nexthop s q = hop_key (l_path s) q"
  by (simp add: path_nexthop_def hop_key_def)

lemma uses_nexthop_iff: "uses_nexthop s nh d \<longleftrightarrow> (\<exists>q\<in>set (paths_of s d). hop_key (l_path s) q = nh)"
  by (simp add: uses_nexthop_def list_ex_iff path_nexthop_key)

lemma store_nexthop_look:
  "look (l_nh_dests (store_nexthop nh ds s)) k p = (if k = nh then dict_get ds p else look (l_nh_dests s) k p)"
  by (simp add: store_nexthop_def look_set look_pop)

lemma store_nexthop_distinct:
  "distinct (map fst (l_nh_dests s)) \<Longrightarrow> distinct (map fst (l_nh_dests (store_nexthop nh ds s)))"
  "inner_distinct (l_nh_dests s) \<Longrightarrow> distinct (map fst ds) \<Longrightarrow> inner_distinct (l_nh_dests (store_nexthop nh ds s))"
  by (simp_all add: store_nexthop_def inner_distinct_set inner_distinct_pop)

lemma unindex_hops:
  assumes at: "hops_at d K N s" and d: "dict_get (l_dests s) (prefix_of s d) = None \<or> dict_get (l_dests s) (prefix_of s d) = Some d"
    and nh: "nh \<notin> N"
  shows "hops_at d (K - {nh}) N (unindex_nexthop nh d s)"
proof (cases "nh = []")
  case True
  then show ?thesis using at by (auto simp: unindex_nexthop_def hops_at_def)
next
  case False
  let ?s = "unindex_nexthop nh d s" and ?p = "prefix_of s d"
  have same: "same_table s ?s" by simp
  have f: "hop_index ?s = hop_index s" "prefix_of ?s d = ?p"
    using keyed_same [OF same, of hop_key] same by (auto simp: hop_index_def same_table_def fun_eq_iff)
  have index: "hop_index s nh ?p = (if live s d \<and> uses_nexthop s nh d then Some d else None)"
    using d False by (auto simp: hop_index_def keyed_def uses_nexthop_iff live_def)
  show ?thesis
  proof (cases "dict_get (l_nh_dests s) nh")
    case None
    then have e: "?s = s" and none: "look (l_nh_dests s) nh p = None" for p
      using False by (simp_all add: unindex_nexthop_def look_def)
    show ?thesis unfolding hops_at_def e
    proof (intro conjI allI)
      fix k p
      show "look (l_nh_dests s) k p = hop_index s k p
        \<or> k \<noteq> [] \<and> p = ?p \<and> (k \<in> N \<or> k \<in> K - {nh} \<and> look (l_nh_dests s) k p = Some d)"
        using hops_atD [OF at, of k p] nh none [of p] by (cases "k = nh") auto
    qed (use at in \<open>simp_all add: hops_at_def\<close>)
  next
    case (Some ds)
    have lk: "look (l_nh_dests s) nh p = dict_get ds p" for p by (simp add: look_def Some)
    show ?thesis
    proof (cases "dict_get ds ?p = Some d \<and> \<not> (live s d \<and> uses_nexthop s nh d)")
      case False
      then have e: "?s = s" using Some \<open>nh \<noteq> []\<close> by (auto simp: unindex_nexthop_def)
      have "look (l_nh_dests s) nh ?p = hop_index s nh ?p \<or> dict_get ds ?p = Some d"
        using hops_atD [OF at, of nh ?p] nh lk [of ?p] by auto
      then have exact: "look (l_nh_dests s) nh ?p = hop_index s nh ?p" using False index by (auto simp: lk)
      show ?thesis unfolding hops_at_def e
      proof (intro conjI allI)
        fix k p
        show "look (l_nh_dests s) k p = hop_index s k p
          \<or> k \<noteq> [] \<and> p = ?p \<and> (k \<in> N \<or> k \<in> K - {nh} \<and> look (l_nh_dests s) k p = Some d)"
          using hops_atD [OF at, of k p] exact nh by (cases "k = nh") auto
      qed (use at in \<open>simp_all add: hops_at_def\<close>)
    next
      case True
      then have e: "?s = store_nexthop nh (dict_pop ?p ds) s" using Some \<open>nh \<noteq> []\<close> by (auto simp: unindex_nexthop_def)
      have "distinct (map fst ds)" using at Some by (simp add: hops_at_def inner_distinct_def)
      moreover have "look (l_nh_dests ?s) k p = hop_index s k p
          \<or> k \<noteq> [] \<and> p = ?p \<and> (k \<in> N \<or> k \<in> K - {nh} \<and> look (l_nh_dests ?s) k p = Some d)" for k p
      proof (cases "k = nh \<and> p = ?p")
        case True
        then show ?thesis using \<open>dict_get ds ?p = Some d \<and> \<not> (live s d \<and> uses_nexthop s nh d)\<close> index
          by (auto simp: e store_nexthop_look dict_get_pop)
      next
        case False
        then have "look (l_nh_dests ?s) k p = look (l_nh_dests s) k p"
          by (simp add: e store_nexthop_look dict_get_pop lk [symmetric])
        then show ?thesis using hops_atD [OF at, of k p] False nh by (cases "k = nh") auto
      qed
      ultimately show ?thesis
        using at store_nexthop_distinct unfolding hops_at_def f by (simp add: e)
    qed
  qed
qed

lemma index_hops:
  assumes at: "hops_at d K N s" and lv: "live s d" and uses: "\<exists>q\<in>set (paths_of s d). hop_key (l_path s) q = nh"
  shows "hops_at d (K - {nh}) (N - {nh}) (index_nexthop nh d r m s)"
proof (cases "nh = []")
  case True
  then show ?thesis using at by (auto simp: index_nexthop_def hops_at_def)
next
  case False
  let ?s = "index_nexthop nh d r m s" and ?p = "prefix_of s d"
  have same: "same_table s ?s" by simp
  have f: "hop_index ?s = hop_index s" "prefix_of ?s d = ?p"
    using keyed_same [OF same, of hop_key] same by (auto simp: hop_index_def same_table_def fun_eq_iff)
  have index: "hop_index s nh ?p = Some d" using False uses keyed_prefix [OF lv, of hop_key nh] by (simp add: hop_index_def)
  have lk: "look (l_nh_dests ?s) k p = (if k = nh \<and> p = ?p then Some d else look (l_nh_dests s) k p)" for k p
    using False by (simp add: index_nexthop_def look_set dict_get_set dict_get_default)
  have "inner_distinct (l_nh_dests ?s)" "distinct (map fst (l_nh_dests ?s))"
    using at False inner_distinct_get [of "l_nh_dests s" nh] by (simp_all add: hops_at_def index_nexthop_def inner_distinct_set)
  moreover have "look (l_nh_dests ?s) k p = hop_index s k p
      \<or> k \<noteq> [] \<and> p = ?p \<and> (k \<in> N - {nh} \<or> k \<in> K - {nh} \<and> look (l_nh_dests ?s) k p = Some d)" for k p
    using hops_atD [OF at, of k p] index by (cases "k = nh \<and> p = ?p") (auto simp: lk)
  ultimately show ?thesis unfolding hops_at_def f by blast
qed


section \<open>The operations keep it exact\<close>

lemma replace_first_new: "replace_first Q x ys = (old, zs) \<Longrightarrow> x \<in> set zs"
  by (induction ys arbitrary: zs) (auto split: if_splits prod.splits)

lemma replace_first_keep: "replace_first Q x ys = (old, zs) \<Longrightarrow> q \<in> set ys \<Longrightarrow> old \<noteq> Some q \<Longrightarrow> q \<in> set zs"
  by (induction ys arbitrary: zs) (auto split: if_splits prod.splits)

lemma requeue_hops: "live s d \<Longrightarrow> hops_at d K N s \<Longrightarrow> hops_at d K N (requeue d s)"
  by (erule hops_at_frame) (simp_all add: keyed_requeue, simp add: requeue_def Let_def)

lemma requeue_gone:
  "live s d \<Longrightarrow> dict_get (l_dests (requeue d s)) (prefix_of (requeue d s) d) = None
    \<or> dict_get (l_dests (requeue d s)) (prefix_of (requeue d s) d) = Some d"
  by (simp add: requeue_def Let_def live_def dict_get_pop)

text \<open>After a destination has lost paths, only their next hops can be filed in excess.\<close>

lemma lost_hops:
  assumes inv: "loc_inv X s" and lv: "live s d" and hops: "hops_exact s" and sub: "set ps \<subseteq> set (paths_of s d)"
    and lost: "\<And>q. q \<in> set (paths_of s d) \<Longrightarrow> q \<notin> set ps \<Longrightarrow> hop_key (l_path s) q \<in> K"
  shows "hops_at d K {} (set_paths d ps s)"
  unfolding hops_at_def
proof (intro conjI allI)
  fix k p
  let ?s = "set_paths d ps s"
  have ex: "look (l_nh_dests ?s) k p = hop_index s k p" using hops by (simp add: hops_exact_def)
  have pd: "prefix_of ?s d = prefix_of s d" by (simp add: set_paths_def)
  have h': "hop_index ?s k p = (if k \<noteq> [] \<and> p = prefix_of s d then if \<exists>q\<in>set ps. hop_key (l_path s) q = k then Some d else None
      else hop_index s k p)"
    by (auto simp: hop_index_def keyed_set_paths [OF inv lv])
  have h: "hop_index s k (prefix_of s d) = (if k \<noteq> [] \<and> (\<exists>q\<in>set (paths_of s d). hop_key (l_path s) q = k) then Some d else None)"
    by (simp add: hop_index_def keyed_prefix [OF lv])
  show "look (l_nh_dests ?s) k p = hop_index ?s k p \<or> k \<noteq> [] \<and> p = prefix_of ?s d \<and> (k \<in> {} \<or> k \<in> K \<and> look (l_nh_dests ?s) k p = Some d)"
  proof (cases "k \<noteq> [] \<and> p = prefix_of s d \<and> (\<exists>q\<in>set (paths_of s d). hop_key (l_path s) q = k) \<and> \<not> (\<exists>q\<in>set ps. hop_key (l_path s) q = k)")
    case True
    then have "k \<in> K" using lost by blast
    then show ?thesis using True h ex pd by simp
  next
    case False
    then have "hop_index ?s k p = hop_index s k p" using sub h h' by auto
    then show ?thesis using ex by simp
  qed
qed (use hops in \<open>simp_all add: hops_exact_def\<close>)

lemma add_path_hops:
  assumes inv: "loc_inv {} s" and hops: "hops_exact s" and add: "add_path peer p attrs i w src m t r keep s = Inr s'"
  shows "hops_exact s'"
  using add
proof (rule add_path_cases)
  fix pr a d s1 b s2 x s3 old ps
  assume ds: "loc_dest p s = Inr (d, s1)" and i: "loc_intern a s1 = (b, s2)" and s3: "s3 = snd (new_path b x s2)"
    and ps: "replace_first (is_path (l_path s3) (pr_obj pr) i) (l_npaths s2) (paths_of s3 d) = (old, ps)"
    and s': "s' = loc_enqueue d (index_nexthop (a_nexthop (p_attrs x)) d r m (index_add (pr_obj pr) d
      (displace d (a_nexthop (p_attrs x)) old (set_paths d ps s3))))"
  define nh where "nh = a_nexthop (p_attrs x)"
  define s4 where "s4 = set_paths d ps s3"
  define K where "K = (case old of None \<Rightarrow> {} | Some q \<Rightarrow> {hop_key (l_path s3) q})"
  have s2: "s2 = snd (loc_intern a s1)" "same_table s1 s2" using same_table_steps(2) [of s1 a] by (simp_all add: i)
  have i2: "loc_inv {d} s2" "live s2 d" using loc_dest_inv [OF ds inv] by (simp_all add: same_tableD [OF s2(2)])
  have i3: "loc_inv {d} s3" unfolding s3 by (rule new_path_inv [OF i2(1)])
  have lv: "live s3 d" using i2(2) by (simp add: s3 live_def new_path_fields)
  have "keyed hop_key s3 = keyed hop_key s"
    using keyed_new_path [OF i2(1), where key = hop_key and b = b and x = x, OF hop_key_local] keyed_same [OF s2(2), of hop_key]
      keyed_loc_dest [OF ds inv, of hop_key] by (simp add: s3)
  then have hops3: "hops_exact s3" by (intro hops_frame [OF hops]) (simp_all add: s3 s2(1) loc_dest_nh_dests [OF ds])
  have new: "l_npaths s2 \<in> set ps" "hop_key (l_path s3) (l_npaths s2) = nh"
    using replace_first_new [OF ps] by (simp_all add: s3 new_path_fields hop_key_def nh_def)
  have keep: "q \<in> set ps" if "q \<in> set (paths_of s3 d)" "old \<noteq> Some q" for q
    by (rule replace_first_keep [OF ps that])
  have keep': "q \<in> insert (l_npaths s2) (set (paths_of s3 d))" if "q \<in> set ps" for q using replace_first_set [OF ps] that by blast
  have at4: "hops_at d K {nh} s4"
    unfolding hops_at_def
  proof (intro conjI allI)
    fix k p'
    have ex: "look (l_nh_dests s4) k p' = hop_index s3 k p'" using hops3 by (simp add: s4_def hops_exact_def)
    have pd: "prefix_of s4 d = prefix_of s3 d" by (simp add: s4_def set_paths_def)
    have h4: "hop_index s4 k p' = (if k \<noteq> [] \<and> p' = prefix_of s3 d then if \<exists>q\<in>set ps. hop_key (l_path s3) q = k then Some d else None
        else hop_index s3 k p')"
      by (auto simp: hop_index_def s4_def keyed_set_paths [OF i3 lv])
    have h3: "hop_index s3 k (prefix_of s3 d) = (if k \<noteq> [] \<and> (\<exists>q\<in>set (paths_of s3 d). hop_key (l_path s3) q = k) then Some d else None)"
      by (simp add: hop_index_def keyed_prefix [OF lv])
    show "look (l_nh_dests s4) k p' = hop_index s4 k p'
      \<or> k \<noteq> [] \<and> p' = prefix_of s4 d \<and> (k \<in> {nh} \<or> k \<in> K \<and> look (l_nh_dests s4) k p' = Some d)"
    proof (cases "k \<noteq> [] \<and> p' = prefix_of s3 d \<and> k \<noteq> nh")
      case True
      show ?thesis
      proof (cases "\<exists>q\<in>set (paths_of s3 d). hop_key (l_path s3) q = k")
        case yes: True
        then obtain q where q: "q \<in> set (paths_of s3 d)" "hop_key (l_path s3) q = k" by blast
        show ?thesis
        proof (cases "old = Some q")
          case True
          then have "k \<in> K" using q(2) by (simp add: K_def)
          then show ?thesis using \<open>k \<noteq> [] \<and> p' = prefix_of s3 d \<and> k \<noteq> nh\<close> yes h3 ex pd by simp
        next
          case False
          from keep [OF q(1) this] q(2) show ?thesis using True yes h3 h4 ex by auto
        qed
      next
        case no: False
        then have "\<not> (\<exists>q\<in>set ps. hop_key (l_path s3) q = k)" using keep' new(2) True by blast
        then show ?thesis using True no h3 h4 ex by simp
      qed
    next
      case False
      then show ?thesis using h4 ex pd by (cases "k = [] \<or> p' \<noteq> prefix_of s3 d") auto
    qed
  qed (use hops3 in \<open>simp_all add: s4_def hops_exact_def\<close>)
  have lv4: "live s4 d" by (simp add: s4_def lv)
  define s5 where "s5 = displace d nh old s4"
  have at5: "hops_at d (K - - {nh}) {nh} s5"
  proof (cases old)
    case None
    have "hops_at d K {nh} s5"
      by (rule hops_at_frame [OF at4]) (simp_all add: s5_def None displace_def keyed_same [OF same_table_steps(9)])
    then show ?thesis by (simp add: K_def None)
  next
    case (Some q)
    have same: "same_table s4 (loc_release q s4)" by simp
    have at: "hops_at d K {nh} (loc_release q s4)"
      using same by (intro hops_at_frame [OF at4]) (simp_all add: keyed_same [OF same] same_table_def)
    have d: "dict_get (l_dests (loc_release q s4)) (prefix_of (loc_release q s4) d) = Some d"
      using lv4 same by (simp add: live_def same_table_def)
    have q: "path_nexthop (loc_release q s4) q = hop_key (l_path s3) q"
      using same by (simp add: path_nexthop_key same_table_def s4_def set_paths_def)
    show ?thesis
    proof (cases "hop_key (l_path s3) q = nh")
      case True
      then show ?thesis using at q by (simp add: s5_def displace_def Some Let_def K_def)
    next
      case False
      then have "hops_at d (K - {hop_key (l_path s3) q}) {nh} s5"
        using unindex_hops [OF at disjI2 [OF d]] q by (simp add: s5_def displace_def Some Let_def)
      then show ?thesis using False by (simp add: K_def Some)
    qed
  qed
  have same5: "same_table s4 s5" unfolding s5_def by (rule displace_same)
  define s6 where "s6 = index_add (pr_obj pr) d s5"
  have same6: "same_table s4 s6" unfolding s6_def by (rule same_table_trans [OF same5 same_table_steps(3)])
  have at6: "hops_at d (K - - {nh}) {nh} s6"
  proof (rule hops_at_frame [OF at5])
    have same: "same_table s5 s6" by (simp add: s6_def)
    show "keyed hop_key s6 = keyed hop_key s5" by (rule keyed_same [OF same])
    show "prefix_of s6 d = prefix_of s5 d" using same by (simp add: same_table_def)
  qed (simp add: s6_def)
  have uses: "\<exists>q\<in>set (paths_of s6 d). hop_key (l_path s6) q = nh"
    using new same6 by (intro bexI [of _ "l_npaths s2"]) (simp_all add: same_table_def s4_def set_paths_def)
  have at7: "hops_at d (K - - {nh} - {nh}) ({nh} - {nh}) (index_nexthop nh d r m s6)"
    by (rule index_hops [OF at6 _ uses]) (simp add: same_tableD(2) [OF same6] lv4)
  have none: "K - - {nh} - {nh} = {}" "{nh} - {nh} = {}" by blast+
  have "hops_exact (index_nexthop nh d r m s6)" using at7 unfolding none hops_at_exact .
  then show "hops_exact s'" by (rule hops_frame) (simp_all add: s' nh_def s6_def s5_def s4_def)
qed

lemma remove_path_hops:
  assumes inv: "loc_inv {} s" and hops: "hops_exact s"
  shows "hops_exact (snd (remove_path peer p i s))"
proof -
  obtain b s' where r: "remove_path peer p i s = (b, s')" by fastforce
  from r inv show ?thesis
  proof (rule remove_path_cases)
    assume "\<not> b" "s' = s"
    then show ?thesis using r hops by simp
  next
    fix pr d q ps s1
    assume lv: "live s d" and del: "delete_first (is_path (l_path s) (pr_obj pr) i) (paths_of s d) = (Some q, ps)"
      and s1: "s1 = loc_release q (set_paths d ps s\<lparr>l_path_count := l_path_count s - 1\<rparr>)"
      and s': "s' = unindex_nexthop (path_nexthop s q) d (requeue d (if peer_has (pr_obj pr) d s1 then s1 else index_remove (pr_obj pr) (prefix_of s d) s1))"
    define s2 where "s2 = (if peer_has (pr_obj pr) d s1 then s1 else index_remove (pr_obj pr) (prefix_of s d) s1)"
    have t1: "same_table (set_paths d ps s) s1" unfolding s1 by (rule same_table_trans [OF same_table_steps(9) same_table_steps(1)])
    then have t: "same_table (set_paths d ps s) s2" unfolding s2_def by (auto intro: same_table_trans)
    have "mset (paths_of s d) = add_mset q (mset ps)" using delete_first_mset [OF del] by simp
    then have "set (paths_of s d) = insert q (set ps)" by (metis set_mset_add_mset_insert set_mset_mset)
    then have "hops_at d {path_nexthop s q} {} (set_paths d ps s)"
      by (intro lost_hops [OF inv lv hops]) (auto simp: path_nexthop_key)
    moreover have "l_nh_dests s2 = l_nh_dests (set_paths d ps s)" by (simp add: s2_def s1)
    moreover have "prefix_of s2 d = prefix_of (set_paths d ps s) d" using t by (simp add: same_table_def)
    ultimately have "hops_at d {path_nexthop s q} {} s2" using hops_at_frame keyed_same [OF t] by metis
    moreover have "live s2 d" by (simp add: same_tableD(2) [OF t] lv)
    ultimately have "hops_at d ({path_nexthop s q} - {path_nexthop s q}) {} s'"
      unfolding s' s2_def [symmetric] by (intro unindex_hops requeue_hops requeue_gone) simp_all
    then show ?thesis by (simp add: r hops_at_exact)
  qed
qed


lemma unindex_fold_hops:
  assumes "hops_at d K {} s" and "dict_get (l_dests s) (prefix_of s d) = None \<or> dict_get (l_dests s) (prefix_of s d) = Some d"
  shows "hops_at d (K - path_nexthop s ` set qs) {} (fold (\<lambda>q s. unindex_nexthop (path_nexthop s q) d s) qs s)"
  using assms
proof (induction qs arbitrary: K s)
  case (Cons q qs)
  let ?s = "unindex_nexthop (path_nexthop s q) d s"
  have same: "same_table s ?s" by simp
  have hop: "path_nexthop ?s = path_nexthop s" using same by (simp add: path_nexthop_def same_table_def fun_eq_iff)
  have "hops_at d (K - {path_nexthop s q}) {} ?s" by (rule unindex_hops [OF Cons.prems]) simp
  moreover have "dict_get (l_dests ?s) (prefix_of ?s d) = None \<or> dict_get (l_dests ?s) (prefix_of ?s d) = Some d"
    using Cons.prems(2) same by (simp add: same_table_def)
  ultimately have "hops_at d (K - {path_nexthop s q} - path_nexthop ?s ` set qs) {} (fold (\<lambda>q s. unindex_nexthop (path_nexthop s q) d s) qs ?s)"
    by (rule Cons.IH)
  moreover have "K - {path_nexthop s q} - path_nexthop ?s ` set qs = K - path_nexthop s ` set (q # qs)" unfolding hop by auto
  ultimately show ?case by (simp only: fold.simps comp_apply)
qed simp

lemma release_fold_nh: "l_nh_dests (fold loc_release qs s) = l_nh_dests s"
  by (induction qs arbitrary: s) simp_all

lemma remove_peer_dest_hops:
  assumes inv: "loc_inv {} s" and lv: "live s d" and hops: "hops_exact s"
  shows "hops_exact (snd (remove_peer_dest peer (prefix_of s d) d s))"
proof (cases "of_peer peer s d = []")
  case False
  define s2 where "s2 = dropped peer d s"
  define K where "K = hop_key (l_path s) ` set (of_peer peer s d)"
  have t2: "same_table (set_paths d (others peer s d) s) s2" unfolding s2_def by (rule dropped_same)
  have "hops_at d K {} (set_paths d (others peer s d) s)"
    by (rule lost_hops [OF inv lv hops]) (auto simp: others_def of_peer_def K_def)
  moreover have "l_nh_dests s2 = l_nh_dests (set_paths d (others peer s d) s)"
    by (simp add: s2_def dropped_def release_fold_nh)
  moreover have "prefix_of s2 d = prefix_of (set_paths d (others peer s d) s) d" using t2 by (simp add: same_table_def)
  ultimately have at: "hops_at d K {} s2" using hops_at_frame keyed_same [OF t2] by metis
  have lv2: "live s2 d" by (simp add: same_tableD(2) [OF t2] lv)
  let ?s3 = "requeue d s2"
  have "l_path s2 = l_path s" using t2 by (simp add: same_table_def set_paths_def)
  then have "path_nexthop ?s3 = hop_key (l_path s)" by (intro ext) (simp add: path_nexthop_key requeue_def Let_def)
  then have "K - path_nexthop ?s3 ` set (of_peer peer s d) = {}" by (simp add: K_def)
  with unindex_fold_hops [OF requeue_hops [OF lv2 at] requeue_gone [OF lv2], of "of_peer peer s d"]
  have "hops_exact (fold (\<lambda>q s. unindex_nexthop (path_nexthop s q) d s) (of_peer peer s d) ?s3)" by (simp add: hops_at_exact)
  then show ?thesis using False by (simp add: remove_peer_dest_eq [OF lv] s2_def)
qed (simp add: remove_peer_dest_eq [OF lv] hops)

lemma remove_peer_fold_hops:
  assumes "loc_inv {} s" and "distinct (map fst cs)" and "\<And>p d. (p, d) \<in> set cs \<Longrightarrow> dict_get (l_dests s) p = Some d"
    and "hops_exact s"
  shows "hops_exact (snd (fold (drop_peer_step peer) cs (n, s)))"
  using assms
proof (induction cs arbitrary: n s)
  case (Cons c cs)
  obtain p d where c: "c = (p, d)" by fastforce
  have get: "dict_get (l_dests s) p = Some d" by (rule Cons.prems(3)) (simp add: c)
  have d: "live s d" "prefix_of s d = p" using liveI loc_invD(4) Cons.prems(1) get by blast+
  obtain k s1 where r: "remove_peer_dest peer (prefix_of s d) d s = (k, s1)" by fastforce
  note K = remove_peer_dest_keeps [OF Cons.prems(1) d(1) r, unfolded d(2)]
  have rest: "dict_get (l_dests s1) p' = Some d'" if "(p', d') \<in> set cs" for p' d'
  proof -
    have "p' \<noteq> p" using that Cons.prems(2) c by force
    moreover have "dict_get (l_dests s) p' = Some d'" by (rule Cons.prems(3)) (simp add: that)
    ultimately show ?thesis using K [of _ p'] by simp
  qed
  have "hops_exact s1" using remove_peer_dest_hops [OF Cons.prems(1) d(1) Cons.prems(4), of peer] by (simp add: r)
  then have "hops_exact (snd (fold (drop_peer_step peer) cs (n + k, s1)))"
    using Cons.IH [OF _ _ rest] K Cons.prems(2) by simp
  then show ?case using r by (simp add: c d(2))
qed simp

lemma remove_peer_hops:
  assumes inv: "loc_inv {} s" and peers: "peers_but {} s" and hops: "hops_exact s"
  shows "hops_exact (snd (remove_peer peer s))"
proof (cases peer)
  case (Some pr)
  let ?k = "pr_obj pr"
  show ?thesis
  proof (cases "dict_get (l_by_peer s) ?k")
    case (Some cs)
    let ?s = "s\<lparr>l_by_peer := dict_pop ?k (l_by_peer s)\<rparr>"
    have same: "same_table s ?s" by simp
    have dist: "distinct (map fst cs)" using peers_butD(1) [OF peers] Some by (simp add: inner_distinct_def)
    have in_table: "dict_get (l_dests ?s) p = Some d" if "(p, d) \<in> set cs" for p d
      using peers_butD(2) [OF peers, of ?k p] map_of_is_SomeI [OF dist that]
      by (auto simp: keyed_def look_def Some split: option.splits if_splits)
    have "loc_inv {} ?s" using inv by (simp add: same_tableD(1) [OF same])
    moreover have "hops_exact ?s" using keyed_same [OF same] by (intro hops_frame [OF hops]) simp_all
    ultimately show ?thesis
      using remove_peer_fold_hops [OF _ dist in_table] Some \<open>peer = Some pr\<close> by (simp add: remove_peer_def)
  qed (use hops Some in \<open>simp add: remove_peer_def\<close>)
qed (simp add: remove_peer_def hops)

lemma marks_hop_key: "same_but_marks h h' \<Longrightarrow> hop_key h' = hop_key h"
  by (simp add: hop_key_def marks_fields fun_eq_iff)

lemma loop_nh_dests: "l_nh_dests (fst (loc_loop limit n k s cs)) = l_nh_dests s"
proof (induction limit n k s cs rule: loc_loop.induct)
  case (1 limit n k s cs)
  have "l_nh_dests (fst (loc_select_one s)) = l_nh_dests s" by (simp add: loc_select_one_def Let_def)
  with 1 show ?case by (subst loc_loop.simps) simp
qed

lemma reselect_hops: "hops_exact s \<Longrightarrow> hops_exact (snd (loc_reselect limit s))"
proof (erule hops_frame)
  show "l_nh_dests (snd (loc_reselect limit s)) = l_nh_dests s"
    using loop_nh_dests [of limit "length (l_queue s)" 0 s "[]"] by (simp add: loc_reselect_def case_prod_beta)
  show "keyed hop_key (snd (loc_reselect limit s)) = keyed hop_key s" by (rule reselect_keeps(2)) (rule marks_hop_key)
qed

lemma set_config_hops: "hops_exact s \<Longrightarrow> hops_exact (snd (set_config cfg s))"
proof (erule hops_frame)
  have f: "l_nh_dests (fold (\<lambda>(_, d). loc_enqueue d) xs s) = l_nh_dests s" for s and xs :: dest_index
    by (induction xs arbitrary: s) auto
  have "keyed hop_key (s\<lparr>l_config := c\<rparr>) = keyed hop_key s" for c by (rule keyed_cong) simp_all
  then show "l_nh_dests (snd (set_config cfg s)) = l_nh_dests s" "keyed hop_key (snd (set_config cfg s)) = keyed hop_key s"
    using f by (simp_all add: set_config_def enqueue_all_frame split: option.split)
qed

lemma clear_hops: "hops_exact (snd (loc_clear s))"
  by (simp add: hops_exact_def loc_clear_def Let_def look_def hop_index_def keyed_def inner_distinct_def)


section \<open>Testing the next hops again\<close>

definition behind :: "loc_rib \<Rightarrow> bytestr \<Rightarrow> dest_index" where
  "behind s nh = get_default (dict_get (l_nh_dests s) nh) []"

definition answered :: "bool \<times> u32 \<Rightarrow> bgp_path \<Rightarrow> bgp_path" where
  "answered a x = x\<lparr>p_resolved := fst a, p_igp_metric := snd a\<rparr>"

lemma answered_simps [simp]: "answered a (answered a x) = answered a x" "p_attrs (answered a x) = p_attrs x"
  by (simp_all add: answered_def)

lemma behind_member:
  assumes "hops_exact s"
  shows "(p, d) \<in> set (behind s nh) \<longleftrightarrow> hop_index s nh p = Some d" "distinct (map fst (behind s nh))"
proof -
  show dist: "distinct (map fst (behind s nh))"
    using inner_distinct_get [of "l_nh_dests s" nh] assms by (simp add: behind_def hops_exact_def)
  have "(p, d) \<in> set (behind s nh) \<longleftrightarrow> dict_get (behind s nh) p = Some d"
    using dist by (auto dest: map_of_SomeD intro: map_of_is_SomeI)
  then show "(p, d) \<in> set (behind s nh) \<longleftrightarrow> hop_index s nh p = Some d"
    using assms by (simp add: behind_def dict_get_default hops_exact_def)
qed

lemma hop_index_Some:
  "hop_index s nh p = Some d \<longleftrightarrow> nh \<noteq> [] \<and> dict_get (l_dests s) p = Some d \<and> uses_nexthop s nh d"
  by (auto simp: hop_index_def keyed_def uses_nexthop_iff split: option.splits if_splits)

lemma behind_kept:
  assumes "hops_exact s"
  shows "filter (\<lambda>(p, d). dict_get (l_dests s) p = Some d \<and> uses_nexthop s nh d) (behind s nh) = behind s nh"
    "filter (\<lambda>x. \<not> (\<lambda>(p, d). dict_get (l_dests s) p \<noteq> Some d) x) (behind s nh) = behind s nh"
  using behind_member(1) [OF assms, of _ _ nh] by (auto simp: hop_index_Some filter_id_conv)

lemma prune_exact:
  assumes "hops_exact s"
  shows "hops_exact (prune_nexthop nh s)" "nh' \<noteq> nh \<Longrightarrow> dict_get (l_nh_state (prune_nexthop nh s)) nh' = dict_get (l_nh_state s) nh'"
proof -
  have p: "prune_nexthop nh s = store_nexthop nh (behind s nh) s"
    using behind_kept(1) [OF assms, of nh] by (simp add: prune_nexthop_def behind_def)
  have "hop_index (prune_nexthop nh s) = hop_index s"
    using keyed_same [OF same_table_steps(8), of hop_key nh s] by (simp add: hop_index_def fun_eq_iff)
  moreover have "look (l_nh_dests (prune_nexthop nh s)) k p = look (l_nh_dests s) k p" for k p
    by (simp add: p store_nexthop_look) (simp add: behind_def dict_get_default)
  ultimately show "hops_exact (prune_nexthop nh s)"
    using assms store_nexthop_distinct behind_member(2) [OF assms, of nh] by (simp add: hops_exact_def p)
  show "nh' \<noteq> nh \<Longrightarrow> dict_get (l_nh_state (prune_nexthop nh s)) nh' = dict_get (l_nh_state s) nh'"
    by (simp add: p store_nexthop_def dict_get_pop)
qed

text \<open>What a test leaves alone.\<close>

definition same_paths :: "loc_rib \<Rightarrow> loc_rib \<Rightarrow> bool" where
  "same_paths s s' \<longleftrightarrow> l_dests s' = l_dests s \<and> l_afi s' = l_afi s \<and> (\<forall>d. paths_of s' d = paths_of s d)
    \<and> (\<forall>q. p_attrs (l_path s' q) = p_attrs (l_path s q))"

lemma same_paths_trans: "same_paths s s' \<Longrightarrow> same_paths s' s'' \<Longrightarrow> same_paths s s''"
  by (simp add: same_paths_def)

lemma same_paths_table: "same_table s s' \<Longrightarrow> same_paths s s'"
  by (simp add: same_paths_def same_table_def)

lemma same_paths_index:
  assumes "same_paths s s'"
  shows "hop_index s' = hop_index s" "hop_key (l_path s') = hop_key (l_path s)"
proof -
  show "hop_key (l_path s') = hop_key (l_path s)" using assms by (simp add: same_paths_def hop_key_def fun_eq_iff)
  have "keyed hop_key s' = keyed hop_key s"
    using assms by (intro keyed_cong) (simp_all add: same_paths_def hop_key_def)
  then show "hop_index s' = hop_index s" by (simp add: hop_index_def fun_eq_iff)
qed

lemma answer_dest_effect:
  assumes "answer_dest nh a d (n, s) = (n', s')"
  shows "same_paths s s'" "l_nh_dests s' = l_nh_dests s" "l_nh_state s' = l_nh_state s"
    "l_path s' q = (if q \<in> set (paths_of s d) \<and> hop_key (l_path s) q = nh then answered a (l_path s q) else l_path s q)"
proof -
  define qs where "qs = filter (stale_answer s nh a) (paths_of s d)"
  define s1 where "s1 = s\<lparr>l_path := fold (\<lambda>q h. h(q := (h q)\<lparr>p_resolved := fst a, p_igp_metric := snd a\<rparr>)) qs (l_path s)\<rparr>"
  have s': "s' = (if qs = [] then s else loc_enqueue d s1)"
    using assms by (simp add: answer_dest_def qs_def [symmetric] s1_def [symmetric] Let_def split: if_splits)
  have lp: "l_path s' q = (if q \<in> set qs then answered a (l_path s q) else l_path s q)" for q
    by (simp add: s') (simp add: s1_def answers_eq answered_def)
  have fresh: "answered a (l_path s q) = l_path s q" if "hop_key (l_path s) q = nh" "\<not> stale_answer s nh a q" for q
    using that by (simp add: stale_answer_def path_nexthop_key answered_def)
  show "l_path s' q = (if q \<in> set (paths_of s d) \<and> hop_key (l_path s) q = nh then answered a (l_path s q) else l_path s q)"
    using fresh [of q] by (auto simp: lp qs_def stale_answer_def path_nexthop_key)
  have e: "l_afi (loc_enqueue d s1) = l_afi s" "l_nh_state (loc_enqueue d s1) = l_nh_state s"
    by (simp_all add: loc_enqueue_def upd_dest_def s1_def)
  show "same_paths s s'" using lp by (simp add: same_paths_def s' e) (simp add: s1_def)
  show "l_nh_dests s' = l_nh_dests s" "l_nh_state s' = l_nh_state s" by (simp_all add: s' e) (simp add: s1_def)
qed

lemma answer_fold_effect:
  fixes xs :: dest_index
  assumes "fold (\<lambda>(p, d). answer_dest nh a d) xs (n, s) = (n', s')"
  shows "same_paths s s' \<and> l_nh_dests s' = l_nh_dests s \<and> l_nh_state s' = l_nh_state s
    \<and> l_path s' q = (if (\<exists>d\<in>snd ` set xs. q \<in> set (paths_of s d)) \<and> hop_key (l_path s) q = nh then answered a (l_path s q) else l_path s q)"
  using assms
proof (induction xs arbitrary: n s)
  case (Cons x xs)
  obtain p d where x: "x = (p, d)" by fastforce
  obtain k s1 where a: "answer_dest nh a d (n, s) = (k, s1)" by fastforce
  have "fold (\<lambda>(p, d). answer_dest nh a d) xs (k, s1) = (n', s')" using Cons.prems by (simp add: x a)
  note IH = Cons.IH [OF this] and E = answer_dest_effect [OF a]
  have "paths_of s1 d = paths_of s d" for d using E(1) by (simp add: same_paths_def)
  then show ?case using IH E(2,3) E(4) [of q] same_paths_trans [OF E(1)] same_paths_index(2) [OF E(1)] by (auto simp: x)
qed (auto simp: same_paths_def)

lemma revalidate_one_effect:
  assumes hops: "hops_exact s" and r: "revalidate_one check nh (n, s) = (n', s')"
  shows "hops_exact s'" "same_paths s s'" "nh' \<noteq> nh \<Longrightarrow> dict_get (l_nh_state s') nh' = dict_get (l_nh_state s) nh'"
    "l_path s' q = (if dict_get (l_nh_state s) nh \<noteq> Some (check (l_afi s) nh)
        \<and> (\<exists>p d. hop_index s nh p = Some d \<and> q \<in> set (paths_of s d)) \<and> hop_key (l_path s) q = nh
      then answered (check (l_afi s) nh) (l_path s q) else l_path s q)"
proof -
  let ?a = "check (l_afi s) nh"
  have "hops_exact s' \<and> same_paths s s' \<and> (nh' \<noteq> nh \<longrightarrow> dict_get (l_nh_state s') nh' = dict_get (l_nh_state s) nh')
    \<and> l_path s' q = (if dict_get (l_nh_state s) nh \<noteq> Some ?a
        \<and> (\<exists>p d. hop_index s nh p = Some d \<and> q \<in> set (paths_of s d)) \<and> hop_key (l_path s) q = nh
      then answered ?a (l_path s q) else l_path s q)"
  proof (cases "dict_get (l_nh_state s) nh = Some ?a")
    case True
    then have e: "s' = prune_nexthop nh s" using r by (simp add: revalidate_one_def Let_def)
    have same: "same_table s (prune_nexthop nh s)" by simp
    then have "l_path s' = l_path s" by (simp add: e same_table_def)
    then show ?thesis using prune_exact [OF hops] same_paths_table [OF same] True by (simp add: e)
  next
    case False
    define s1 where "s1 = s\<lparr>l_nh_state := dict_set nh ?a (l_nh_state s), l_nh_dests := dict_set nh (behind s nh) (l_nh_dests s)\<rparr>"
    obtain m s2 where f: "fold (\<lambda>(p, d). answer_dest nh ?a d) (behind s nh) (n, s1) = (m, s2)" by fastforce
    have b: "behind (s\<lparr>l_nh_state := z\<rparr>) nh = behind s nh" for z by (simp add: behind_def)
    have e: "s' = prune_nexthop nh s2"
      using r False f unfolding revalidate_one_def Let_def behind_def [symmetric]
      by (simp add: s1_def b behind_kept(2) [OF hops])
    have same1: "same_table s s1" by (simp add: s1_def same_table_def)
    note F = answer_fold_effect [OF f, of q]
    have index: "hop_index s1 = hop_index s" by (rule same_paths_index(1) [OF same_paths_table [OF same1]])
    have "look (l_nh_dests s1) k p = look (l_nh_dests s) k p" for k p
      by (simp add: s1_def look_set) (simp add: behind_def dict_get_default)
    then have "hops_exact s1"
      using hops behind_member(2) [OF hops, of nh] index by (simp add: hops_exact_def s1_def inner_distinct_set)
    then have hops2: "hops_exact s2" using F same_paths_index(1) [of s1 s2] by (simp add: hops_exact_def)
    have same3: "same_table s2 s'" by (simp add: e)
    have found: "(\<exists>d\<in>snd ` set (behind s nh). q \<in> set (paths_of s1 d)) \<longleftrightarrow> (\<exists>p d. hop_index s nh p = Some d \<and> q \<in> set (paths_of s d))"
    proof -
      have "paths_of s1 d = paths_of s d" for d by (simp add: s1_def)
      then show ?thesis unfolding behind_member(1) [OF hops, symmetric] by force
    qed
    have "l_path s' = l_path s2" "l_path s1 = l_path s" using same3 same1 by (simp_all add: same_table_def)
    with F have "l_path s' q = (if (\<exists>d\<in>snd ` set (behind s nh). q \<in> set (paths_of s1 d)) \<and> hop_key (l_path s) q = nh
        then answered ?a (l_path s q) else l_path s q)" by simp
    then have "l_path s' q = (if (\<exists>p d. hop_index s nh p = Some d \<and> q \<in> set (paths_of s d)) \<and> hop_key (l_path s) q = nh
        then answered ?a (l_path s q) else l_path s q)" unfolding found .
    moreover have "same_paths s s'"
      using same_paths_trans [OF same_paths_table [OF same1]] same_paths_trans [OF _ same_paths_table [OF same3]] F by blast
    moreover have "nh' \<noteq> nh \<longrightarrow> dict_get (l_nh_state s') nh' = dict_get (l_nh_state s) nh'"
      using prune_exact(2) [OF hops2, of nh' nh] F by (simp add: e s1_def dict_get_set)
    ultimately show ?thesis using prune_exact(1) [OF hops2] False by (simp add: e)
  qed
  then show "hops_exact s'" "same_paths s s'" "nh' \<noteq> nh \<Longrightarrow> dict_get (l_nh_state s') nh' = dict_get (l_nh_state s) nh'"
    "l_path s' q = (if dict_get (l_nh_state s) nh \<noteq> Some ?a
        \<and> (\<exists>p d. hop_index s nh p = Some d \<and> q \<in> set (paths_of s d)) \<and> hop_key (l_path s) q = nh
      then answered ?a (l_path s q) else l_path s q)"
    by blast+
qed


definition loc_cached :: "bytestr \<Rightarrow> loc_rib \<Rightarrow> (bool \<times> u32) option" where
  "loc_cached nh s = dict_get (l_nh_state s) nh"

lemma revalidate_one_prefix:
  assumes "revalidate_one check nh (n, s) = (n', s')"
  shows "prefix_of s' d = prefix_of s d"
proof -
  have a: "prefix_of (snd (answer_dest nh a e ns)) d = prefix_of (snd ns) d" for nh a e ns
    by (simp add: answer_dest_def Let_def split: prod.split)
  have f: "prefix_of (snd (fold (\<lambda>(p, e). answer_dest nh a e) xs ns)) d = prefix_of (snd ns) d" for nh a ns and xs :: dest_index
    by (induction xs arbitrary: ns) (auto simp: a)
  have p: "prefix_of (prune_nexthop nh s) d = prefix_of s d" for s using same_table_steps(8) [of s nh] by (simp add: same_table_def)
  show ?thesis using arg_cong [OF assms, of "\<lambda>x. prefix_of (snd x) d"] f
    by (simp add: revalidate_one_def Let_def case_prod_beta p split: if_splits)
qed

lemma revalidate_fold_effect:
  assumes "hops_exact s" and "distinct nhs" and "fold (revalidate_one check) nhs (n, s) = (n', s')"
    and q: "live s d" "q \<in> set (paths_of s d)"
  shows "hops_exact s' \<and> l_path s' q = (if hop_key (l_path s) q \<in> set nhs \<and> hop_key (l_path s) q \<noteq> []
      \<and> dict_get (l_nh_state s) (hop_key (l_path s) q) \<noteq> Some (check (l_afi s) (hop_key (l_path s) q))
      then answered (check (l_afi s) (hop_key (l_path s) q)) (l_path s q) else l_path s q)"
  using assms
proof (induction nhs arbitrary: n s)
  case (Cons nh nhs)
  obtain k s1 where r: "revalidate_one check nh (n, s) = (k, s1)" by fastforce
  note E = revalidate_one_effect [OF Cons.prems(1) r]
  let ?h = "hop_key (l_path s) q"
  have same: "l_afi s1 = l_afi s" "paths_of s1 d = paths_of s d" "l_dests s1 = l_dests s" for d
    using E(2) by (simp_all add: same_paths_def)
  have prefix: "prefix_of s1 d = prefix_of s d" using revalidate_one_prefix [OF r] .
  have hop: "hop_key (l_path s1) q = ?h" using same_paths_index(2) [OF E(2)] by simp
  have "live s1 d" using Cons.prems(4) by (simp add: live_def same prefix)
  moreover have "fold (revalidate_one check) nhs (k, s1) = (n', s')" using Cons.prems(3) by (simp add: r)
  ultimately have IH: "hops_exact s' \<and> l_path s' q = (if ?h \<in> set nhs \<and> ?h \<noteq> [] \<and> dict_get (l_nh_state s1) ?h \<noteq> Some (check (l_afi s) ?h)
      then answered (check (l_afi s) ?h) (l_path s1 q) else l_path s1 q)"
    using Cons.IH [OF E(1)] Cons.prems(2,5) by (simp add: same hop)
  have found: "(\<exists>p d. hop_index s nh p = Some d \<and> q \<in> set (paths_of s d)) \<longleftrightarrow> nh \<noteq> []" if "?h = nh"
    using Cons.prems(4,5) that by (auto simp: hop_index_Some uses_nexthop_iff live_def)
  show ?case
  proof (cases "?h = nh")
    case True
    then show ?thesis using IH E(4) [of q] found Cons.prems(2) by auto
  next
    case False
    then show ?thesis using IH E(3) [of ?h] E(4) [of q] by auto
  qed
qed simp

section \<open>Runs\<close>

lemma loc_step_hops:
  assumes ok: "loc_ok s" and hops: "hops_exact s"
  shows "hops_exact (loc_step s e)"
proof -
  from ok have inv: "loc_inv {} s" and peers: "peers_but {} s" by (simp_all add: loc_ok_def)
  show ?thesis
  proof (cases e)
    case (Announce peer p attrs i w src m t r keep)
    then show ?thesis using add_path_hops [OF inv hops] hops by (simp split: sum.split)
  next
    case (Next_hops check)
    have "hops_exact (snd (fold (revalidate_one check) nhs (n, s)))" if "hops_exact s" for nhs n s
      using that
    proof (induction nhs arbitrary: n s)
      case (Cons nh nhs)
      obtain k s1 where r: "revalidate_one check nh (n, s) = (k, s1)" by fastforce
      then show ?case using Cons.IH revalidate_one_effect(1) [OF Cons.prems r] by simp
    qed simp
    then show ?thesis using hops Next_hops by (simp add: revalidate_def)
  next
    case (Select_chunk chunk)
    then show ?thesis using reselect_hops [OF hops] hops by (simp add: loc_select_step_def Let_def)
  qed (simp_all add: remove_path_hops [OF inv hops] remove_peer_hops [OF inv peers hops] reselect_hops [OF hops]
      set_config_hops [OF hops] clear_hops)
qed

interpretation loc_hops: invariant_machine loc_step "\<lambda>s. loc_ok s \<and> hops_exact s"
  by unfold_locales (simp add: loc_ok_step loc_step_hops)

lemma loc_run_hops: "hops_exact (loc_run (new_loc_rib afi safi cfg ebgp ibgp sink t h) es)"
proof -
  have "hops_exact (new_loc_rib afi safi cfg ebgp ibgp sink t h)"
    by (simp add: hops_exact_def new_loc_rib_def look_def hop_index_def keyed_def inner_distinct_def)
  then show ?thesis using loc_hops.run_inv [of "new_loc_rib afi safi cfg ebgp ibgp sink t h" es] new_loc_rib_ok by blast
qed

text \<open>
  C8. The reverse index is exact at every moment, not only after it has been pruned: a next hop and a prefix are
  filed together just when the prefix has a path with that non-empty next hop, and under the
  destination that is in the table.
\<close>

theorem nexthop_index_exact:
  "look (l_nh_dests (loc_run (new_loc_rib afi safi cfg ebgp ibgp sink t h) es)) nh p
    = (if nh \<noteq> [] \<and> nh \<in> path_nexthop (loc_run (new_loc_rib afi safi cfg ebgp ibgp sink t h) es)
          ` set (paths_for p (loc_run (new_loc_rib afi safi cfg ebgp ibgp sink t h) es))
       then loc_get p (loc_run (new_loc_rib afi safi cfg ebgp ibgp sink t h) es) else None)"
proof -
  let ?s = "loc_run (new_loc_rib afi safi cfg ebgp ibgp sink t h) es"
  have "look (l_nh_dests ?s) nh p = hop_index ?s nh p" using loc_run_hops by (simp add: hops_exact_def)
  then show ?thesis
    by (cases "dict_get (l_dests ?s) p") (auto simp: hop_index_def keyed_def paths_for_def loc_get_def path_nexthop_key)
qed

lemma hop_test_step:
  assumes "loc_ok s" and hops: "hops_exact s" and "q \<in> set (paths_for p s)"
  shows "l_path (loc_step s (Next_hops check)) q
    = (if path_nexthop s q = [] \<or> loc_cached (path_nexthop s q) s = Some (check (l_afi s) (path_nexthop s q))
       then l_path s q else answered (check (l_afi s) (path_nexthop s q)) (l_path s q))"
proof -
  let ?nh = "path_nexthop s q"
  have inv: "loc_inv {} s" using assms(1) by (simp add: loc_ok_def)
  have "\<exists>d. dict_get (l_dests s) p = Some d \<and> q \<in> set (paths_of s d)"
    using assms(3) by (cases "dict_get (l_dests s) p") (simp_all add: paths_for_def)
  then obtain d where get: "dict_get (l_dests s) p = Some d" and q: "q \<in> set (paths_of s d)" by blast
  have "look (l_nh_dests s) ?nh p = Some d" if "?nh \<noteq> []"
    using hops get q that by (auto simp: hops_exact_def hop_index_Some uses_nexthop_iff path_nexthop_key)
  then have filed: "?nh \<in> set (map fst (l_nh_dests s))" if "?nh \<noteq> []"
    using that dict_get_None_iff [of "l_nh_dests s" ?nh] by (auto simp: look_def split: option.splits)
  obtain n s' where r: "fold (revalidate_one check) (map fst (l_nh_dests s)) (0, s) = (n, s')" by fastforce
  have "distinct (map fst (l_nh_dests s))" using hops by (simp add: hops_exact_def)
  from revalidate_fold_effect [OF hops this r liveI [OF inv get] q] filed show ?thesis
    by (auto simp: revalidate_def r path_nexthop_key loc_cached_def)
qed

text \<open>
  C7. A test of the next hops gives every path behind a next hop with a new answer that answer, and
  leaves every other path alone: new is what differs from the cached answer of the next hop,
  whatever the paths themselves hold.
\<close>

theorem next_hop_test_exact:
  assumes "q \<in> set (paths_for p (loc_run (new_loc_rib afi safi cfg ebgp ibgp sink t h) es))"
    and "nh = path_nexthop (loc_run (new_loc_rib afi safi cfg ebgp ibgp sink t h) es) q"
    and "answer = check (l_afi (loc_run (new_loc_rib afi safi cfg ebgp ibgp sink t h) es)) nh"
  shows "l_path (loc_step (loc_run (new_loc_rib afi safi cfg ebgp ibgp sink t h) es) (Next_hops check)) q
    = (if nh = [] \<or> loc_cached nh (loc_run (new_loc_rib afi safi cfg ebgp ibgp sink t h) es) = Some answer
       then l_path (loc_run (new_loc_rib afi safi cfg ebgp ibgp sink t h) es) q
       else (l_path (loc_run (new_loc_rib afi safi cfg ebgp ibgp sink t h) es) q)\<lparr>p_resolved := fst answer, p_igp_metric := snd answer\<rparr>)"
  unfolding assms(2,3) hop_test_step [OF loc_run_ok loc_run_hops assms(1)] by (simp add: answered_def)

lemma add_path_writes:
  assumes inv: "loc_inv {} s" and add: "add_path peer p attrs i w src m t r keep s = Inr s'"
    and "nh = path_nexthop s' (l_npaths s)"
  shows "nh = [] \<or> loc_cached nh s' = Some (r, m)" "q \<noteq> l_npaths s \<Longrightarrow> l_path s' q = l_path s q" "l_afi s' = l_afi s"
proof -
  have "(nh = [] \<or> loc_cached nh s' = Some (r, m)) \<and> (q \<noteq> l_npaths s \<longrightarrow> l_path s' q = l_path s q) \<and> l_afi s' = l_afi s"
    using add
  proof (rule add_path_cases)
    fix pr a d s1 b s2 x s3 old ps
    assume ds: "loc_dest p s = Inr (d, s1)" and i: "loc_intern a s1 = (b, s2)" and s3: "s3 = snd (new_path b x s2)"
      and s': "s' = loc_enqueue d (index_nexthop (a_nexthop (p_attrs x)) d r m (index_add (pr_obj pr) d
        (displace d (a_nexthop (p_attrs x)) old (set_paths d ps s3))))"
    have s1: "l_npaths s1 = l_npaths s" "l_path s1 = l_path s" "l_afi s1 = l_afi s"
      using ds by (auto simp: loc_dest_def split: option.splits if_splits)
    have s2: "l_npaths s2 = l_npaths s1" "l_path s2 = l_path s1" "l_afi s2 = l_afi s1"
      using same_table_steps(2) [of s1 a] by (simp_all add: i same_table_def)
    define s6 where "s6 = index_add (pr_obj pr) d (displace d (a_nexthop (p_attrs x)) old (set_paths d ps s3))"
    have "same_table (set_paths d ps s3) s6"
      unfolding s6_def by (rule same_table_trans [OF displace_same same_table_steps(3)])
    then have s6: "l_path s6 = l_path s3" "l_afi s6 = l_afi s3" by (simp_all add: same_table_def set_paths_def upd_dest_def)
    have e: "l_path (loc_enqueue d z) = l_path z" "l_afi (loc_enqueue d z) = l_afi z"
      "l_nh_state (loc_enqueue d z) = l_nh_state z" for z by (simp_all add: loc_enqueue_def upd_dest_def)
    have t: "l_path (index_nexthop k d r m z) = l_path z" "l_afi (index_nexthop k d r m z) = l_afi z" for k z
      by (simp_all add: index_nexthop_def)
    have path: "l_path s' = (l_path s)(l_npaths s := x)"
      unfolding s' s6_def [symmetric] unfolding e t s6 unfolding s3 new_path_fields s2 s1 ..
    have afi: "l_afi s' = l_afi s"
      unfolding s' s6_def [symmetric] unfolding e t s6 unfolding s3 by (simp add: new_path_def s2 s1)
    have nh: "nh = a_nexthop (p_attrs x)" using assms(3) by (simp add: path_nexthop_def path)
    have "nh = [] \<or> loc_cached nh s' = Some (r, m)"
      unfolding nh s' loc_cached_def e by (simp add: index_nexthop_def dict_get_set)
    with path afi show ?thesis by simp
  qed
  then show "nh = [] \<or> loc_cached nh s' = Some (r, m)" "q \<noteq> l_npaths s \<Longrightarrow> l_path s' q = l_path s q" "l_afi s' = l_afi s"
    by blast+
qed

text \<open>
  C9. An announcement hides a change of its next hop from the paths that were there before: it
  writes the answer it came with over the cached one, so a test of the next hops that finds the
  same answer leaves every older path through this next hop with the answer it had before the
  announcement, though that is another one.
\<close>

theorem announcement_hides_answer:
  assumes s: "s = loc_run (new_loc_rib afi safi cfg ebgp ibgp sink t h) es"
    and "add_path peer p attrs i w src m now r keep s = Inr s'" and "q \<noteq> l_npaths s"
    and "q \<in> set (paths_for px s')" and "path_nexthop s' q = path_nexthop s' (l_npaths s)"
    and "check (l_afi s) (path_nexthop s' q) = (r, m)"
  shows "l_path (loc_step s' (Next_hops check)) q = l_path s q"
proof -
  have ok: "loc_ok s" "hops_exact s" unfolding s by (rule loc_run_ok, rule loc_run_hops)
  then have inv: "loc_inv {} s" by (simp add: loc_ok_def)
  have "s' = loc_step s (Announce peer p attrs i w src m now r keep)" using assms(2) by simp
  then have ok': "loc_ok s'" "hops_exact s'" using loc_ok_step loc_step_hops ok by metis+
  note writes = add_path_writes [OF inv assms(2) refl]
  show ?thesis
    using hop_test_step [OF ok' assms(4), of check] writes(1) writes(2) [OF assms(3)] assms(5,6) by (simp add: writes(3))
qed

text \<open>The first path of the stale run, when nothing has gone unnoticed yet.\<close>

abbreviation early_rib :: loc_rib where
  "early_rib \<equiv> loc_run (new_loc_rib 1 1 stale_cfg 20 200 To_core new_attr_table (\<lambda>_. stale_set)) (take 1 stale_events)"

lemma early_rib_facts:
  "0 \<in> set (paths_for stale_prefix early_rib)"
  "path_nexthop early_rib 0 = [10, 0, 0, 1] \<and> loc_cached [10, 0, 0, 1] early_rib = Some (True, 0)"
  by code_simp+

lemma next_hop_test_exact_witness:
  "\<not> p_resolved (l_path (loc_step early_rib (Next_hops no_next_hop)) 0)"
  using next_hop_test_exact [OF early_rib_facts(1) refl refl, of no_next_hop] early_rib_facts(2)
  by (simp add: no_next_hop_def del: loc_step.simps)

text \<open>The second path of the stale run brings the answer that the later test finds.\<close>

lemma announcement_hides_answer_witness:
  "p_resolved (l_path (loc_step (loc_run (new_loc_rib 1 1 stale_cfg 20 200 To_core new_attr_table (\<lambda>_. stale_set)) (take 3 stale_events))
     (Next_hops no_next_hop)) 0)"
proof -
  let ?s = "loc_run (new_loc_rib 1 1 stale_cfg 20 200 To_core new_attr_table (\<lambda>_. stale_set)) (take 2 stale_events)"
  let ?s' = "loc_run (new_loc_rib 1 1 stale_cfg 20 200 To_core new_attr_table (\<lambda>_. stale_set)) (take 3 stale_events)"
  let ?add = "add_path (Some (stale_peer 2)) (Some stale_prefix) (Some 2) 0 0 PATH_SRC_PEER 0 2 False False ?s"
  have "take 3 stale_events = take 2 stale_events
      @ [Announce (Some (stale_peer 2)) (Some stale_prefix) (Some 2) 0 0 PATH_SRC_PEER 0 2 False False]"
    by (simp add: stale_events_def)
  then have "?s' = (case ?add of Inl _ \<Rightarrow> ?s | Inr z \<Rightarrow> z)" by (simp only: foldl_append foldl_Cons foldl_Nil loc_step.simps)
  moreover have "case ?add of Inl _ \<Rightarrow> False | Inr _ \<Rightarrow> True" by code_simp
  ultimately have "?add = Inr ?s'" by (cases ?add) simp_all
  moreover have "l_npaths ?s = 1" "0 \<in> set (paths_for stale_prefix ?s')" "path_nexthop ?s' 0 = path_nexthop ?s' 1"
    "p_resolved (l_path ?s 0)" by code_simp+
  ultimately show ?thesis
    using announcement_hides_answer [OF refl, of "Some (stale_peer 2)" "Some stale_prefix" "Some 2" 0 0 PATH_SRC_PEER 0 2 False False
        1 1 stale_cfg 20 200 To_core new_attr_table "\<lambda>_. stale_set" "take 2 stale_events" ?s' 0 stale_prefix no_next_hop]
    by (simp add: no_next_hop_def del: loc_step.simps)
qed

end
