(* ===== verification/Spec2Isabelle.thy ===== *)
theory Spec2Isabelle
  imports BgpErrors FsmProps ResolverProps PrefixListProps AsPathProps AsPathListProps
    AttrsPath AttrTable BestPathResults CapabilitiesProps WireRoundTrip WireWithdraw WireOpen LocRibClaims LocRibHops
begin

text \<open>
  \<^bold>\<open>The program.\<close> The repository is a packet library (\<open>core\<close>, \<open>protos\<close>, \<open>query\<close>: dissection and
  construction of packets, capture files) and, on top of it, a routing engine
  (\<open>packets/routing/rtengine\<close>) with a BGP speaker. This development models the part of the engine
  that decides: paths below are relative to \<open>src/packets/routing/rtengine\<close> unless they say otherwise.

  What happens to an UPDATE names the parts and their order. Octets from a TCP connection go through the
  framer (\<open>Framer\<close>) and the decoder (\<open>WireDecode\<close>), whose faults are weighed by the tables of
  RFC 7606 (\<open>BgpErrors\<close>); whether the session may exist at all is the state machine's (\<open>Fsm\<close>) and what
  its two ends may use is negotiated (\<open>Capabilities\<close>). The attributes are put in a canonical form and interned
  (\<open>Attrs\<close>), import policy is made of prefix-lists and AS-path access-lists (\<open>PrefixList\<close>, \<open>AsPath\<close>),
  the next hop is resolved (\<open>Resolver\<close>), and the path goes into the Loc-RIB (\<open>LocRib\<close>), which runs the
  decision process (\<open>BestPath\<close>) and offers one winner per prefix to the global RIB (\<open>GlobalRib\<close>,
  a \<open>RouteTable\<close> over a \<open>PrefixTrie\<close> for each family). The global RIB chooses among protocols and tells
  the forwarding sink. What is announced to others is encoded by \<open>WireEncode\<close>.

  \<^bold>\<open>Which theory models what.\<close>

  \<^item> \<open>Prelude\<close>: Python exceptions as values, dictionaries as association lists in insertion order, decimal
    rendering, the locales \<open>invariant_machine\<close> and \<open>monotone_machine\<close>. \<open>Compare\<close>: three-way
    comparisons, the locale of a comparison fit for choosing a winner, and what a linear scan then yields.
    \<open>SeqList\<close>: lists ordered by sequence number, the locale \<open>ordered_filter\<close> (first match decides).
  \<^item> \<open>BgpErrors\<close>: \<open>plugins/bgp/errors.py\<close>. \<open>Fsm\<close>, \<open>FsmProps\<close>: \<open>plugins/bgp/fsm.py\<close>, one definition per
    method and per state handler; timers are absolute deadlines and every entry point is given the clock.
  \<^item> \<open>PrefixTrie\<close>, \<open>AddrText\<close>: \<open>rib/prefix.pyx\<close>, \<open>rib/trie.pyx\<close>. \<open>RouteTable\<close>, \<open>RouteTableProps\<close>:
    \<open>rib/table.pyx\<close>. \<open>GlobalRib\<close>, \<open>GlobalRibProps\<close>: \<open>rib/globalrib.py\<close> and \<open>fib/sink.py\<close>. \<open>Resolver\<close>,
    \<open>ResolverProps\<close>: \<open>rib/resolver.py\<close>.
  \<^item> \<open>PrefixList\<close>, \<open>PrefixListProps\<close>: \<open>policy/prefixlist.pyx\<close>. \<open>AsPath\<close>, \<open>AsPathProps\<close>,
    \<open>AsPathListProps\<close>: \<open>policy/aspath.py\<close>.
  \<^item> \<open>Attrs\<close>, \<open>AttrsProps\<close>, \<open>AttrsPath\<close>, \<open>AttrTable\<close>: \<open>plugins/bgp/attrs.pyx\<close>, with the attribute
    sets that are interned as objects of a store. \<open>BestPath\<close>, \<open>BestPathOrder\<close>, \<open>BestPathProps\<close>,
    \<open>BestPathResults\<close>: \<open>plugins/bgp/bestpath.pyx\<close>, paths as objects of a store. \<open>LocRib\<close>:
    \<open>plugins/bgp/locrib.py\<close>, destinations and paths as objects, calls to the core recorded in order;
    \<open>LocRibProps\<close> and \<open>LocRibRun\<close> what is published, \<open>LocRibIndex\<close> the index by peer, \<open>LocRibResults\<close> runs,
    \<open>LocRibClaims\<close> the claims on attribute sets, \<open>LocRibHops\<close> next-hop tracking.
  \<^item> \<open>Capabilities\<close>, \<open>CapabilitiesProps\<close>: \<open>plugins/bgp/capabilities.py\<close>. \<open>Octets\<close>: the field readers and
    writers of \<open>src/packets/core/inetpkt.pxd\<close>. \<open>Framer\<close>, \<open>FramerProps\<close>, \<open>WireDecode\<close>, \<open>WireEncode\<close>:
    \<open>plugins/bgp/wire.pyx\<close> with the stepping primitives of \<open>src/packets/core/inetpkt.pyx\<close> that it uses.
    \<open>NlriProps\<close>, \<open>WirePath\<close>, \<open>WireUpdate\<close>, \<open>WireAttrs\<close>, \<open>WireAttrList\<close>, \<open>WireAnnounce\<close>, \<open>WireRoundTrip\<close>,
    \<open>WireWithdraw\<close> and \<open>WireOpen\<close> relate the two directions.

  \<^bold>\<open>What is shown.\<close> For every state machine an invariant that each operation keeps, hence every run of
  operations (the interpretations of \<open>invariant_machine\<close>): the session state machine, the trie, the route table,
  the global RIB, the resolver, the interning table, the Loc-RIB. For every container a refinement to the finite map or
  ordered list it stands for: the trie, the route table's candidates, the paths of a BGP prefix, prefix-lists,
  access-lists. For selection: that it terminates in bounded slices, that what is published mirrors the winners,
  which path wins and when the order of arrival is irrelevant. For the codec: which reads raise in the
  framer (\<open>reads_ok\<close>: \<open>next_message\<close> compacts its buffer while a view of it is alive), that otherwise framing
  does not depend on how the octets were cut, that what is encoded fits the negotiated size and is decoded to what was meant,
  attribute sets included, over four-octet and two-octet sessions. Where the code does something other than it says,
  a theorem states what it does.

  \<^bold>\<open>Conventions.\<close> Octets and C integers are words of their width; Python integers are integers. A
  raise is a value of \<open>py_error\<close> in a sum type. Clocks are rationals, so the rounding of floating point is
  not modelled. Object identity is a number where the code compares by \<open>is\<close>. Loops are recursive functions with a
  termination proof; nothing runs on fuel except the recursion of the resolver, whose bound is the code's own
  depth limit.

  \<^bold>\<open>Parameters.\<close> Python's \<open>re\<close> (compiling, its parse tree, searching) is the record \<open>sre\<close> of \<open>AsPath\<close>;
  \<open>inet_pton\<close> is the argument \<open>pton\<close> of \<open>AddrText\<close>; the kernel's routing table is the argument of \<open>load_kernel\<close>;
  the resolver that next-hop tracking asks is the argument \<open>check\<close> of \<open>revalidate\<close>.

  \<^bold>\<open>Not modelled.\<close> Rendering for show commands (\<open>as_dict\<close>, \<open>__repr__\<close>, \<open>stats\<close>), the texts of decoder faults and
  logging, which no decision depends on. The packet dissector (\<open>core/inetpkt.pyx\<close> beyond the BGP stepping, \<open>pcap.pyx\<close>,
  \<open>bgpcore.pyx\<close>), the protocol libraries (\<open>protos\<close>), the capture query language (\<open>query\<close>), the commands and the
  benchmarks: they do not take part in routing. Of the engine: the netlink sink and its factory (system calls),
  the asyncio transport and its socket options, the event loop, the HTTP API, configuration loading and the engine's
  wiring, which are input and output around the modelled parts; and of BGP the peer and plugin objects,
  Adj-RIB-Out with its update groups, and route-maps with the policy store, which use the modelled parts
  and are left for a later extension.
\<close>

end
